(* ===== verification/Prelude.thy ===== *)
theory Prelude
  imports Main "HOL-Library.AList" "HOL-Library.Code_Target_Nat"
begin

text \<open>
  Shared vocabulary of the development: JavaScript strings as lists of UTF-16 code units,
  the operations of \<open>String.prototype\<close>, \<open>Map\<close> and \<open>parseInt\<close> that the program uses, thrown
  exceptions as values of a sum type, and the generic lemmas about them.  Nothing in this
  theory models a file of the repository: it is the part of the JavaScript language and
  standard library that the other theories rest on.

  A string is a list of natural numbers, one per code unit (below 65536); a binary string
  or a \<open>Uint8Array\<close> is the same list with every element below 256.  Case mapping is the
  ASCII one: the program applies it to header names, media types and charset labels.
\<close>

named_theorems js_simps \<open>equations that evaluate the JavaScript string operations\<close>
named_theorems js_length \<open>length bounds of the JavaScript string operations\<close>

section \<open>Strings\<close>

type_synonym jchar = nat
type_synonym jstr = "jchar list"

abbreviation ord :: "char \<Rightarrow> jchar" where
  "ord c \<equiv> of_char c"

definition js :: "string \<Rightarrow> jstr" where
  "js s = map ord s"

lemma js_Nil [simp]: "js [] = []"
  by (simp add: js_def)

lemma js_Cons [simp]: "js (c # s) = ord c # js s"
  by (simp add: js_def)

definition binary :: "jstr \<Rightarrow> bool" where
  "binary s \<longleftrightarrow> list_all (\<lambda>c. c < 256) s"

lemma binary_simps [simp]:
  "binary []"
  "binary (c # s) \<longleftrightarrow> c < 256 \<and> binary s"
  "binary (s @ t) \<longleftrightarrow> binary s \<and> binary t"
  by (auto simp: binary_def)

subsection \<open>Character classes\<close>

definition is_digit :: "jchar \<Rightarrow> bool" where
  "is_digit c \<longleftrightarrow> 48 \<le> c \<and> c \<le> 57"

definition is_upper :: "jchar \<Rightarrow> bool" where
  "is_upper c \<longleftrightarrow> 65 \<le> c \<and> c \<le> 90"

definition is_lower :: "jchar \<Rightarrow> bool" where
  "is_lower c \<longleftrightarrow> 97 \<le> c \<and> c \<le> 122"

definition is_hex :: "jchar \<Rightarrow> bool" where
  "is_hex c \<longleftrightarrow> is_digit c \<or> 65 \<le> c \<and> c \<le> 70 \<or> 97 \<le> c \<and> c \<le> 102"

definition hex_val :: "jchar \<Rightarrow> nat" where
  "hex_val c = (if is_digit c then c - 48 else if is_upper c then c - 55 else c - 87)"

text \<open>The white space of RFC 5322, \<open>[ \t\r\n]\<close> in the code's regular expressions.\<close>

definition is_wsp :: "jchar \<Rightarrow> bool" where
  "is_wsp c \<longleftrightarrow> c = 32 \<or> c = 9 \<or> c = 13 \<or> c = 10"

text \<open>
  JavaScript's own white space (\<open>WhiteSpace\<close> and \<open>LineTerminator\<close> of the language
  specification), which \<open>trim\<close> removes and \<open>\s\<close> matches.
\<close>

definition js_ws :: "jchar \<Rightarrow> bool" where
  "js_ws c \<longleftrightarrow> 9 \<le> c \<and> c \<le> 13 \<or> c = 32 \<or> c = 160 \<or> c = 5760 \<or> 8192 \<le> c \<and> c \<le> 8202
     \<or> c = 8232 \<or> c = 8233 \<or> c = 8239 \<or> c = 8287 \<or> c = 12288 \<or> c = 65279"

lemma is_wsp_js_ws: "is_wsp c \<Longrightarrow> js_ws c"
  by (auto simp: is_wsp_def js_ws_def)

lemma js_ws_space [simp]: "js_ws 32"
  by (simp add: js_ws_def)

lemma is_wsp_space [simp]: "is_wsp 32"
  by (simp add: is_wsp_def)

subsection \<open>Case mapping\<close>

definition lower_char :: "jchar \<Rightarrow> jchar" where
  "lower_char c = (if is_upper c then c + 32 else c)"

definition upper_char :: "jchar \<Rightarrow> jchar" where
  "upper_char c = (if is_lower c then c - 32 else c)"

definition to_lower :: "jstr \<Rightarrow> jstr" where
  "to_lower s = map lower_char s"

definition to_upper :: "jstr \<Rightarrow> jstr" where
  "to_upper s = map upper_char s"

lemma lower_char_idem [simp]: "lower_char (lower_char c) = lower_char c"
  by (auto simp: lower_char_def is_upper_def)

lemma to_lower_idem [simp]: "to_lower (to_lower s) = to_lower s"
  by (simp add: to_lower_def)

lemma to_lower_simps [simp]:
  "to_lower [] = []"
  "to_lower (s @ t) = to_lower s @ to_lower t"
  "length (to_lower s) = length s"
  by (simp_all add: to_lower_def)

subsection \<open>Searching\<close>

text \<open>
  \<open>index_of c s\<close> and \<open>last_index_of c s\<close> are \<open>s.indexOf(c)\<close> and \<open>s.lastIndexOf(c)\<close> for a
  single character, with \<open>None\<close> for the result \<open>-1\<close>.
\<close>

fun index_of :: "jchar \<Rightarrow> jstr \<Rightarrow> nat option" where
  "index_of c [] = None"
| "index_of c (x # xs) = (if x = c then Some 0 else map_option Suc (index_of c xs))"

fun last_index_of :: "jchar \<Rightarrow> jstr \<Rightarrow> nat option" where
  "last_index_of c [] = None"
| "last_index_of c (x # xs) =
     (case last_index_of c xs of
        Some i \<Rightarrow> Some (Suc i)
      | None \<Rightarrow> if x = c then Some 0 else None)"

lemma index_of_None_iff: "index_of c s = None \<longleftrightarrow> c \<notin> set s"
  by (induction s) auto

lemma index_of_SomeD: "index_of c s = Some i \<Longrightarrow> i < length s \<and> s ! i = c"
  by (induction s arbitrary: i) (auto split: if_splits)

lemma index_of_SomeD_take: "index_of c s = Some i \<Longrightarrow> c \<notin> set (take i s)"
proof (induction s arbitrary: i)
  case (Cons x xs)
  then show ?case by (cases i) (auto split: if_splits)
qed simp

lemma index_of_append:
  "c \<notin> set s \<Longrightarrow> index_of c (s @ c # t) = Some (length s)"
  by (induction s) auto

lemma last_index_of_None_iff: "last_index_of c s = None \<longleftrightarrow> c \<notin> set s"
  by (induction s) (auto split: option.splits)

lemma last_index_of_SomeD: "last_index_of c s = Some i \<Longrightarrow> i < length s \<and> s ! i = c"
  by (induction s arbitrary: i) (auto split: option.splits if_splits)

lemma last_index_of_append:
  "c \<notin> set t \<Longrightarrow> last_index_of c (s @ c # t) = Some (length s)"
proof (induction s)
  case Nil
  then have "last_index_of c t = None"
    by (simp add: last_index_of_None_iff)
  then show ?case by simp
qed simp

fun starts_with :: "jstr \<Rightarrow> jstr \<Rightarrow> bool" where
  "starts_with [] s = True"
| "starts_with (p # ps) [] = False"
| "starts_with (p # ps) (x # xs) = (p = x \<and> starts_with ps xs)"

lemma starts_with_iff: "starts_with p s \<longleftrightarrow> (\<exists>t. s = p @ t)"
  by (induction p s rule: starts_with.induct) auto

lemma starts_with_append [simp]: "starts_with p (p @ t)"
  by (simp add: starts_with_iff)

definition ends_with :: "jstr \<Rightarrow> jstr \<Rightarrow> bool" where
  "ends_with p s = starts_with (rev p) (rev s)"

text \<open>\<open>index_of_str p s\<close> is \<open>s.indexOf(p)\<close> for a string \<open>p\<close>.\<close>

fun index_of_str :: "jstr \<Rightarrow> jstr \<Rightarrow> nat option" where
  "index_of_str p [] = (if p = [] then Some 0 else None)"
| "index_of_str p (x # xs) =
     (if starts_with p (x # xs) then Some 0 else map_option Suc (index_of_str p xs))"

text \<open>
  The length of the line end \<open>\r\n|[\r\n]\<close> at the start of a string, 0 when there is none.
\<close>

definition eol_len :: "jstr \<Rightarrow> nat" where
  "eol_len s =
     (if starts_with [13, 10] s then 2
      else if s \<noteq> [] \<and> (hd s = 13 \<or> hd s = 10) then 1
      else 0)"

lemma eol_len_le: "eol_len s \<le> length s"
  by (auto simp: eol_len_def starts_with_iff Suc_le_eq)

lemma eol_len_Nil [simp]: "eol_len [] = 0"
  by (simp add: eol_len_def)

lemma eol_len_other [simp]: "c \<noteq> 13 \<Longrightarrow> c \<noteq> 10 \<Longrightarrow> eol_len (c # s) = 0"
  by (simp add: eol_len_def)

subsection \<open>Slicing\<close>

text \<open>
  \<open>slice i j s\<close> is \<open>s.slice(i, j)\<close>, and \<open>s.substring(i, j)\<close> where \<open>i \<le> j\<close>, for indices that
  are not negative; \<open>substring\<close> is JavaScript's \<open>substring\<close> with its clamping and swapping.
\<close>

definition slice :: "nat \<Rightarrow> nat \<Rightarrow> 'a list \<Rightarrow> 'a list" where
  "slice i j s = take (j - i) (drop i s)"

definition substring :: "int \<Rightarrow> int \<Rightarrow> 'a list \<Rightarrow> 'a list" where
  "substring i j s =
     (let n = int (length s);
          a = nat (max 0 (min i n));
          b = nat (max 0 (min j n))
      in slice (min a b) (max a b) s)"

lemma length_slice [js_length]: "length (slice i j s) \<le> length s"
  by (simp add: slice_def)

lemma slice_0 [simp]: "slice 0 j s = take j s"
  by (simp add: slice_def)

lemma substring_nat: "i \<le> j \<Longrightarrow> substring (int i) (int j) s = slice i j s"
  by (cases "i \<le> length s"; cases "j \<le> length s") (auto simp: substring_def slice_def Let_def)

subsection \<open>Trimming\<close>

definition trim_left :: "jstr \<Rightarrow> jstr" where
  "trim_left s = dropWhile js_ws s"

definition trim_right :: "jstr \<Rightarrow> jstr" where
  "trim_right s = rev (dropWhile js_ws (rev s))"

definition trim :: "jstr \<Rightarrow> jstr" where
  "trim s = trim_right (trim_left s)"

lemma length_trim_left [js_length]: "length (trim_left s) \<le> length s"
  by (simp add: trim_left_def length_dropWhile_le)

lemma length_trim_right [js_length]: "length (trim_right s) \<le> length s"
  using length_dropWhile_le [of js_ws "rev s"] by (simp add: trim_right_def)

lemma length_trim [js_length]: "length (trim s) \<le> length s"
  using length_trim_left [of s] length_trim_right [of "trim_left s"] by (simp add: trim_def)

lemma set_trim_right: "set (trim_right s) \<subseteq> set s"
  using set_dropWhileD [of _ js_ws "rev s"] by (auto simp: trim_right_def)

lemma set_trim_left: "set (trim_left s) \<subseteq> set s"
  by (auto simp: trim_left_def dest: set_dropWhileD)

lemma trim_right_Nil [simp]: "trim_right [] = []"
  by (simp add: trim_right_def)

lemma trim_right_append_ws [simp]: "js_ws c \<Longrightarrow> trim_right (s @ [c]) = trim_right s"
  by (simp add: trim_right_def)

lemma trim_right_id: "s = [] \<or> \<not> js_ws (last s) \<Longrightarrow> trim_right s = s"
  by (cases s rule: rev_cases) (auto simp: trim_right_def)

lemma trim_right_snoc: "\<not> js_ws c \<Longrightarrow> trim_right (s @ [c]) = s @ [c]"
  by (simp add: trim_right_def)

lemma trim_left_id: "s = [] \<or> \<not> js_ws (hd s) \<Longrightarrow> trim_left s = s"
  by (cases s) (auto simp: trim_left_def)

lemma trim_id:
  assumes "s = [] \<or> \<not> js_ws (hd s) \<and> \<not> js_ws (last s)"
  shows "trim s = s"
proof -
  have "trim_left s = s" using assms by (intro trim_left_id) auto
  moreover have "trim_right s = s" using assms by (intro trim_right_id) auto
  ultimately show ?thesis by (simp add: trim_def)
qed

lemma trim_right_last: "trim_right s \<noteq> [] \<Longrightarrow> \<not> js_ws (last (trim_right s))"
  by (metis hd_dropWhile last_rev rev_rev_ident rev_is_Nil_conv trim_right_def)

text \<open>What trimming keeps: everything that is not white space, in order.\<close>

definition visible :: "jstr \<Rightarrow> jstr" where
  "visible s = filter (\<lambda>c. \<not> js_ws c) s"

lemma visible_simps [simp]:
  "visible [] = []"
  "visible (c # s) = (if js_ws c then visible s else c # visible s)"
  "visible (s @ t) = visible s @ visible t"
  by (auto simp: visible_def)

lemma visible_trim_left [simp]: "visible (trim_left s) = visible s"
  by (induction s) (auto simp: trim_left_def)

lemma visible_rev: "visible (rev s) = rev (visible s)"
  by (simp add: visible_def rev_filter)

lemma visible_trim_right [simp]: "visible (trim_right s) = visible s"
  using visible_trim_left [of "rev s"]
  by (simp add: trim_right_def trim_left_def visible_rev)

lemma visible_trim [simp]: "visible (trim s) = visible s"
  by (simp add: trim_def)

subsection \<open>Splitting, joining and collapsing\<close>

text \<open>\<open>split_on c s\<close> is \<open>s.split(c)\<close> for a one-character separator: never empty.\<close>

fun split_on :: "jchar \<Rightarrow> jstr \<Rightarrow> jstr list" where
  "split_on c [] = [[]]"
| "split_on c (x # xs) =
     (if x = c then [] # split_on c xs
      else case split_on c xs of [] \<Rightarrow> [[x]] | w # ws \<Rightarrow> (x # w) # ws)"

fun join :: "jstr \<Rightarrow> jstr list \<Rightarrow> jstr" where
  "join sep [] = []"
| "join sep [w] = w"
| "join sep (w # v # ws) = w @ sep @ join sep (v # ws)"

lemma split_on_ne [simp]: "split_on c s \<noteq> []"
  by (induction s) (auto split: list.splits)

lemma join_split_on: "join [c] (split_on c s) = s"
proof (induction s)
  case (Cons x xs)
  obtain w ws where w: "split_on c xs = w # ws"
    by (cases "split_on c xs") auto
  show ?case
  proof (cases "x = c")
    case True
    with Cons w show ?thesis by simp
  next
    case False
    with Cons w show ?thesis by (cases ws) auto
  qed
qed simp

lemma split_on_notin: "c \<notin> set s \<Longrightarrow> split_on c s = [s]"
  by (induction s) auto

lemma split_on_append: "c \<notin> set s \<Longrightarrow> split_on c (s @ c # t) = s # split_on c t"
  by (induction s) auto

text \<open>
  \<open>collapse P r s\<close> replaces every maximal run of characters of class \<open>P\<close> by the string
  \<open>r\<close>: the code's \<open>s.replace(/[P]+/g, r)\<close>.
\<close>

function collapse :: "(jchar \<Rightarrow> bool) \<Rightarrow> jstr \<Rightarrow> jstr \<Rightarrow> jstr" where
  "collapse P r [] = []"
| "collapse P r (c # s) =
     (if P c then r @ collapse P r (dropWhile P s) else c # collapse P r s)"
  by pat_completeness auto
termination
  by (relation "measure (\<lambda>(P, r, s). length s)")
     (auto simp: le_imp_less_Suc length_dropWhile_le)

lemma collapse_none: "\<forall>c\<in>set s. \<not> P c \<Longrightarrow> collapse P r s = s"
  by (induction s) auto

lemma visible_dropWhile: "(\<And>c. P c \<Longrightarrow> js_ws c) \<Longrightarrow> visible (dropWhile P s) = visible s"
  by (induction s) auto

lemma visible_collapse:
  assumes "\<And>c. P c \<Longrightarrow> js_ws c" and "visible r = []"
  shows "visible (collapse P r s) = visible s"
  using assms
  by (induction P r s rule: collapse.induct) (auto simp: visible_dropWhile)

text \<open>
  \<open>escape P s\<close> puts a backslash in front of every character of class \<open>P\<close>: the code's
  \<open>s.replace(/[P]/g, "\\$&")\<close>.
\<close>

definition escape :: "(jchar \<Rightarrow> bool) \<Rightarrow> jstr \<Rightarrow> jstr" where
  "escape P s = concat (map (\<lambda>c. if P c then [92, c] else [c]) s)"

lemma escape_simps [simp]:
  "escape P [] = []"
  "escape P (c # s) = (if P c then 92 # c # escape P s else c # escape P s)"
  "escape P (s @ t) = escape P s @ escape P t"
  by (simp_all add: escape_def)

lemma set_escape: "set s \<subseteq> set (escape P s)"
  by (induction s) auto

section \<open>Numbers\<close>

text \<open>The decimal numeral of a natural number, as \<open>toString\<close> and \<open>"" + n\<close> print it.\<close>

fun nat_str :: "nat \<Rightarrow> jstr" where
  "nat_str n = (if n < 10 then [48 + n] else nat_str (n div 10) @ [48 + n mod 10])"

declare nat_str.simps [simp del]

fun digits_val :: "nat \<Rightarrow> jstr \<Rightarrow> nat" where
  "digits_val a [] = a"
| "digits_val a (c # s) = digits_val (10 * a + (c - 48)) s"

lemma digits_val_append: "digits_val a (s @ t) = digits_val (digits_val a s) t"
  by (induction s arbitrary: a) auto

lemma nat_str_digits: "\<forall>c\<in>set (nat_str n). is_digit c"
proof (induction n rule: nat_str.induct)
  case (1 n)
  show ?case
  proof (cases "n < 10")
    case True
    then show ?thesis by (subst nat_str.simps) (simp add: is_digit_def)
  next
    case False
    have "is_digit (48 + n mod 10)" by (simp add: is_digit_def)
    with 1 False show ?thesis by (subst nat_str.simps) auto
  qed
qed

lemma nat_str_ne [simp]: "nat_str n \<noteq> []"
  by (subst nat_str.simps) simp

lemma digits_val_nat_str: "digits_val 0 (nat_str n) = n"
proof (induction n rule: nat_str.induct)
  case (1 n)
  show ?case
  proof (cases "n < 10")
    case True
    then show ?thesis by (subst nat_str.simps) simp
  next
    case False
    then have "digits_val 0 (nat_str (n div 10) @ [48 + n mod 10]) = n"
      using 1 by (simp add: digits_val_append)
    with False show ?thesis by (subst nat_str.simps) simp
  qed
qed

fun hex_digits_val :: "nat \<Rightarrow> jstr \<Rightarrow> nat" where
  "hex_digits_val a [] = a"
| "hex_digits_val a (c # s) = hex_digits_val (16 * a + hex_val c) s"

text \<open>
  \<open>parseInt(s)\<close> without a radix: leading white space and a sign are skipped, a \<open>0x\<close> prefix
  selects hexadecimal, and the longest run of digits counts; \<open>None\<close> is \<open>NaN\<close>.
\<close>

definition parse_int :: "jstr \<Rightarrow> int option" where
  "parse_int s =
     (let t = trim_left s;
          neg = (t \<noteq> [] \<and> hd t = ord CHR ''-'');
          u = (if t \<noteq> [] \<and> (hd t = ord CHR ''-'' \<or> hd t = ord CHR ''+'') then tl t else t);
          hex = (starts_with (js ''0x'') u \<or> starts_with (js ''0X'') u);
          ds = (if hex then takeWhile is_hex (drop 2 u) else takeWhile is_digit u);
          v = (if hex then hex_digits_val 0 ds else digits_val 0 ds)
      in if ds = [] then None else Some (if neg then - int v else int v))"

lemma parse_int_digits:
  assumes "s \<noteq> []" and "\<forall>c\<in>set s. is_digit c"
  shows "parse_int s = Some (int (digits_val 0 s))"
proof -
  obtain c t where s: "s = c # t" using assms(1) by (cases s) auto
  have c: "is_digit c" using assms(2) s by simp
  have tl: "trim_left s = s"
    using c s by (intro trim_left_id) (auto simp: is_digit_def js_ws_def)
  have sgn: "hd s \<noteq> 45" "hd s \<noteq> 43" using c s by (auto simp: is_digit_def)
  have x: "\<not> starts_with [48, 120] s" "\<not> starts_with [48, 88] s"
    using assms(2) s by (auto simp: starts_with_iff is_digit_def)
  have tw: "takeWhile is_digit s = s" using assms(2) by simp
  show ?thesis
    using assms(1) sgn x by (simp add: parse_int_def tl tw Let_def)
qed

lemma parse_int_nat_str [simp]: "parse_int (nat_str n) = Some (int n)"
  using parse_int_digits [of "nat_str n"] nat_str_digits [of n] by (simp add: digits_val_nat_str)

section \<open>Exceptions\<close>

text \<open>
  A call that may throw returns a sum: \<open>Inl e\<close> for a thrown exception, \<open>Inr x\<close> for a normal
  return.  \<open>bindE\<close> sequences such calls; \<open>catchE\<close> is \<open>try { a } catch { b }\<close>.
\<close>

datatype js_error =
    InvalidCharacterError             \<comment> \<open>thrown by \<open>atob\<close>\<close>
  | UnknownCharset jstr               \<comment> \<open>thrown by \<open>new MimeTextDecoder\<close>\<close>
  | DecodingError                     \<comment> \<open>thrown by a fatal decoder\<close>
  | UnknownHeader jstr
  | CannotOverride jstr
  | CannotEncode jstr
  | InvalidDate
  | YearOutOfRange
  | BadHandler
  | BadType
  | TypeError                         \<comment> \<open>a property of \<open>undefined\<close> or \<open>null\<close> is read\<close>
  | NotFound                          \<comment> \<open>\<open>throw new Error("Couldn't find ...")\<close>\<close>
  | NotAvailable                      \<comment> \<open>\<open>NS_ERROR_NOT_AVAILABLE\<close>\<close>
  | NotImplemented                    \<comment> \<open>\<open>NS_ERROR_NOT_IMPLEMENTED\<close>\<close>
  | NoInterface                       \<comment> \<open>\<open>QueryInterface\<close> for an interface the object does not have\<close>
  | Failure                           \<comment> \<open>\<open>NS_ERROR_FAILURE\<close>\<close>
  | Unexpected                        \<comment> \<open>\<open>NS_ERROR_UNEXPECTED\<close>\<close>
  | IllegalValue                      \<comment> \<open>\<open>NS_ERROR_ILLEGAL_VALUE\<close>\<close>
  | NoIdentifier                      \<comment> \<open>\<open>throw new Error("Card must have a UID ...")\<close>\<close>
  | URIError                          \<comment> \<open>thrown by \<open>encodeURIComponent\<close> and \<open>decodeURIComponent\<close>\<close>
  | UnsupportedConversion             \<comment> \<open>\<open>throw new Error("Unsupported conversion: ...")\<close>\<close>
  | UserError nat                     \<comment> \<open>thrown by a callback\<close>

definition bindE :: "js_error + 'a \<Rightarrow> ('a \<Rightarrow> js_error + 'b) \<Rightarrow> js_error + 'b" where
  "bindE m f = (case m of Inl e \<Rightarrow> Inl e | Inr x \<Rightarrow> f x)"

definition catchE :: "js_error + 'a \<Rightarrow> (js_error \<Rightarrow> js_error + 'a) \<Rightarrow> js_error + 'a" where
  "catchE m h = (case m of Inl e \<Rightarrow> h e | Inr x \<Rightarrow> Inr x)"

lemma bindE_simps [simp]:
  "bindE (Inl e) f = Inl e"
  "bindE (Inr x) f = f x"
  by (simp_all add: bindE_def)

lemma catchE_simps [simp]:
  "catchE (Inl e) h = h e"
  "catchE (Inr x) h = Inr x"
  by (simp_all add: catchE_def)

lemma bindE_Inr_iff: "bindE m f = Inr y \<longleftrightarrow> (\<exists>x. m = Inr x \<and> f x = Inr y)"
  by (cases m) auto

lemma bindE_assoc [simp]: "bindE (bindE m f) g = bindE m (\<lambda>x. bindE (f x) g)"
  by (cases m) auto

lemma bindE_cong [fundef_cong]:
  "m = m' \<Longrightarrow> (\<And>x. m' = Inr x \<Longrightarrow> f x = f' x) \<Longrightarrow> bindE m f = bindE m' f'"
  by (cases m') auto

fun mapE :: "('a \<Rightarrow> js_error + 'b) \<Rightarrow> 'a list \<Rightarrow> js_error + 'b list" where
  "mapE f [] = Inr []"
| "mapE f (x # xs) = bindE (f x) (\<lambda>y. bindE (mapE f xs) (\<lambda>ys. Inr (y # ys)))"

section \<open>Maps with insertion order\<close>

text \<open>
  A JavaScript \<open>Map\<close> is an association list in insertion order.  Setting a key that is
  there keeps its position, a new key goes to the end: this is \<open>AList.update\<close>.
\<close>

type_synonym 'v jsmap = "(jstr \<times> 'v) list"

locale ordered_map =
  fixes get :: "'m \<Rightarrow> 'k \<Rightarrow> 'v option"
    and put :: "'k \<Rightarrow> 'v \<Rightarrow> 'm \<Rightarrow> 'm"
    and keys :: "'m \<Rightarrow> 'k list"
  assumes get_put: "get (put k v m) k' = (if k' = k then Some v else get m k')"
    and keys_put: "keys (put k v m) = (if k \<in> set (keys m) then keys m else keys m @ [k])"
    and get_keys: "get m k \<noteq> None \<longleftrightarrow> k \<in> set (keys m)"
begin

lemma put_all_keys: "set (keys (fold (\<lambda>(k, v) m. put k v m) kvs m)) = set (keys m) \<union> fst ` set kvs"
  by (induction kvs arbitrary: m) (auto simp: keys_put split: if_splits)

lemma put_all_distinct: "distinct (keys m) \<Longrightarrow> distinct (keys (fold (\<lambda>(k, v) m. put k v m) kvs m))"
  by (induction kvs arbitrary: m) (auto simp: keys_put)

lemma put_all_get:
  "get (fold (\<lambda>(k, v) m. put k v m) kvs m) k =
     (case map_of (rev kvs) k of Some v \<Rightarrow> Some v | None \<Rightarrow> get m k)"
  by (induction kvs arbitrary: m) (auto simp: get_put map_add_def split: option.splits)

end

lemma keys_alist_update:
  "map fst (AList.update k v m) = (if k \<in> set (map fst m) then map fst m else map fst m @ [k])"
  by (induction m) auto

interpretation jsmap: ordered_map "map_of" "AList.update" "map fst"
proof unfold_locales
  fix k :: 'a and v :: 'b and m k'
  show "map_of (AList.update k v m) k' = (if k' = k then Some v else map_of m k')"
    by (simp add: update_conv')
  show "map fst (AList.update k v m) = (if k \<in> set (map fst m) then map fst m else map fst m @ [k])"
    by (rule keys_alist_update)
  show "(map_of m k \<noteq> None) = (k \<in> set (map fst m))"
    by (simp add: map_of_eq_None_iff)
qed

end
