(* ===== verification/MimeUtils.thy ===== *)
theory MimeUtils
  imports Prelude
begin

text \<open>
  The module \<open>mimeutils\<close> of \<open>mailnews/mime/jsmime/jsmime.js\<close>: the quoted-printable and
  base64 decoders, the conversions between binary strings and typed arrays, and the month
  names.  \<open>atob\<close> and \<open>btoa\<close> are the functions of the HTML standard that the code calls
  (the forgiving base64 decoder and the encoder); they are written out here because the
  module's behaviour on malformed input is theirs.
\<close>

section \<open>Quoted-printable\<close>

text \<open>
  The text after an equals sign: two hexadecimal digits give one byte, white space up to a
  line end or the end of the input is a soft line break and gives nothing, anything else
  does not match the regular expression of \<open>decode_qp\<close>.
\<close>

definition qp_escape :: "jstr \<Rightarrow> (jstr \<times> jstr) option" where
  "qp_escape s =
     (case s of
        a # b # r \<Rightarrow> if is_hex a \<and> is_hex b then Some ([16 * hex_val a + hex_val b], r)
                     else None
      | _ \<Rightarrow> None)"

definition soft_break :: "jstr \<Rightarrow> jstr option" where
  "soft_break s =
     (let r = dropWhile (\<lambda>c. c = 32 \<or> c = 9) s
      in if r = [] then Some []
         else if eol_len r > 0 then Some (drop (eol_len r) r)
         else None)"

lemma qp_escape_length: "qp_escape s = Some (o', r) \<Longrightarrow> length r \<le> length s"
  by (auto simp: qp_escape_def split: list.splits if_splits)

lemma soft_break_suffix: "soft_break s = Some r \<Longrightarrow> \<exists>n. r = drop n s"
proof -
  assume "soft_break s = Some r"
  then obtain m where "r = drop m (dropWhile (\<lambda>c. c = 32 \<or> c = 9) s)"
    by (auto simp: soft_break_def Let_def split: if_splits intro: drop_0 [symmetric])
  then show ?thesis
    by (auto simp: dropWhile_eq_drop)
qed

lemma soft_break_length: "soft_break s = Some r \<Longrightarrow> length r \<le> length s"
  using soft_break_suffix by fastforce

function qp_text :: "jstr \<Rightarrow> jstr" where
  "qp_text [] = []"
| "qp_text (c # s) =
     (if c = ord CHR ''='' then
        case qp_escape s of
          Some (b, r) \<Rightarrow> b @ qp_text r
        | None \<Rightarrow> (case soft_break s of
                     Some r \<Rightarrow> qp_text r
                   | None \<Rightarrow> c # qp_text s)
      else c # qp_text s)"
  by pat_completeness auto
termination
  by (relation "measure length")
     (auto dest: qp_escape_length soft_break_length simp: less_Suc_eq_le)

definition decode_qp :: "jstr \<Rightarrow> bool \<Rightarrow> jstr \<times> jstr" where
  "decode_qp buffer more = (qp_text buffer, [])"

lemma qp_text_no_eq: "61 \<notin> set s \<Longrightarrow> qp_text s = s"
  by (induction s rule: qp_text.induct) auto

lemma qp_text_append_no_eq: "61 \<notin> set s \<Longrightarrow> qp_text (s @ t) = s @ qp_text t"
  by (induction s) auto

lemma hex_val_bound: "is_hex c \<Longrightarrow> hex_val c < 16"
  by (auto simp: is_hex_def hex_val_def is_digit_def is_upper_def)

lemma qp_text_binary: "binary s \<Longrightarrow> binary (qp_text s)"
proof (induction s rule: qp_text.induct)
  case (2 c s)
  have esc: "binary b \<and> binary r" if "qp_escape s = Some (b, r)" for b r
    using that "2.prems" hex_val_bound [of "hd s"] hex_val_bound [of "hd (tl s)"]
    by (auto simp: qp_escape_def split: list.splits if_splits)
  have brk: "binary r" if "soft_break s = Some r" for r
    using soft_break_suffix [OF that] "2.prems"
    by (auto simp: binary_def list_all_iff dest: in_set_dropD)
  show ?case
    using 2 esc brk by (auto split: option.splits prod.splits)
qed simp

lemma length_qp_text: "length (qp_text s) \<le> length s"
proof (induction s rule: qp_text.induct)
  case (2 c s)
  have "length b \<le> 1 \<and> length r + 2 \<le> length s" if "qp_escape s = Some (b, r)" for b r
    using that by (auto simp: qp_escape_def split: list.splits if_splits)
  with 2 show ?case
    by (fastforce dest: soft_break_length split: option.splits prod.splits)
qed simp

section \<open>Base64\<close>

definition b64_alphabet :: jstr where
  "b64_alphabet = js ''ABCDEFGHIJKLMNOPQRSTUVWXYZabcdefghijklmnopqrstuvwxyz0123456789+/''"

definition is_b64 :: "jchar \<Rightarrow> bool" where
  "is_b64 c \<longleftrightarrow> is_upper c \<or> is_lower c \<or> is_digit c \<or> c = 43 \<or> c = 47"

definition b64_val :: "jchar \<Rightarrow> nat" where
  "b64_val c =
     (if is_upper c then c - 65
      else if is_lower c then c - 71
      else if is_digit c then c + 4
      else if c = 43 then 62
      else 63)"

definition b64_char :: "nat \<Rightarrow> jchar" where
  "b64_char n =
     (if n < 26 then n + 65
      else if n < 52 then n + 71
      else if n < 62 then n - 4
      else if n = 62 then 43
      else 47)"

lemma b64_char_alphabet: "n < 64 \<Longrightarrow> b64_char n = b64_alphabet ! n"
proof -
  have "\<forall>n\<in>set [0..<64]. b64_char n = b64_alphabet ! n"
    by (simp add: b64_char_def b64_alphabet_def upt_rec)
  then show "n < 64 \<Longrightarrow> ?thesis" by simp
qed

lemma is_b64_char [simp]: "n < 64 \<Longrightarrow> is_b64 (b64_char n)"
  by (auto simp: is_b64_def b64_char_def is_upper_def is_lower_def is_digit_def)

lemma b64_val_char [simp]: "n < 64 \<Longrightarrow> b64_val (b64_char n) = n"
  by (auto simp: b64_val_def b64_char_def is_upper_def is_lower_def is_digit_def)

lemma b64_val_bound: "is_b64 c \<Longrightarrow> b64_val c < 64"
  by (auto simp: is_b64_def b64_val_def is_upper_def is_lower_def is_digit_def)

lemma is_b64_not_eq [simp]: "\<not> is_b64 61"
  by (simp add: is_b64_def is_upper_def is_lower_def is_digit_def)

lemma b64_char_not_eq [simp]: "n < 64 \<Longrightarrow> b64_char n \<noteq> 61"
  using is_b64_char is_b64_not_eq by metis

text \<open>
  \<open>btoa\<close>, and the core of \<open>atob\<close>: four characters give three bytes, and a group of two
  or three characters at the end gives one or two bytes, the left-over bits dropped.
\<close>

fun btoa :: "jstr \<Rightarrow> jstr" where
  "btoa [] = []"
| "btoa [a] = [b64_char (a div 4), b64_char (a mod 4 * 16), 61, 61]"
| "btoa [a, b] =
     [b64_char (a div 4), b64_char (a mod 4 * 16 + b div 16), b64_char (b mod 16 * 4), 61]"
| "btoa (a # b # c # s) =
     b64_char (a div 4) # b64_char (a mod 4 * 16 + b div 16)
       # b64_char (b mod 16 * 4 + c div 64) # b64_char (c mod 64) # btoa s"

fun b64_bytes :: "jstr \<Rightarrow> jstr" where
  "b64_bytes (a # b # c # d # s) =
     (4 * b64_val a + b64_val b div 16)
       # (b64_val b mod 16 * 16 + b64_val c div 4)
       # (b64_val c mod 4 * 64 + b64_val d) # b64_bytes s"
| "b64_bytes [a, b, c] =
     [4 * b64_val a + b64_val b div 16, b64_val b mod 16 * 16 + b64_val c div 4]"
| "b64_bytes [a, b] = [4 * b64_val a + b64_val b div 16]"
| "b64_bytes _ = []"

definition drop_eq_pad :: "jstr \<Rightarrow> jstr" where
  "drop_eq_pad s =
     (if length s mod 4 \<noteq> 0 then s
      else if length s \<ge> 2 \<and> last s = 61 \<and> last (butlast s) = 61 then butlast (butlast s)
      else if s \<noteq> [] \<and> last s = 61 then butlast s
      else s)"

definition html_ws :: "jchar \<Rightarrow> bool" where
  "html_ws c \<longleftrightarrow> c = 9 \<or> c = 10 \<or> c = 12 \<or> c = 13 \<or> c = 32"

definition atob :: "jstr \<Rightarrow> js_error + jstr" where
  "atob data =
     (let s = drop_eq_pad (filter (\<lambda>c. \<not> html_ws c) data)
      in if length s mod 4 = 1 \<or> \<not> list_all is_b64 s then Inl InvalidCharacterError
         else Inr (b64_bytes s))"

text \<open>
  The three clean-up steps of \<open>decode_base64\<close>: the equals signs in front of another base64
  character go, and so do whole groups of four equals signs at the end.
\<close>

function strip_middle_eq :: "jstr \<Rightarrow> jstr" where
  "strip_middle_eq [] = []"
| "strip_middle_eq (c # s) =
     (let r = dropWhile (\<lambda>x. x = 61) s in
      if c = 61 \<and> r \<noteq> [] \<and> is_b64 (hd r) then strip_middle_eq r
      else c # strip_middle_eq s)"
  by pat_completeness auto
termination
  by (relation "measure length") (auto simp: less_Suc_eq_le length_dropWhile_le)

definition strip_pad_groups :: "jstr \<Rightarrow> jstr" where
  "strip_pad_groups s =
     take (length s - 4 * (length (takeWhile (\<lambda>c. c = 61) (rev s)) div 4)) s"

definition decode_base64 :: "jstr \<Rightarrow> bool \<Rightarrow> js_error + (jstr \<times> jstr)" where
  "decode_base64 buffer more =
     (let sanitize = strip_middle_eq (filter (\<lambda>c. is_b64 c \<or> c = 61) buffer);
          excess = length sanitize mod 4;
          rest = (if excess \<noteq> 0 \<and> more then drop (length sanitize - excess) sanitize else []);
          sanitize' = take (length sanitize - excess) sanitize
      in bindE (atob (strip_pad_groups sanitize')) (\<lambda>out. Inr (out, rest)))"

subsection \<open>Facts about the clean-up\<close>

lemma strip_middle_eq_id: "61 \<notin> set s \<Longrightarrow> strip_middle_eq s = s"
  by (induction s rule: strip_middle_eq.induct) (auto simp: Let_def)

lemma strip_middle_eq_append:
  "61 \<notin> set s \<Longrightarrow> strip_middle_eq (s @ t) = s @ strip_middle_eq t"
  by (induction s) (auto simp: Let_def)

lemma strip_pad_groups_id:
  assumes "length (takeWhile (\<lambda>c. c = 61) (rev s)) < 4"
  shows "strip_pad_groups s = s"
  using assms by (simp add: strip_pad_groups_def)

lemma takeWhile_none: "x \<notin> set s \<Longrightarrow> takeWhile (\<lambda>c. c = x) s = []"
  by (cases s) auto

lemma strip_pad_groups_no_eq: "61 \<notin> set s \<Longrightarrow> strip_pad_groups s = s"
  by (rule strip_pad_groups_id) (simp add: takeWhile_none)

lemma list_all_b64_no_eq: "list_all is_b64 s \<Longrightarrow> 61 \<notin> set s"
  by (auto simp: list_all_iff)

lemma drop_eq_pad_no_eq: "61 \<notin> set s \<Longrightarrow> drop_eq_pad s = s"
  by (auto simp: drop_eq_pad_def dest: last_in_set)

lemma is_b64_keep: "is_b64 c \<Longrightarrow> \<not> html_ws c"
  by (auto simp: html_ws_def is_b64_def is_upper_def is_lower_def is_digit_def)

lemma filter_keep:
  "list_all (\<lambda>c. is_b64 c \<or> c = 61) s \<Longrightarrow>
     filter (\<lambda>c. \<not> html_ws c) s = s"
  using is_b64_keep by (auto simp: list_all_iff filter_id_conv html_ws_def [of 61])

lemma atob_b64:
  assumes "list_all is_b64 s" and "length s mod 4 = 0"
  shows "atob s = Inr (b64_bytes s)"
proof -
  have "filter (\<lambda>c. \<not> html_ws c) s = s"
    using assms(1) by (intro filter_keep) (auto simp: list_all_iff)
  moreover have "drop_eq_pad s = s"
    using assms(1) by (intro drop_eq_pad_no_eq list_all_b64_no_eq)
  ultimately show ?thesis
    using assms by (simp add: atob_def Let_def)
qed

text \<open>On input without equals signs, decoding is the plain base64 of the whole groups.\<close>

lemma decode_base64_plain:
  assumes "61 \<notin> set s"
  shows "decode_base64 s more =
    (let t = filter is_b64 s; n = length t - length t mod 4
     in Inr (b64_bytes (take n t), if more then drop n t else []))"
proof -
  define t where "t = filter is_b64 s"
  have f: "filter (\<lambda>c. is_b64 c \<or> c = 61) s = t"
    unfolding t_def using assms by (intro filter_cong) auto
  have ne: "61 \<notin> set t" and b: "list_all is_b64 t"
    by (auto simp: t_def list_all_iff)
  have m: "strip_middle_eq t = t" using ne by (rule strip_middle_eq_id)
  define n where "n = length t - length t mod 4"
  have p: "strip_pad_groups (take n t) = take n t"
    using ne by (intro strip_pad_groups_no_eq) (auto dest: in_set_takeD)
  have "list_all is_b64 (take n t)"
    using b by (auto simp: list_all_iff dest: in_set_takeD)
  moreover have "length (take n t) = n" and "n mod 4 = 0"
    by (simp_all add: n_def minus_mod_eq_mult_div)
  then have "length (take n t) mod 4 = 0" by simp
  ultimately have a: "atob (take n t) = Inr (b64_bytes (take n t))"
    by (rule atob_b64)
  have d: "(if length t mod 4 \<noteq> 0 \<and> more then drop n t else []) = (if more then drop n t else [])"
    by (auto simp: n_def)
  show ?thesis
    unfolding decode_base64_def f Let_def m n_def [symmetric] t_def [symmetric] d p a
    by simp
qed

lemma b64_bytes_append: "length s mod 4 = 0 \<Longrightarrow> b64_bytes (s @ t) = b64_bytes s @ b64_bytes t"
proof (induction s rule: b64_bytes.induct)
  case (1 a b c d s)
  then show ?case by (simp add: mod_Suc split: if_splits)
qed (auto simp: mod_Suc)

lemma b64_byte_bounds:
  assumes "a < (64::nat)" and "b < 64"
  shows "4 * a + b div 16 < 256" and "a mod 16 * 16 + b div 4 < 256" and "a mod 4 * 64 + b < 256"
proof -
  have "b div 16 < 4" "b div 4 < 16" "a mod 16 < 16" "a mod 4 < 4"
    using assms by (auto simp: less_mult_imp_div_less)
  with assms show "4 * a + b div 16 < 256" and "a mod 16 * 16 + b div 4 < 256"
    and "a mod 4 * 64 + b < 256" by linarith+
qed

lemma b64_bytes_binary: "list_all is_b64 s \<Longrightarrow> binary (b64_bytes s)"
  by (induction s rule: b64_bytes.induct) (auto simp: b64_byte_bounds b64_val_bound)

lemma length_b64_bytes: "length (b64_bytes s) \<le> length s"
  by (induction s rule: b64_bytes.induct) auto

subsection \<open>Encoding and decoding again\<close>

lemma btoa_b64: "binary s \<Longrightarrow> list_all (\<lambda>c. is_b64 c \<or> c = 61) (btoa s)"
  by (induction s rule: btoa.induct) (auto simp: less_mult_imp_div_less)

lemma length_btoa: "length (btoa s) mod 4 = 0"
  by (induction s rule: btoa.induct) (auto simp: mod_Suc)

text \<open>The encoding is base64 characters and at most two equals signs after them.\<close>

lemma btoa_shape:
  assumes "binary s"
  shows "\<exists>t p. btoa s = t @ p \<and> list_all is_b64 t \<and> b64_bytes t = s
     \<and> p \<in> {[], [61], [61, 61]} \<and> (p = [] \<or> t \<noteq> [])"
  using assms
proof (induction s rule: btoa.induct)
  case 1
  show ?case by simp
next
  case (2 a)
  then show ?case
    by (intro exI [of _ "[b64_char (a div 4), b64_char (a mod 4 * 16)]"] exI [of _ "[61, 61]"])
       (auto simp: less_mult_imp_div_less)
next
  case (3 a b)
  have "b div 16 < 16" using 3 by (auto simp: less_mult_imp_div_less)
  then have "a mod 4 * 16 + b div 16 < 64" using mod_less_divisor [of 4 a] by linarith
  with 3 show ?case
    by (intro exI [of _ "[b64_char (a div 4), b64_char (a mod 4 * 16 + b div 16), b64_char (b mod 16 * 4)]"]
        exI [of _ "[61]"])
       (auto simp: less_mult_imp_div_less)
next
  case (4 a b c s)
  have ac: "a < 256" "b < 256" "c < 256" using 4 by auto
  have "b div 16 < 16" "c div 64 < 4" using ac by (auto simp: less_mult_imp_div_less)
  then have q: "a mod 4 * 16 + b div 16 < 64" "b mod 16 * 4 + c div 64 < 64" "a div 4 < 64"
    using mod_less_divisor [of 4 a] mod_less_divisor [of 16 b] ac
    by (linarith, linarith, simp add: less_mult_imp_div_less)
  obtain t p where t: "btoa s = t @ p" "list_all is_b64 t" "b64_bytes t = s"
    "p \<in> {[], [61], [61, 61]}" "p = [] \<or> t \<noteq> []"
    using 4 by auto
  let ?g = "[b64_char (a div 4), b64_char (a mod 4 * 16 + b div 16),
     b64_char (b mod 16 * 4 + c div 64), b64_char (c mod 64)]"
  have g: "b64_bytes (?g @ t) = a # b # c # s"
    using q t(3) \<open>b div 16 < 16\<close> \<open>c div 64 < 4\<close> by simp
  show ?case
    using t q g by (intro exI [of _ "?g @ t"] exI [of _ p]) auto
qed

lemma atob_btoa:
  assumes "binary s"
  shows "atob (btoa s) = Inr s"
proof -
  obtain t p where t: "btoa s = t @ p" "list_all is_b64 t" "b64_bytes t = s"
    "p \<in> {[], [61], [61, 61]}" "p = [] \<or> t \<noteq> []"
    using btoa_shape [OF assms] by blast
  have len: "(length t + length p) mod 4 = 0"
    using length_btoa [of s] t(1) by simp
  have f: "filter (\<lambda>c. \<not> html_ws c) (t @ p) = t @ p"
    using btoa_b64 [OF assms] t(1) by (intro filter_keep) simp
  have ne: "61 \<notin> set t" using t(2) by (rule list_all_b64_no_eq)
  have "drop_eq_pad (t @ p) = t"
    using t(4,5) ne len
    by (auto simp: drop_eq_pad_def butlast_append last_append dest: last_in_set)
  moreover have "length t mod 4 \<noteq> 1"
  proof -
    have "length p \<le> 2" using t(4) by auto
    with len show ?thesis by presburger
  qed
  ultimately show ?thesis
    using t f by (simp add: atob_def Let_def del: filter_append)
qed

lemma strip_middle_eq_all: "list_all (\<lambda>c. c = 61) p \<Longrightarrow> strip_middle_eq p = p"
proof (induction p)
  case (Cons c p)
  then have "dropWhile (\<lambda>x. x = 61) p = []" by (simp add: list_all_iff)
  with Cons show ?case by simp
qed simp

lemma decode_base64_btoa:
  assumes "binary s"
  shows "decode_base64 (btoa s) more = Inr (s, [])"
proof -
  obtain t p where t: "btoa s = t @ p" "list_all is_b64 t" "p \<in> {[], [61], [61, 61]}"
    using btoa_shape [OF assms] by blast
  have ne: "61 \<notin> set t" using t(2) by (rule list_all_b64_no_eq)
  have f: "filter (\<lambda>c. is_b64 c \<or> c = 61) (btoa s) = btoa s"
    using btoa_b64 [OF assms] by (simp add: filter_id_conv list_all_iff)
  have m: "strip_middle_eq (btoa s) = btoa s"
    using t ne by (auto simp: strip_middle_eq_append strip_middle_eq_all)
  have "takeWhile (\<lambda>c. c = 61) (rev t) = []"
    using ne by (intro takeWhile_none) simp
  then have p: "strip_pad_groups (btoa s) = btoa s"
    using t by (intro strip_pad_groups_id) (auto simp: t(1))
  show ?thesis
    using atob_btoa [OF assms] length_btoa [of s]
    by (simp add: decode_base64_def f m p Let_def)
qed

section \<open>Decoding in chunks\<close>

text \<open>
  The parser hands a decoder one packet after another, with the text the decoder gave back
  put in front of the next packet, and flushes what is left at the end of the part.
  \<open>chunk_decoder\<close> is the contract that makes this equal to decoding the whole body:
  \<open>ok\<close> says which packets the decoder may be given before the last.
\<close>

fun feed :: "(jstr \<Rightarrow> bool \<Rightarrow> js_error + (jstr \<times> jstr)) \<Rightarrow> jstr \<Rightarrow> jstr list \<Rightarrow> js_error + jstr" where
  "feed dec saved [] = bindE (dec saved False) (\<lambda>(out, _). Inr out)"
| "feed dec saved (c # cs) =
     bindE (dec (saved @ c) True) (\<lambda>(out, r).
       bindE (feed dec r cs) (\<lambda>out'. Inr (out @ out')))"

locale chunk_decoder =
  fixes dec :: "jstr \<Rightarrow> bool \<Rightarrow> js_error + (jstr \<times> jstr)"
    and ok :: "jstr \<Rightarrow> bool"
  assumes split_ok: "ok a \<Longrightarrow> \<exists>out r. dec a True = Inr (out, r) \<and> ok r
      \<and> (\<forall>b more. dec (a @ b) more = bindE (dec (r @ b) more) (\<lambda>(out', r'). Inr (out @ out', r')))"
    and ok_append: "ok a \<Longrightarrow> ok b \<Longrightarrow> ok (a @ b)"
    and flush: "dec x False = bindE (dec x True) (\<lambda>(out, r).
      bindE (dec r False) (\<lambda>(out', _). Inr (out @ out', [])))"
begin

lemma feed_last: "feed dec saved [b] = bindE (dec (saved @ b) False) (\<lambda>(out, _). Inr out)"
  by (subst flush) (auto simp: bindE_def split: sum.splits)

theorem feed_whole:
  assumes "ok saved" and "\<forall>c\<in>set cs. ok c"
  shows "feed dec saved (cs @ [b]) = bindE (dec (saved @ concat cs @ b) False) (\<lambda>(out, _). Inr out)"
  using assms
proof (induction cs arbitrary: saved)
  case Nil
  then show ?case using feed_last by simp
next
  case (Cons c cs)
  then have "ok (saved @ c)" by (simp add: ok_append)
  then obtain out r where o: "dec (saved @ c) True = Inr (out, r)" "ok r"
    "\<And>b more. dec ((saved @ c) @ b) more
       = bindE (dec (r @ b) more) (\<lambda>(out', r'). Inr (out @ out', r'))"
    using split_ok by blast
  have "feed dec saved ((c # cs) @ [b]) =
      bindE (dec (r @ concat cs @ b) False) (\<lambda>(out', _). Inr (out @ out'))"
    using Cons o(1,2) by (auto simp: bindE_def split: sum.splits)
  also have "\<dots> = bindE (dec ((saved @ c) @ concat cs @ b) False) (\<lambda>(out', _). Inr out')"
    unfolding o(3) by (auto simp: bindE_def split: sum.splits)
  finally show ?case by simp
qed

end

text \<open>Quoted-printable keeps the contract for packets that end with a line feed.\<close>

definition ends_lf :: "jstr \<Rightarrow> bool" where
  "ends_lf s \<longleftrightarrow> s = [] \<or> last s = 10"

lemma qp_escape_lf:
  assumes "s \<noteq> []" and "last s = 10"
  shows "qp_escape (s @ t) = map_option (\<lambda>(b, r). (b, r @ t)) (qp_escape s)"
proof (cases "tl s")
  case Nil
  with assms have "s = [10]" by (cases s) auto
  then show ?thesis
    by (auto simp: qp_escape_def is_hex_def is_digit_def split: list.splits)
next
  case (Cons b r)
  then obtain a where "s = a # b # r" by (cases s) auto
  then show ?thesis by (simp add: qp_escape_def)
qed

lemma eol_len_lf: "r \<noteq> [] \<Longrightarrow> last r = 10 \<Longrightarrow> eol_len (r @ t) = eol_len r"
  by (cases r; cases "tl r") (auto simp: eol_len_def)

lemma soft_break_lf:
  assumes "s \<noteq> []" and "last s = 10"
  shows "soft_break (s @ t) = map_option (\<lambda>r. r @ t) (soft_break s)"
proof -
  let ?P = "\<lambda>c::nat. c = 32 \<or> c = 9"
  have w: "10 \<in> set s" using assms last_in_set by metis
  then have d: "dropWhile ?P (s @ t) = dropWhile ?P s @ t"
    by (rule dropWhile_append1) simp
  have ne: "dropWhile ?P s \<noteq> []" using w by (force simp: dropWhile_eq_Nil_conv)
  moreover have "last (dropWhile ?P s) = 10"
    using ne assms(2) by (metis last_appendR takeWhile_dropWhile_id)
  ultimately have e: "eol_len (dropWhile ?P s @ t) = eol_len (dropWhile ?P s)"
    by (rule eol_len_lf)
  have l: "drop (eol_len (dropWhile ?P s)) (dropWhile ?P s @ t)
      = drop (eol_len (dropWhile ?P s)) (dropWhile ?P s) @ t"
    using eol_len_le by simp
  show ?thesis
    unfolding soft_break_def Let_def d e l using ne by (simp del: dropWhile_eq_Nil_conv)
qed

lemma qp_text_lf: "ends_lf s \<Longrightarrow> qp_text (s @ t) = qp_text s @ qp_text t"
proof (induction s rule: qp_text.induct)
  case (2 c s)
  show ?case
  proof (cases "s = []")
    case True
    with 2 show ?thesis by (simp add: ends_lf_def)
  next
    case False
    with "2.prems" have s: "s \<noteq> []" "last s = 10" by (auto simp: ends_lf_def)
    have e: "ends_lf r" if "qp_escape s = Some (b, r)" for b r
      using that s by (auto simp: qp_escape_def ends_lf_def split: list.splits if_splits)
    have k: "ends_lf r" if r: "soft_break s = Some r" for r
    proof -
      obtain n where "r = drop n s" using soft_break_suffix [OF r] by blast
      with s show ?thesis by (cases "n < length s") (auto simp: ends_lf_def last_drop)
    qed
    have "ends_lf s" using s by (simp add: ends_lf_def)
    then show ?thesis
      using 2 e k s
      by (auto simp: qp_escape_lf soft_break_lf split: option.splits prod.splits)
  qed
qed simp

interpretation qp: chunk_decoder "\<lambda>b more. Inr (decode_qp b more)" ends_lf
proof unfold_locales
  show "ends_lf a \<Longrightarrow> ends_lf b \<Longrightarrow> ends_lf (a @ b)" for a b
    by (cases "b = []") (simp_all add: ends_lf_def)
qed (auto simp: decode_qp_def qp_text_lf ends_lf_def)

text \<open>Base64 keeps it for packets without padding, wherever the packet ends.\<close>

definition no_pad :: "jstr \<Rightarrow> bool" where
  "no_pad s \<longleftrightarrow> 61 \<notin> set s"

lemma strip_pad_groups_append:
  assumes "61 \<notin> set s"
  shows "strip_pad_groups (s @ t) = s @ strip_pad_groups t"
proof -
  have "takeWhile (\<lambda>c. c = 61) (rev (s @ t)) = takeWhile (\<lambda>c. c = 61) (rev t)"
  proof (cases "\<forall>c\<in>set t. c = 61")
    case True
    then have "takeWhile (\<lambda>c. c = 61) (rev t @ rev s) = rev t @ takeWhile (\<lambda>c. c = 61) (rev s)"
      by (intro takeWhile_append2) simp
    moreover have t: "takeWhile (\<lambda>c. c = 61) (rev t) = rev t"
      using True by (intro iffD2 [OF takeWhile_eq_all_conv]) simp
    moreover have "takeWhile (\<lambda>c. c = 61) (rev s) = []"
      using assms by (intro takeWhile_none) simp
    ultimately have "takeWhile (\<lambda>c. c = 61) (rev t @ rev s) = rev t"
      by (simp only: append_Nil2)
    then show ?thesis by (simp only: rev_append t)
  next
    case False
    then show ?thesis by (auto simp: takeWhile_append1)
  qed
  moreover have "length (takeWhile (\<lambda>c. c = 61) (rev t)) \<le> length t"
    using length_takeWhile_le [of _ "rev t"] by simp
  ultimately show ?thesis
    by (simp add: strip_pad_groups_def)
qed

lemma drop_eq_pad_append:
  assumes "61 \<notin> set s" and "length s mod 4 = 0" and "length t mod 4 = 0"
  shows "drop_eq_pad (s @ t) = s @ drop_eq_pad t"
proof (cases "length t \<ge> 2")
  case True
  then have "t \<noteq> []" "butlast t \<noteq> []" by (auto simp: butlast_conv_take)
  with True assms show ?thesis
    by (auto simp: drop_eq_pad_def butlast_append last_append mod_add_eq [symmetric])
next
  case False
  with assms(3) have "t = []" by (cases t) auto
  then show ?thesis
    using assms drop_eq_pad_no_eq [of s] by (simp add: drop_eq_pad_no_eq)
qed

lemma length_strip_pad_groups: "length t mod 4 = 0 \<Longrightarrow> length (strip_pad_groups t) mod 4 = 0"
proof -
  assume "length t mod 4 = 0"
  moreover have "4 * (length (takeWhile (\<lambda>c. c = 61) (rev t)) div 4) \<le> length t"
    using length_takeWhile_le [of "\<lambda>c. c = 61" "rev t"] by simp
  ultimately show ?thesis
    by (simp add: strip_pad_groups_def) presburger
qed

lemma atob_append:
  assumes "list_all is_b64 s" "length s mod 4 = 0"
    and "list_all (\<lambda>c. is_b64 c \<or> c = 61) t" "length t mod 4 = 0"
  shows "atob (s @ t) = bindE (atob t) (\<lambda>out. Inr (b64_bytes s @ out))"
proof -
  have fs: "filter (\<lambda>c. \<not> html_ws c) s = s"
    using assms(1) by (intro filter_keep) (auto simp: list_all_iff)
  have ft: "filter (\<lambda>c. \<not> html_ws c) t = t"
    using assms(3) by (rule filter_keep)
  have d: "drop_eq_pad (s @ t) = s @ drop_eq_pad t"
    using assms by (intro drop_eq_pad_append list_all_b64_no_eq)
  have "(length s + length (drop_eq_pad t)) mod 4 = length (drop_eq_pad t) mod 4"
    using assms(2) by (metis add_0 mod_add_left_eq)
  then show ?thesis
    using assms(1,2)
    by (simp add: atob_def filter_append fs ft d Let_def b64_bytes_append)
qed

lemma strip_middle_eq_class:
  "list_all P s \<Longrightarrow> list_all P (strip_middle_eq s)"
proof (induction s rule: strip_middle_eq.induct)
  case (2 c s)
  have "list_all P (dropWhile (\<lambda>x. x = 61) s)"
    using "2.prems" by (auto simp: list_all_iff dest: set_dropWhileD)
  with 2 show ?case by (simp add: Let_def)
qed simp

text \<open>A packet without padding splits off its whole groups, whatever follows it.\<close>

lemma decode_base64_split:
  assumes "no_pad a"
  defines "t \<equiv> filter is_b64 a"
  defines "n \<equiv> length t - length t mod 4"
  shows "decode_base64 (a @ b) more =
    bindE (decode_base64 (drop n t @ b) more) (\<lambda>(out, r). Inr (b64_bytes (take n t) @ out, r))"
proof -
  define u where "u = strip_middle_eq (filter (\<lambda>c. is_b64 c \<or> c = 61) b)"
  have fa: "filter (\<lambda>c. is_b64 c \<or> c = 61) a = t"
    unfolding t_def using assms(1) by (intro filter_cong) (auto simp: no_pad_def)
  have tb: "list_all is_b64 t" by (simp add: t_def list_all_iff)
  then have ne: "61 \<notin> set t" by (rule list_all_b64_no_eq)
  have fr: "filter (\<lambda>c. is_b64 c \<or> c = 61) (drop n t) = drop n t"
    using tb by (auto simp: filter_id_conv list_all_iff dest: in_set_dropD)
  have w: "strip_middle_eq (filter (\<lambda>c. is_b64 c \<or> c = 61) (a @ b)) = take n t @ drop n t @ u"
    using ne by (simp add: fa u_def strip_middle_eq_append)
  have r: "strip_middle_eq (filter (\<lambda>c. is_b64 c \<or> c = 61) (drop n t @ b)) = drop n t @ u"
    using ne by (simp add: fr u_def, subst strip_middle_eq_append) (auto dest: in_set_dropD)
  have n4: "n mod 4 = 0" and nl: "n \<le> length t"
    by (simp_all add: n_def minus_mod_eq_mult_div)
  define v where "v = drop n t @ u"
  have vb: "list_all (\<lambda>c. is_b64 c \<or> c = 61) v"
    unfolding v_def list_all_append u_def
  proof
    show "list_all (\<lambda>c. is_b64 c \<or> c = 61) (drop n t)"
      using tb by (auto simp: list_all_iff dest: in_set_dropD)
    show "list_all (\<lambda>c. is_b64 c \<or> c = 61)
        (strip_middle_eq (filter (\<lambda>c. is_b64 c \<or> c = 61) b))"
      by (rule strip_middle_eq_class) (simp add: list_all_iff)
  qed
  let ?e = "length v mod 4" and ?m = "length v - length v mod 4"
  have e: "length (take n t @ v) mod 4 = ?e"
    using n4 nl by (simp add: mod_add_left_eq [symmetric])
  have k: "length (take n t @ v) - ?e = n + ?m" using nl by simp
  have tk: "take (n + ?m) (take n t @ v) = take n t @ take ?m v" using nl by simp
  have dr: "drop (n + ?m) (take n t @ v) = drop ?m v" using nl by simp
  have s: "strip_pad_groups (take n t @ take ?m v) = take n t @ strip_pad_groups (take ?m v)"
    using ne by (intro strip_pad_groups_append) (auto dest: in_set_takeD)
  have m4: "length (take ?m v) mod 4 = 0" by (simp add: minus_mod_eq_mult_div)
  have "list_all (\<lambda>c. is_b64 c \<or> c = 61) (strip_pad_groups (take ?m v))"
    using vb by (auto simp: strip_pad_groups_def list_all_iff dest: in_set_takeD)
  moreover have "list_all is_b64 (take n t)"
    using tb by (auto simp: list_all_iff dest: in_set_takeD)
  ultimately have at: "atob (take n t @ strip_pad_groups (take ?m v)) =
      bindE (atob (strip_pad_groups (take ?m v))) (\<lambda>out. Inr (b64_bytes (take n t) @ out))"
    using n4 nl length_strip_pad_groups [OF m4] by (intro atob_append) auto
  show ?thesis
    unfolding decode_base64_def w r v_def [symmetric] Let_def e k tk dr s at by simp
qed

lemma decode_base64_short:
  assumes "length x < 4"
  shows "decode_base64 x False = Inr ([], [])"
proof -
  let ?s = "strip_middle_eq (filter (\<lambda>c. is_b64 c \<or> c = 61) x)"
  have len: "length (strip_middle_eq y) \<le> length y" for y
  proof (induction y rule: strip_middle_eq.induct)
    case (2 c s)
    then show ?case
      using length_dropWhile_le [of "\<lambda>x. x = 61" s] by (fastforce simp: Let_def)
  qed simp
  have "length ?s < 4"
    using len [of "filter (\<lambda>c. is_b64 c \<or> c = 61) x"]
      length_filter_le [of "\<lambda>c. is_b64 c \<or> c = 61" x] assms by linarith
  then have t: "take (length ?s - length ?s mod 4) ?s = []" by simp
  have a: "atob (strip_pad_groups []) = Inr []"
    by (simp add: strip_pad_groups_def atob_def drop_eq_pad_def)
  show ?thesis
    unfolding decode_base64_def Let_def t a by simp
qed

interpretation base64: chunk_decoder decode_base64 no_pad
proof unfold_locales
  fix a assume a: "no_pad a"
  let ?t = "filter is_b64 a"
  let ?n = "length ?t - length ?t mod 4"
  have "decode_base64 a True = Inr (b64_bytes (take ?n ?t), drop ?n ?t)"
    using a by (simp add: no_pad_def decode_base64_plain Let_def)
  moreover have "no_pad (drop ?n ?t)"
    using a by (auto simp: no_pad_def dest: in_set_dropD)
  ultimately show "\<exists>out r. decode_base64 a True = Inr (out, r) \<and> no_pad r
      \<and> (\<forall>b more. decode_base64 (a @ b) more =
           bindE (decode_base64 (r @ b) more) (\<lambda>(out', r'). Inr (out @ out', r')))"
    using decode_base64_split [OF a] by blast
next
  show "no_pad a \<Longrightarrow> no_pad b \<Longrightarrow> no_pad (a @ b)" for a b
    by (simp add: no_pad_def)
next
  fix x
  let ?s = "strip_middle_eq (filter (\<lambda>c. is_b64 c \<or> c = 61) x)"
  let ?k = "length ?s - length ?s mod 4"
  let ?o = "atob (strip_pad_groups (take ?k ?s))"
  define r where "r = (if length ?s mod 4 \<noteq> 0 then drop ?k ?s else [])"
  have "length r < 4"
  proof (cases "length ?s mod 4 = 0")
    case False
    then have "length r = length ?s mod 4"
      by (simp add: r_def del: length_0_conv)
    then show ?thesis by simp
  qed (simp add: r_def)
  then have f: "decode_base64 r False = Inr ([], [])" by (rule decode_base64_short)
  have t: "decode_base64 x True = bindE ?o (\<lambda>out. Inr (out, r))"
    by (simp add: decode_base64_def Let_def r_def)
  have "decode_base64 x False = bindE ?o (\<lambda>out. Inr (out, []))"
    by (simp add: decode_base64_def Let_def)
  then show "decode_base64 x False = bindE (decode_base64 x True) (\<lambda>(out, r).
      bindE (decode_base64 r False) (\<lambda>(out', _). Inr (out @ out', [])))"
    by (simp add: t f)
qed

section \<open>Typed arrays\<close>

text \<open>Storing a number in a \<open>Uint8Array\<close> keeps its low eight bits.\<close>

definition string_to_typed_array :: "jstr \<Rightarrow> nat list" where
  "string_to_typed_array buffer = map (\<lambda>c. c mod 256) buffer"

text \<open>\<open>typedArrayToString\<close> converts one hundred elements at a time.\<close>

function typed_array_to_string :: "nat list \<Rightarrow> jstr" where
  "typed_array_to_string buffer =
     (if buffer = [] then [] else take 100 buffer @ typed_array_to_string (drop 100 buffer))"
  by pat_completeness auto
termination
  by (relation "measure length") auto

declare typed_array_to_string.simps [simp del]

lemma typed_array_to_string_id: "typed_array_to_string buffer = buffer"
proof (induction buffer rule: typed_array_to_string.induct)
  case (1 buffer)
  then show ?case
    by (subst typed_array_to_string.simps) auto
qed

lemma string_to_typed_array_id: "binary s \<Longrightarrow> string_to_typed_array s = s"
  by (simp add: string_to_typed_array_def binary_def list_all_iff map_idI)

lemma typed_array_roundtrip:
  "binary s \<Longrightarrow> typed_array_to_string (string_to_typed_array s) = s"
  by (simp add: typed_array_to_string_id string_to_typed_array_id)

section \<open>Month names\<close>

definition month_names :: "jstr list" where
  "month_names = map js [''Jan'', ''Feb'', ''Mar'', ''Apr'', ''May'', ''Jun'', ''Jul'', ''Aug'',
     ''Sep'', ''Oct'', ''Nov'', ''Dec'']"

section \<open>Properties\<close>

text \<open>base64 decoding undoes base64 encoding of every binary string, whether more data is to
  come or not, and keeps nothing back.\<close>

theorem base64_roundtrip:
  assumes "binary s"
  shows "decode_base64 (btoa s) more = Inr (s, [])"
  using assms by (rule decode_base64_btoa)

theorem base64_roundtrip_witness: "decode_base64 (btoa [72, 105, 255, 0]) True = Inr ([72, 105, 255, 0], [])"
  by (rule base64_roundtrip) simp

text \<open>C21: a base64 body gives the same bytes however it is cut into packets: decoding packet by
  packet, with the kept-back text put in front of the next packet, equals decoding it whole.  The
  packets before the last hold no padding.\<close>

theorem base64_packets:
  assumes "\<forall>c\<in>set cs. 61 \<notin> set c"
  shows "feed decode_base64 [] (cs @ [b]) = bindE (decode_base64 (concat cs @ b) False) (\<lambda>(out, _). Inr out)"
  using base64.feed_whole [of "[]" cs b] assms by (simp add: no_pad_def)

theorem base64_packets_witness:
  "feed decode_base64 [] [js ''S'', js ''GVs'', js ''bG8='']
     = bindE (decode_base64 (js ''SGVsbG8='') False) (\<lambda>(out, _). Inr out)"
  using base64_packets [of "[js ''S'', js ''GVs'']" "js ''bG8=''"] by simp

text \<open>a quoted-printable body gives the same bytes however it is cut into packets, as long as the
  packets before the last end with a line feed (which \<open>deliverData\<close> arranges for LF and CRLF mail).\<close>

theorem qp_packets:
  assumes "\<forall>c\<in>set cs. c = [] \<or> last c = 10"
  shows "feed (\<lambda>b more. Inr (decode_qp b more)) [] (cs @ [b]) = Inr (fst (decode_qp (concat cs @ b) False))"
  using qp.feed_whole [of "[]" cs b] assms by (simp add: ends_lf_def decode_qp_def)

theorem qp_packets_witness:
  "feed (\<lambda>b more. Inr (decode_qp b more)) [] [js ''a=3D='' @ [10], js ''b'' @ [10], js ''c'']
     = Inr (fst (decode_qp (js ''a=3D='' @ [10] @ js ''b'' @ [10] @ js ''c'') False))"
  using qp_packets [of "[js ''a=3D='' @ [10], js ''b'' @ [10]]" "js ''c''"] by simp

subsection \<open>When the clean-up is not enough\<close>

text \<open>The number of the equals signs after the last base64 character.\<close>

definition final_eqs :: "jstr \<Rightarrow> nat" where
  "final_eqs s = length (takeWhile (\<lambda>c. c = 61) (rev (filter (\<lambda>c. is_b64 c \<or> c = 61) s)))"

lemma takeWhile_eqs: "takeWhile (\<lambda>c. c = 61) s = replicate (length (takeWhile (\<lambda>c. c = 61) s)) (61 :: jchar)"
  by (induction s) auto

lemma strip_middle_eq_shape:
  assumes "list_all (\<lambda>c. is_b64 c \<or> c = 61) s"
  shows "strip_middle_eq s = filter is_b64 s @ takeWhile (\<lambda>c. c = 61) (rev s)"
  using assms
proof (induction s rule: strip_middle_eq.induct)
  case (2 c s)
  let ?eqs = "takeWhile (\<lambda>c. c = 61) s" and ?r = "dropWhile (\<lambda>c. c = 61) s"
  have s: "?eqs @ ?r = s" by simp
  have r: "list_all (\<lambda>c. is_b64 c \<or> c = 61) ?r"
    using 2(3) by (auto simp: list_all_iff dest: set_dropWhileD)
  have eqs: "filter is_b64 ?eqs = []" by (auto simp: filter_empty_conv dest: set_takeWhileD)
  show ?case
  proof (cases "c = 61 \<and> ?r \<noteq> [] \<and> is_b64 (hd ?r)")
    case True
    then obtain d u where u: "?r = d # u" "is_b64 d" by (cases ?r) auto
    then have "d \<noteq> 61" "d \<in> set (rev ?r)" by auto
    then have "takeWhile (\<lambda>c. c = 61) (rev ?r @ rev ?eqs @ [61]) = takeWhile (\<lambda>c. c = 61) (rev ?r)"
      by (rule takeWhile_append1 [rotated])
    moreover have "rev ?r @ rev ?eqs = rev s" by (metis rev_append s)
    ultimately have "takeWhile (\<lambda>c. c = 61) (rev (c # s)) = takeWhile (\<lambda>c. c = 61) (rev ?r)"
      using True by (metis append_assoc rev.simps(2))
    moreover have "filter is_b64 (c # s) = filter is_b64 ?r"
      using True eqs by (metis append_Nil filter.simps(2) filter_append is_b64_not_eq s)
    ultimately show ?thesis using True 2(1) [OF refl True r] by (simp add: Let_def)
  next
    case False
    have IH: "strip_middle_eq s = filter is_b64 s @ takeWhile (\<lambda>c. c = 61) (rev s)"
      using 2(2) [OF refl False] 2(3) by simp
    have split: "strip_middle_eq (c # s) = c # strip_middle_eq s" using False unfolding strip_middle_eq.simps Let_def by (rule if_not_P)
    show ?thesis
    proof (cases "c = 61")
      case True
      have "?r = []"
      proof (rule ccontr)
        assume "?r \<noteq> []"
        moreover from this have "hd ?r \<noteq> 61" by (rule hd_dropWhile)
        ultimately show False using r False True by (cases ?r) auto
      qed
      then have all: "\<forall>x\<in>set s. x = 61" by (simp add: dropWhile_eq_Nil_conv)
      then obtain n where n: "s = replicate n 61" by (metis replicate_length_same)
      show ?thesis using True unfolding split IH unfolding n
        by (simp add: replicate_app_Cons_same)
    next
      case c: False
      have "takeWhile (\<lambda>c. c = 61) (rev s @ [c]) = takeWhile (\<lambda>c. c = 61) (rev s)"
        using c by (rule takeWhile_tail)
      then show ?thesis unfolding split IH using c 2(3) by simp
    qed
  qed
qed simp

lemma takeWhile_replicate: "x \<notin> set t \<Longrightarrow> takeWhile (\<lambda>c. c = x) (replicate e x @ t) = replicate e x"
  by (induction e) (simp_all add: takeWhile_none)

lemma strip_pad_groups_eqs:
  assumes "61 \<notin> set t"
  shows "strip_pad_groups (t @ replicate e 61) = t @ replicate (e mod 4) 61"
proof -
  have "takeWhile (\<lambda>c. c = 61) (rev (t @ replicate e 61)) = replicate e 61"
    using takeWhile_replicate [of 61 "rev t" e] assms by simp
  moreover have "length t + e - 4 * (e div 4) = length t + e mod 4"
    by (metis add_diff_assoc minus_mult_div_eq_mod times_div_less_eq_dividend)
  ultimately show ?thesis by (simp add: strip_pad_groups_def)
qed

lemma atob_padded:
  assumes "list_all is_b64 t" "r < 4" "(length t + r) mod 4 = 0"
  shows "atob (t @ replicate r 61) = (if r = 3 then Inl InvalidCharacterError else Inr (b64_bytes t))"
proof -
  have f: "filter (\<lambda>c. \<not> html_ws c) (t @ replicate r 61) = t @ replicate r 61"
    using assms(1) by (intro filter_keep) (auto simp: list_all_iff)
  have t: "61 \<notin> set t" by (rule list_all_b64_no_eq [OF assms(1)])
  have l: "t \<noteq> [] \<Longrightarrow> last t \<noteq> 61" using t by (metis last_in_set)
  consider "r = 0" | "r = 1" | "r = 2" | "r = 3" using assms(2) by linarith
  then show ?thesis
  proof cases
    case 1
    then show ?thesis using assms(1,3) atob_b64 by simp
  next
    case 2
    then have m: "length t mod 4 = 3" and ne: "t \<noteq> []" using assms(3) by (presburger, auto)
    have "drop_eq_pad (t @ [61]) = t"
      using l [OF ne] assms(3) 2 by (simp add: drop_eq_pad_def butlast_append)
    with 2 f m assms(1) show ?thesis by (simp add: atob_def)
  next
    case 3
    then have m: "length t mod 4 = 2" using assms(3) by presburger
    have "drop_eq_pad (t @ [61, 61]) = t"
      using assms(3) 3 by (simp add: drop_eq_pad_def butlast_append)
    with 3 f m assms(1) show ?thesis by (simp add: atob_def numeral_2_eq_2)
  next
    case 4
    have "drop_eq_pad (t @ [61, 61, 61]) = t @ [61]"
      using assms(3) 4 by (simp add: drop_eq_pad_def butlast_append add.commute)
    moreover have "replicate 3 (61 :: jchar) = [61, 61, 61]" by (simp add: numeral_3_eq_3)
    ultimately show ?thesis using f by (simp add: atob_def 4)
  qed
qed

lemma excess_mod: "(a + e - (a + e) mod 4 - a) mod 4 = 3 \<longleftrightarrow> a mod 4 = 1 \<and> 3 \<le> (e :: nat)"
proof -
  define k r p q where "k = (a + e) div 4" "r = (a + e) mod 4" "p = a div 4" "q = a mod 4"
  then have ae: "a + e = 4 * k + r" "r < 4" and a: "a = 4 * p + q" "q < 4" "a mod 4 = q" by simp_all
  have "a + e - (a + e) mod 4 = 4 * k" unfolding k_r_p_q_def by (simp add: minus_mod_eq_mult_div)
  moreover have "(4 * k - a) mod 4 = 3 \<longleftrightarrow> q = 1 \<and> p < k"
  proof (cases "p < k")
    case True
    then have "4 * k - a = (4 - q) + 4 * (k - p - 1)" using a by linarith
    then have "(4 * k - a) mod 4 = (4 - q) mod 4" by (metis mod_mult_self2)
    moreover have "q = 0 \<or> q = 1 \<or> q = 2 \<or> q = 3" using a(2) by linarith
    ultimately show ?thesis using True by auto
  next
    case False
    then show ?thesis using a(1) by simp
  qed
  moreover have "q = 1 \<and> p < k \<longleftrightarrow> q = 1 \<and> 3 \<le> e" using ae a by linarith
  ultimately show ?thesis using a(3) by simp
qed

lemma decode_base64_throws:
  "decode_base64 s more = Inl InvalidCharacterError
      \<longleftrightarrow> length (filter is_b64 s) mod 4 = 1 \<and> 3 \<le> final_eqs s"
  "(\<exists>out rest. decode_base64 s more = Inr (out, rest))
      \<longleftrightarrow> \<not> (length (filter is_b64 s) mod 4 = 1 \<and> 3 \<le> final_eqs s)"
proof -
  let ?x = "filter (\<lambda>c. is_b64 c \<or> c = 61) s"
  define t where "t = filter is_b64 s"
  define e where "e = final_eqs s"
  define n where "n = length t + e - (length t + e) mod 4"
  have "filter is_b64 ?x = t" by (simp add: t_def filter_filter) (metis (mono_tags, lifting))
  then have clean: "strip_middle_eq ?x = t @ replicate e 61"
    using strip_middle_eq_shape [of ?x] takeWhile_eqs [of "rev ?x"]
    by (simp add: list_all_iff e_def final_eqs_def)
  let ?t = "take n t" and ?e = "n - length t"
  have cut: "take n (t @ replicate e 61) = ?t @ replicate ?e 61"
    by (simp add: n_def min_def)
  have t: "list_all is_b64 ?t" by (auto simp: t_def list_all_iff dest: in_set_takeD)
  then have pad: "strip_pad_groups (?t @ replicate ?e 61) = ?t @ replicate (?e mod 4) 61"
    by (intro strip_pad_groups_eqs list_all_b64_no_eq)
  have "n mod 4 = 0" by (simp add: n_def minus_mod_eq_mult_div)
  moreover have "length ?t + ?e = n" by simp
  ultimately have "(length ?t + ?e mod 4) mod 4 = 0" by (metis mod_add_right_eq)
  from atob_padded [OF t _ this]
  have "atob (?t @ replicate (?e mod 4) 61) = (if ?e mod 4 = 3 then Inl InvalidCharacterError else Inr (b64_bytes ?t))"
    by simp
  moreover have "?e mod 4 = 3 \<longleftrightarrow> length t mod 4 = 1 \<and> 3 \<le> e"
    unfolding n_def by (rule excess_mod)
  ultimately have run: "atob (strip_pad_groups (take n (t @ replicate e 61)))
      = (if length t mod 4 = 1 \<and> 3 \<le> e then Inl InvalidCharacterError else Inr (b64_bytes ?t))"
    unfolding cut pad by simp
  show "decode_base64 s more = Inl InvalidCharacterError
      \<longleftrightarrow> length (filter is_b64 s) mod 4 = 1 \<and> 3 \<le> final_eqs s"
    "(\<exists>out rest. decode_base64 s more = Inr (out, rest))
      \<longleftrightarrow> \<not> (length (filter is_b64 s) mod 4 = 1 \<and> 3 \<le> final_eqs s)"
    using run unfolding decode_base64_def Let_def clean
    by (simp_all add: n_def t_def [symmetric] e_def [symmetric])
qed

text \<open>C27: when decoding base64 throws, for every input: the clean-up of \<open>decode_base64\<close> makes
  the input acceptable to \<open>atob\<close>, except when the number of its base64 characters leaves
  the remainder 1 by four and three or more equals signs come after the last of them; exactly
  then the call throws, whether more input is to come or not.\<close>

theorem base64_can_throw:
  "(decode_base64 s more = Inl InvalidCharacterError
      \<longleftrightarrow> length (filter is_b64 s) mod 4 = 1 \<and> 3 \<le> final_eqs s)
   \<and> ((\<exists>out rest. decode_base64 s more = Inr (out, rest))
      \<longleftrightarrow> \<not> (length (filter is_b64 s) mod 4 = 1 \<and> 3 \<le> final_eqs s))"
  using decode_base64_throws by blast

end
