(* ===== verification/Utf8.thy ===== *)
theory Utf8
  imports Prelude
begin

text \<open>
  UTF-8 in the language's library: \<open>TextEncoder.encode\<close>, which the header emitter uses, and
  \<open>encodeURIComponent\<close> with \<open>decodeURIComponent\<close>, which carry the words of a search through the
  query of an address book.  Nothing in this theory models a file of the repository.
\<close>

text \<open>\<open>TextEncoder.encode\<close>: UTF-8 of a string of UTF-16 units, U+FFFD for a lone surrogate.\<close>

definition utf8_bytes :: "nat \<Rightarrow> nat list" where
  "utf8_bytes cp =
     (if cp < 128 then [cp]
      else if cp < 2048 then [192 + cp div 64, 128 + cp mod 64]
      else if cp < 65536 then [224 + cp div 4096, 128 + cp div 64 mod 64, 128 + cp mod 64]
      else [240 + cp div 262144, 128 + cp div 4096 mod 64, 128 + cp div 64 mod 64, 128 + cp mod 64])"

definition high_surrogate :: "jchar \<Rightarrow> bool" where
  "high_surrogate c \<longleftrightarrow> 55296 \<le> c \<and> c \<le> 56319"

definition low_surrogate :: "jchar \<Rightarrow> bool" where
  "low_surrogate c \<longleftrightarrow> 56320 \<le> c \<and> c \<le> 57343"

fun code_points :: "jstr \<Rightarrow> nat list" where
  "code_points [] = []"
| "code_points [c] = [if high_surrogate c \<or> low_surrogate c then 65533 else c]"
| "code_points (c # d # s) =
     (if high_surrogate c \<and> low_surrogate d
      then (65536 + (c - 55296) * 1024 + (d - 56320)) # code_points s
      else (if high_surrogate c \<or> low_surrogate c then 65533 else c) # code_points (d # s))"

definition utf8_encode :: "jstr \<Rightarrow> nat list" where
  "utf8_encode s = concat (map utf8_bytes (code_points s))"

section \<open>URI components\<close>

definition unreserved :: "jchar \<Rightarrow> bool" where
  "unreserved c \<longleftrightarrow>
     is_digit c \<or> is_upper c \<or> is_lower c \<or> c \<in> {45, 95, 46, 33, 126, 42, 39, 40, 41}"

definition hex_digit :: "nat \<Rightarrow> jchar" where
  "hex_digit n = (if n < 10 then 48 + n else 55 + n)"

definition percent_bytes :: "nat list \<Rightarrow> jstr" where
  "percent_bytes bs = concat (map (\<lambda>b. [37, hex_digit (b div 16), hex_digit (b mod 16)]) bs)"

fun encode_unless :: "(jchar \<Rightarrow> bool) \<Rightarrow> jstr \<Rightarrow> js_error + jstr" where
  "encode_unless P [] = Inr []"
| "encode_unless P [c] =
     (if P c then Inr [c]
      else if low_surrogate c \<or> high_surrogate c then Inl URIError
      else Inr (percent_bytes (utf8_bytes c)))"
| "encode_unless P (c # d # s) =
     (if P c then bindE (encode_unless P (d # s)) (\<lambda>r. Inr (c # r))
      else if low_surrogate c \<or> high_surrogate c \<and> \<not> low_surrogate d then Inl URIError
      else if high_surrogate c then
        bindE (encode_unless P s) (\<lambda>r.
          Inr (percent_bytes (utf8_bytes (65536 + (c - 55296) * 1024 + (d - 56320))) @ r))
      else bindE (encode_unless P (d # s)) (\<lambda>r. Inr (percent_bytes (utf8_bytes c) @ r)))"

definition encode_uri_component :: "jstr \<Rightarrow> js_error + jstr" where
  "encode_uri_component s = encode_unless unreserved s"

text \<open>One escaped byte, and the continuation bytes of a code point.\<close>

definition take_byte :: "jstr \<Rightarrow> (nat \<times> jstr) option" where
  "take_byte s =
     (case s of
        p # a # b # r \<Rightarrow> if p = 37 \<and> is_hex a \<and> is_hex b then Some (16 * hex_val a + hex_val b, r) else None
      | _ \<Rightarrow> None)"

fun take_continuation :: "nat \<Rightarrow> nat \<Rightarrow> jstr \<Rightarrow> (nat \<times> jstr) option" where
  "take_continuation 0 cp s = Some (cp, s)"
| "take_continuation (Suc n) cp s =
     (case take_byte s of
        None \<Rightarrow> None
      | Some (b, r) \<Rightarrow>
          if 128 \<le> b \<and> b < 192 then take_continuation n (cp * 64 + (b - 128)) r else None)"

text \<open>The code point at the start of a string that starts with a percent sign.\<close>

definition scalar_value :: "nat \<Rightarrow> bool" where
  "scalar_value cp \<longleftrightarrow> cp < 1114112 \<and> \<not> high_surrogate cp \<and> \<not> low_surrogate cp"

definition lead_byte :: "nat \<Rightarrow> nat \<times> nat \<times> nat" where
  "lead_byte b =
     (if 192 \<le> b \<and> b < 224 then (1, 128, b - 192)
      else if 224 \<le> b \<and> b < 240 then (2, 2048, b - 224)
      else if 240 \<le> b \<and> b < 248 then (3, 65536, b - 240)
      else (0, 1, 0))"

definition take_code_point :: "jstr \<Rightarrow> (nat \<times> jstr) option" where
  "take_code_point s =
     (case take_byte s of
        None \<Rightarrow> None
      | Some (b, r) \<Rightarrow>
          if b < 128 then Some (b, r)
          else
            let (n, low, start) = lead_byte b
            in (case take_continuation n start r of
                  None \<Rightarrow> None
                | Some (cp, r') \<Rightarrow> if low \<le> cp \<and> scalar_value cp then Some (cp, r') else None))"

definition utf16 :: "nat \<Rightarrow> jstr" where
  "utf16 cp = (if cp < 65536 then [cp] else [55296 + (cp - 65536) div 1024, 56320 + (cp - 65536) mod 1024])"

lemma take_byte_length: "take_byte s = Some (b, r) \<Longrightarrow> length r < length s"
  by (auto simp: take_byte_def split: list.splits if_splits)

lemma take_continuation_length: "take_continuation n cp s = Some (c, r) \<Longrightarrow> length r \<le> length s"
  by (induction n cp s rule: take_continuation.induct)
    (fastforce split: option.splits if_splits dest: take_byte_length)+

lemma take_code_point_length: "take_code_point s = Some (c, r) \<Longrightarrow> length r < length s"
proof -
  assume a: "take_code_point s = Some (c, r)"
  then obtain b t where t: "take_byte s = Some (b, t)" by (auto simp: take_code_point_def split: option.splits)
  obtain n low start where "lead_byte b = (n, low, start)" by (cases "lead_byte b")
  with a t have "length r \<le> length t"
    by (auto simp: take_code_point_def split: option.splits if_splits dest!: take_continuation_length)
  with take_byte_length [OF t] show ?thesis by simp
qed

function decode_uri_component :: "jstr \<Rightarrow> js_error + jstr" where
  "decode_uri_component [] = Inr []"
| "decode_uri_component (c # s) =
     (if c \<noteq> 37 then bindE (decode_uri_component s) (\<lambda>r. Inr (c # r))
      else case take_code_point (c # s) of
             None \<Rightarrow> Inl URIError
           | Some (cp, r) \<Rightarrow> bindE (decode_uri_component r) (\<lambda>t. Inr (utf16 cp @ t)))"
  by pat_completeness auto

termination
  by (relation "measure length") (auto dest: take_code_point_length)

subsection \<open>Round trip\<close>

lemma hex_digit_props: "n < 16 \<Longrightarrow> is_hex (hex_digit n) \<and> hex_val (hex_digit n) = n"
  by (auto simp: hex_digit_def is_hex_def hex_val_def is_digit_def is_upper_def)

lemma percent_bytes_simps [simp]:
  "percent_bytes [] = []"
  "percent_bytes (b # bs) = [37, hex_digit (b div 16), hex_digit (b mod 16)] @ percent_bytes bs"
  by (simp_all add: percent_bytes_def)

lemma take_byte_percent:
  "b < 256 \<Longrightarrow> take_byte (37 # hex_digit (b div 16) # hex_digit (b mod 16) # r) = Some (b, r)"
  using hex_digit_props [of "b div 16"] hex_digit_props [of "b mod 16"]
  by (simp add: take_byte_def div_less_iff_less_mult)

lemma take_continuation_percent:
  "b < 64 \<Longrightarrow> take_continuation (Suc n) cp (percent_bytes ((128 + b) # bs) @ r)
     = take_continuation n (cp * 64 + b) (percent_bytes bs @ r)"
  using take_byte_percent [of "128 + b" "percent_bytes bs @ r"] by simp

lemma take_code_point_lead:
  assumes "lead_byte b = (n, low, start)" "128 \<le> b" "b < 256"
    and "take_continuation n start (percent_bytes bs @ r) = Some (cp, r')" "low \<le> cp" "scalar_value cp"
  shows "take_code_point (percent_bytes (b # bs) @ r) = Some (cp, r')"
  using assms take_byte_percent [of b "percent_bytes bs @ r"] by (simp add: take_code_point_def)

lemma take_code_point_utf8:
  assumes "scalar_value cp"
  shows "take_code_point (percent_bytes (utf8_bytes cp) @ r) = Some (cp, r)"
proof -
  have cp: "cp < 1114112" using assms by (simp add: scalar_value_def)
  have m: "x mod 64 < 64" for x :: nat by simp
  have done_: "take_continuation 0 x (percent_bytes [] @ r) = Some (x, r)" for x by simp
  consider "cp < 128" | "128 \<le> cp" "cp < 2048" | "2048 \<le> cp" "cp < 65536" | "65536 \<le> cp" by linarith
  then show ?thesis
  proof cases
    case 1
    then show ?thesis using take_byte_percent [of cp r]
      by (simp add: utf8_bytes_def take_code_point_def)
  next
    case 2
    let ?a = "cp div 64" and ?b = "cp mod 64"
    have a: "?a < 32" "?a * 64 + ?b = cp" using 2 by (auto simp: less_mult_imp_div_less)
    have "take_continuation (Suc 0) ?a (percent_bytes [128 + ?b] @ r) = Some (cp, r)"
      unfolding take_continuation_percent [OF m] done_ a(2) by (rule refl)
    then have "take_code_point (percent_bytes [192 + ?a, 128 + ?b] @ r) = Some (cp, r)"
      using a(1) 2 assms by (intro take_code_point_lead [where n = "Suc 0" and low = 128]) (simp_all add: lead_byte_def)
    with 2 show ?thesis by (simp add: utf8_bytes_def del: percent_bytes_simps)
  next
    case 3
    let ?a = "cp div 4096" and ?b = "cp div 64 mod 64" and ?c = "cp mod 64"
    have "?a = cp div 64 div 64" by (simp add: div_mult2_eq [symmetric])
    then have a: "?a < 16" "(?a * 64 + ?b) * 64 + ?c = cp" using 3 by (auto simp: less_mult_imp_div_less)
    have "take_continuation (Suc (Suc 0)) ?a (percent_bytes [128 + ?b, 128 + ?c] @ r) = Some (cp, r)"
      unfolding take_continuation_percent [OF m] done_ a(2) by (rule refl)
    then have "take_code_point (percent_bytes [224 + ?a, 128 + ?b, 128 + ?c] @ r) = Some (cp, r)"
      using a(1) 3 assms
      by (intro take_code_point_lead [where n = "Suc (Suc 0)" and low = 2048]) (simp_all add: lead_byte_def)
    with 3 show ?thesis by (simp add: utf8_bytes_def del: percent_bytes_simps)
  next
    case 4
    let ?a = "cp div 262144" and ?b = "cp div 4096 mod 64" and ?c = "cp div 64 mod 64" and ?d = "cp mod 64"
    have "cp div 4096 = cp div 64 div 64" "?a = cp div 64 div 64 div 64"
      by (simp_all add: div_mult2_eq [symmetric])
    then have a: "((?a * 64 + ?b) * 64 + ?c) * 64 + ?d = cp" by simp
    have a5: "?a < 8" using cp by (auto simp: less_mult_imp_div_less)
    have "take_continuation (Suc (Suc (Suc 0))) ?a (percent_bytes [128 + ?b, 128 + ?c, 128 + ?d] @ r) = Some (cp, r)"
      unfolding take_continuation_percent [OF m] done_ a by (rule refl)
    then have "take_code_point (percent_bytes [240 + ?a, 128 + ?b, 128 + ?c, 128 + ?d] @ r) = Some (cp, r)"
      using a5 4 assms
      by (intro take_code_point_lead [where n = "Suc (Suc (Suc 0))" and low = 65536]) (simp_all add: lead_byte_def)
    with 4 show ?thesis by (simp add: utf8_bytes_def del: percent_bytes_simps)
  qed
qed

lemma utf16_pair:
  assumes "high_surrogate c" "low_surrogate d"
  defines "cp \<equiv> 65536 + (c - 55296) * 1024 + (d - 56320)"
  shows "utf16 cp = [c, d]" and "scalar_value cp"
proof -
  from assms(1,2) have "c = 55296 + (c - 55296)" "d = 56320 + (d - 56320)" "c - 55296 < 1024" "d - 56320 < 1024"
    by (auto simp: high_surrogate_def low_surrogate_def)
  then obtain x y where h: "c = 55296 + x" "d = 56320 + y" "x < 1024" "y < 1024" by blast
  then have "cp = 65536 + (x * 1024 + y)" "(x * 1024 + y) div 1024 = x" "(x * 1024 + y) mod 1024 = y"
    by (simp_all add: cp_def)
  then show "utf16 cp = [c, d]" "scalar_value cp"
    using h by (auto simp: utf16_def scalar_value_def high_surrogate_def low_surrogate_def)
qed

lemma decode_code_point:
  assumes "scalar_value cp"
  shows "decode_uri_component (percent_bytes (utf8_bytes cp) @ r)
    = bindE (decode_uri_component r) (\<lambda>t. Inr (utf16 cp @ t))"
proof -
  have "utf8_bytes cp \<noteq> []" by (simp add: utf8_bytes_def)
  then obtain b bs where "utf8_bytes cp = b # bs" by (cases "utf8_bytes cp") auto
  then obtain s where "percent_bytes (utf8_bytes cp) @ r = 37 # s" by simp
  with take_code_point_utf8 [OF assms, of r] show ?thesis by simp
qed

lemma unreserved_not_percent: "\<not> unreserved 37"
  by (simp add: unreserved_def is_digit_def is_upper_def is_lower_def)

lemma decode_encode_unless:
  assumes "\<not> P 37" and "list_all (\<lambda>c. c < 65536) s" and "encode_unless P s = Inr t"
  shows "decode_uri_component t = Inr s"
  using assms
proof (induction P s arbitrary: t rule: encode_unless.induct)
  case (2 P c)
  then have s: "\<not> P c \<Longrightarrow> scalar_value c" by (auto simp: scalar_value_def split: if_splits)
  from 2 show ?case using decode_code_point [OF s, of "[]"]
    by (auto simp: utf16_def split: if_splits)
next
  case (3 P c d s)
  show ?case
  proof (cases "P c")
    case True
    with 3 obtain r where "encode_unless P (d # s) = Inr r" "t = c # r" by (auto simp: bindE_Inr_iff)
    moreover have "c \<noteq> 37" using 3(4) True by auto
    ultimately show ?thesis using 3 True by simp
  next
    case F: False
    with 3(6) have low: "\<not> low_surrogate c" and hi: "high_surrogate c \<Longrightarrow> low_surrogate d" by (auto split: if_splits)
    show ?thesis
    proof (cases "high_surrogate c")
      case True
      let ?cp = "65536 + (c - 55296) * 1024 + (d - 56320)"
      from True F low hi 3(6) obtain r where r: "encode_unless P s = Inr r"
        "t = percent_bytes (utf8_bytes ?cp) @ r" by (auto simp: bindE_Inr_iff)
      have "decode_uri_component r = Inr s" using 3 True F low hi r(1) by simp
      with decode_code_point [OF utf16_pair(2) [OF True hi [OF True]], of r] r(2)
        utf16_pair(1) [OF True hi [OF True]]
      show ?thesis by simp
    next
      case False
      with F low 3(6) obtain r where r: "encode_unless P (d # s) = Inr r"
        "t = percent_bytes (utf8_bytes c) @ r" by (auto simp: bindE_Inr_iff)
      have c: "c < 65536" and sc: "scalar_value c" using 3(5) low False by (auto simp: scalar_value_def)
      have "decode_uri_component r = Inr (d # s)" using 3 False F low r(1) by simp
      with decode_code_point [OF sc, of r] r(2) c show ?thesis by (simp add: utf16_def)
    qed
  qed
qed simp

text \<open>Strings without a lone surrogate can be encoded, and only escapes are put in them.\<close>

fun well_formed :: "jstr \<Rightarrow> bool" where
  "well_formed [] = True"
| "well_formed [c] = (\<not> high_surrogate c \<and> \<not> low_surrogate c)"
| "well_formed (c # d # s) =
     (if high_surrogate c then low_surrogate d \<and> well_formed s
      else \<not> low_surrogate c \<and> well_formed (d # s))"

definition escape_char :: "jchar \<Rightarrow> bool" where
  "escape_char c \<longleftrightarrow> c = 37 \<or> is_digit c \<or> 65 \<le> c \<and> c \<le> 70"

lemma surrogates_reserved:
  assumes "high_surrogate c \<or> low_surrogate c"
  shows "\<not> unreserved c"
  using assms by (auto simp: unreserved_def high_surrogate_def low_surrogate_def is_digit_def
      is_upper_def is_lower_def)

lemma encode_unless_total:
  assumes "\<And>c. high_surrogate c \<or> low_surrogate c \<Longrightarrow> \<not> P c" and "well_formed s"
  shows "\<exists>t. encode_unless P s = Inr t"
  using assms(2)
proof (induction s rule: well_formed.induct)
  case (3 c d s)
  moreover have "high_surrogate c \<Longrightarrow> \<not> low_surrogate c"
    by (auto simp: high_surrogate_def low_surrogate_def)
  ultimately show ?case using assms(1) by (cases "high_surrogate c") auto
qed auto

lemma utf8_bytes_bound: "cp < 1114112 \<Longrightarrow> list_all (\<lambda>b. b < 256) (utf8_bytes cp)"
  by (auto simp: utf8_bytes_def)

lemma percent_bytes_chars: "list_all (\<lambda>b. b < 256) bs \<Longrightarrow> list_all escape_char (percent_bytes bs)"
  by (induction bs) (auto simp: percent_bytes_def escape_char_def hex_digit_def is_digit_def)

lemma escaped_code_point: "cp < 1114112 \<Longrightarrow> list_all escape_char (percent_bytes (utf8_bytes cp))"
  by (intro percent_bytes_chars utf8_bytes_bound)

lemma surrogate_pair_bound:
  "high_surrogate c \<Longrightarrow> low_surrogate d \<Longrightarrow> 65536 + (c - 55296) * 1024 + (d - 56320) < 1114112"
  using utf16_pair(2) [of c d] by (simp add: scalar_value_def)

lemma encode_unless_chars:
  "list_all (\<lambda>c. c < 65536) s \<Longrightarrow> encode_unless P s = Inr t \<Longrightarrow> list_all (\<lambda>c. P c \<or> escape_char c) t"
proof (induction P s arbitrary: t rule: encode_unless.induct)
  case (2 P c)
  then show ?case using escaped_code_point [of c] by (auto simp: list_all_iff split: if_splits)
next
  case (3 P c d s)
  have c: "list_all escape_char (percent_bytes (utf8_bytes c))" using 3(4) by (intro escaped_code_point) simp
  have cd: "list_all escape_char (percent_bytes (utf8_bytes (65536 + (c - 55296) * 1024 + (d - 56320))))"
    if "high_surrogate c" "low_surrogate d" using that by (intro escaped_code_point surrogate_pair_bound)
  show ?case using 3 c cd
    by (fastforce simp: bindE_Inr_iff list_all_iff split: if_splits)
qed simp

end
