(* ===== verification/HeaderTokens.thy ===== *)
theory HeaderTokens
  imports MimeUtils Utf8
begin

text \<open>
  The first half of the module \<open>headerparser\<close> of \<open>mailnews/mime/jsmime/jsmime.js\<close>: the
  removal of invisible characters, the decoding of RFC 2047 encoded-words and of 8-bit
  headers, and the tokenizer that every structured header goes through.

  \<open>MimeTextDecoder\<close> (a wrapper of the platform's \<open>TextDecoder\<close> and charset tables) is a
  parameter, the record \<open>charset_api\<close>: creating a decoder for a label may throw, and a
  decoder maps bytes to text and to its next state.
\<close>

section \<open>Text decoders\<close>

record 'd charset_api =
  new_decoder :: "jstr \<Rightarrow> bool \<Rightarrow> js_error + 'd"                          \<comment> \<open>label, fatal\<close>
  run_decoder :: "'d \<Rightarrow> nat list \<Rightarrow> bool \<Rightarrow> js_error + (jstr \<times> 'd)"     \<comment> \<open>bytes, stream\<close>

section \<open>Invisible characters\<close>

definition in_range :: "nat \<Rightarrow> nat \<Rightarrow> jchar \<Rightarrow> bool" where
  "in_range lo hi c \<longleftrightarrow> lo \<le> c \<and> c \<le> hi"

text \<open>Case A, \<open>Zs\<close>: replaced by a space.\<close>

definition is_separator :: "jchar \<Rightarrow> bool" where
  "is_separator c \<longleftrightarrow> c = 0xA0 \<or> c = 0x1680 \<or> in_range 0x2000 0x200A c \<or> c = 0x202F
     \<or> c = 0x205F \<or> c = 0x3000"

text \<open>Case B, the \<open>Mn\<close> that show as blank: removed.\<close>

definition is_blank_mark :: "jchar \<Rightarrow> bool" where
  "is_blank_mark c \<longleftrightarrow> c = 0x034F \<or> c = 0x17B4 \<or> c = 0x17B5 \<or> in_range 0x180B 0x180D c
     \<or> in_range 0xFE00 0xFE0F c"

fun drop_blank_pairs :: "jstr \<Rightarrow> jstr" where
  "drop_blank_pairs (a # b # s) =
     (if a = 0xDB40 \<and> in_range 0xDD00 0xDDEF b then drop_blank_pairs s
      else a # drop_blank_pairs (b # s))"
| "drop_blank_pairs s = s"

text \<open>Case C, \<open>Cc\<close> but tab, line feed and carriage return: removed.\<close>

definition is_control :: "jchar \<Rightarrow> bool" where
  "is_control c \<longleftrightarrow> (c \<le> 0x1F \<or> in_range 0x7F 0x9F c) \<and> c \<noteq> 9 \<and> c \<noteq> 10 \<and> c \<noteq> 13"

text \<open>Case D, \<open>Cf\<close>: one character or one surrogate pair, replaced by a space.\<close>

definition is_format :: "jchar \<Rightarrow> bool" where
  "is_format c \<longleftrightarrow> c = 0xAD \<or> c = 0x061C \<or> c = 0x06DD \<or> c = 0x070F \<or> c = 0x08E2 \<or> c = 0x180E
     \<or> in_range 0x200B 0x200F c \<or> in_range 0x202A 0x202E c \<or> in_range 0x2060 0x2064 c
     \<or> in_range 0x2066 0x206F c \<or> c = 0xFEFF \<or> in_range 0xFFF9 0xFFFB c"

definition is_format_pair :: "jchar \<Rightarrow> jchar \<Rightarrow> bool" where
  "is_format_pair a b \<longleftrightarrow>
     a = 0xD804 \<and> (b = 0xDCBD \<or> b = 0xDCCD)
     \<or> a = 0xD80D \<and> in_range 0xDC30 0xDC38 b
     \<or> a = 0xD82F \<and> in_range 0xDCA0 0xDCA3 b
     \<or> a = 0xD834 \<and> in_range 0xDD73 0xDD7A b
     \<or> a = 0xDB40 \<and> (b = 0xDC01 \<or> in_range 0xDC20 0xDC7F b)"

fun blank_format :: "jstr \<Rightarrow> jstr" where
  "blank_format [] = []"
| "blank_format [a] = [if is_format a then 32 else a]"
| "blank_format (a # b # s) =
     (if is_format a then 32 # blank_format (b # s)
      else if is_format_pair a b then 32 # blank_format s
      else a # blank_format (b # s))"

definition clean_token :: "jstr \<Rightarrow> jstr" where
  "clean_token token =
     (let a = map (\<lambda>c. if is_separator c then 32 else c) token;
          b = drop_blank_pairs (filter (\<lambda>c. \<not> is_blank_mark c) a);
          c = filter (\<lambda>c. \<not> is_control c) b
      in blank_format c)"

lemma drop_blank_pairs_id: "0xDB40 \<notin> set s \<Longrightarrow> drop_blank_pairs s = s"
  by (induction s rule: drop_blank_pairs.induct) auto

text \<open>Printable ASCII text is left alone.\<close>

definition printable :: "jchar \<Rightarrow> bool" where
  "printable c \<longleftrightarrow> 32 \<le> c \<and> c \<le> 126"

lemma printable_keep:
  assumes "printable c"
  shows "\<not> is_separator c" "\<not> is_blank_mark c" "\<not> is_control c" "\<not> is_format c"
  using assms
  by (auto simp: printable_def is_separator_def is_blank_mark_def is_control_def is_format_def
      in_range_def)

lemma blank_format_printable: "\<forall>c\<in>set s. printable c \<Longrightarrow> blank_format s = s"
proof (induction s rule: blank_format.induct)
  case (3 a b s)
  then have "\<not> is_format_pair a b" by (auto simp: is_format_pair_def printable_def)
  with 3 show ?case by (simp add: printable_keep)
qed (auto simp: printable_keep)

lemma clean_token_printable: "\<forall>c\<in>set s. printable c \<Longrightarrow> clean_token s = s"
proof -
  assume p: "\<forall>c\<in>set s. printable c"
  then have "map (\<lambda>c. if is_separator c then 32 else c) s = s"
    by (intro map_idI) (simp add: printable_keep)
  moreover have "filter (\<lambda>c. \<not> is_blank_mark c) s = s" "filter (\<lambda>c. \<not> is_control c) s = s"
    using p by (simp_all add: filter_id_conv printable_keep)
  moreover have "drop_blank_pairs s = s"
    using p by (intro drop_blank_pairs_id) (auto simp: printable_def)
  ultimately show ?thesis
    using p by (simp add: clean_token_def blank_format_printable)
qed

section \<open>RFC 2047 encoded-words\<close>

text \<open>
  An encoded-word at the start of a string, \<open>=\?[^?]*\?[BbQq]\?[^?]*\?=\<close>: the rest of the
  string after it.  The two inner parts are free of question marks, so there is one way
  to match.
\<close>

definition is_2047_encoding :: "jchar \<Rightarrow> bool" where
  "is_2047_encoding c \<longleftrightarrow> c = ord CHR ''B'' \<or> c = ord CHR ''b'' \<or> c = ord CHR ''Q'' \<or> c = ord CHR ''q''"

definition enc_word_rest :: "jstr \<Rightarrow> jstr option" where
  "enc_word_rest s =
     (if \<not> starts_with (js ''=?'') s then None
      else case dropWhile (\<lambda>c. c \<noteq> 63) (drop 2 s) of
        q # e # q' # t \<Rightarrow>
          if is_2047_encoding e \<and> q' = 63 then
            (let u = dropWhile (\<lambda>c. c \<noteq> 63) t
             in if starts_with (js ''?='') u then Some (drop 2 u) else None)
          else None
      | _ \<Rightarrow> None)"

lemma enc_word_rest_length: "enc_word_rest s = Some r \<Longrightarrow> length r < length s"
proof -
  assume a: "enc_word_rest s = Some r"
  have "s \<noteq> []" using a by (auto simp: enc_word_rest_def)
  obtain q e q' t where d: "dropWhile (\<lambda>c. c \<noteq> 63) (drop 2 s) = q # e # q' # t"
    and r: "r = drop 2 (dropWhile (\<lambda>c. c \<noteq> 63) t)"
    using a by (auto simp: enc_word_rest_def Let_def split: list.splits if_splits)
  have "length r \<le> length t"
    using r length_dropWhile_le [of "\<lambda>c. c \<noteq> 63" t] by simp
  moreover have "length (q # e # q' # t) \<le> length s"
    using length_dropWhile_le [of "\<lambda>c. c \<noteq> 63" "drop 2 s"] d by simp
  ultimately show ?thesis by simp
qed

text \<open>\<open>headerValue.split(/(=\?[^?]*\?[BQbq]\?[^?]*\?=)/)\<close>: plain text and encoded-words in turn.\<close>

function split_2047 :: "jstr \<Rightarrow> jstr \<Rightarrow> jstr list" where
  "split_2047 acc [] = [acc]"
| "split_2047 acc (c # s) =
     (case enc_word_rest (c # s) of
        Some r \<Rightarrow> acc # take (length (c # s) - length r) (c # s) # split_2047 [] r
      | None \<Rightarrow> split_2047 (acc @ [c]) s)"
  by pat_completeness auto
termination
  by (relation "measure (\<lambda>(acc, s). length s)") (auto dest: enc_word_rest_length)

text \<open>The closure variables \<open>lastCharset\<close> and \<open>currentDecoder\<close> of \<open>decodeRFC2047Words\<close>.\<close>

record 'd words_state =
  last_charset :: jstr
  current_decoder :: "'d option"

definition charset_of_token :: "jstr \<Rightarrow> jstr" where
  "charset_of_token part = hd (split_on (ord CHR ''*'') part)"

text \<open>The bytes of an encoded-word; \<open>None\<close> where the code returns \<open>false\<close>.\<close>

definition decode_2047_bytes :: "jstr \<Rightarrow> jstr \<Rightarrow> js_error + jstr option" where
  "decode_2047_bytes encoding text =
     (if encoding = js ''B'' \<or> encoding = js ''b'' then
        if \<exists>c\<in>set text. \<not> (c = 32 \<or> is_b64 c \<or> c = 61) then Inr None
        else bindE (decode_base64 text False) (\<lambda>(buffer, _). Inr (Some buffer))
      else if encoding = js ''Q'' \<or> encoding = js ''q'' then
        Inr (Some (fst (decode_qp (map (\<lambda>c. if c = ord CHR ''_'' then 32 else c) text) False)))
      else Inr None)"

definition flush_decoder :: "'d charset_api \<Rightarrow> 'd words_state \<Rightarrow> js_error + (jstr \<times> 'd words_state)" where
  "flush_decoder api st =
     (case current_decoder st of
        None \<Rightarrow> Inr ([], st)
      | Some d \<Rightarrow> bindE (run_decoder api d [] False) (\<lambda>(out, _).
          Inr (out, st\<lparr>current_decoder := None\<rparr>)))"

definition decode_2047_token ::
  "'d charset_api \<Rightarrow> jstr \<Rightarrow> bool \<Rightarrow> 'd words_state \<Rightarrow> js_error + (jstr option \<times> 'd words_state)" where
  "decode_2047_token api token is_last st =
     (let parts = split_on 63 token in
      if length parts \<noteq> 5 \<or> parts ! 4 \<noteq> js ''='' then Inr (None, st)
      else
        let charset = charset_of_token (parts ! 1) in
        bindE (decode_2047_bytes (parts ! 2) (parts ! 3)) (\<lambda>buf.
          case buf of
            None \<Rightarrow> Inr (None, st)
          | Some buffer \<Rightarrow>
              bindE (if charset \<noteq> last_charset st then flush_decoder api st else Inr ([], st))
                (\<lambda>(out, st1).
                  let st2 = st1\<lparr>last_charset := charset\<rparr> in
                  case (case current_decoder st2 of
                          None \<Rightarrow> new_decoder api charset False
                        | Some d \<Rightarrow> Inr d) of
                    Inl _ \<Rightarrow> Inr (None, st2)
                  | Inr d \<Rightarrow>
                      let stream = \<not> (is_last \<or> to_upper charset = js ''ISO-2022-JP''
                            \<and> ends_with [27, 40, 66] buffer) in
                      bindE (run_decoder api d (string_to_typed_array buffer) stream) (\<lambda>(txt, d').
                        Inr (Some (out @ txt), st2\<lparr>current_decoder := Some d'\<rparr>)))))"

definition is_2047_component :: "jstr \<Rightarrow> bool" where
  "is_2047_component c \<longleftrightarrow> take 2 c = js ''=?''"

lemma is_2047_component_Nil [simp]: "\<not> is_2047_component []"
  by (simp add: is_2047_component_def)

text \<open>The second loop over \<open>components\<close>; its result is the concatenation that \<open>join\<close> makes.\<close>

fun decode_components ::
  "'d charset_api \<Rightarrow> nat option \<Rightarrow> nat \<Rightarrow> jstr list \<Rightarrow> 'd words_state \<Rightarrow> js_error + jstr" where
  "decode_components api last_index i [] st = Inr []"
| "decode_components api last_index i (c # cs) st =
     (let plain = (\<lambda>st1.
            bindE (flush_decoder api (st1\<lparr>last_charset := []\<rparr>)) (\<lambda>(out, st2).
              bindE (decode_components api last_index (Suc i) cs st2) (\<lambda>rest.
                Inr (out @ c @ rest)))) in
      if is_2047_component c then
        bindE (decode_2047_token api c (last_index = Some i) st) (\<lambda>(decoded, st1).
          case decoded of
            Some out \<Rightarrow> bindE (decode_components api last_index (Suc i) cs st1) (\<lambda>rest.
              Inr (out @ rest))
          | None \<Rightarrow> plain st1)
      else if \<forall>x\<in>set c. is_wsp x then decode_components api last_index (Suc i) cs st
      else plain st)"

fun last_component :: "nat \<Rightarrow> jstr list \<Rightarrow> nat option" where
  "last_component i [] = None"
| "last_component i (c # cs) =
     (case last_component (Suc i) cs of
        Some j \<Rightarrow> Some j
      | None \<Rightarrow> if is_2047_component c then Some i else None)"

definition decode_rfc2047_words :: "'d charset_api \<Rightarrow> jstr \<Rightarrow> js_error + jstr" where
  "decode_rfc2047_words api header_value =
     (let components = split_2047 [] header_value
      in decode_components api (last_component 0 components) 0 components
           \<lparr>last_charset = [], current_decoder = None\<rparr>)"

subsection \<open>Text without encoded-words\<close>

lemma enc_word_rest_no_eq: "c \<noteq> 61 \<Longrightarrow> enc_word_rest (c # s) = None"
  by (simp add: enc_word_rest_def)

fun has_eq_question :: "jstr \<Rightarrow> bool" where
  "has_eq_question (a # b # s) = (a = 61 \<and> b = 63 \<or> has_eq_question (b # s))"
| "has_eq_question _ = False"

lemma has_eq_question_Cons: "\<not> has_eq_question (c # s) \<Longrightarrow> \<not> has_eq_question s"
  by (cases s) auto

lemma enc_word_rest_None:
  "\<not> has_eq_question s \<Longrightarrow> enc_word_rest s = None"
  by (cases s; cases "tl s") (auto simp: enc_word_rest_def)

lemma split_2047_plain: "\<not> has_eq_question s \<Longrightarrow> split_2047 acc s = [acc @ s]"
proof (induction s arbitrary: acc)
  case (Cons c s)
  then have "enc_word_rest (c # s) = None" by (intro enc_word_rest_None)
  moreover have "\<not> has_eq_question s" using Cons.prems by (rule has_eq_question_Cons)
  ultimately show ?case using Cons.IH [of "acc @ [c]"] by simp
qed simp

lemma not_2047_component: "\<not> has_eq_question s \<Longrightarrow> \<not> is_2047_component s"
  by (cases s; cases "tl s") (auto simp: is_2047_component_def)

lemma decode_rfc2047_words_plain:
  assumes "\<not> has_eq_question s"
  shows "decode_rfc2047_words api s = Inr (if \<forall>c\<in>set s. is_wsp c then [] else s)"
  using assms not_2047_component [OF assms]
  by (simp add: decode_rfc2047_words_def split_2047_plain flush_decoder_def)

lemma decode_rfc2047_words_text:
  "\<not> has_eq_question s \<Longrightarrow> c \<in> set s \<Longrightarrow> \<not> is_wsp c \<Longrightarrow> decode_rfc2047_words api s = Inr s"
  by (auto simp: decode_rfc2047_words_plain)

text \<open>One encoded-word on its own: the token is all there is, and the decoder is flushed with it.\<close>

definition enc_word :: "jstr \<Rightarrow> jchar \<Rightarrow> jstr \<Rightarrow> jstr" where
  "enc_word charset e text = js ''=?'' @ charset @ [63, e, 63] @ text @ js ''?=''"

lemma dropWhile_question: "63 \<notin> set s \<Longrightarrow> dropWhile (\<lambda>c. c \<noteq> 63) (s @ 63 # t) = 63 # t"
  by (induction s) auto

lemma enc_word_rest_enc_word:
  assumes "63 \<notin> set charset" "63 \<notin> set text" "is_2047_encoding e"
  shows "enc_word_rest (enc_word charset e text @ r) = Some r"
  using assms by (simp add: enc_word_rest_def enc_word_def dropWhile_question Let_def)

lemma split_2047_enc_word:
  assumes "63 \<notin> set charset" "63 \<notin> set text" "is_2047_encoding e"
  shows "split_2047 [] (enc_word charset e text @ r) = [] # enc_word charset e text # split_2047 [] r"
proof -
  obtain c s where w: "enc_word charset e text = c # s" by (simp add: enc_word_def)
  have "enc_word_rest (c # s @ r) = Some r"
    using enc_word_rest_enc_word [OF assms] w by simp
  then show ?thesis by (simp add: w)
qed

lemma split_on_enc_word:
  assumes "63 \<notin> set charset" "63 \<notin> set text" "is_2047_encoding e"
  shows "split_on 63 (enc_word charset e text) = [[61], charset, [e], text, [61]]"
proof -
  have e: "e \<noteq> 63" using assms(3) by (auto simp: is_2047_encoding_def)
  have "split_on 63 (enc_word charset e text) = split_on 63 ([61] @ 63 # charset @ 63 # [e] @ 63 # text @ 63 # [61])"
    by (simp add: enc_word_def)
  also have "\<dots> = [[61], charset, [e], text, [61]]"
    using assms e by (subst split_on_append, simp)+ simp
  finally show ?thesis .
qed

lemma is_2047_component_enc_word [simp]: "is_2047_component (enc_word charset e text)"
  by (simp add: is_2047_component_def enc_word_def)

lemma decode_rfc2047_words_one:
  assumes "63 \<notin> set charset" "42 \<notin> set charset" "63 \<notin> set text" "is_2047_encoding e"
    and "charset \<noteq> []"
    and "decode_2047_bytes [e] text = Inr (Some buffer)"
    and "new_decoder api charset False = Inr d"
    and "run_decoder api d (string_to_typed_array buffer) False = Inr (txt, d')"
  shows "decode_rfc2047_words api (enc_word charset e text) = Inr txt"
  using assms split_2047_enc_word [of charset "text" e "[]"]
  by (simp add: decode_rfc2047_words_def decode_2047_token_def split_on_enc_word Let_def
      charset_of_token_def split_on_notin flush_decoder_def)

section \<open>8-bit headers\<close>

definition is_utf_label :: "jstr \<Rightarrow> bool" where
  "is_utf_label cs \<longleftrightarrow> starts_with (js ''utf'') (to_lower cs)"

text \<open>
  \<open>fallback\<close> is \<open>fallbackCharset\<close>, \<open>None\<close> for \<open>null\<close> or \<open>undefined\<close>; the empty string is
  falsy too.  A decoder that throws gets the header value back unchanged.
\<close>

definition decode_once :: "'d charset_api \<Rightarrow> jstr \<Rightarrow> bool \<Rightarrow> jstr \<Rightarrow> js_error + jstr" where
  "decode_once api cs fatal bytes =
     bindE (new_decoder api cs fatal) (\<lambda>d.
       bindE (run_decoder api d (string_to_typed_array bytes) False) (\<lambda>(txt, _). Inr txt))"

definition convert_8bit_header :: "'d charset_api \<Rightarrow> jstr \<Rightarrow> jstr option \<Rightarrow> js_error + jstr" where
  "convert_8bit_header api header_value fallback =
     (if \<exists>c\<in>set header_value. in_range 0x80 0xFF c then
        let has_fallback = (case fallback of None \<Rightarrow> False
                            | Some f \<Rightarrow> f \<noteq> [] \<and> \<not> is_utf_label f) in
        bindE (new_decoder api (js ''utf-8'') has_fallback) (\<lambda>d.
          case run_decoder api d (string_to_typed_array header_value) False of
            Inr (txt, _) \<Rightarrow> Inr txt
          | Inl _ \<Rightarrow>
              (case (case fallback of
                       None \<Rightarrow> Inl (UnknownCharset [])
                     | Some f \<Rightarrow> decode_once api f False header_value) of
                 Inr txt \<Rightarrow> Inr txt
               | Inl _ \<Rightarrow> Inr header_value))
      else Inr header_value)"

lemma convert_8bit_header_ascii:
  "\<forall>c\<in>set s. c < 128 \<Longrightarrow> convert_8bit_header api s fallback = Inr s"
  by (auto simp: convert_8bit_header_def in_range_def)

section \<open>The tokenizer\<close>

text \<open>
  A token is a delimiter character or a piece of text: an atom, a quoted string, a domain
  literal or decoded encoded-words.  \<open>Token\<close> removes the backslashes of quoted pairs.
\<close>

datatype token = Delim jchar | Tok jstr

fun unescape :: "jstr \<Rightarrow> jstr" where
  "unescape [] = []"
| "unescape (c # s) =
     (if c = 92 then (case s of [] \<Rightarrow> [] | d # r \<Rightarrow> d # unescape r) else c # unescape s)"

definition mk_token :: "jstr \<Rightarrow> token" where
  "mk_token t = Tok (unescape t)"

record token_opts =
  opt_qstring :: bool
  opt_dliteral :: bool
  opt_comments :: bool
  opt_rfc2047 :: bool

definition no_opts :: token_opts where
  "no_opts = \<lparr>opt_qstring = False, opt_dliteral = False, opt_comments = False, opt_rfc2047 = False\<rparr>"

record token_state =
  token_start :: "nat option"
  end_quote :: "jchar option"
  comment_depth :: nat
  token_list :: "token list"

definition push_token :: "token \<Rightarrow> token_state \<Rightarrow> token_state" where
  "push_token t st = st\<lparr>token_list := token_list st @ [t]\<rparr>"

text \<open>
  \<open>/([ \t\r\n]*=\?[^?]*\?[BbQq]\?[^?]*\?=)+/.exec(value.slice(i))\<close>: the length of the
  leftmost match.  The expression is not anchored, so the match may begin after the
  position \<open>i\<close> itself; the code only uses its length.
\<close>

definition spaced_word_rest :: "jstr \<Rightarrow> jstr option" where
  "spaced_word_rest s = enc_word_rest (dropWhile is_wsp s)"

lemma spaced_word_rest_length: "spaced_word_rest s = Some r \<Longrightarrow> length r < length s"
  using enc_word_rest_length length_dropWhile_le [of is_wsp s]
  by (fastforce simp: spaced_word_rest_def)

function spaced_words_rest :: "jstr \<Rightarrow> jstr" where
  "spaced_words_rest s =
     (case spaced_word_rest s of None \<Rightarrow> s | Some r \<Rightarrow> spaced_words_rest r)"
  by pat_completeness auto
termination
  by (relation "measure length") (auto dest: spaced_word_rest_length)

declare spaced_words_rest.simps [simp del]

fun enc_words_len :: "jstr \<Rightarrow> nat option" where
  "enc_words_len [] = None"
| "enc_words_len (c # s) =
     (case spaced_word_rest (c # s) of
        Some r \<Rightarrow> Some (length (c # s) - length (spaced_words_rest r))
      | None \<Rightarrow> enc_words_len s)"

lemma spaced_words_rest_length: "length (spaced_words_rest s) \<le> length s"
proof (induction s rule: spaced_words_rest.induct)
  case (1 s)
  then show ?case
    by (subst spaced_words_rest.simps)
       (fastforce dest: spaced_word_rest_length split: option.splits)
qed

lemma enc_words_len_pos: "enc_words_len s = Some n \<Longrightarrow> 0 < n \<and> n \<le> length s"
proof (induction s)
  case (Cons c s)
  show ?case
  proof (cases "spaced_word_rest (c # s)")
    case None
    with Cons show ?thesis by simp
  next
    case (Some r)
    then have "length r < length (c # s)" by (rule spaced_word_rest_length)
    with Some Cons.prems spaced_words_rest_length [of r] show ?thesis by auto
  qed
qed simp

text \<open>
  The analysis of one character outside quotes and encoded-words: the flags
  \<open>tokenIsEnding\<close>, \<open>tokenIsStarting\<close>, \<open>isSpecial\<close> and the new \<open>endQuote\<close> and
  \<open>commentDepth\<close>.
\<close>

record char_action =
  is_ending :: bool
  is_starting :: bool
  is_special :: bool
  new_quote :: "jchar option"
  new_depth :: nat

definition classify :: "jstr \<Rightarrow> token_opts \<Rightarrow> nat \<Rightarrow> jchar \<Rightarrow> char_action" where
  "classify delimiters opts depth ch =
     (let act = (\<lambda>e s sp q d. \<lparr>is_ending = e, is_starting = s, is_special = sp,
                   new_quote = q, new_depth = d\<rparr>) in
      if is_wsp ch then act True False False None depth
      else if depth = 0 \<and> ch \<in> set delimiters then act True False True None depth
      else if opt_qstring opts \<and> ch = 34 then act True True False (Some 34) depth
      else if opt_dliteral opts \<and> ch = 91 then act True True False (Some 93) depth
      else if opt_comments opts \<and> ch = 40 then
        (if depth + 1 = 1 then act True False True None (depth + 1)
         else act False True False None (depth + 1))
      else if opt_comments opts \<and> ch = 41 then
        (let d = depth - 1
         in if d = 0 then act True False True None d else act False True False None d)
      else act False True False None depth)"

text \<open>What the loop does with the flags, at position \<open>i\<close>.\<close>

definition apply_action :: "jstr \<Rightarrow> nat \<Rightarrow> jchar \<Rightarrow> char_action \<Rightarrow> token_state \<Rightarrow> token_state" where
  "apply_action value i ch a st =
     (let st1 = st\<lparr>end_quote := new_quote a, comment_depth := new_depth a\<rparr>;
          st2 = (case token_start st1 of
                   Some b \<Rightarrow> if is_ending a
                             then push_token (mk_token (slice b i value)) (st1\<lparr>token_start := None\<rparr>)
                             else st1
                 | None \<Rightarrow> st1);
          st3 = (if is_special a then push_token (Delim ch) st2 else st2)
      in if is_starting a \<and> token_start st3 = None then st3\<lparr>token_start := Some i\<rparr> else st3)"

text \<open>
  A character inside a quoted string or a domain literal whose end is \<open>q\<close>; \<open>b\<close> is
  \<open>tokenStart\<close>, which is set whenever \<open>endQuote\<close> is.
\<close>

definition quoted_step ::
  "'d charset_api \<Rightarrow> token_opts \<Rightarrow> jstr \<Rightarrow> nat \<Rightarrow> jchar \<Rightarrow> jchar \<Rightarrow> token_state \<Rightarrow> js_error + token_state" where
  "quoted_step api opts value i ch q st =
     (let b = (case token_start st of Some b \<Rightarrow> b | None \<Rightarrow> 0);
          st' = st\<lparr>end_quote := None, token_start := None\<rparr> in
      if ch = q \<and> ch = 34 then
        bindE (if opt_rfc2047 opts then decode_rfc2047_words api (slice (b + 1) i value)
               else Inr (slice (b + 1) i value))
          (\<lambda>text. Inr (push_token (mk_token text) st'))
      else if ch = q \<and> ch = 93 then
        Inr (push_token (mk_token (slice b (i + 1) value)) st')
      else Inr st)"

text \<open>
  One round of the loop at position \<open>i\<close>.  The first component of the result is how many
  positions the body skips beyond the loop's own increment.
\<close>

definition token_step ::
  "'d charset_api \<Rightarrow> token_opts \<Rightarrow> jstr \<Rightarrow> jstr \<Rightarrow> nat \<Rightarrow> token_state \<Rightarrow> js_error + (nat \<times> token_state)" where
  "token_step api opts delimiters value i st =
     (let ch = value ! i in
      if ch = 92 then Inr (1, st)
      else case end_quote st of
        Some q \<Rightarrow> bindE (quoted_step api opts value i ch q st) (\<lambda>st'. Inr (0, st'))
      | None \<Rightarrow>
          (case (if opt_rfc2047 opts \<and> ch = 61 \<and> i + 1 < length value \<and> value ! (i + 1) = 63
                 then enc_words_len (drop i value) else None) of
             Some n \<Rightarrow>
               let st1 = (case token_start st of
                            Some b \<Rightarrow> push_token (mk_token (slice b i value)) (st\<lparr>token_start := None\<rparr>)
                          | None \<Rightarrow> st) in
               bindE (decode_rfc2047_words api (slice i (i + n) value)) (\<lambda>string.
                 Inr (n - 1, push_token (Tok string) st1))
           | None \<Rightarrow>
               Inr (0, apply_action value i ch (classify delimiters opts (comment_depth st) ch) st)))"

function token_loop ::
  "'d charset_api \<Rightarrow> token_opts \<Rightarrow> jstr \<Rightarrow> jstr \<Rightarrow> nat \<Rightarrow> token_state \<Rightarrow> js_error + token_state" where
  "token_loop api opts delimiters value i st =
     (if i < length value then
        bindE (token_step api opts delimiters value i st) (\<lambda>(skip, st').
          token_loop api opts delimiters value (i + 1 + skip) st')
      else Inr st)"
  by pat_completeness auto
termination
  by (relation "measure (\<lambda>(api, opts, ds, value, i, st). length value - i)") auto

declare token_loop.simps [simp del]

definition finish_tokens :: "jstr \<Rightarrow> token_state \<Rightarrow> token list" where
  "finish_tokens value st =
     (case token_start st of
        None \<Rightarrow> token_list st
      | Some b \<Rightarrow>
          if end_quote st = Some 34 then token_list st @ [mk_token (drop (b + 1) value)]
          else token_list st @ [mk_token (drop b value)])"

definition init_tokens :: token_state where
  "init_tokens = \<lparr>token_start = None, end_quote = None, comment_depth = 0, token_list = []\<rparr>"

definition get_header_tokens ::
  "'d charset_api \<Rightarrow> jstr \<Rightarrow> jstr \<Rightarrow> token_opts \<Rightarrow> js_error + token list" where
  "get_header_tokens api value delimiters opts =
     bindE (token_loop api opts delimiters value 0 init_tokens) (\<lambda>st. Inr (finish_tokens value st))"

section \<open>Reading a header piece by piece\<close>

text \<open>
  The loop works on positions of the whole header.  These lemmas give its effect on a
  header that is cut into pieces: an atom, white space, a delimiter, a quoted string.
\<close>

definition atom_char :: "token_opts \<Rightarrow> jstr \<Rightarrow> jchar \<Rightarrow> bool" where
  "atom_char opts delimiters c \<longleftrightarrow>
     c \<noteq> 92 \<and> \<not> is_wsp c \<and> c \<notin> set delimiters \<and> c \<noteq> 34 \<and> c \<noteq> 91
     \<and> c \<noteq> 40 \<and> c \<noteq> 41 \<and> c \<noteq> 61"

lemma unescape_id: "92 \<notin> set s \<Longrightarrow> unescape s = s"
  by (induction s) auto

lemma unescape_escape: "(\<And>c. c = 92 \<Longrightarrow> Q c) \<Longrightarrow> unescape (escape Q s) = s"
  by (induction s) auto

lemma nth_at: "(pre @ c # post) ! length pre = c"
  by simp

lemma token_loop_end: "length value \<le> i \<Longrightarrow> token_loop api opts ds value i st = Inr st"
  by (simp add: token_loop.simps)

lemma token_loop_step:
  "token_loop api opts ds (pre @ c # post) (length pre) st =
     bindE (token_step api opts ds (pre @ c # post) (length pre) st) (\<lambda>(skip, st').
       token_loop api opts ds (pre @ c # post) (length pre + 1 + skip) st')"
  by (simp add: token_loop.simps [of api opts ds "pre @ c # post" "length pre" st])

lemma token_step_plain:
  assumes "c \<noteq> 92" "c \<noteq> 61" "end_quote st = None"
  shows "token_step api opts ds (pre @ c # post) (length pre) st =
     Inr (0, apply_action (pre @ c # post) (length pre) c
               (classify ds opts (comment_depth st) c) st)"
  using assms by (simp add: token_step_def nth_at)

lemma classify_atom:
  "atom_char opts ds c \<Longrightarrow> classify ds opts d c =
     \<lparr>is_ending = False, is_starting = True, is_special = False, new_quote = None, new_depth = d\<rparr>"
  by (simp add: classify_def atom_char_def Let_def)

lemma classify_wsp:
  "is_wsp c \<Longrightarrow> classify ds opts d c =
     \<lparr>is_ending = True, is_starting = False, is_special = False, new_quote = None, new_depth = d\<rparr>"
  by (simp add: classify_def Let_def)

lemma classify_delim:
  "c \<in> set ds \<Longrightarrow> \<not> is_wsp c \<Longrightarrow> classify ds opts 0 c =
     \<lparr>is_ending = True, is_starting = False, is_special = True, new_quote = None, new_depth = 0\<rparr>"
  by (simp add: classify_def Let_def)

lemma classify_quote:
  "opt_qstring opts \<Longrightarrow> 34 \<notin> set ds \<Longrightarrow> classify ds opts d 34 =
     \<lparr>is_ending = True, is_starting = True, is_special = False, new_quote = Some 34, new_depth = d\<rparr>"
  by (simp add: classify_def Let_def is_wsp_def)

text \<open>Inside an atom nothing changes; at its first character its start is noted.\<close>

lemma token_loop_in_atom:
  assumes "\<forall>c\<in>set a. atom_char opts ds c"
    and "end_quote st = None" and "token_start st = Some b"
  shows "token_loop api opts ds (pre @ a @ post) (length pre) st =
         token_loop api opts ds (pre @ a @ post) (length pre + length a) st"
  using assms
proof (induction a arbitrary: pre)
  case (Cons c a)
  then have c: "atom_char opts ds c" by simp
  then have n: "c \<noteq> 92" "c \<noteq> 61" by (auto simp: atom_char_def)
  have st: "apply_action v i c \<lparr>is_ending = False, is_starting = True, is_special = False,
      new_quote = None, new_depth = comment_depth st\<rparr> st = st" for v i
    using Cons.prems by (cases st) (simp add: apply_action_def)
  have "token_loop api opts ds (pre @ c # a @ post) (length pre) st =
        token_loop api opts ds ((pre @ [c]) @ a @ post) (length (pre @ [c])) st"
    unfolding token_loop_step
    using st by (simp add: token_step_plain [OF n Cons.prems(2)] classify_atom [OF c])
  also have "\<dots> = token_loop api opts ds ((pre @ [c]) @ a @ post) (length (pre @ [c]) + length a) st"
    using Cons by (intro Cons.IH) auto
  finally show ?case by simp
qed simp

lemma token_loop_atom:
  assumes "\<forall>c\<in>set a. atom_char opts ds c" and "a \<noteq> []"
    and "end_quote st = None" and "token_start st = None"
  shows "token_loop api opts ds (pre @ a @ post) (length pre) st =
         token_loop api opts ds (pre @ a @ post) (length pre + length a)
           (st\<lparr>token_start := Some (length pre)\<rparr>)"
proof -
  obtain c a' where a: "a = c # a'" using assms(2) by (cases a) auto
  then have c: "atom_char opts ds c" using assms(1) by simp
  then have n: "c \<noteq> 92" "c \<noteq> 61" by (auto simp: atom_char_def)
  have st: "apply_action v i c \<lparr>is_ending = False, is_starting = True, is_special = False,
      new_quote = None, new_depth = comment_depth st\<rparr> st = st\<lparr>token_start := Some i\<rparr>" for v i
    using assms by (cases st) (simp add: apply_action_def)
  have "token_loop api opts ds (pre @ c # a' @ post) (length pre) st =
        token_loop api opts ds ((pre @ [c]) @ a' @ post) (length (pre @ [c]))
          (st\<lparr>token_start := Some (length pre)\<rparr>)"
    unfolding token_loop_step
    using st by (simp add: token_step_plain [OF n assms(3)] classify_atom [OF c])
  also have "\<dots> = token_loop api opts ds ((pre @ [c]) @ a' @ post) (length (pre @ [c]) + length a')
          (st\<lparr>token_start := Some (length pre)\<rparr>)"
    using assms a by (intro token_loop_in_atom) auto
  finally show ?thesis by (simp add: a)
qed

text \<open>The open token, if any, is pushed by white space and by a delimiter.\<close>

definition close_token :: "jstr \<Rightarrow> nat \<Rightarrow> token_state \<Rightarrow> token_state" where
  "close_token value i st =
     (case token_start st of
        None \<Rightarrow> st
      | Some b \<Rightarrow> push_token (mk_token (slice b i value)) (st\<lparr>token_start := None\<rparr>))"

lemma close_token_simps [simp]:
  "token_start (close_token value i st) = None"
  "end_quote (close_token value i st) = end_quote st"
  "comment_depth (close_token value i st) = comment_depth st"
  by (auto simp: close_token_def push_token_def split: option.splits)

lemma push_token_simps [simp]:
  "token_start (push_token t st) = token_start st"
  "end_quote (push_token t st) = end_quote st"
  "comment_depth (push_token t st) = comment_depth st"
  "token_list (push_token t st) = token_list st @ [t]"
  by (simp_all add: push_token_def)

lemma token_loop_wsp:
  assumes "is_wsp c" "end_quote st = None"
  shows "token_loop api opts ds (pre @ c # post) (length pre) st =
         token_loop api opts ds (pre @ c # post) (Suc (length pre))
           (close_token (pre @ c # post) (length pre) st)"
proof -
  have n: "c \<noteq> 92" "c \<noteq> 61" using assms(1) by (auto simp: is_wsp_def)
  have "apply_action v i c \<lparr>is_ending = True, is_starting = False, is_special = False,
      new_quote = None, new_depth = comment_depth st\<rparr> st = close_token v i st" for v i
    using assms(2)
    by (cases st) (simp add: apply_action_def close_token_def push_token_def split: option.splits)
  then show ?thesis
    unfolding token_loop_step
    by (simp add: token_step_plain [OF n assms(2)] classify_wsp [OF assms(1)])
qed

lemma token_loop_delim:
  assumes "c \<in> set ds" "\<not> is_wsp c" "c \<noteq> 92" "c \<noteq> 61" "end_quote st = None" "comment_depth st = 0"
  shows "token_loop api opts ds (pre @ c # post) (length pre) st =
         token_loop api opts ds (pre @ c # post) (Suc (length pre))
           (push_token (Delim c) (close_token (pre @ c # post) (length pre) st))"
proof -
  have "apply_action v i c \<lparr>is_ending = True, is_starting = False, is_special = True,
      new_quote = None, new_depth = 0\<rparr> st = push_token (Delim c) (close_token v i st)" for v i
    using assms
    by (cases st) (simp add: apply_action_def close_token_def push_token_def split: option.splits)
  then show ?thesis
    unfolding token_loop_step
    using assms(6)
    by (simp add: token_step_plain [OF assms(3,4,5)] classify_delim [OF assms(1,2)])
qed

text \<open>A quoted string is read to its end whatever it holds, when its quotes are escaped.\<close>

lemma token_loop_in_quote:
  assumes "end_quote st = Some 34" and "\<And>c. c = 34 \<or> c = 92 \<Longrightarrow> Q c"
  shows "token_loop api opts ds (pre @ escape Q s @ post) (length pre) st =
         token_loop api opts ds (pre @ escape Q s @ post) (length pre + length (escape Q s)) st"
proof (induction s arbitrary: pre)
  case (Cons c s)
  show ?case
  proof (cases "Q c")
    case True
    have "token_loop api opts ds (pre @ 92 # c # escape Q s @ post) (length pre) st =
          token_loop api opts ds ((pre @ [92, c]) @ escape Q s @ post) (length (pre @ [92, c])) st"
      unfolding token_loop_step [of api opts ds pre 92] by (simp add: token_step_def nth_at)
    also have "\<dots> = token_loop api opts ds ((pre @ [92, c]) @ escape Q s @ post)
        (length (pre @ [92, c]) + length (escape Q s)) st"
      by (rule Cons.IH)
    finally show ?thesis using True by simp
  next
    case False
    then have n: "c \<noteq> 34" "c \<noteq> 92" using assms(2) by auto
    have "token_loop api opts ds (pre @ c # escape Q s @ post) (length pre) st =
          token_loop api opts ds ((pre @ [c]) @ escape Q s @ post) (length (pre @ [c])) st"
      unfolding token_loop_step [of api opts ds pre c]
      using n assms(1) by (simp add: token_step_def nth_at quoted_step_def Let_def)
    also have "\<dots> = token_loop api opts ds ((pre @ [c]) @ escape Q s @ post)
        (length (pre @ [c]) + length (escape Q s)) st"
      by (rule Cons.IH)
    finally show ?thesis using False by simp
  qed
qed simp

lemma slice_middle: "slice (length pre) (length pre + length a) (pre @ a @ post) = a"
  by (simp add: slice_def)

lemma token_loop_quoted:
  assumes "opt_qstring opts" "34 \<notin> set ds" "end_quote st = None"
    and Q: "\<And>c. c = 34 \<or> c = 92 \<Longrightarrow> Q c"
    and dec: "(if opt_rfc2047 opts then decode_rfc2047_words api (escape Q s)
               else Inr (escape Q s)) = Inr (escape Q s)"
  shows "token_loop api opts ds (pre @ 34 # escape Q s @ 34 # post) (length pre) st =
         token_loop api opts ds (pre @ 34 # escape Q s @ 34 # post)
           (length pre + length (escape Q s) + 2)
           (push_token (Tok s) (close_token (pre @ 34 # escape Q s @ 34 # post) (length pre) st))"
proof -
  let ?v = "pre @ 34 # escape Q s @ 34 # post"
  let ?st1 = "(close_token ?v (length pre) st)\<lparr>end_quote := Some 34, token_start := Some (length pre)\<rparr>"
  have "apply_action ?v (length pre) 34 \<lparr>is_ending = True, is_starting = True, is_special = False,
      new_quote = Some 34, new_depth = comment_depth st\<rparr> st = ?st1"
    using assms(3)
    by (cases st) (simp add: apply_action_def close_token_def push_token_def split: option.splits)
  then have 1: "token_loop api opts ds ?v (length pre) st = token_loop api opts ds ?v (Suc (length pre)) ?st1"
    unfolding token_loop_step
    using assms(3) by (simp add: token_step_plain classify_quote [OF assms(1,2)])
  have v: "?v = (pre @ [34]) @ escape Q s @ 34 # post" by simp
  have 2: "token_loop api opts ds ?v (Suc (length pre)) ?st1 =
      token_loop api opts ds ?v (Suc (length pre) + length (escape Q s)) ?st1"
    using token_loop_in_quote [of ?st1 Q api opts ds "pre @ [34]" s "34 # post"] Q by simp
  have sl: "slice (Suc (length pre)) (Suc (length pre + length (escape Q s))) ?v = escape Q s"
    using slice_middle [of "pre @ [34]" "escape Q s" "34 # post"] by simp
  have e: "(close_token ?v (length pre) st)\<lparr>end_quote := None, token_start := None\<rparr>
      = close_token ?v (length pre) st"
    using assms(3) by (cases st) (auto simp: close_token_def push_token_def split: option.splits)
  have q: "quoted_step api opts ?v (Suc (length pre) + length (escape Q s)) 34 34 ?st1 =
      Inr (push_token (Tok s) (close_token ?v (length pre) st))"
    using dec Q unescape_escape [of Q s] e
    by (auto simp: quoted_step_def sl mk_token_def Let_def split: if_splits)
  have v': "?v = ((pre @ [34]) @ escape Q s) @ 34 # post" by simp
  have l: "length ((pre @ [34]) @ escape Q s) = Suc (length pre) + length (escape Q s)" by simp
  have 3: "token_loop api opts ds ?v (Suc (length pre) + length (escape Q s)) ?st1 =
      token_loop api opts ds ?v (Suc (length pre) + length (escape Q s) + 1)
        (push_token (Tok s) (close_token ?v (length pre) st))"
    using token_loop_step [of api opts ds "(pre @ [34]) @ escape Q s" 34 post ?st1] q
    unfolding v' [symmetric] l
    by (simp add: token_step_def nth_append)
  show ?thesis using 1 2 3 by simp
qed

text \<open>
  \<open>lexes s ts\<close>: wherever the piece \<open>s\<close> stands in a header, reading it from a state with
  nothing open adds the tokens \<open>ts\<close> and leaves nothing open.
\<close>

definition lexes :: "'d charset_api \<Rightarrow> token_opts \<Rightarrow> jstr \<Rightarrow> jstr \<Rightarrow> token list \<Rightarrow> bool" where
  "lexes api opts ds s ts \<longleftrightarrow>
     (\<forall>pre post st. token_start st = None \<and> end_quote st = None \<and> comment_depth st = 0 \<longrightarrow>
        token_loop api opts ds (pre @ s @ post) (length pre) st =
        token_loop api opts ds (pre @ s @ post) (length pre + length s)
          (st\<lparr>token_list := token_list st @ ts\<rparr>))"

lemma lexesI:
  assumes "\<And>pre post st. token_start st = None \<Longrightarrow> end_quote st = None \<Longrightarrow> comment_depth st = 0 \<Longrightarrow>
        token_loop api opts ds (pre @ s @ post) (length pre) st =
        token_loop api opts ds (pre @ s @ post) (length pre + length s)
          (st\<lparr>token_list := token_list st @ ts\<rparr>)"
  shows "lexes api opts ds s ts"
  using assms by (simp add: lexes_def)

lemma lexesD:
  assumes "lexes api opts ds s ts"
    and "token_start st = None" "end_quote st = None" "comment_depth st = 0"
  shows "token_loop api opts ds (pre @ s @ post) (length pre) st =
         token_loop api opts ds (pre @ s @ post) (length pre + length s)
           (st\<lparr>token_list := token_list st @ ts\<rparr>)"
  using assms unfolding lexes_def by blast

lemma lexes_Nil: "lexes api opts ds [] []"
  by (rule lexesI) simp

lemma lexes_append:
  assumes "lexes api opts ds s ts" and "lexes api opts ds s' ts'"
  shows "lexes api opts ds (s @ s') (ts @ ts')"
proof (rule lexesI)
  fix pre post and st :: token_state
  assume st: "token_start st = None" "end_quote st = None" "comment_depth st = 0"
  let ?st1 = "st\<lparr>token_list := token_list st @ ts\<rparr>"
  have "token_loop api opts ds (pre @ s @ s' @ post) (length pre) st =
      token_loop api opts ds (pre @ s @ s' @ post) (length pre + length s) ?st1"
    using lexesD [OF assms(1) st, of pre "s' @ post"] by simp
  also have "\<dots> = token_loop api opts ds (pre @ s @ s' @ post) (length pre + length s + length s')
      (?st1\<lparr>token_list := token_list ?st1 @ ts'\<rparr>)"
    using lexesD [OF assms(2), of ?st1 "pre @ s" post] st by simp
  finally show "token_loop api opts ds (pre @ (s @ s') @ post) (length pre) st =
      token_loop api opts ds (pre @ (s @ s') @ post) (length pre + length (s @ s'))
        (st\<lparr>token_list := token_list st @ ts @ ts'\<rparr>)"
    by (simp add: add.assoc)
qed

lemma lexes_wsp: "is_wsp c \<Longrightarrow> lexes api opts ds [c] []"
  by (rule lexesI) (simp add: token_loop_wsp close_token_def)

lemma lexes_delim:
  assumes "c \<in> set ds" "\<not> is_wsp c" "c \<noteq> 92" "c \<noteq> 61"
  shows "lexes api opts ds [c] [Delim c]"
  by (rule lexesI) (simp add: token_loop_delim [OF assms] close_token_def push_token_def)

lemma mk_token_atom: "\<forall>c\<in>set a. atom_char opts ds c \<Longrightarrow> mk_token a = Tok a"
  by (auto simp: mk_token_def atom_char_def intro!: unescape_id)

lemma token_loop_atom_then:
  assumes "\<forall>c\<in>set a. atom_char opts ds c" "a \<noteq> []"
    and "token_start st = None" "end_quote st = None"
  shows "token_loop api opts ds (pre @ a @ c # post) (length pre) st =
         token_loop api opts ds ((pre @ a) @ c # post) (length (pre @ a))
           (st\<lparr>token_start := Some (length pre)\<rparr>)"
    and "close_token ((pre @ a) @ c # post) (length (pre @ a)) (st\<lparr>token_start := Some (length pre)\<rparr>)
         = st\<lparr>token_list := token_list st @ [Tok a]\<rparr>"
proof -
  show "token_loop api opts ds (pre @ a @ c # post) (length pre) st =
         token_loop api opts ds ((pre @ a) @ c # post) (length (pre @ a))
           (st\<lparr>token_start := Some (length pre)\<rparr>)"
    using token_loop_atom [OF assms(1,2,4,3), of api pre "c # post"] by simp
  have "slice (length pre) (length pre + length a) (pre @ a @ c # post) = a"
    by (rule slice_middle)
  then show "close_token ((pre @ a) @ c # post) (length (pre @ a)) (st\<lparr>token_start := Some (length pre)\<rparr>)
         = st\<lparr>token_list := token_list st @ [Tok a]\<rparr>"
    using assms(3) mk_token_atom [OF assms(1)]
    by (cases st) (simp add: close_token_def push_token_def)
qed

lemma lexes_atom_wsp:
  assumes "\<forall>c\<in>set a. atom_char opts ds c" "a \<noteq> []" "is_wsp c"
  shows "lexes api opts ds (a @ [c]) [Tok a]"
proof (rule lexesI)
  fix pre post and st :: token_state
  assume st: "token_start st = None" "end_quote st = None" "comment_depth st = 0"
  show "token_loop api opts ds (pre @ (a @ [c]) @ post) (length pre) st =
      token_loop api opts ds (pre @ (a @ [c]) @ post) (length pre + length (a @ [c]))
        (st\<lparr>token_list := token_list st @ [Tok a]\<rparr>)"
    using token_loop_atom_then(1) [OF assms(1,2) st(1,2), of api pre c post]
      token_loop_atom_then(2) [OF assms(1,2) st(1,2), of pre c post]
      token_loop_wsp [OF assms(3), where st = "st\<lparr>token_start := Some (length pre)\<rparr>"
        and api = api and opts = opts and ds = ds and pre = "pre @ a" and post = post] st
    by simp
qed

lemma lexes_atom_delim:
  assumes "\<forall>c\<in>set a. atom_char opts ds c" "a \<noteq> []"
    and "c \<in> set ds" "\<not> is_wsp c" "c \<noteq> 92" "c \<noteq> 61"
  shows "lexes api opts ds (a @ [c]) [Tok a, Delim c]"
proof (rule lexesI)
  fix pre post and st :: token_state
  assume st: "token_start st = None" "end_quote st = None" "comment_depth st = 0"
  show "token_loop api opts ds (pre @ (a @ [c]) @ post) (length pre) st =
      token_loop api opts ds (pre @ (a @ [c]) @ post) (length pre + length (a @ [c]))
        (st\<lparr>token_list := token_list st @ [Tok a, Delim c]\<rparr>)"
    using token_loop_atom_then(1) [OF assms(1,2) st(1,2), of api pre c post]
      token_loop_atom_then(2) [OF assms(1,2) st(1,2), of pre c post]
      token_loop_delim [OF assms(3-6), where st = "st\<lparr>token_start := Some (length pre)\<rparr>"
        and api = api and opts = opts and pre = "pre @ a" and post = post] st
    by (simp add: push_token_def)
qed

lemma lexes_quoted:
  assumes "opt_qstring opts" "34 \<notin> set ds"
    and "\<And>c. c = 34 \<or> c = 92 \<Longrightarrow> Q c"
    and "(if opt_rfc2047 opts then decode_rfc2047_words api (escape Q s)
          else Inr (escape Q s)) = Inr (escape Q s)"
  shows "lexes api opts ds (34 # escape Q s @ [34]) [Tok s]"
proof (rule lexesI)
  fix pre post and st :: token_state
  assume st: "token_start st = None" "end_quote st = None" "comment_depth st = 0"
  show "token_loop api opts ds (pre @ (34 # escape Q s @ [34]) @ post) (length pre) st =
      token_loop api opts ds (pre @ (34 # escape Q s @ [34]) @ post)
        (length pre + length (34 # escape Q s @ [34]))
        (st\<lparr>token_list := token_list st @ [Tok s]\<rparr>)"
    using token_loop_quoted [OF assms(1,2) st(2) assms(3,4), of pre post] st
    by (simp add: close_token_def push_token_def)
qed

lemma get_header_tokens_lexes:
  assumes "lexes api opts ds s ts"
  shows "get_header_tokens api s ds opts = Inr ts"
  using lexesD [OF assms, of init_tokens "[]" "[]"]
  by (simp add: get_header_tokens_def init_tokens_def token_loop_end finish_tokens_def)

lemma get_header_tokens_lexes_atom:
  assumes "lexes api opts ds s ts" and "\<forall>c\<in>set a. atom_char opts ds c" and "a \<noteq> []"
  shows "get_header_tokens api (s @ a) ds opts = Inr (ts @ [Tok a])"
proof -
  let ?st = "init_tokens\<lparr>token_list := ts\<rparr>"
  have "token_loop api opts ds (s @ a) 0 init_tokens = token_loop api opts ds (s @ a) (length s) ?st"
    using lexesD [OF assms(1), of init_tokens "[]" a] by (simp add: init_tokens_def)
  also have "\<dots> = Inr (?st\<lparr>token_start := Some (length s)\<rparr>)"
    using token_loop_atom [OF assms(2,3), of ?st api s "[]"]
    by (simp add: init_tokens_def token_loop_end)
  finally show ?thesis
    using mk_token_atom [OF assms(2)]
    by (simp add: get_header_tokens_def finish_tokens_def init_tokens_def)
qed

text \<open>
  A quoted string gives one text token with exactly the quoted text, even when the text is
  made of delimiters: no part of it can be taken for the structure of the header.
\<close>

lemma get_header_tokens_quoted:
  assumes "opt_qstring opts" "\<not> opt_rfc2047 opts" "34 \<notin> set ds"
  shows "get_header_tokens api (34 # escape (\<lambda>c. c = 34 \<or> c = 92) s @ [34]) ds opts = Inr [Tok s]"
  using assms lexes_quoted [of opts ds "\<lambda>c. c = 34 \<or> c = 92" api s]
  by (intro get_header_tokens_lexes) simp

section \<open>Properties\<close>

text \<open>An instance of the charset decoders for the examples: one charset, ISO-8859-1.\<close>

definition latin1_api :: "unit charset_api" where
  "latin1_api = \<lparr>new_decoder = (\<lambda>label fatal.
       if to_lower label = js ''iso-8859-1'' then Inr () else Inl (UnknownCharset label)),
     run_decoder = (\<lambda>d bytes stream. Inr (bytes, ()))\<rparr>"

text \<open>a quoted string is one token with exactly the quoted text, whatever delimiters, brackets
  or comments it contains: no part of it is taken for the structure of the header.\<close>

theorem quoted_string_one_token:
  assumes "opt_qstring opts" "\<not> opt_rfc2047 opts" "34 \<notin> set ds"
  shows "get_header_tokens api (34 # escape (\<lambda>c. c = 34 \<or> c = 92) s @ [34]) ds opts = Inr [Tok s]"
  using assms by (rule get_header_tokens_quoted)

theorem quoted_string_one_token_witness:
  "get_header_tokens latin1_api (34 # escape (\<lambda>c. c = 34 \<or> c = 92) (js ''a;b=(c'') @ [34]) (js '';='')
     (no_opts\<lparr>opt_qstring := True\<rparr>) = Inr [Tok (js ''a;b=(c'')]"
  by (rule quoted_string_one_token) (simp_all add: no_opts_def)

text \<open>an RFC 2047 encoded word in B encoding of any bytes is decoded to what the decoder of its
  charset makes of exactly these bytes.\<close>

theorem encoded_word_B:
  assumes "63 \<notin> set charset" "42 \<notin> set charset" "charset \<noteq> []" "binary s"
    and "new_decoder api charset False = Inr d" "run_decoder api d s False = Inr (t, d')"
  shows "decode_rfc2047_words api (enc_word charset 66 (btoa s)) = Inr t"
proof (rule decode_rfc2047_words_one [OF assms(1,2) _ _ assms(3) _ assms(5)])
  have chars: "list_all (\<lambda>c. is_b64 c \<or> c = 61) (btoa s)" by (rule btoa_b64 [OF assms(4)])
  then show "63 \<notin> set (btoa s)" by (auto simp: list_all_iff is_b64_def is_digit_def is_upper_def is_lower_def)
  show "is_2047_encoding 66" by (simp add: is_2047_encoding_def)
  have "\<forall>c\<in>set (btoa s). c = 32 \<or> is_b64 c \<or> c = 61" using chars by (auto simp: list_all_iff)
  then show "decode_2047_bytes [66] (btoa s) = Inr (Some s)"
    using decode_base64_btoa [OF assms(4), of False] by (auto simp: decode_2047_bytes_def)
  show "run_decoder api d (string_to_typed_array s) False = Inr (t, d')"
    using assms(4,6) by (simp add: string_to_typed_array_id)
qed

theorem encoded_word_B_witness:
  "decode_rfc2047_words latin1_api (enc_word (js ''ISO-8859-1'') 66 (btoa [72, 246]))  = Inr [72, 246]"
  by (rule encoded_word_B [where d = "()" and d' = "()"])
    (simp_all add: latin1_api_def to_lower_def lower_char_def is_upper_def)

section \<open>Cleaning code point by code point\<close>

text \<open>The invisible characters of Unicode, as code points.\<close>

definition space_point :: "nat \<Rightarrow> bool" where
  "space_point c \<longleftrightarrow> c \<in> {0xA0, 0x1680, 0x202F, 0x205F, 0x3000} \<or> 0x2000 \<le> c \<and> c \<le> 0x200A"

definition blank_point :: "nat \<Rightarrow> bool" where
  "blank_point c \<longleftrightarrow> c \<in> {0x034F, 0x17B4, 0x17B5} \<or> 0x180B \<le> c \<and> c \<le> 0x180D
     \<or> 0xFE00 \<le> c \<and> c \<le> 0xFE0F \<or> 0xE0100 \<le> c \<and> c \<le> 0xE01EF"

definition control_point :: "nat \<Rightarrow> bool" where
  "control_point c \<longleftrightarrow> c < 0x20 \<and> c \<notin> {9, 10, 13} \<or> 0x7F \<le> c \<and> c \<le> 0x9F"

definition format_point :: "nat \<Rightarrow> bool" where
  "format_point c \<longleftrightarrow> c \<in> {0xAD, 0x061C, 0x06DD, 0x070F, 0x08E2, 0x180E, 0xFEFF, 0x110BD, 0x110CD, 0xE0001}
     \<or> 0x200B \<le> c \<and> c \<le> 0x200F \<or> 0x202A \<le> c \<and> c \<le> 0x202E \<or> 0x2060 \<le> c \<and> c \<le> 0x2064
     \<or> 0x2066 \<le> c \<and> c \<le> 0x206F \<or> 0xFFF9 \<le> c \<and> c \<le> 0xFFFB \<or> 0x13430 \<le> c \<and> c \<le> 0x13438
     \<or> 0x1BCA0 \<le> c \<and> c \<le> 0x1BCA3 \<or> 0x1D173 \<le> c \<and> c \<le> 0x1D17A \<or> 0xE0020 \<le> c \<and> c \<le> 0xE007F"

definition clean_point :: "nat \<Rightarrow> nat list" where
  "clean_point c =
     (if space_point c \<or> format_point c then [32] else if blank_point c \<or> control_point c then [] else [c])"

definition utf16_text :: "nat list \<Rightarrow> jstr" where
  "utf16_text cs = concat (map utf16 cs)"

lemma utf16_text_simps [simp]:
  "utf16_text [] = []" "utf16_text (c # cs) = utf16 c @ utf16_text cs"
  by (simp_all add: utf16_text_def)

text \<open>A code point is one unit that is no surrogate, or a pair.\<close>

lemma utf16_cases:
  assumes "scalar_value c"
  obtains "c < 0x10000" "utf16 c = [c]" "\<not> (0xD800 \<le> c \<and> c \<le> 0xDFFF)"
  | q r where "c = 0x10000 + q * 1024 + r" "q < 1024" "r < 1024" "utf16 c = [0xD800 + q, 0xDC00 + r]"
proof (cases "c < 0x10000")
  case True
  with assms that(1) show ?thesis
    by (auto simp: scalar_value_def high_surrogate_def low_surrogate_def utf16_def)
next
  case False
  let ?n = "c - 65536"
  have "c < 1114112" using assms by (simp add: scalar_value_def)
  then have "?n div 1024 < 1024" by (simp add: less_mult_imp_div_less)
  moreover have "c = 0x10000 + ?n div 1024 * 1024 + ?n mod 1024" using False by simp
  ultimately show ?thesis using that(2) [of "?n div 1024" "?n mod 1024"] False by (simp add: utf16_def)
qed

lemmas unit_defs = is_separator_def is_blank_mark_def is_control_def is_format_def in_range_def
lemmas point_defs = space_point_def blank_point_def control_point_def format_point_def

lemma clean_spaces:
  "\<forall>c\<in>set cs. scalar_value c \<Longrightarrow>
     map (\<lambda>c. if is_separator c then 32 else c) (utf16_text cs)
       = utf16_text (map (\<lambda>c. if space_point c then 32 else c) cs)"
proof (induction cs)
  case (Cons c cs)
  then have "scalar_value c" by simp
  then have "map (\<lambda>c. if is_separator c then 32 else c) (utf16 c) = utf16 (if space_point c then 32 else c)"
  proof (cases rule: utf16_cases)
    case 1
    then show ?thesis by (auto simp: unit_defs point_defs utf16_def)
  next
    case (2 q r)
    then show ?thesis by (auto simp: unit_defs point_defs)
  qed
  with Cons show ?case by simp
qed simp

lemma filter_utf16:
  assumes "\<And>c. c < 0x10000 \<Longrightarrow> P c = Q c" "\<And>c. 0x10000 \<le> c \<Longrightarrow> \<not> Q c"
    and "\<And>c. 0xD800 \<le> c \<Longrightarrow> c \<le> 0xDFFF \<Longrightarrow> \<not> P c"
  shows "\<forall>c\<in>set cs. scalar_value c \<Longrightarrow>
    filter (\<lambda>c. \<not> P c) (utf16_text cs) = utf16_text (filter (\<lambda>c. \<not> Q c) cs)"
proof (induction cs)
  case (Cons c cs)
  then have "scalar_value c" by simp
  then have "filter (\<lambda>c. \<not> P c) (utf16 c) = (if Q c then [] else utf16 c)"
  proof (cases rule: utf16_cases)
    case 1
    then show ?thesis by (simp add: assms(1))
  next
    case (2 q r)
    have "\<not> P (0xD800 + q)" "\<not> P (0xDC00 + r)" using 2(2,3) by (intro assms(3); simp)+
    moreover have "\<not> Q c" using 2(1) by (intro assms(2)) simp
    ultimately show ?thesis unfolding 2(4) by simp
  qed
  with Cons show ?case by simp
qed simp

lemma pair_range:
  fixes q r k lo hi :: nat
  assumes "r < 1024" "hi < 1024"
  shows "0x10000 + k * 1024 + lo \<le> 0x10000 + q * 1024 + r \<and> 0x10000 + q * 1024 + r \<le> 0x10000 + k * 1024 + hi
    \<longleftrightarrow> q = k \<and> lo \<le> r \<and> r \<le> hi"
proof (cases "q = k")
  case False
  then consider "q < k" | "k < q" by linarith
  then show ?thesis using assms by cases linarith+
qed simp

lemma drop_blank_single: "c \<noteq> 0xDB40 \<Longrightarrow> drop_blank_pairs (c # s) = c # drop_blank_pairs s"
  by (cases s) simp_all

lemma clean_blank_pairs:
  "\<forall>c\<in>set cs. scalar_value c \<Longrightarrow>
     drop_blank_pairs (utf16_text cs) = utf16_text (filter (\<lambda>c. \<not> (0xE0100 \<le> c \<and> c \<le> 0xE01EF)) cs)"
proof (induction cs)
  case (Cons c cs)
  then have "scalar_value c" by simp
  then show ?case
  proof (cases rule: utf16_cases)
    case 1
    then have "c \<noteq> 0xDB40" by auto
    with 1 Cons show ?thesis by (simp add: drop_blank_single)
  next
    case (2 q r)
    have "0xD800 + q = 0xDB40 \<and> in_range 0xDD00 0xDDEF (0xDC00 + r) \<longleftrightarrow> 0xE0100 \<le> c \<and> c \<le> 0xE01EF"
      using pair_range [OF 2(3), of "0x1EF" 832 "0x100" q] unfolding 2(1) in_range_def by auto
    moreover have "0xDC00 + r \<noteq> 0xDB40" by simp
    ultimately show ?thesis using Cons 2(4) by (simp add: drop_blank_single del: One_nat_def)
  qed
qed simp

lemma blank_format_single:
  assumes "\<And>b. \<not> is_format_pair c b"
  shows "blank_format (c # s) = (if is_format c then 32 else c) # blank_format s"
  using assms by (cases s) auto

lemma high_format:
  assumes "r < 1024"
  shows "format_point (0x10000 + q * 1024 + r) \<longleftrightarrow>
     q = 4 \<and> 0xBD \<le> r \<and> r \<le> 0xBD
     \<or> q = 4 \<and> 0xCD \<le> r \<and> r \<le> 0xCD
     \<or> q = 832 \<and> 1 \<le> r \<and> r \<le> 1
     \<or> q = 13 \<and> 0x30 \<le> r \<and> r \<le> 0x38
     \<or> q = 47 \<and> 0xA0 \<le> r \<and> r \<le> 0xA3
     \<or> q = 52 \<and> 0x173 \<le> r \<and> r \<le> 0x17A
     \<or> q = 832 \<and> 0x20 \<le> r \<and> r \<le> 0x7F"
proof -
  let ?c = "0x10000 + q * 1024 + r"
  have "format_point c \<longleftrightarrow> 0x110BD \<le> c \<and> c \<le> 0x110BD \<or> 0x110CD \<le> c \<and> c \<le> 0x110CD
      \<or> 0xE0001 \<le> c \<and> c \<le> 0xE0001 \<or> 0x13430 \<le> c \<and> c \<le> 0x13438
      \<or> 0x1BCA0 \<le> c \<and> c \<le> 0x1BCA3 \<or> 0x1D173 \<le> c \<and> c \<le> 0x1D17A
      \<or> 0xE0020 \<le> c \<and> c \<le> 0xE007F" if "0x10000 \<le> c" for c
    using that by (auto simp: format_point_def)
  from this [of ?c] have "format_point ?c \<longleftrightarrow> 0x110BD \<le> ?c \<and> ?c \<le> 0x110BD \<or> 0x110CD \<le> ?c \<and> ?c \<le> 0x110CD
      \<or> 0xE0001 \<le> ?c \<and> ?c \<le> 0xE0001 \<or> 0x13430 \<le> ?c \<and> ?c \<le> 0x13438
      \<or> 0x1BCA0 \<le> ?c \<and> ?c \<le> 0x1BCA3 \<or> 0x1D173 \<le> ?c \<and> ?c \<le> 0x1D17A
      \<or> 0xE0020 \<le> ?c \<and> ?c \<le> 0xE007F" by (simp only: le_add1 add.assoc simp_thms)
  moreover have
    "0x110BD \<le> ?c \<and> ?c \<le> 0x110BD \<longleftrightarrow> q = 4 \<and> 0xBD \<le> r \<and> r \<le> 0xBD"
    "0x110CD \<le> ?c \<and> ?c \<le> 0x110CD \<longleftrightarrow> q = 4 \<and> 0xCD \<le> r \<and> r \<le> 0xCD"
    "0xE0001 \<le> ?c \<and> ?c \<le> 0xE0001 \<longleftrightarrow> q = 832 \<and> 1 \<le> r \<and> r \<le> 1"
    "0x13430 \<le> ?c \<and> ?c \<le> 0x13438 \<longleftrightarrow> q = 13 \<and> 0x30 \<le> r \<and> r \<le> 0x38"
    "0x1BCA0 \<le> ?c \<and> ?c \<le> 0x1BCA3 \<longleftrightarrow> q = 47 \<and> 0xA0 \<le> r \<and> r \<le> 0xA3"
    "0x1D173 \<le> ?c \<and> ?c \<le> 0x1D17A \<longleftrightarrow> q = 52 \<and> 0x173 \<le> r \<and> r \<le> 0x17A"
    "0xE0020 \<le> ?c \<and> ?c \<le> 0xE007F \<longleftrightarrow> q = 832 \<and> 0x20 \<le> r \<and> r \<le> 0x7F"
    using pair_range [OF assms, of "0xBD" 4 "0xBD" q] pair_range [OF assms, of "0xCD" 4 "0xCD" q]
      pair_range [OF assms, of 1 832 1 q] pair_range [OF assms, of "0x38" 13 "0x30" q]
      pair_range [OF assms, of "0xA3" 47 "0xA0" q] pair_range [OF assms, of "0x17A" 52 "0x173" q]
      pair_range [OF assms, of "0x7F" 832 "0x20" q]
    by simp_all
  ultimately show ?thesis by (simp only:)
qed

lemma clean_formats:
  "\<forall>c\<in>set cs. scalar_value c \<Longrightarrow>
     blank_format (utf16_text cs) = utf16_text (map (\<lambda>c. if format_point c then 32 else c) cs)"
proof (induction cs)
  case (Cons c cs)
  then have IH: "blank_format (utf16_text cs) = utf16_text (map (\<lambda>c. if format_point c then 32 else c) cs)"
    by simp
  from Cons have "scalar_value c" by simp
  then show ?case
  proof (cases rule: utf16_cases)
    case 1
    then have "\<not> is_format_pair c b" for b by (auto simp: is_format_pair_def)
    moreover have "is_format c = format_point c" using 1(1) by (auto simp: unit_defs point_defs)
    ultimately show ?thesis using 1(1,2) IH by (simp add: blank_format_single utf16_def)
  next
    case (2 q r)
    let ?h = "0xD800 + q" and ?l = "0xDC00 + r"
    have no: "\<not> is_format ?h" "\<not> is_format ?l" "\<And>b. \<not> is_format_pair ?l b"
      using 2(2,3) by (auto simp: unit_defs is_format_pair_def)
    have pair: "is_format_pair ?h ?l \<longleftrightarrow> format_point c"
      unfolding high_format [OF 2(3)] 2(1) is_format_pair_def in_range_def by auto
    have "utf16 32 = [32]" by (simp add: utf16_def)
    then show ?thesis using 2(4) IH no pair blank_format_single [OF no(3), of "utf16_text cs"] by simp
  qed
qed simp

lemma scalar_after: "\<forall>c\<in>set cs. scalar_value c \<Longrightarrow> \<forall>c\<in>set (map (\<lambda>c. if P c then 32 else c) cs). scalar_value c"
  by (auto simp: scalar_value_def high_surrogate_def low_surrogate_def)

lemma clean_point_steps:
  "map (\<lambda>c. if format_point c then 32 else c)
     (filter (\<lambda>c. \<not> control_point c) (filter (\<lambda>c. \<not> (0xE0100 \<le> c \<and> c \<le> 0xE01EF))
       (filter (\<lambda>c. \<not> (blank_point c \<and> c < 0x10000)) (map (\<lambda>c. if space_point c then 32 else c) cs))))
   = concat (map clean_point cs)"
proof (induction cs)
  case (Cons c cs)
  have "\<not> blank_point 32" "\<not> control_point 32" "\<not> format_point 32" by (simp_all add: point_defs)
  moreover have "format_point c \<Longrightarrow> \<not> blank_point c" "format_point c \<Longrightarrow> \<not> control_point c"
    by (auto simp: format_point_def blank_point_def control_point_def)
  moreover have "0xE0100 \<le> c \<and> c \<le> 0xE01EF \<longleftrightarrow> blank_point c \<and> \<not> c < 0x10000"
    by (auto simp: blank_point_def)
  ultimately show ?case using Cons.IH
    by (cases "space_point c"; cases "format_point c"; cases "blank_point c"; cases "control_point c")
      (auto simp: clean_point_def)
qed simp

lemma clean_token_text:
  assumes "\<forall>c\<in>set cs. scalar_value c"
  shows "clean_token (utf16_text cs) = utf16_text (concat (map clean_point cs))"
proof -
  let ?a = "map (\<lambda>c. if space_point c then 32 else c) cs"
  let ?b = "filter (\<lambda>c. \<not> (blank_point c \<and> c < 0x10000)) ?a"
  let ?c = "filter (\<lambda>c. \<not> (0xE0100 \<le> c \<and> c \<le> 0xE01EF)) ?b"
  let ?d = "filter (\<lambda>c. \<not> control_point c) ?c"
  note a = scalar_after [OF assms, of space_point]
  then have b: "\<forall>c\<in>set ?b. scalar_value c" and c: "\<forall>c\<in>set ?c. scalar_value c"
    and d: "\<forall>c\<in>set ?d. scalar_value c" by auto
  have "filter (\<lambda>c. \<not> is_blank_mark c) (utf16_text ?a) = utf16_text ?b"
    using a by (intro filter_utf16) (auto simp: unit_defs point_defs)
  moreover have "filter (\<lambda>c. \<not> is_control c) (utf16_text ?c) = utf16_text ?d"
    using c by (intro filter_utf16) (auto simp: unit_defs point_defs)
  ultimately have "clean_token (utf16_text cs)
      = utf16_text (map (\<lambda>c. if format_point c then 32 else c) ?d)"
    unfolding clean_token_def Let_def clean_spaces [OF assms]
    by (simp only: clean_blank_pairs [OF b] clean_formats [OF d])
  then show ?thesis unfolding clean_point_steps .
qed

text \<open>C26: cleaning a token treats the invisible characters of Unicode one by one: of a well-formed
  UTF-16 text, whatever code points it has, each separator and each format character becomes
  a space, each mark that shows as blank and each control character other than TAB, LF and CR goes,
  and every other code point stays as it is.  That covers the code points above U+FFFF, which the
  code removes as pairs of surrogates.\<close>

theorem clean_token_safe:
  assumes "\<forall>c\<in>set cs. scalar_value c"
  shows "clean_token (utf16_text cs) = utf16_text (concat (map clean_point cs))"
  using assms by (rule clean_token_text)

theorem clean_token_safe_witness:
  "clean_token (utf16_text [97, 0x200E, 0xE0101, 98, 0xE0020, 0x1F600])
     = utf16_text [97, 32, 98, 32, 0x1F600]"
proof -
  have ok: "\<forall>c\<in>set [97, 0x200E, 0xE0101, 98, 0xE0020, 0x1F600]. scalar_value c" by code_simp
  have "concat (map clean_point [97, 0x200E, 0xE0101, 98, 0xE0020, 0x1F600]) = [97, 32, 98, 32, 0x1F600]"
    by code_simp
  with clean_token_safe [OF ok] show ?thesis by simp
qed

end
