(* ===== verification/AddressParser.thy ===== *)
theory AddressParser
  imports HeaderTokens
begin

text \<open>
  \<open>parseAddressingHeader\<close> of \<open>mailnews/mime/jsmime/jsmime.js\<close>: the state machine that
  turns the tokens of a \<open>From\<close>, \<open>To\<close> or \<open>Cc\<close> header into mailboxes and groups.  The
  local variables of the function are the fields of \<open>addr_state\<close>; one round of its loop is
  \<open>addr_step\<close>, with the branches in the order of the code.
\<close>

section \<open>Mailboxes, groups and the state of the parser\<close>

record mailbox =
  mb_name :: jstr
  mb_email :: jstr

datatype addr = Address mailbox | Group jstr "mailbox list"

record addr_state =
  results :: "addr list"
  addrlist :: "mailbox list"
  dname :: jstr
  group_name :: jstr
  local_part :: jstr
  address :: jstr
  comment :: jstr
  in_angle :: bool
  in_comment :: bool
  needs_space :: bool
  after_address :: bool
  preserve_space :: bool
  comment_closed :: bool
  last_comment :: jstr

definition init_addr :: addr_state where
  "init_addr = \<lparr>results = [], addrlist = [], dname = [], group_name = [], local_part = [],
     address = [], comment = [], in_angle = False, in_comment = False, needs_space = False,
     after_address = False, preserve_space = False, comment_closed = False, last_comment = []\<rparr>"

section \<open>Adding a mailbox\<close>

text \<open>The characters that force a local part to be quoted: \<open>/[ !()<>\[\]:;@\\,"]/\<close>.\<close>

definition local_special :: "jchar \<Rightarrow> bool" where
  "local_special c \<longleftrightarrow> c \<in> set (js '' !()<>[]:;@,'') \<or> c = 92 \<or> c = 34"

definition local_of :: "jstr \<Rightarrow> jstr" where
  "local_of spec = (case last_index_of 64 spec of None \<Rightarrow> [] | Some i \<Rightarrow> take i spec)"

definition domain_of :: "jstr \<Rightarrow> jstr" where
  "domain_of spec = (case last_index_of 64 spec of None \<Rightarrow> spec | Some i \<Rightarrow> drop i spec)"

definition quote_local :: "jstr \<Rightarrow> jstr" where
  "quote_local spec =
     (if \<exists>c\<in>set (local_of spec). local_special c
      then [34] @ escape (\<lambda>c. c = 92 \<or> c = 34) (local_of spec) @ [34] @ domain_of spec
      else spec)"

definition comment_text :: "jstr \<Rightarrow> jstr" where
  "comment_text lc =
     (let offset = (if hd lc = 32 then 2 else 1) in take (length lc - offset - 1) (drop offset lc))"

definition display_name :: "jstr \<Rightarrow> jstr \<Rightarrow> jstr" where
  "display_name displayName lastComment =
     (let d = trim (collapse js_ws [32] displayName)
      in if d = [] \<and> lastComment \<noteq> [] then comment_text lastComment else d)"

definition add_to_addr_list :: "jstr \<Rightarrow> jstr \<Rightarrow> addr_state \<Rightarrow> addr_state" where
  "add_to_addr_list displayName addrSpec st =
     (let spec = quote_local addrSpec;
          d = display_name displayName (last_comment st);
          l = (if d \<noteq> [] \<or> spec \<noteq> [] then addrlist st @ [\<lparr>mb_name = d, mb_email = spec\<rparr>]
               else addrlist st)
      in st\<lparr>addrlist := l, dname := [], local_part := [], address := [], last_comment := [],
            in_angle := False, in_comment := False, needs_space := False, after_address := False\<rparr>)"

section \<open>One token\<close>

fun token_text :: "token \<Rightarrow> jstr" where
  "token_text (Delim c) = [c]"
| "token_text (Tok t) = t"

definition text_step :: "jstr \<Rightarrow> addr_state \<Rightarrow> addr_state" where
  "text_step raw st =
     (let tok = clean_token raw;
          spaced = (if needs_space st \<and> tok \<noteq> [] \<and> hd tok \<noteq> 46 then 32 # tok else tok);
          st1 = (if in_comment st then st\<lparr>comment := comment st @ spaced\<rparr>
                 else if in_angle st then st\<lparr>address := address st @ spaced\<rparr>
                 else
                   let st2 = (if \<not> after_address st then st\<lparr>dname := dname st @ spaced\<rparr> else st)
                   in if comment_closed st2
                      then st2\<lparr>local_part := local_part st2 @ tok, comment_closed := False\<rparr>
                      else st2\<lparr>local_part := local_part st2 @ spaced\<rparr>)
      in st1\<lparr>needs_space := (tok \<noteq> [] \<and> hd tok \<noteq> 46)\<rparr>)"

definition addr_step :: "addr_state \<Rightarrow> token \<Rightarrow> addr_state" where
  "addr_step st t =
     (if t = Delim (ord CHR '':'') then
        st\<lparr>group_name := dname st, dname := [], local_part := [],
           results := results st @ map Address (addrlist st), addrlist := [], needs_space := False\<rparr>
      else if t = Delim (ord CHR ''<'') \<and> \<not> after_address st then
        (if in_angle st then
           st\<lparr>dname := (if address st \<noteq> [] then address st else dname st),
              local_part := [], address := [], needs_space := False\<rparr>
         else st\<lparr>in_angle := True, needs_space := False\<rparr>)
      else if t = Delim (ord CHR ''>'') \<and> \<not> after_address st then
        st\<lparr>in_angle := False, last_comment := [], after_address := True, needs_space := False\<rparr>
      else if t = Delim (ord CHR ''('') then
        (let sp = needs_space st \<or> (dname st \<noteq> [] \<and> last (dname st) \<noteq> 32)
         in st\<lparr>in_comment := True, preserve_space := needs_space st,
               comment := (if sp then js '' ('' else js ''(''), comment_closed := False,
               needs_space := False\<rparr>)
      else if t = Delim (ord CHR '')'') then
        (let c = comment st @ js '')'';
             st1 = st\<lparr>in_comment := False, comment := c, last_comment := c, comment_closed := True\<rparr>
         in if in_angle st then st1\<lparr>needs_space := preserve_space st\<rparr>
            else st1\<lparr>dname := dname st @ c, needs_space := True\<rparr>)
      else if t = Delim (ord CHR ''@'') then
        (if after_address st then st
         else
           let st1 = (if \<not> in_angle st
                      then st\<lparr>address := local_part st, dname := [], local_part := [], in_angle := True\<rparr>
                      else st)
           in st1\<lparr>address := address st1 @ js ''@'', needs_space := False\<rparr>)
      else if t = Delim (ord CHR '','') then
        (add_to_addr_list (dname st) (address st) st)\<lparr>after_address := False, needs_space := False\<rparr>
      else if t = Delim (ord CHR '';'') then
        (let st1 = add_to_addr_list (dname st) (address st) st;
             r = (if group_name st1 = [] then results st1 @ map Address (addrlist st1)
                  else results st1 @ [Group (group_name st1) (addrlist st1)])
         in st1\<lparr>results := r, addrlist := [], group_name := [], needs_space := False\<rparr>)
      else text_step (token_text t) st)"

definition finish_addr :: "addr_state \<Rightarrow> addr list" where
  "finish_addr st =
     (let st1 = add_to_addr_list (dname st) (address st) st
      in if group_name st1 \<noteq> [] then results st1 @ [Group (group_name st1) (addrlist st1)]
         else results st1 @ map Address (addrlist st1))"

definition addr_opts :: "bool \<Rightarrow> token_opts" where
  "addr_opts do_rfc2047 = \<lparr>opt_qstring = True, opt_dliteral = True, opt_comments = True,
     opt_rfc2047 = do_rfc2047\<rparr>"

definition addr_delims :: jstr where
  "addr_delims = js '':,;<>@''"

definition parse_addressing_header ::
  "'d charset_api \<Rightarrow> jstr \<Rightarrow> bool \<Rightarrow> js_error + addr list" where
  "parse_addressing_header api header do_rfc2047 =
     bindE (get_header_tokens api header addr_delims (addr_opts do_rfc2047)) (\<lambda>tokens.
       Inr (finish_addr (foldl addr_step init_addr tokens)))"

section \<open>What every result satisfies\<close>

text \<open>
  A mailbox of the result is not empty, and a local part that holds a special character
  is between quotes.
\<close>

definition good_mailbox :: "mailbox \<Rightarrow> bool" where
  "good_mailbox m \<longleftrightarrow> (mb_name m \<noteq> [] \<or> mb_email m \<noteq> [])
     \<and> ((\<exists>c\<in>set (local_of (mb_email m)). local_special c) \<longrightarrow>
          hd (local_of (mb_email m)) = 34 \<and> last (local_of (mb_email m)) = 34)"

fun good_addr :: "addr \<Rightarrow> bool" where
  "good_addr (Address m) = good_mailbox m"
| "good_addr (Group n ms) = (n \<noteq> [] \<and> list_all good_mailbox ms)"

definition addr_inv :: "addr_state \<Rightarrow> bool" where
  "addr_inv st \<longleftrightarrow> list_all good_addr (results st) \<and> list_all good_mailbox (addrlist st)"

lemma domain_of_no_more_at:
  assumes "last_index_of 64 spec = Some i"
  shows "drop i spec = 64 # drop (Suc i) spec" and "64 \<notin> set (drop (Suc i) spec)"
proof -
  have "i < length spec \<and> spec ! i = 64" using assms by (rule last_index_of_SomeD)
  then show "drop i spec = 64 # drop (Suc i) spec" by (simp add: Cons_nth_drop_Suc [symmetric])
  show "64 \<notin> set (drop (Suc i) spec)"
    using assms
  proof (induction spec arbitrary: i)
    case (Cons x xs)
    show ?case
    proof (cases "last_index_of 64 xs")
      case None
      with Cons.prems have "i = 0" by (simp split: if_splits)
      with None show ?thesis by (simp add: last_index_of_None_iff)
    next
      case (Some j)
      with Cons show ?thesis by auto
    qed
  qed simp
qed

lemma local_of_quoted:
  assumes "last_index_of 64 spec = Some i"
  shows "local_of (q @ domain_of spec) = q"
proof -
  have d: "domain_of spec = 64 # drop (Suc i) spec"
    using domain_of_no_more_at [OF assms] assms by (simp add: domain_of_def)
  have "last_index_of 64 (q @ domain_of spec) = Some (length q)"
    unfolding d using domain_of_no_more_at [OF assms] by (intro last_index_of_append)
  then show ?thesis by (simp add: local_of_def)
qed

lemma quote_local_good:
  assumes "d \<noteq> [] \<or> quote_local spec \<noteq> []"
  shows "good_mailbox \<lparr>mb_name = d, mb_email = quote_local spec\<rparr>"
proof (cases "\<exists>c\<in>set (local_of spec). local_special c")
  case True
  then obtain i where i: "last_index_of 64 spec = Some i"
    by (cases "last_index_of 64 spec") (auto simp: local_of_def)
  let ?q = "[34] @ escape (\<lambda>c. c = 92 \<or> c = 34) (local_of spec) @ [34]"
  have "quote_local spec = ?q @ domain_of spec" using True by (simp add: quote_local_def)
  then have "local_of (quote_local spec) = ?q"
    using local_of_quoted [OF i, of ?q] by simp
  with assms show ?thesis by (simp add: good_mailbox_def)
next
  case False
  with assms show ?thesis by (simp add: good_mailbox_def quote_local_def)
qed

lemma add_to_addr_list_inv: "addr_inv st \<Longrightarrow> addr_inv (add_to_addr_list d s st)"
  using quote_local_good by (auto simp: addr_inv_def add_to_addr_list_def Let_def)

lemma add_to_addr_list_fields [simp]:
  "results (add_to_addr_list d s st) = results st"
  "group_name (add_to_addr_list d s st) = group_name st"
  "dname (add_to_addr_list d s st) = []"
  "address (add_to_addr_list d s st) = []"
  "local_part (add_to_addr_list d s st) = []"
  "last_comment (add_to_addr_list d s st) = []"
  "in_angle (add_to_addr_list d s st) = False"
  "in_comment (add_to_addr_list d s st) = False"
  "needs_space (add_to_addr_list d s st) = False"
  "after_address (add_to_addr_list d s st) = False"
  "comment_closed (add_to_addr_list d s st) = comment_closed st"
  by (simp_all add: add_to_addr_list_def Let_def)

lemma list_all_good_Address: "list_all good_mailbox ms \<Longrightarrow> list_all good_addr (map Address ms)"
  by (induction ms) auto

lemma text_step_inv: "addr_inv st \<Longrightarrow> addr_inv (text_step t st)"
  by (simp add: addr_inv_def text_step_def Let_def)

lemma addr_step_inv: "addr_inv st \<Longrightarrow> addr_inv (addr_step st t)"
  using add_to_addr_list_inv [of st "dname st" "address st"] text_step_inv [of st]
  by (auto simp: addr_step_def addr_inv_def list_all_good_Address Let_def)

lemma foldl_addr_inv: "addr_inv st \<Longrightarrow> addr_inv (foldl addr_step st ts)"
  by (induction ts arbitrary: st) (auto simp: addr_step_inv)

lemma finish_addr_inv: "addr_inv st \<Longrightarrow> list_all good_addr (finish_addr st)"
  using add_to_addr_list_inv [of st "dname st" "address st"]
  by (auto simp: finish_addr_def addr_inv_def list_all_good_Address Let_def)

lemma parse_addressing_header_good:
  assumes "parse_addressing_header api header b = Inr addrs"
  shows "list_all good_addr addrs"
proof -
  have "addr_inv init_addr" by (simp add: addr_inv_def init_addr_def)
  with assms show ?thesis
    by (auto simp: parse_addressing_header_def bindE_Inr_iff intro: finish_addr_inv foldl_addr_inv)
qed

section \<open>Reading well-formed mailboxes\<close>

text \<open>
  The state between two mailboxes: everything pending is clear, and no group is open.
\<close>

definition clear_state :: "addr_state \<Rightarrow> bool" where
  "clear_state st \<longleftrightarrow> dname st = [] \<and> local_part st = [] \<and> address st = [] \<and> last_comment st = []
     \<and> \<not> in_angle st \<and> \<not> in_comment st \<and> \<not> needs_space st \<and> \<not> after_address st
     \<and> \<not> comment_closed st \<and> group_name st = []"

lemma clear_init: "clear_state init_addr"
  by (simp add: clear_state_def init_addr_def)

text \<open>A word that the parser keeps as it is, with a space in front when one is due.\<close>

definition clean_word :: "jstr \<Rightarrow> bool" where
  "clean_word w \<longleftrightarrow> w \<noteq> [] \<and> hd w \<noteq> 46 \<and> (\<forall>c\<in>set w. printable c)"

text \<open>The branches of \<open>addr_step\<close> that well-formed headers take.\<close>

lemma addr_step_Tok: "addr_step st (Tok t) = text_step t st"
  by (simp add: addr_step_def)

lemma addr_step_angle:
  "\<not> after_address st \<Longrightarrow> \<not> in_angle st \<Longrightarrow>
     addr_step st (Delim 60) = st\<lparr>in_angle := True, needs_space := False\<rparr>"
  by (simp add: addr_step_def)

lemma addr_step_close_angle:
  "\<not> after_address st \<Longrightarrow> addr_step st (Delim 62) =
     st\<lparr>in_angle := False, last_comment := [], after_address := True, needs_space := False\<rparr>"
  by (simp add: addr_step_def)

lemma addr_step_at:
  "\<not> after_address st \<Longrightarrow> addr_step st (Delim 64) =
     (let st1 = (if \<not> in_angle st
                 then st\<lparr>address := local_part st, dname := [], local_part := [], in_angle := True\<rparr>
                 else st)
      in st1\<lparr>address := address st1 @ [64], needs_space := False\<rparr>)"
  by (simp add: addr_step_def)

lemma addr_step_comma:
  "addr_step st (Delim 44) =
     (add_to_addr_list (dname st) (address st) st)\<lparr>after_address := False, needs_space := False\<rparr>"
  by (simp add: addr_step_def)

lemmas addr_step_simps =
  addr_step_Tok addr_step_angle addr_step_close_angle addr_step_at addr_step_comma

lemma clean_word_token: "clean_word w \<Longrightarrow> clean_token w = w"
  by (simp add: clean_word_def clean_token_printable)

lemma join_snoc: "ws \<noteq> [] \<Longrightarrow> join sep (ws @ [w]) = join sep ws @ sep @ w"
  by (induction sep ws rule: join.induct) auto

lemma words_step:
  assumes "clear_state st" and "\<forall>w\<in>set ws. clean_word w" and "ws \<noteq> []"
  shows "foldl addr_step st (map Tok ws) =
    st\<lparr>dname := join [32] ws, local_part := join [32] ws, needs_space := True\<rparr>"
  using assms(2,3)
proof (induction ws rule: rev_induct)
  case (snoc w ws)
  have w: "clean_word w" using snoc.prems by simp
  then have h: "w \<noteq> []" "hd w \<noteq> 46" "clean_token w = w"
    by (auto simp: clean_word_def clean_token_printable)
  show ?case
  proof (cases "ws = []")
    case True
    then show ?thesis
      using assms(1) h by (cases st) (simp add: addr_step_simps text_step_def clear_state_def)
  next
    case False
    then have "foldl addr_step st (map Tok ws) =
        st\<lparr>dname := join [32] ws, local_part := join [32] ws, needs_space := True\<rparr>"
      using snoc by simp
    then show ?thesis
      using assms(1) h False
      by (cases st) (simp add: addr_step_simps text_step_def clear_state_def join_snoc Let_def)
  qed
qed simp

definition mailbox_tokens :: "jstr list \<Rightarrow> jstr \<Rightarrow> jstr \<Rightarrow> token list" where
  "mailbox_tokens ws l d =
     (if ws = [] then [Tok l, Delim 64, Tok d]
      else map Tok ws @ [Delim 60, Tok l, Delim 64, Tok d, Delim 62])"

definition add_mailbox :: "mailbox \<Rightarrow> addr_state \<Rightarrow> addr_state" where
  "add_mailbox m st = st\<lparr>addrlist := addrlist st @ [m]\<rparr>"

definition norm_name :: "jstr \<Rightarrow> bool" where
  "norm_name n \<longleftrightarrow> trim (collapse js_ws [32] n) = n"

lemma mailbox_tokens_step:
  assumes "clear_state st" and "\<forall>w\<in>set ws. clean_word w" and "norm_name (join [32] ws)"
    and "clean_word l" and "\<forall>c\<in>set d. printable c" and "64 \<notin> set d"
  shows "\<exists>st'. foldl addr_step st (mailbox_tokens ws l d) = st'
     \<and> (\<forall>m. m = \<lparr>mb_name = join [32] ws, mb_email = quote_local (l @ 64 # d)\<rparr> \<longrightarrow>
          add_to_addr_list (dname st') (address st') st' = add_mailbox m st)"
proof (cases "ws = []")
  case True
  have l: "l \<noteq> []" "hd l \<noteq> 46" "clean_token l = l" "clean_token d = d"
    using assms by (auto simp: clean_word_def clean_token_printable)
  show ?thesis
    using True assms(1) l
    by (cases st) (simp add: mailbox_tokens_def addr_step_simps text_step_def clear_state_def
        add_to_addr_list_def add_mailbox_def display_name_def quote_local_def trim_def trim_left_def
        Let_def)
next
  case False
  have l: "l \<noteq> []" "hd l \<noteq> 46" "clean_token l = l" "clean_token d = d"
    using assms by (auto simp: clean_word_def clean_token_printable)
  have q: "quote_local (l @ 64 # d) \<noteq> []"
    by (simp add: quote_local_def)
  show ?thesis
    using False assms(1,3) l words_step [OF assms(1,2) False] q
    by (cases st) (simp add: mailbox_tokens_def addr_step_simps text_step_def clear_state_def
        add_to_addr_list_def add_mailbox_def display_name_def norm_name_def Let_def)
qed

lemma clear_add_mailbox: "clear_state st \<Longrightarrow> clear_state (add_mailbox m st)"
  by (simp add: clear_state_def add_mailbox_def)

section \<open>Reading a whole header\<close>

text \<open>
  The source form of a mailbox: a phrase of atoms and quoted strings, then the address in
  angle brackets with a local part that is an atom or a quoted string.  A piece is the text
  with the flag that says whether it is quoted.
\<close>

type_synonym piece = "bool \<times> jstr"
type_synonym source = "piece list \<times> piece \<times> jstr"

fun piece_src :: "piece \<Rightarrow> jstr" where
  "piece_src (q, w) = (if q then 34 # escape (\<lambda>c. c = 34 \<or> c = 92) w @ [34] else w)"

fun mailbox_src :: "source \<Rightarrow> jstr" where
  "mailbox_src (ps, l, d) =
     (if ps = [] then piece_src l @ [64] @ d
      else join [32] (map piece_src ps) @ [32, 60] @ piece_src l @ [64] @ d @ [62])"

fun mailbox_of :: "source \<Rightarrow> mailbox" where
  "mailbox_of (ps, l, d) =
     \<lparr>mb_name = join [32] (map snd ps), mb_email = quote_local (snd l @ 64 # d)\<rparr>"

fun source_tokens :: "source \<Rightarrow> token list" where
  "source_tokens (ps, l, d) = mailbox_tokens (map snd ps) (snd l) d"

fun good_piece :: "piece \<Rightarrow> bool" where
  "good_piece (q, w) \<longleftrightarrow> clean_word w
     \<and> (if q then \<not> has_eq_question w \<and> (\<exists>c\<in>set w. c \<noteq> 32)
        else \<forall>c\<in>set w. atom_char (addr_opts True) addr_delims c)"

fun good_source :: "source \<Rightarrow> bool" where
  "good_source (ps, l, d) \<longleftrightarrow> list_all good_piece ps \<and> norm_name (join [32] (map snd ps))
     \<and> good_piece l \<and> d \<noteq> [] \<and> (\<forall>c\<in>set d. printable c \<and> atom_char (addr_opts True) addr_delims c)"

lemma atom_char_opts: "atom_char opts ds c = atom_char opts' ds c"
  by (simp add: atom_char_def)

lemma has_eq_question_escape:
  "\<not> has_eq_question w \<Longrightarrow> \<not> has_eq_question (escape (\<lambda>c. c = 34 \<or> c = 92) w)"
proof (induction w rule: has_eq_question.induct)
  case (1 a b w)
  then show ?case by auto
qed auto

lemma lexes_piece_quoted:
  assumes "good_piece (True, w)"
  shows "lexes api (addr_opts r) addr_delims (piece_src (True, w)) [Tok w]"
proof -
  let ?Q = "\<lambda>c::nat. c = 34 \<or> c = 92"
  have "\<not> has_eq_question (escape ?Q w)"
    using assms has_eq_question_escape by simp
  moreover obtain c where c: "c \<in> set w" "c \<noteq> 32" using assms by auto
  then have "\<not> is_wsp c" using assms by (auto simp: clean_word_def printable_def is_wsp_def)
  moreover have "c \<in> set (escape ?Q w)" using c set_escape by blast
  ultimately have d: "decode_rfc2047_words api (escape ?Q w) = Inr (escape ?Q w)"
    by (intro decode_rfc2047_words_text)
  have "lexes api (addr_opts r) addr_delims (34 # escape ?Q w @ [34]) [Tok w]"
    by (rule lexes_quoted) (auto simp: addr_opts_def addr_delims_def d)
  then show ?thesis by simp
qed

lemma good_piece_atom:
  "good_piece (False, w) \<Longrightarrow> (\<forall>c\<in>set w. atom_char (addr_opts r) addr_delims c) \<and> w \<noteq> []"
  by (auto simp: clean_word_def atom_char_def)

lemma lexes_piece_space:
  assumes "good_piece p"
  shows "lexes api (addr_opts r) addr_delims (piece_src p @ [32]) [Tok (snd p)]"
proof (cases p)
  case (Pair q w)
  show ?thesis
  proof (cases q)
    case True
    then show ?thesis
      using lexes_append [OF lexes_piece_quoted lexes_wsp [of 32]] assms Pair by fastforce
  next
    case False
    then show ?thesis
      using lexes_atom_wsp [of w "addr_opts r" addr_delims 32 api] good_piece_atom assms Pair by simp
  qed
qed

lemma lexes_piece_delim:
  assumes "good_piece p" and "c \<in> set addr_delims"
  shows "lexes api (addr_opts r) addr_delims (piece_src p @ [c]) [Tok (snd p), Delim c]"
proof (cases p)
  case (Pair q w)
  have c: "\<not> is_wsp c" "c \<noteq> 92" "c \<noteq> 61"
    using assms(2) by (auto simp: addr_delims_def is_wsp_def)
  show ?thesis
  proof (cases q)
    case True
    then show ?thesis
      using lexes_append [OF lexes_piece_quoted lexes_delim [OF assms(2) c]] assms Pair by fastforce
  next
    case False
    then show ?thesis
      using lexes_atom_delim [OF _ _ assms(2) c, of w "addr_opts r" api] good_piece_atom assms Pair
      by simp
  qed
qed

lemma lexes_phrase:
  "list_all good_piece ps \<Longrightarrow> ps \<noteq> [] \<Longrightarrow>
     lexes api (addr_opts r) addr_delims (join [32] (map piece_src ps) @ [32]) (map (\<lambda>p. Tok (snd p)) ps)"
proof (induction ps rule: induct_list012)
  case (2 p)
  then show ?case using lexes_piece_space [of p] by simp
next
  case (3 p p' ps)
  have "lexes api (addr_opts r) addr_delims
      ((piece_src p @ [32]) @ (join [32] (map piece_src (p' # ps)) @ [32]))
      ([Tok (snd p)] @ map (\<lambda>p. Tok (snd p)) (p' # ps))"
    using 3 lexes_piece_space [of p] by (intro lexes_append) auto
  then show ?case by simp
qed simp

lemma good_source_domain:
  "good_source (ps, l, d) \<Longrightarrow> (\<forall>c\<in>set d. atom_char (addr_opts r) addr_delims c) \<and> d \<noteq> []"
  by (auto simp: atom_char_def)

text \<open>All of a mailbox but its end: what follows is the domain atom.\<close>

lemma lexes_head:
  assumes "good_source (ps, l, d)"
  shows "lexes api (addr_opts r) addr_delims
     (if ps = [] then piece_src l @ [64] else join [32] (map piece_src ps) @ [32, 60] @ piece_src l @ [64])
     (if ps = [] then [Tok (snd l), Delim 64]
      else map (\<lambda>p. Tok (snd p)) ps @ [Delim 60, Tok (snd l), Delim 64])"
proof -
  have l: "lexes api (addr_opts r) addr_delims (piece_src l @ [64]) [Tok (snd l), Delim 64]"
    using assms by (intro lexes_piece_delim) (auto simp: addr_delims_def)
  show ?thesis
  proof (cases "ps = []")
    case True
    with l show ?thesis by simp
  next
    case False
    have "lexes api (addr_opts r) addr_delims
        ((join [32] (map piece_src ps) @ [32]) @ [60] @ (piece_src l @ [64]))
        (map (\<lambda>p. Tok (snd p)) ps @ [Delim 60] @ [Tok (snd l), Delim 64])"
      using assms False l
      by (intro lexes_append lexes_phrase lexes_delim) (auto simp: addr_delims_def is_wsp_def)
    with False show ?thesis by simp
  qed
qed

lemma lexes_source_comma:
  assumes "good_source m"
  shows "lexes api (addr_opts r) addr_delims (mailbox_src m @ [44, 32]) (source_tokens m @ [Delim 44])"
proof -
  obtain ps l d where m: "m = (ps, l, d)" by (cases m)
  have d: "\<forall>c\<in>set d. atom_char (addr_opts r) addr_delims c" "d \<noteq> []"
    using good_source_domain assms m by auto
  note h = lexes_head [OF assms [unfolded m], of api r]
  have del: "lexes api (addr_opts r) addr_delims (d @ [c]) [Tok d, Delim c]"
    if "c \<in> set addr_delims" for c
    using that d by (intro lexes_atom_delim) (auto simp: addr_delims_def is_wsp_def)
  have com: "lexes api (addr_opts r) addr_delims [44] [Delim 44]"
    by (rule lexes_delim) (auto simp: addr_delims_def is_wsp_def)
  show ?thesis
  proof (cases "ps = []")
    case True
    have "lexes api (addr_opts r) addr_delims ((piece_src l @ [64]) @ (d @ [44]) @ [32])
        ([Tok (snd l), Delim 64] @ [Tok d, Delim 44] @ [])"
    proof (rule lexes_append [OF _ lexes_append [OF del lexes_wsp]])
      show "lexes api (addr_opts r) addr_delims (piece_src l @ [64]) [Tok (snd l), Delim 64]"
        using h True by simp
    qed (simp_all add: addr_delims_def)
    with m True show ?thesis by (simp add: mailbox_tokens_def comp_def)
  next
    case False
    have "lexes api (addr_opts r) addr_delims
        ((join [32] (map piece_src ps) @ [32, 60] @ piece_src l @ [64]) @ (d @ [62]) @ [44] @ [32])
        ((map (\<lambda>p. Tok (snd p)) ps @ [Delim 60, Tok (snd l), Delim 64]) @ [Tok d, Delim 62] @ [Delim 44] @ [])"
    proof (rule lexes_append [OF _ lexes_append [OF del lexes_append [OF com lexes_wsp]]])
      show "lexes api (addr_opts r) addr_delims
          (join [32] (map piece_src ps) @ [32, 60] @ piece_src l @ [64])
          (map (\<lambda>p. Tok (snd p)) ps @ [Delim 60, Tok (snd l), Delim 64])"
        using h False by simp
    qed (simp_all add: addr_delims_def)
    with m False show ?thesis by (simp add: mailbox_tokens_def comp_def)
  qed
qed

lemma get_tokens_source:
  assumes "good_source m" and "lexes api (addr_opts r) addr_delims s ts"
  shows "get_header_tokens api (s @ mailbox_src m) addr_delims (addr_opts r) = Inr (ts @ source_tokens m)"
proof -
  obtain ps l d where m: "m = (ps, l, d)" by (cases m)
  have d: "\<forall>c\<in>set d. atom_char (addr_opts r) addr_delims c" "d \<noteq> []"
    using good_source_domain assms(1) m by auto
  note h = lexes_append [OF assms(2) lexes_head [OF assms(1) [unfolded m]]]
  show ?thesis
  proof (cases "ps = []")
    case True
    then show ?thesis
      using get_header_tokens_lexes_atom [OF h d] m by (simp add: mailbox_tokens_def)
  next
    case False
    have "lexes api (addr_opts r) addr_delims (d @ [62]) [Tok d, Delim 62]"
      using d by (intro lexes_atom_delim) (auto simp: addr_delims_def is_wsp_def)
    then show ?thesis
      using get_header_tokens_lexes [OF lexes_append [OF h]] m False
      by (fastforce simp: mailbox_tokens_def comp_def)
  qed
qed

lemma source_step:
  assumes "clear_state st" and "good_source m"
  shows "add_to_addr_list (dname (foldl addr_step st (source_tokens m)))
       (address (foldl addr_step st (source_tokens m))) (foldl addr_step st (source_tokens m))
     = add_mailbox (mailbox_of m) st"
proof -
  obtain ps l d where m: "m = (ps, l, d)" by (cases m)
  have "\<forall>w\<in>set (map snd ps). clean_word w" "clean_word (snd l)"
    using assms(2) by (cases l; fastforce simp: m list_all_iff)+
  moreover have "64 \<notin> set d"
    using assms(2) by (auto simp: m atom_char_def addr_delims_def)
  ultimately show ?thesis
    using mailbox_tokens_step [OF assms(1), of "map snd ps" "snd l" d] assms(2) by (simp add: m)
qed

lemma source_comma_step:
  assumes "clear_state st" and "good_source m"
  shows "foldl addr_step st (source_tokens m @ [Delim 44]) = add_mailbox (mailbox_of m) st"
  using source_step [OF assms] assms(1)
  by (cases st) (simp add: addr_step_comma add_mailbox_def clear_state_def)

lemma foldl_sources:
  assumes "clear_state st" and "list_all good_source ms"
  shows "foldl addr_step st (concat (map (\<lambda>m. source_tokens m @ [Delim 44]) ms)) =
     st\<lparr>addrlist := addrlist st @ map mailbox_of ms\<rparr>"
  using assms
proof (induction ms arbitrary: st)
  case (Cons m ms)
  then have c: "clear_state (add_mailbox (mailbox_of m) st)" by (simp add: clear_add_mailbox)
  have "foldl addr_step st (source_tokens m @ [Delim 44]) = add_mailbox (mailbox_of m) st"
    using Cons.prems by (intro source_comma_step) auto
  moreover have "foldl addr_step st (concat (map (\<lambda>m. source_tokens m @ [Delim 44]) (m # ms))) =
      foldl addr_step (foldl addr_step st (source_tokens m @ [Delim 44]))
        (concat (map (\<lambda>m. source_tokens m @ [Delim 44]) ms))"
    by simp
  ultimately show ?case
    using Cons.IH [OF c] Cons.prems by (simp add: add_mailbox_def)
qed simp

lemma lexes_sources:
  "list_all good_source ms \<Longrightarrow>
     lexes api (addr_opts r) addr_delims (concat (map (\<lambda>m. mailbox_src m @ [44, 32]) ms))
       (concat (map (\<lambda>m. source_tokens m @ [Delim 44]) ms))"
proof (induction ms)
  case (Cons m ms)
  then show ?case
    using lexes_append [OF lexes_source_comma [of m]] by fastforce
qed (simp add: lexes_Nil)

lemma join_snoc_concat: "join sep (ws @ [w]) = concat (map (\<lambda>v. v @ sep) ws) @ w"
proof (induction ws)
  case (Cons v ws)
  then show ?case by (cases "ws @ [w]") auto
qed simp

text \<open>
  The parser gives back, in order, every mailbox of a header that is written this way:
  its display name with quoting removed, and its address.
\<close>

lemma parse_addressing_header_sources:
  assumes "list_all good_source ms" and "ms \<noteq> []"
  shows "parse_addressing_header api (join [44, 32] (map mailbox_src ms)) r =
     Inr (map (\<lambda>m. Address (mailbox_of m)) ms)"
proof -
  obtain ns m where ms: "ms = ns @ [m]" using assms(2) by (cases ms rule: rev_cases) auto
  have good: "list_all good_source ns" "good_source m" using assms(1) ms by auto
  have src: "join [44, 32] (map mailbox_src ms) =
      concat (map (\<lambda>m. mailbox_src m @ [44, 32]) ns) @ mailbox_src m"
    by (simp add: ms join_snoc_concat comp_def)
  have toks: "get_header_tokens api (join [44, 32] (map mailbox_src ms)) addr_delims (addr_opts r) =
      Inr (concat (map (\<lambda>m. source_tokens m @ [Delim 44]) ns) @ source_tokens m)"
    unfolding src using good by (intro get_tokens_source lexes_sources)
  let ?st = "init_addr\<lparr>addrlist := map mailbox_of ns\<rparr>"
  have st: "foldl addr_step init_addr (concat (map (\<lambda>m. source_tokens m @ [Delim 44]) ns)) = ?st"
    using foldl_sources [OF clear_init good(1)] by (simp add: init_addr_def)
  have "clear_state ?st" using clear_init by (simp add: clear_state_def)
  from source_step [OF this good(2)]
  have "finish_addr (foldl addr_step ?st (source_tokens m)) =
      map Address (map mailbox_of ns @ [mailbox_of m])"
    by (simp add: finish_addr_def add_mailbox_def init_addr_def del: map_append map_map)
  then show ?thesis
    unfolding parse_addressing_header_def toks by (simp add: st ms comp_def)
qed

section \<open>Properties\<close>

text \<open>C2: every mailbox of a well-formed address header is found again, in order: its display name
  without the quoting, words joined by one space, and its address, with the local part quoted
  again where it needs to be.\<close>

theorem addresses_roundtrip:
  assumes "list_all good_source ms" and "ms \<noteq> []"
  shows "parse_addressing_header api (join [44, 32] (map mailbox_src ms)) r =
     Inr (map (\<lambda>m. Address (mailbox_of m)) ms)"
  using assms by (rule parse_addressing_header_sources)

definition example_sources :: "source list" where
  "example_sources =
     [([(False, js ''John''), (True, js ''Doe, Jr'')], (False, js ''jd''), js ''example.com''),
      ([], (True, js ''a b''), js ''x.org'')]"

theorem addresses_roundtrip_witness:
  "parse_addressing_header latin1_api (join [44, 32] (map mailbox_src example_sources)) True =
     Inr [Address \<lparr>mb_name = js ''John Doe, Jr'', mb_email = js ''jd@example.com''\<rparr>,
          Address \<lparr>mb_name = [], mb_email = [34] @ js ''a b'' @ [34] @ js ''@x.org''\<rparr>]"
proof -
  have "list_all good_source example_sources" "example_sources \<noteq> []" by code_simp+
  from addresses_roundtrip [OF this, of latin1_api True] show ?thesis
    by (simp add: example_sources_def quote_local_def local_of_def domain_of_def local_special_def)
qed

text \<open>C25: whatever the header, no mailbox of the result is empty, every group has a name, and an
  address whose local part has a special character has that local part in quotes.\<close>

theorem addresses_good:
  assumes "parse_addressing_header api header b = Inr addrs"
  shows "list_all good_addr addrs"
  using assms by (rule parse_addressing_header_good)

theorem addresses_good_witness:
  "parse_addressing_header latin1_api (js ''x: a b@c, (d);'') False =
     Inr [Group (js ''x'') [\<lparr>mb_name = [], mb_email = [34] @ js ''a b'' @ [34] @ js ''@c''\<rparr>,
       \<lparr>mb_name = js ''(d)'', mb_email = []\<rparr>]]
   \<and> list_all good_addr [Group (js ''x'') [\<lparr>mb_name = [], mb_email = [34] @ js ''a b'' @ [34] @ js ''@c''\<rparr>,
       \<lparr>mb_name = js ''(d)'', mb_email = []\<rparr>]]"
proof -
  have p: "parse_addressing_header latin1_api (js ''x: a b@c, (d);'') False =
     Inr [Group (js ''x'') [\<lparr>mb_name = [], mb_email = [34] @ js ''a b'' @ [34] @ js ''@c''\<rparr>,
       \<lparr>mb_name = js ''(d)'', mb_email = []\<rparr>]]"
    by code_simp
  show ?thesis using p addresses_good [OF p] by (rule conjI)
qed

end
