(* ===== verification/DateHeader.thy ===== *)
theory DateHeader
  imports AddressParser
begin

text \<open>
  Date headers: \<open>parseDateHeader\<close>, the arithmetic of JavaScript's \<open>Date\<close> objects it uses
  (\<open>Date.UTC\<close> and the getters, as ECMAScript defines them), and the text that
  \<open>HeaderEmitter.addDate\<close> writes.  A time value is an integer number of milliseconds since
  the epoch, \<open>None\<close> stands for \<open>NaN\<close>; numbers are unbounded integers, which agrees with
  doubles on every time value in the range of \<open>Date\<close>.
\<close>

section \<open>Date objects\<close>

definition leap_year :: "int \<Rightarrow> bool" where
  "leap_year y \<longleftrightarrow> y mod 4 = 0 \<and> (y mod 100 \<noteq> 0 \<or> y mod 400 = 0)"

definition day_from_year :: "int \<Rightarrow> int" where
  "day_from_year y =
     365 * (y - 1970) + (y - 1969) div 4 - (y - 1901) div 100 + (y - 1601) div 400"

definition month_starts :: "int list" where
  "month_starts = [0, 31, 59, 90, 120, 151, 181, 212, 243, 273, 304, 334]"

definition month_start :: "int \<Rightarrow> nat \<Rightarrow> int" where
  "month_start y m = month_starts ! m + (if leap_year y \<and> 2 \<le> m then 1 else 0)"

definition time_clip :: "int \<Rightarrow> int option" where
  "time_clip t = (if \<bar>t\<bar> \<le> 8640000000000000 then Some t else None)"

definition date_utc :: "int \<Rightarrow> nat \<Rightarrow> int \<Rightarrow> int \<Rightarrow> int \<Rightarrow> int \<Rightarrow> int option" where
  "date_utc year month day hours minutes seconds =
     (let y = (if 0 \<le> year \<and> year \<le> 99 then 1900 + year else year)
      in time_clip ((day_from_year y + month_start y month + (day - 1)) * 86400000
           + hours * 3600000 + minutes * 60000 + seconds * 1000))"

definition year_of_day :: "int \<Rightarrow> int" where
  "year_of_day d =
     (let y = 1970 + (400 * d) div 146097
      in if d < day_from_year y then y - 1
         else if day_from_year (y + 1) \<le> d then y + 1 else y)"

definition month_of_day :: "int \<Rightarrow> int \<Rightarrow> nat" where
  "month_of_day y doy = length (filter (\<lambda>m. month_start y m \<le> doy) [1..<12])"

text \<open>The broken-down time that the getters of a date object return.\<close>

record date_fields =
  full_year :: int
  month_index :: nat
  day_of_month :: int
  day_of_week :: nat
  hours_of :: int
  minutes_of :: int
  seconds_of :: int

definition date_fields_of :: "int \<Rightarrow> date_fields" where
  "date_fields_of t =
     (let d = t div 86400000; ms = t mod 86400000;
          y = year_of_day d; doy = d - day_from_year y; m = month_of_day y doy
      in \<lparr>full_year = y, month_index = m, day_of_month = doy - month_start y m + 1,
          day_of_week = nat ((d + 4) mod 7), hours_of = ms div 3600000,
          minutes_of = ms div 60000 mod 60, seconds_of = ms div 1000 mod 60\<rparr>)"

section \<open>Reading a date\<close>

definition known_tzs :: "(jstr \<times> jstr) list" where
  "known_tzs = map (\<lambda>(k, v). (js k, js v))
     [(''UT'', ''+0000''), (''GMT'', ''+0000''), (''EST'', ''-0500''), (''EDT'', ''-0400''),
      (''CST'', ''-0600''), (''CDT'', ''-0500''), (''MST'', ''-0700''), (''MDT'', ''-0600''),
      (''PST'', ''-0800''), (''PDT'', ''-0700''), (''AST'', ''-0400''), (''NST'', ''-0330''),
      (''BST'', ''+0100''), (''MET'', ''+0100''), (''EET'', ''+0200''), (''JST'', ''+0900'')]"

text \<open>The month whose abbreviation stands in the list, \<open>indexOf\<close> of an array of strings.\<close>

fun list_index :: "'a \<Rightarrow> 'a list \<Rightarrow> nat option" where
  "list_index x [] = None"
| "list_index x (y # ys) = (if x = y then Some 0 else map_option Suc (list_index x ys))"

text \<open>
  The offset in minutes of a text that matches \<open>/^([+-])(\d\d)(\d\d)$/\<close>, and 0 for any other.
\<close>

definition tz_minutes :: "jstr \<Rightarrow> int" where
  "tz_minutes z =
     (if length z = 5 \<and> (z ! 0 = ord CHR ''+'' \<or> z ! 0 = ord CHR ''-'') \<and> list_all is_digit (tl z)
      then let v = int (digits_val 0 (slice 1 3 z)) * 60 + int (digits_val 0 (slice 3 5 z))
           in if z ! 0 = ord CHR ''-'' then - v else v
      else 0)"

definition tz_offset :: "jstr \<Rightarrow> int" where
  "tz_offset z = tz_minutes (case map_of known_tzs z of Some v \<Rightarrow> v | None \<Rightarrow> z)"

definition date_of_tokens :: "jstr list \<Rightarrow> int option" where
  "date_of_tokens tokens0 =
     (let tokens = (if 1 < length tokens0 \<and> tokens0 ! 1 = [44] then drop 2 tokens0 else tokens0)
      in if length tokens < 8 then None
         else case (parse_int (tokens ! 0), parse_int (tokens ! 2), parse_int (tokens ! 3),
                    parse_int (tokens ! 5), parse_int (tokens ! 7),
                    list_index (take 3 (tokens ! 1)) month_names) of
             (Some day, Some year, Some hours, Some minutes, Some seconds, Some month) \<Rightarrow>
               (let full = (if year < 100 then year + (if year < 50 then 2000 else 1900) else year);
                    tz = (if 8 < length tokens then tz_offset (tokens ! 8) else 0)
                in case date_utc full month day hours minutes seconds of
                     None \<Rightarrow> None
                   | Some t \<Rightarrow> time_clip (t - tz * 60 * 1000))
           | _ \<Rightarrow> None)"

definition parse_date_header :: "'d charset_api \<Rightarrow> jstr \<Rightarrow> js_error + int option" where
  "parse_date_header api header =
     bindE (get_header_tokens api header [44, 58] no_opts)
       (\<lambda>tokens. Inr (date_of_tokens (map token_text tokens)))"

section \<open>Writing a date\<close>

definition days_of_week :: "jstr list" where
  "days_of_week = map js [''Sun'', ''Mon'', ''Tue'', ''Wed'', ''Thu'', ''Fri'', ''Sat'']"

definition pad_to_2_digits :: "int \<Rightarrow> jstr" where
  "pad_to_2_digits num = (if num < 10 then 48 # nat_str (nat num) else nat_str (nat num))"

text \<open>
  The text of \<open>addDate\<close>.  The time zone of the user is the function \<open>tz\<close> from a time value to
  what \<open>getTimezoneOffset\<close> returns for it, in whole minutes.
\<close>

definition date_text :: "date_fields \<Rightarrow> int \<Rightarrow> jstr" where
  "date_text f tz_off =
     join [32] [days_of_week ! day_of_week f @ [44], nat_str (nat (day_of_month f)),
       month_names ! month_index f, nat_str (nat (full_year f)),
       pad_to_2_digits (hours_of f) @ [58] @ pad_to_2_digits (minutes_of f) @ [58] @
         pad_to_2_digits (seconds_of f),
       (if 0 < tz_off then ord CHR ''-'' else ord CHR ''+'') #
         pad_to_2_digits (\<bar>tz_off\<bar> div 60) @ pad_to_2_digits (\<bar>tz_off\<bar> mod 60)]"

definition format_date :: "bool \<Rightarrow> (int \<Rightarrow> int) \<Rightarrow> int option \<Rightarrow> js_error + jstr" where
  "format_date sanitize tz date =
     (case date of
        None \<Rightarrow> Inl InvalidDate
      | Some t \<Rightarrow>
          (let tz_off = (if sanitize then 0 else tz t);
               g = date_fields_of (t - tz_off * 60000);
               f = (if sanitize then g\<lparr>seconds_of := 0\<rparr> else g)
           in if full_year f < 1900 \<or> 9999 < full_year f then Inl YearOutOfRange
              else Inr (date_text f tz_off)))"

section \<open>The calendar\<close>

lemma div_bounds:
  fixes k x :: int
  assumes "0 < k"
  shows "k * (x div k) \<le> x" "x < k * (x div k) + k"
  using mult_div_mod_eq [of k x] pos_mod_sign [OF assms, of x] pos_mod_bound [OF assms, of x]
  by linarith+

lemma div_next:
  fixes k x :: int
  assumes "1 < k"
  shows "(x + 1) div k = x div k + (if (x + 1) mod k = 0 then 1 else 0)"
proof (cases "x mod k + 1 = k")
  case True
  have e: "x + 1 = k * (x div k + 1) + 0"
    using mult_div_mod_eq [of k x] True by (simp only: distrib_left)
  from int_div_pos_eq [OF e] int_mod_pos_eq [OF e] assms show ?thesis by simp
next
  case False
  have e: "x + 1 = k * (x div k) + (x mod k + 1)"
    using mult_div_mod_eq [of k x] by (simp add: algebra_simps)
  have "0 \<le> x mod k" "x mod k + 1 < k"
    using False assms pos_mod_bound [of k x] pos_mod_sign [of k x] by linarith+
  with int_div_pos_eq [OF e] int_mod_pos_eq [OF e] show ?thesis by simp
qed

lemma div_step:
  fixes k y c q :: int
  assumes "1 < k" "c - 1 = k * q"
  shows "(y + 1 - c) div k = (y - c) div k + (if y mod k = 0 then 1 else 0)"
proof -
  have e: "y + 1 - c = y - c + 1" "y - c + 1 = y + k * (- q)"
    using assms(2) by (simp_all add: algebra_simps)
  have "(y - c + 1) mod k = y mod k"
    unfolding e(2) by (rule mod_mult_self2)
  then show ?thesis
    unfolding e(1) div_next [OF assms(1)] by simp
qed

lemma day_from_year_bounds:
  "400 * day_from_year y \<le> 146097 * y - 287810490"
  "146097 * y - 287811790 \<le> 400 * day_from_year y"
proof -
  define a b c where "a = (y - 1969) div 4" and "b = (y - 1901) div 100" and "c = (y - 1601) div 400"
  have "4 * a \<le> y - 1969" "y - 1969 < 4 * a + 4" "100 * b \<le> y - 1901" "y - 1901 < 100 * b + 100"
    "400 * c \<le> y - 1601" "y - 1601 < 400 * c + 400"
    unfolding a_def b_def c_def by (auto simp: div_bounds intro!: div_bounds(1))
  then show "400 * day_from_year y \<le> 146097 * y - 287810490"
    "146097 * y - 287811790 \<le> 400 * day_from_year y"
    unfolding day_from_year_def a_def [symmetric] b_def [symmetric] c_def [symmetric]
    unfolding right_diff_distrib distrib_left by - linarith+
qed

lemma year_of_day_bounds:
  "day_from_year (year_of_day d) \<le> d \<and> d < day_from_year (year_of_day d + 1)"
proof -
  define n where "n = (400 * d) div 146097"
  have n: "146097 * n \<le> 400 * d" "400 * d < 146097 * n + 146097"
    using div_bounds [of 146097 "400 * d"] by (simp_all add: n_def)
  have lo: "day_from_year y \<le> d" if "y = 1970 + n - 1" for y
    using n day_from_year_bounds(1) [of y] unfolding that right_diff_distrib distrib_left by linarith
  have hi: "d < day_from_year y" if "y = 1970 + n + 1 + 1" for y
    using n day_from_year_bounds(2) [of y] unfolding that right_diff_distrib distrib_left by linarith
  show ?thesis
    using lo [OF refl] hi [OF refl] unfolding year_of_day_def n_def [symmetric] Let_def
    by (auto simp: algebra_simps)
qed

lemma mod_0_trans: "(a::int) mod b = 0 \<Longrightarrow> c dvd b \<Longrightarrow> a mod c = 0"
  using dvd_trans [of c b a] by (simp add: mod_eq_0_iff_dvd)

lemma year_sum:
  fixes y a b c :: int
  assumes "R \<longrightarrow> Q" "Q \<longrightarrow> P"
  shows "365 * y + 365 * 1 - 365 * 1970 + (a + (if P then 1 else 0)) - (b + (if Q then 1 else 0))
      + (c + (if R then 1 else 0)) =
     365 * y - 365 * 1970 + a - b + c + (if P \<and> (\<not> Q \<or> R) then 366 else 365)"
  using assms by (cases P; cases Q; cases R; simp)

lemma year_length: "day_from_year (y + 1) = day_from_year y + (if leap_year y then 366 else 365)"
proof -
  have i: "y mod 100 = 0 \<longrightarrow> y mod 4 = 0" "y mod 400 = 0 \<longrightarrow> y mod 100 = 0"
    by (rule impI, rule mod_0_trans, assumption, simp)
       (rule impI, rule mod_0_trans, assumption, simp)
  show ?thesis
  proof -
    have d: "(y + 1 - 1969) div 4 = (y - 1969) div 4 + (if y mod 4 = 0 then 1 else 0)"
      "(y + 1 - 1901) div 100 = (y - 1901) div 100 + (if y mod 100 = 0 then 1 else 0)"
      "(y + 1 - 1601) div 400 = (y - 1601) div 400 + (if y mod 400 = 0 then 1 else 0)"
      by (rule div_step [of 4 1969 492] div_step [of 100 1901 19] div_step [of 400 1601 4];
          simp)+
    show ?thesis
      unfolding day_from_year_def leap_year_def d right_diff_distrib distrib_left
      by (rule year_sum [OF i(2) i(1)])
  qed
qed

text \<open>The month of a day of the year, and the day in it, are the ones the calendar has.\<close>

lemma month_of_day_cases:
  assumes "0 \<le> doy" "doy < (if leap_year y then 366 else 365)"
  shows "month_of_day y doy < 12" "0 \<le> doy - month_start y (month_of_day y doy)"
    "doy - month_start y (month_of_day y doy) < 31"
proof -
  have up: "[1..<12] = [1, 2, 3, 4, 5, 6, 7, 8, 9, 10, 11::nat]" by (simp add: upt_conv_Cons)
  have "month_of_day y doy < 12 \<and> 0 \<le> doy - month_start y (month_of_day y doy)
     \<and> doy - month_start y (month_of_day y doy) < 31"
    using assms unfolding month_of_day_def up
    by (cases "leap_year y") (simp_all add: month_start_def month_starts_def)
  then show "month_of_day y doy < 12" "0 \<le> doy - month_start y (month_of_day y doy)"
    "doy - month_start y (month_of_day y doy) < 31" by auto
qed

lemma day_range:
  assumes "f = date_fields_of t" and "1900 \<le> full_year f" "full_year f \<le> 9999"
  shows "-1000000 \<le> t div 86400000" "t div 86400000 \<le> 4000000"
proof -
  define d where "d = t div 86400000"
  define y where "y = year_of_day d"
  have "full_year f = y"
    by (simp add: assms(1) date_fields_of_def d_def y_def Let_def)
  then show "-1000000 \<le> t div 86400000" "t div 86400000 \<le> 4000000"
    using year_of_day_bounds [of d] day_from_year_bounds [of y] day_from_year_bounds [of "y + 1"]
      assms(2,3) unfolding y_def [symmetric] d_def [symmetric] distrib_left by - linarith+
qed

text \<open>The getters and \<open>Date.UTC\<close> are inverse, up to the milliseconds that have no getter here.\<close>

lemma date_utc_fields:
  assumes "f = date_fields_of t" and "1900 \<le> full_year f" "full_year f \<le> 9999"
    and "0 \<le> s" "s < 60"
  shows "date_utc (full_year f) (month_index f) (day_of_month f) (hours_of f) (minutes_of f) s =
     Some (t div 60000 * 60000 + s * 1000)"
proof -
  define d ms y where "d = t div 86400000" and "ms = t mod 86400000" and "y = year_of_day d"
  define doy where "doy = d - day_from_year y"
  have f: "full_year f = y" "month_index f = month_of_day y doy"
    "day_of_month f = doy - month_start y (month_of_day y doy) + 1"
    "hours_of f = ms div 3600000" "minutes_of f = ms div 60000 mod 60"
    by (simp_all add: assms(1) date_fields_of_def d_def ms_def y_def doy_def Let_def)
  have "ms div 3600000 = ms div 60000 div 60"
    using zdiv_zmult2_eq [of 60 ms 60000] by simp
  then have "ms div 60000 = ms div 3600000 * 60 + ms div 60000 mod 60"
    by simp
  then have time: "ms div 3600000 * 3600000 + ms div 60000 mod 60 * 60000 = ms div 60000 * 60000"
    by linarith
  have "t = d * 1440 * 60000 + ms" by (simp add: d_def ms_def)
  then have "t div 60000 = d * 1440 + ms div 60000" by simp
  then have tt: "d * 86400000 + ms div 60000 * 60000 = t div 60000 * 60000" by simp
  have ms: "0 \<le> ms" "ms < 86400000" by (simp_all add: ms_def)
  have db: "-1000000 \<le> d" "d \<le> 4000000"
    using day_range [OF assms(1-3)] by (simp_all add: d_def)
  have "\<bar>t div 60000 * 60000 + s * 1000\<bar> \<le> 8640000000000000"
    using assms(4,5) db ms div_bounds [of 60000 ms] unfolding tt [symmetric] by linarith
  then show ?thesis
    using assms(2,3) time tt unfolding f
    by (simp add: date_utc_def time_clip_def doy_def algebra_simps)
qed

section \<open>Reading back what was written\<close>

lemma pad_digits: "\<forall>c\<in>set (pad_to_2_digits n). is_digit c" "pad_to_2_digits n \<noteq> []"
  using nat_str_digits [of "nat n"] by (auto simp: pad_to_2_digits_def is_digit_def)

lemma digits_val_pad: "0 \<le> n \<Longrightarrow> digits_val 0 (pad_to_2_digits n) = nat n"
  by (simp add: pad_to_2_digits_def digits_val_nat_str)

lemma parse_int_pad: "0 \<le> n \<Longrightarrow> parse_int (pad_to_2_digits n) = Some n"
  using parse_int_digits [OF pad_digits(2,1)] digits_val_pad [of n] by simp

lemma length_pad:
  assumes "0 \<le> n" "n < 100"
  shows "length (pad_to_2_digits n) = 2"
proof (cases "n < 10")
  case True
  with assms(1) show ?thesis by (simp add: pad_to_2_digits_def nat_str.simps)
next
  case False
  with assms have "\<not> nat n < 10" "nat n div 10 < 10" by linarith+
  then have "length (nat_str (nat n)) = 2"
    by (subst nat_str.simps, subst nat_str.simps) simp
  with False show ?thesis by (simp add: pad_to_2_digits_def)
qed

lemma tz_minutes_text:
  assumes "\<bar>off\<bar> < 6000"
  shows "tz_minutes ((if 0 < off then 45 else 43) #
           pad_to_2_digits (\<bar>off\<bar> div 60) @ pad_to_2_digits (\<bar>off\<bar> mod 60)) = - off"
proof -
  define h m where "h = \<bar>off\<bar> div 60" and "m = \<bar>off\<bar> mod 60"
  have hm: "0 \<le> h" "h < 100" "0 \<le> m" "m < 100" "h * 60 + m = \<bar>off\<bar>"
    using assms unfolding h_def m_def by (linarith+, simp)
  have len: "length (pad_to_2_digits h) = 2" "length (pad_to_2_digits m) = 2"
    using hm by (simp_all add: length_pad)
  have dig: "list_all is_digit (pad_to_2_digits h @ pad_to_2_digits m)"
    using pad_digits(1) by (auto simp: list_all_iff)
  have "slice 1 3 (c # pad_to_2_digits h @ pad_to_2_digits m) = pad_to_2_digits h"
    "slice 3 5 (c # pad_to_2_digits h @ pad_to_2_digits m) = pad_to_2_digits m" for c
    using len by (simp_all add: slice_def)
  then show ?thesis
    using len dig hm unfolding h_def [symmetric] m_def [symmetric] tz_minutes_def
    by (simp add: digits_val_pad)
qed

lemma known_tzs_no_offset: "c = 43 \<or> c = 45 \<Longrightarrow> map_of known_tzs (c # z) = None"
  by (elim disjE) (simp_all add: known_tzs_def)

lemma month_names_codes:
  "month_names = [[74, 97, 110], [70, 101, 98], [77, 97, 114], [65, 112, 114],
     [77, 97, 121], [74, 117, 110], [74, 117, 108], [65, 117, 103],
     [83, 101, 112], [79, 99, 116], [78, 111, 118], [68, 101, 99]]"
  by (simp add: month_names_def)

lemma list_index_distinct: "distinct xs \<Longrightarrow> i < length xs \<Longrightarrow> list_index (xs ! i) xs = Some i"
proof (induction xs arbitrary: i)
  case (Cons x xs)
  then show ?case by (cases i) auto
qed simp

lemma list_index_month:
  assumes "m < 12"
  shows "list_index (take 3 (month_names ! m)) month_names = Some m"
proof -
  have len: "length month_names = 12" and d: "distinct month_names"
    and three: "\<forall>a\<in>set month_names. length a = 3"
    by (simp_all add: month_names_codes)
  have "month_names ! m \<in> set month_names" using assms len by simp
  then have "take 3 (month_names ! m) = month_names ! m" using three by simp
  then show ?thesis using list_index_distinct [OF d] assms len by simp
qed

definition word_text :: "jstr \<Rightarrow> bool" where
  "word_text a \<longleftrightarrow> a \<noteq> [] \<and> (\<forall>c\<in>set a. 43 \<le> c \<and> c \<noteq> 44 \<and> c \<noteq> 58 \<and> c \<noteq> 61 \<and> c \<noteq> 91 \<and> c \<noteq> 92)"

lemma word_text_atom:
  assumes "word_text a"
  shows "\<forall>c\<in>set a. atom_char no_opts [44, 58] c" and "a \<noteq> []"
proof
  fix c
  assume "c \<in> set a"
  with assms have "43 \<le> c" "c \<noteq> 44" "c \<noteq> 58" "c \<noteq> 61" "c \<noteq> 91" "c \<noteq> 92"
    unfolding word_text_def by blast+
  then show "atom_char no_opts [44, 58] c"
    by (auto simp: atom_char_def is_wsp_def)
qed (use assms in \<open>simp add: word_text_def\<close>)

lemma word_text_digits: "a \<noteq> [] \<Longrightarrow> \<forall>c\<in>set a. is_digit c \<Longrightarrow> word_text a"
  by (auto simp: word_text_def is_digit_def)

lemma word_text_pad: "word_text (pad_to_2_digits n)"
  using pad_digits by (intro word_text_digits) auto

lemma word_text_nat: "word_text (nat_str n)"
  using nat_str_digits by (intro word_text_digits) auto

lemma word_text_names:
  "m < 12 \<Longrightarrow> word_text (month_names ! m)" "d < 7 \<Longrightarrow> word_text (days_of_week ! d)"
proof -
  have m: "length month_names = 12" "\<forall>a\<in>set month_names. word_text a"
    by (simp_all add: month_names_codes word_text_def)
  show "word_text (month_names ! m)" if "m < 12"
    using m that by simp
  have d: "length days_of_week = 7" "\<forall>a\<in>set days_of_week. word_text a"
    by (simp_all add: days_of_week_def word_text_def)
  show "word_text (days_of_week ! d)" if "d < 7"
    using d that by simp
qed

lemmas lexes_word_wsp = lexes_atom_wsp [OF word_text_atom]
lemmas lexes_word_delim = lexes_atom_delim [OF word_text_atom]

lemma date_tokens:
  assumes "word_text a" "word_text b" "word_text c" "word_text d" "word_text h" "word_text m"
    "word_text s" "word_text z"
  shows "get_header_tokens api
     (join [32] [a @ [44], b, c, d, h @ [58] @ m @ [58] @ s, z]) [44, 58] no_opts =
     Inr [Tok a, Delim 44, Tok b, Tok c, Tok d, Tok h, Delim 58, Tok m, Delim 58, Tok s, Tok z]"
proof -
  let ?l = "\<lambda>s ts. lexes api no_opts [44, 58] s ts"
  have 1: "?l (a @ [44]) [Tok a, Delim 44]" "?l (h @ [58]) [Tok h, Delim 58]"
    "?l (m @ [58]) [Tok m, Delim 58]"
    using assms by (auto intro!: lexes_word_delim simp: is_wsp_def)
  have 2: "?l (b @ [32]) [Tok b]" "?l (c @ [32]) [Tok c]" "?l (d @ [32]) [Tok d]"
    "?l (s @ [32]) [Tok s]" "?l [32] []"
    using assms by (auto intro!: lexes_word_wsp lexes_wsp simp: is_wsp_def)
  note l = lexes_append [OF 1(1) lexes_append [OF 2(5) lexes_append [OF 2(1) lexes_append [OF 2(2)
    lexes_append [OF 2(3) lexes_append [OF 1(2) lexes_append [OF 1(3) 2(4)]]]]]]]
  show ?thesis
    using get_header_tokens_lexes_atom [OF l word_text_atom [OF assms(8)]] by simp
qed

text \<open>The fields of every date are fields of the calendar.\<close>

lemma date_fields_ranges:
  assumes "f = date_fields_of t"
  shows "month_index f < 12" "day_of_week f < 7" "0 < day_of_month f" "day_of_month f \<le> 31"
    "0 \<le> hours_of f" "hours_of f < 24" "0 \<le> minutes_of f" "minutes_of f < 60"
    "0 \<le> seconds_of f" "seconds_of f < 60"
proof -
  define d ms y where "d = t div 86400000" and "ms = t mod 86400000" and "y = year_of_day d"
  define doy where "doy = d - day_from_year y"
  have f: "month_index f = month_of_day y doy" "day_of_week f = nat ((d + 4) mod 7)"
    "day_of_month f = doy - month_start y (month_of_day y doy) + 1"
    "hours_of f = ms div 3600000" "minutes_of f = ms div 60000 mod 60"
    "seconds_of f = ms div 1000 mod 60"
    by (simp_all add: assms(1) date_fields_of_def d_def ms_def y_def doy_def Let_def)
  have doy: "0 \<le> doy" "doy < (if leap_year y then 366 else 365)"
    using year_of_day_bounds [of d] year_length [of y] by (auto simp: doy_def y_def)
  note m = month_of_day_cases [OF doy]
  show "month_index f < 12" "0 < day_of_month f" "day_of_month f \<le> 31"
    using m unfolding f by simp_all
  have "0 \<le> (d + 4) mod 7" "(d + 4) mod 7 < 7" by simp_all
  then show "day_of_week f < 7" unfolding f by linarith
  have "0 \<le> ms" "ms < 86400000" by (simp_all add: ms_def)
  then show "0 \<le> hours_of f" "hours_of f < 24"
    using div_bounds [of 3600000 ms] unfolding f by (simp add: pos_imp_zdiv_nonneg_iff, linarith)
  show "0 \<le> minutes_of f" "minutes_of f < 60" "0 \<le> seconds_of f" "seconds_of f < 60"
    unfolding f by simp_all
qed

lemma date_of_date_text:
  assumes "f = date_fields_of t" "1900 \<le> full_year f" "full_year f \<le> 9999" "\<bar>off\<bar> < 6000"
    and "0 \<le> s" "s < 60"
  shows "parse_date_header api (date_text (f\<lparr>seconds_of := s\<rparr>) off) =
     Inr (Some (t div 60000 * 60000 + s * 1000 + off * 60000))"
proof -
  let ?z = "(if 0 < off then 45 else 43) #
         pad_to_2_digits (\<bar>off\<bar> div 60) @ pad_to_2_digits (\<bar>off\<bar> mod 60)"
  note r = date_fields_ranges [OF assms(1)]
  have tz: "tz_offset ?z = - off"
    unfolding tz_offset_def using known_tzs_no_offset tz_minutes_text [OF assms(4)] by simp
  have wz: "word_text ?z"
    using word_text_pad by (auto simp: word_text_def)
  note toks = date_tokens [OF word_text_names(2) [OF r(2)] word_text_nat word_text_names(1) [OF r(1)]
      word_text_nat word_text_pad word_text_pad word_text_pad wz, of api]
  have clip: "\<bar>t div 60000 * 60000 + s * 1000 + off * 60000\<bar> \<le> 8640000000000000"
    using day_range [OF assms(1-3)] div_bounds [of 60000 t] div_bounds [of 86400000 t] assms(4-6)
    by linarith
  have dt: "date_text (f\<lparr>seconds_of := s\<rparr>) off = join [32] [days_of_week ! day_of_week f @ [44],
      nat_str (nat (day_of_month f)), month_names ! month_index f, nat_str (nat (full_year f)),
      pad_to_2_digits (hours_of f) @ [58] @ pad_to_2_digits (minutes_of f) @ [58] @ pad_to_2_digits s,
      ?z]"
    by (simp add: date_text_def)
  have "date_of_tokens [days_of_week ! day_of_week f, [44], nat_str (nat (day_of_month f)),
      month_names ! month_index f, nat_str (nat (full_year f)), pad_to_2_digits (hours_of f), [58],
      pad_to_2_digits (minutes_of f), [58], pad_to_2_digits s, z] =
      Some (t div 60000 * 60000 + s * 1000 + off * 60000)" if "tz_offset z = - off" for z
    using r assms(5,6) clip date_utc_fields [OF assms(1,2,3) assms(5,6)] assms(2,3) that
    by (simp add: date_of_tokens_def parse_int_pad list_index_month time_clip_def)
  from this [OF tz] show ?thesis
    unfolding parse_date_header_def dt toks by simp
qed

lemma split_time:
  fixes u :: int
  shows "u div 60000 * 60000 + u mod 86400000 div 1000 mod 60 * 1000 = u - u mod 1000"
proof -
  define v r where "v = u div 1000" and "r = u mod 1000"
  have u: "u = v * 1000 + r" "0 \<le> r" "r < 1000" by (simp_all add: v_def r_def)
  have "u mod 86400000 = (v mod 86400) * 1000 + r"
    using zmod_zmult2_eq [of 86400 u 1000] by (simp add: v_def r_def)
  then have "u mod 86400000 div 1000 = v mod 86400" using u by simp
  moreover have "v mod 86400 mod 60 = v mod 60" by (rule mod_mod_cancel) simp
  moreover have "u div 60000 = v div 60" using zdiv_zmult2_eq [of 60 u 1000] by (simp add: v_def)
  ultimately have "u div 60000 * 60000 + u mod 86400000 div 1000 mod 60 * 1000 =
      (v div 60 * 60 + v mod 60) * 1000"
    by (simp only: distrib_right mult.assoc)
  also have "\<dots> = u - u mod 1000" using u(1) by (simp add: r_def)
  finally show ?thesis .
qed

text \<open>
  A date that \<open>addDate\<close> accepts is read back as the same moment, to the second (to the
  minute when the emitter hides the clock), in whatever time zone it was written.
\<close>

lemma parse_format_date:
  assumes "format_date sanitize tz (Some t) = Inr s" and "\<bar>tz t\<bar> < 6000"
  shows "parse_date_header api s =
     Inr (Some (if sanitize then t - t mod 60000 else t - t mod 1000))"
proof -
  define off where "off = (if sanitize then 0 else tz t)"
  define u where "u = t - off * 60000"
  define f where "f = date_fields_of u"
  define sec where "sec = (if sanitize then 0 else seconds_of f)"
  have s: "s = date_text (f\<lparr>seconds_of := sec\<rparr>) off" and y: "1900 \<le> full_year f" "full_year f \<le> 9999"
    using assms(1) by (auto simp: format_date_def Let_def off_def u_def f_def sec_def split: if_splits)
  have sec: "0 \<le> sec" "sec < 60"
    using date_fields_ranges(9,10) [OF f_def] by (auto simp: sec_def)
  have "\<bar>off\<bar> < 6000" using assms(2) by (auto simp: off_def)
  from date_of_date_text [OF f_def y this sec]
  have p: "parse_date_header api s = Inr (Some (u div 60000 * 60000 + sec * 1000 + off * 60000))"
    by (simp add: s)
  have "seconds_of f = u mod 86400000 div 1000 mod 60"
    by (simp add: f_def date_fields_of_def Let_def)
  then have e: "u div 60000 * 60000 + seconds_of f * 1000 = u - u mod 1000"
    by (simp add: split_time)
  have m: "u mod 1000 = t mod 1000" "u mod 60000 = t mod 60000"
    using mod_mult_self1 [of u "off * 60" 1000] mod_mult_self1 [of u off 60000]
    by (simp_all add: u_def)
  have "u div 60000 * 60000 = u - u mod 60000"
    by (simp add: minus_mod_eq_div_mult)
  with p e m show ?thesis
    by (simp add: sec_def u_def off_def)
qed

section \<open>Properties\<close>

text \<open>C19: a date that \<open>addDate\<close> accepts is read back by \<open>parseDateHeader\<close> as the same moment, to
  the second (to the minute when the emitter hides the clock), whatever the time zone of the user.\<close>

theorem date_roundtrip:
  assumes "format_date sanitize tz (Some t) = Inr s" and "\<bar>tz t\<bar> < 6000"
  shows "parse_date_header api s =
     Inr (Some (if sanitize then t - t mod 60000 else t - t mod 1000))"
  using assms by (rule parse_format_date)

theorem date_roundtrip_witness:
  "\<exists>s. format_date False (\<lambda>_. - 90) (Some 1420456272345) = Inr s
     \<and> parse_date_header latin1_api s = Inr (Some 1420456272000)"
proof -
  have f: "format_date False (\<lambda>_. - 90) (Some 1420456272345) = Inr (js ''Mon, 5 Jan 2015 12:41:12 +0130'')"
    by code_simp
  show ?thesis
    using f date_roundtrip [OF f, of latin1_api] by (intro exI [of _ "js ''Mon, 5 Jan 2015 12:41:12 +0130''"]) simp
qed

text \<open>an invalid date and a year outside 1900 to 9999 are refused, and nothing else is.\<close>

theorem date_errors:
  "format_date sanitize tz None = Inl InvalidDate
   \<and> (\<exists>s. format_date sanitize tz (Some t) = (if
       full_year (date_fields_of (t - (if sanitize then 0 else tz t) * 60000)) \<in> {1900..9999}
       then Inr s else Inl YearOutOfRange))"
  by (auto simp: format_date_def Let_def)

end
