(* ===== verification/ParamHeader.thy ===== *)
theory ParamHeader
  imports HeaderTokens "HOL-Library.Multiset"
begin

text \<open>
  \<open>parseParameterHeader\<close> and \<open>decode2231Value\<close> of \<open>mailnews/mime/jsmime/jsmime.js\<close>, and the
  \<open>Content-Type\<close> decoder built on them: a series of \<open>attribute=value\<close> tokens, with the
  charset and continuation forms of RFC 2231.
\<close>

section \<open>Splitting into name and value pairs\<close>

fun percent_decode :: "jstr \<Rightarrow> jstr" where
  "percent_decode (c # a # b # s) =
     (if c = ord CHR ''%'' \<and> is_hex a \<and> is_hex b
      then (16 * hex_val a + hex_val b) # percent_decode s
      else c # percent_decode (a # b # s))"
| "percent_decode s = s"

record match_state =
  pm_name :: jstr
  pm_in_name :: bool
  pm_matches :: "(jstr \<times> jstr) list"

definition ends_star :: "jstr \<Rightarrow> bool" where
  "ends_star n \<longleftrightarrow> n \<noteq> [] \<and> last n = ord CHR ''*''"

fun match_text :: "token \<Rightarrow> jstr" where
  "match_text (Delim c) = [c]"
| "match_text (Tok t) = t"

definition match_step :: "bool \<Rightarrow> match_state \<Rightarrow> token \<Rightarrow> match_state" where
  "match_step do_rfc2231 st t =
     (if t = Delim (ord CHR '';'') then
        (let ms = (if pm_name st \<noteq> [] \<and> \<not> pm_in_name st then pm_matches st @ [(pm_name st, [])]
                   else pm_matches st)
         in \<lparr>pm_name = [], pm_in_name = True, pm_matches = ms\<rparr>)
      else if t = Delim (ord CHR ''='') then st\<lparr>pm_in_name := False\<rparr>
      else if pm_in_name st \<and> pm_name st = [] then st\<lparr>pm_name := match_text t\<rparr>
      else if \<not> pm_in_name st \<and> pm_name st \<noteq> [] then
        (let v = (if do_rfc2231 \<and> ends_star (pm_name st) then percent_decode (match_text t)
                  else match_text t)
         in st\<lparr>pm_matches := pm_matches st @ [(pm_name st, v)], pm_name := []\<rparr>)
      else if pm_in_name st then st\<lparr>pm_name := []\<rparr>
      else st)"

definition finish_matches :: "match_state \<Rightarrow> (jstr \<times> jstr) list" where
  "finish_matches st =
     (if pm_name st \<noteq> [] \<and> \<not> pm_in_name st then pm_matches st @ [(pm_name st, [])]
      else pm_matches st)"

definition init_matches :: match_state where
  "init_matches = \<lparr>pm_name = [], pm_in_name = True, pm_matches = []\<rparr>"

section \<open>Sorting the pairs by their form\<close>

text \<open>
  An entry of \<open>continuationValues\<close>: the array of the values with its properties \<open>valid\<close>
  and \<open>hasCharset\<close>.  The array may have holes, so it is a map from indices to values.
\<close>

record cont_entry =
  ce_valid :: bool
  ce_has_charset :: "bool option"
  ce_parts :: "(nat \<times> jstr) list"

definition new_entry :: cont_entry where
  "new_entry = \<lparr>ce_valid = True, ce_has_charset = None, ce_parts = []\<rparr>"

record param_maps =
  simple_values :: "jstr jsmap"
  charset_values :: "jstr jsmap"
  continuation_values :: "cont_entry jsmap"

definition add_first :: "jstr \<Rightarrow> 'v \<Rightarrow> 'v jsmap \<Rightarrow> 'v jsmap" where
  "add_first k v m = (if map_of m k = None then AList.update k v m else m)"

text \<open>
  The number of a continuation: not \<open>0\<close>, and empty, with a leading zero or with another
  character than a digit, it makes the whole parameter invalid.
\<close>

definition bad_number :: "jstr \<Rightarrow> bool" where
  "bad_number n \<longleftrightarrow> n = [] \<or> hd n = 48 \<or> \<not> list_all is_digit n"

definition add_continuation :: "jstr \<Rightarrow> jstr \<Rightarrow> bool \<Rightarrow> jstr \<Rightarrow> cont_entry jsmap \<Rightarrow> cont_entry jsmap" where
  "add_continuation param number last_star value m =
     (let entry = (case map_of m param of Some e \<Rightarrow> e | None \<Rightarrow> new_entry) in
      if \<not> ce_valid entry then m
      else if number \<noteq> js ''0'' \<and> bad_number number then
        AList.update param (entry\<lparr>ce_valid := False\<rparr>) m
      else
        let entry1 = (if number = js ''0'' then entry\<lparr>ce_has_charset := Some last_star\<rparr> else entry);
            n = digits_val 0 number in
        if map_of (ce_parts entry1) n \<noteq> None then
          AList.update param (entry1\<lparr>ce_valid := False\<rparr>) m
        else AList.update param (entry1\<lparr>ce_parts := ce_parts entry1 @ [(n, value)]\<rparr>) m)"

definition sort_match :: "param_maps \<Rightarrow> jstr \<times> jstr \<Rightarrow> param_maps" where
  "sort_match pms p =
     (let name = fst p; value = snd p in
      case index_of (ord CHR ''*'') name of
        None \<Rightarrow> pms\<lparr>simple_values := add_first name value (simple_values pms)\<rparr>
      | Some star \<Rightarrow>
          if star = length name - 1 then
            pms\<lparr>charset_values := add_first (take star name) value (charset_values pms)\<rparr>
          else
            let last_star = ends_star name;
                number = slice (star + 1) (length name - (if last_star then 1 else 0)) name
            in pms\<lparr>continuation_values :=
                 add_continuation (take star name) number last_star value (continuation_values pms)\<rparr>)"

definition sort_matches :: "(jstr \<times> jstr) list \<Rightarrow> param_maps" where
  "sort_matches ms =
     foldl sort_match \<lparr>simple_values = [], charset_values = [], continuation_values = []\<rparr> ms"

section \<open>Putting the values together\<close>

definition decode_2231_value :: "'d charset_api \<Rightarrow> jstr \<Rightarrow> js_error + jstr" where
  "decode_2231_value api value =
     (let q1 = index_of 39 value;
          q2 = (case q1 of None \<Rightarrow> None
                | Some a \<Rightarrow> map_option (\<lambda>b. a + 1 + b) (index_of 39 (drop (a + 1) value)));
          charset = (case q1 of None \<Rightarrow> [] | Some a \<Rightarrow> take a value);
          rest = (case q2 of Some b \<Rightarrow> drop (b + 1) value
                  | None \<Rightarrow> (case q1 of Some a \<Rightarrow> drop (a + 1) value | None \<Rightarrow> value))
      in bindE (new_decoder api charset True) (\<lambda>d.
           bindE (run_decoder api d (string_to_typed_array rest) False) (\<lambda>(txt, _). Inr txt)))"

text \<open>
  The values from index 0 up to the first hole.  The fuel is the number of values, which
  bounds the length of that prefix.
\<close>

fun prefix_parts :: "(nat \<times> jstr) list \<Rightarrow> nat \<Rightarrow> nat \<Rightarrow> jstr" where
  "prefix_parts ps i 0 = []"
| "prefix_parts ps i (Suc k) =
     (case map_of ps i of None \<Rightarrow> [] | Some v \<Rightarrow> v @ prefix_parts ps (Suc i) k)"

definition entry_value :: "cont_entry \<Rightarrow> jstr" where
  "entry_value e = prefix_parts (ce_parts e) 0 (length (ce_parts e))"

definition put_continuation :: "'d charset_api \<Rightarrow> jstr jsmap \<Rightarrow> jstr \<times> cont_entry \<Rightarrow> jstr jsmap" where
  "put_continuation api values p =
     (case ce_has_charset (snd p) of
        None \<Rightarrow> values
      | Some False \<Rightarrow> AList.update (fst p) (entry_value (snd p)) values
      | Some True \<Rightarrow>
          (case decode_2231_value api (entry_value (snd p)) of
             Inl _ \<Rightarrow> values
           | Inr v \<Rightarrow> AList.update (fst p) v values))"

definition put_charset :: "'d charset_api \<Rightarrow> jstr jsmap \<Rightarrow> jstr \<times> jstr \<Rightarrow> jstr jsmap" where
  "put_charset api values p =
     (case decode_2231_value api (snd p) of
        Inl _ \<Rightarrow> values
      | Inr v \<Rightarrow> AList.update (fst p) v values)"

definition build_values :: "'d charset_api \<Rightarrow> bool \<Rightarrow> param_maps \<Rightarrow> jstr jsmap" where
  "build_values api do_rfc2231 pms =
     (let values = foldl (\<lambda>m (k, v). AList.update k v m) [] (simple_values pms) in
      if do_rfc2231 then
        foldl (put_charset api)
          (foldl (put_continuation api) values (continuation_values pms)) (charset_values pms)
      else values)"

record param_values =
  pv_pre_semi :: jstr
  pv_values :: "jstr jsmap"

definition param_opts :: "bool \<Rightarrow> token_opts" where
  "param_opts do_rfc2047 = \<lparr>opt_qstring = True, opt_dliteral = False, opt_comments = False,
     opt_rfc2047 = do_rfc2047\<rparr>"

definition param_delims :: jstr where
  "param_delims = js '';=''"

definition pre_semi_of :: "jstr \<Rightarrow> jstr" where
  "pre_semi_of start = takeWhile (\<lambda>c. \<not> is_wsp c) (trim start)"

definition parse_parameter_header ::
  "'d charset_api \<Rightarrow> jstr \<Rightarrow> bool \<Rightarrow> bool \<Rightarrow> js_error + param_values" where
  "parse_parameter_header api header_value do_rfc2047 do_rfc2231 =
     (let semi = index_of (ord CHR '';'') header_value;
          start = (case semi of None \<Rightarrow> header_value | Some i \<Rightarrow> take i header_value);
          rest = (case semi of None \<Rightarrow> [] | Some i \<Rightarrow> drop i header_value)
      in bindE (get_header_tokens api rest param_delims (param_opts do_rfc2047)) (\<lambda>tokens.
           let ms = finish_matches (foldl (match_step do_rfc2231) init_matches tokens)
           in Inr \<lparr>pv_pre_semi = pre_semi_of start,
                    pv_values = build_values api do_rfc2231 (sort_matches ms)\<rparr>))"

section \<open>Content-Type\<close>

record content_type =
  ct_mediatype :: jstr
  ct_subtype :: jstr
  ct_params :: "jstr jsmap"

definition ct_type :: "content_type \<Rightarrow> jstr" where
  "ct_type ct = ct_mediatype ct @ js ''/'' @ ct_subtype ct"

definition ct_get :: "content_type \<Rightarrow> jstr \<Rightarrow> jstr option" where
  "ct_get ct k = map_of (ct_params ct) k"

text \<open>\<open>value[0]\<close>, whose use throws when the array is empty (a header always has a value).\<close>

definition first_value :: "jstr list \<Rightarrow> js_error + jstr" where
  "first_value value = (case value of [] \<Rightarrow> Inl BadType | v # _ \<Rightarrow> Inr v)"

definition parse_content_type :: "'d charset_api \<Rightarrow> jstr list \<Rightarrow> js_error + content_type" where
  "parse_content_type api value =
     bindE (first_value value) (\<lambda>v.
     bindE (parse_parameter_header api v False False) (\<lambda>params.
       let parts = split_on (ord CHR ''/'') (pv_pre_semi params);
           ok = (length parts = 2);
           parts' = (if ok then parts else [js ''text'', js ''plain'']);
           ps = (if ok then pv_values params else [])
       in Inr \<lparr>ct_mediatype = to_lower (parts' ! 0), ct_subtype = to_lower (parts' ! 1),
                ct_params = foldl (\<lambda>m (k, v). AList.update (to_lower k) v m) [] ps\<rparr>))"

section \<open>Lemmas on the result\<close>

lemma sort_matches_append:
  "sort_matches (ms @ [p]) = sort_match (sort_matches ms) p"
  by (simp add: sort_matches_def)

lemma map_of_add_first:
  "map_of (add_first k v m) k' = (if k' = k then (case map_of m k of None \<Rightarrow> Some v | Some w \<Rightarrow> Some w)
     else map_of m k')"
  by (auto simp: add_first_def update_conv' split: option.splits)

text \<open>The first value of a plain parameter counts.\<close>

lemma simple_values_first:
  assumes "42 \<notin> set k"
  shows "map_of (simple_values (sort_matches ms)) k = map_of ms k"
proof (induction ms rule: rev_induct)
  case Nil
  show ?case by (simp add: sort_matches_def)
next
  case (snoc p ms)
  show ?case
  proof (cases "index_of 42 (fst p)")
    case None
    then show ?thesis
      using snoc
      by (auto simp: sort_matches_append sort_match_def Let_def map_of_add_first map_add_def
          split: option.splits)
  next
    case (Some i)
    then have "42 \<in> set (fst p)" by (metis index_of_None_iff option.distinct(1))
    with assms have "fst p \<noteq> k" by auto
    with Some snoc show ?thesis
      by (auto simp: sort_matches_append sort_match_def Let_def map_add_def split: option.splits)
  qed
qed

lemma foldl_update_get:
  "map_of (foldl (\<lambda>m (k, v). AList.update k v m) m kvs) k =
     (case map_of (rev kvs) k of Some v \<Rightarrow> Some v | None \<Rightarrow> map_of m k)"
proof -
  have "foldl (\<lambda>m (k, v). AList.update k v m) m kvs = fold (\<lambda>(k, v) m. AList.update k v m) kvs m"
    by (simp add: foldl_conv_fold case_prod_beta')
  then show ?thesis using jsmap.put_all_get [of kvs m k] by simp
qed

lemma distinct_simple: "distinct (map fst (simple_values (sort_matches ms)))"
proof (induction ms rule: rev_induct)
  case (snoc p ms)
  then show ?case
    by (auto simp: sort_matches_append sort_match_def add_first_def Let_def
        distinct_update split: option.splits)
qed (simp add: sort_matches_def)

lemma map_of_rev_distinct: "distinct (map fst kvs) \<Longrightarrow> map_of (rev kvs) = map_of kvs"
  by (rule map_of_inject_set [THEN iffD2]) (auto simp: rev_map [symmetric])

text \<open>Without RFC 2231 decoding, the result holds exactly the plain parameters.\<close>

lemma build_values_simple:
  assumes "42 \<notin> set k"
  shows "map_of (build_values api False (sort_matches ms)) k = map_of ms k"
proof -
  have "map_of (rev (simple_values (sort_matches ms))) = map_of (simple_values (sort_matches ms))"
    by (intro map_of_rev_distinct distinct_simple)
  then show ?thesis
    using assms
    by (auto simp: build_values_def foldl_update_get simple_values_first split: option.splits)
qed

section \<open>Continuations\<close>

lemma hd_nat_str: "0 < n \<Longrightarrow> hd (nat_str n) \<noteq> 48"
proof (induction n rule: nat_str.induct)
  case (1 n)
  show ?case
  proof (cases "n < 10")
    case True
    then show ?thesis using "1.prems" by (subst nat_str.simps) simp
  next
    case False
    then have "hd (nat_str (n div 10)) \<noteq> 48" using "1.IH" by simp
    then show ?thesis using False by (subst nat_str.simps) simp
  qed
qed

lemma nat_str_0: "nat_str 0 = [48]"
  by (subst nat_str.simps) simp

lemma nat_str_zero_iff: "nat_str n = [48] \<longleftrightarrow> n = 0"
  using hd_nat_str [of n] nat_str_0 by (cases "n = 0") auto

lemma nat_str_good: "n \<noteq> 0 \<Longrightarrow> \<not> bad_number (nat_str n)"
  using hd_nat_str [of n] nat_str_digits [of n] by (simp add: bad_number_def list_all_iff)

definition cont_name :: "jstr \<Rightarrow> nat \<Rightarrow> jstr" where
  "cont_name name i = name @ [42] @ nat_str i"

lemma not_ends_star_cont: "\<not> ends_star (cont_name name i)"
proof -
  have "is_digit (last (nat_str i))"
    using nat_str_digits [of i] last_in_set [of "nat_str i"] by auto
  then show ?thesis by (auto simp: ends_star_def cont_name_def is_digit_def)
qed

lemma sort_match_cont:
  assumes "42 \<notin> set name"
  shows "sort_match pms (cont_name name i, v) = pms\<lparr>continuation_values :=
     add_continuation name (nat_str i) False v (continuation_values pms)\<rparr>"
proof -
  have i: "index_of 42 (cont_name name i) = Some (length name)"
    using index_of_append [OF assms] by (simp add: cont_name_def)
  have "length (nat_str i) \<noteq> 0" by simp
  then have l: "length name \<noteq> length (cont_name name i) - 1"
    unfolding cont_name_def by (simp del: length_0_conv)
  have s: "slice (length name + 1) (length (cont_name name i) - 0) (cont_name name i) = nat_str i"
    by (simp add: slice_def cont_name_def)
  have t: "take (length name) (cont_name name i) = name"
    by (simp add: cont_name_def)
  show ?thesis
    using not_ends_star_cont [of name i] l s t by (simp add: sort_match_def i Let_def)
qed

lemma sort_matches_cont:
  assumes "42 \<notin> set name" and "distinct (map fst ps)"
  shows "sort_matches (map (\<lambda>(i, v). (cont_name name i, v)) ps) =
    \<lparr>simple_values = [], charset_values = [],
      continuation_values = (if ps = [] then [] else
        [(name, \<lparr>ce_valid = True,
           ce_has_charset = (if 0 \<in> fst ` set ps then Some False else None), ce_parts = ps\<rparr>)])\<rparr>"
  using assms(2)
proof (induction ps rule: rev_induct)
  case Nil
  show ?case by (simp add: sort_matches_def)
next
  case (snoc p ps)
  obtain i v where p: "p = (i, v)" by (cases p)
  have new: "map_of ps i = None" using snoc.prems p by (auto simp: map_of_eq_None_iff)
  have IH: "sort_matches (map (\<lambda>(i, v). (cont_name name i, v)) ps) =
    \<lparr>simple_values = [], charset_values = [],
      continuation_values = (if ps = [] then [] else
        [(name, \<lparr>ce_valid = True,
           ce_has_charset = (if 0 \<in> fst ` set ps then Some False else None), ce_parts = ps\<rparr>)])\<rparr>"
    using snoc by simp
  have bad: "0 < i \<Longrightarrow> \<not> bad_number (nat_str i)"
    using nat_str_good [of i] by simp
  show ?case
    using new IH bad
    by (auto simp add: sort_matches_append p sort_match_cont [OF assms(1)] add_continuation_def
        new_entry_def nat_str_zero_iff digits_val_nat_str Let_def)
qed

lemma prefix_parts_full:
  assumes "\<And>j. i \<le> j \<Longrightarrow> j < i + k \<Longrightarrow> map_of ps j = Some (f j)"
  shows "prefix_parts ps i k = concat (map f [i..<i + k])"
  using assms
proof (induction k arbitrary: i)
  case (Suc k)
  have "prefix_parts ps (Suc i) k = concat (map f [Suc i..<Suc i + k])"
    using Suc.prems by (intro Suc.IH) auto
  moreover have "[i..<i + Suc k] = i # [Suc i..<Suc i + k]"
    by (simp add: upt_rec [of i])
  ultimately show ?case using Suc.prems [of i] by simp
qed simp

text \<open>
  The pieces of a continued parameter come back joined in the order of their numbers, in
  whatever order the header lists them.
\<close>

lemma build_values_cont:
  assumes "42 \<notin> set name" and "vs \<noteq> []"
    and "mset ps = mset (zip [0..<length vs] vs)"
  shows "build_values api True (sort_matches (map (\<lambda>(i, v). (cont_name name i, v)) ps)) =
     [(name, concat vs)]"
proof -
  have len: "length ps = length vs"
    using mset_eq_length [OF assms(3)] by simp
  have "mset (map fst ps) = mset (map fst (zip [0..<length vs] vs))"
    using assms(3) by (metis mset_map)
  then have "mset (map fst ps) = mset [0..<length vs]" by simp
  then have d: "distinct (map fst ps)" by (metis distinct_upt mset_eq_imp_distinct_iff)
  have st: "set ps = set (zip [0..<length vs] vs)" using assms(3) by (metis set_mset_mset)
  have parts: "map_of ps j = Some (vs ! j)" if "j < length vs" for j
  proof -
    have "(j, vs ! j) \<in> set ps"
      unfolding st set_zip using that by (intro CollectI exI [of _ j]) simp
    with d show ?thesis by simp
  qed
  have zero: "0 \<in> fst ` set ps"
  proof -
    have "(0, vs ! 0) \<in> set ps"
      unfolding st set_zip using assms(2) by (intro CollectI exI [of _ 0]) simp
    then show ?thesis by force
  qed
  have "ps \<noteq> []" using len assms(2) by auto
  have "prefix_parts ps 0 (length ps) = concat (map ((!) vs) [0..<0 + length ps])"
    using parts len by (intro prefix_parts_full) auto
  then have v: "entry_value \<lparr>ce_valid = True, ce_has_charset = Some False, ce_parts = ps\<rparr> = concat vs"
    using len by (simp add: entry_value_def map_nth)
  show ?thesis
    using zero \<open>ps \<noteq> []\<close> v
    by (simp add: sort_matches_cont [OF assms(1) d] build_values_def put_continuation_def)
qed

section \<open>Reading a parameter list\<close>

definition quote_value :: "jstr \<Rightarrow> jstr" where
  "quote_value v = 34 # escape (\<lambda>c. c = 34 \<or> c = 92) v @ [34]"

fun param_src :: "jstr \<times> jstr \<Rightarrow> jstr" where
  "param_src (n, v) = [59, 32] @ n @ [61] @ quote_value v"

definition good_name :: "jstr \<Rightarrow> bool" where
  "good_name n \<longleftrightarrow> n \<noteq> [] \<and> (\<forall>c\<in>set n. atom_char (param_opts False) param_delims c)"

lemma lexes_equals:
  assumes "\<not> opt_rfc2047 opts" "61 \<in> set ds"
  shows "token_loop api opts ds (pre @ 61 # post) (length pre) st =
     (if end_quote st = None \<and> comment_depth st = 0 then
        token_loop api opts ds (pre @ 61 # post) (Suc (length pre))
          (push_token (Delim 61) (close_token (pre @ 61 # post) (length pre) st))
      else token_loop api opts ds (pre @ 61 # post) (length pre) st)"
proof (cases "end_quote st = None \<and> comment_depth st = 0")
  case True
  have "apply_action v i 61 \<lparr>is_ending = True, is_starting = False, is_special = True,
      new_quote = None, new_depth = 0\<rparr> st = push_token (Delim 61) (close_token v i st)" for v i
    using True
    by (cases st) (simp add: apply_action_def close_token_def push_token_def split: option.splits)
  moreover have "\<not> is_wsp 61" by (simp add: is_wsp_def)
  ultimately show ?thesis
    using True assms
    unfolding token_loop_step by (simp add: token_step_def classify_delim)
qed auto

lemma lexes_name_equals:
  assumes "good_name n"
  shows "lexes api (param_opts False) param_delims (n @ [61]) [Tok n, Delim 61]"
proof (rule lexesI)
  fix pre post and st :: token_state
  assume st: "token_start st = None" "end_quote st = None" "comment_depth st = 0"
  have n: "\<forall>c\<in>set n. atom_char (param_opts False) param_delims c" "n \<noteq> []"
    using assms by (auto simp: good_name_def)
  show "token_loop api (param_opts False) param_delims (pre @ (n @ [61]) @ post) (length pre) st =
      token_loop api (param_opts False) param_delims (pre @ (n @ [61]) @ post)
        (length pre + length (n @ [61])) (st\<lparr>token_list := token_list st @ [Tok n, Delim 61]\<rparr>)"
    using token_loop_atom_then(1) [OF n st(1,2), of api pre 61 post]
      token_loop_atom_then(2) [OF n st(1,2), of pre 61 post]
      lexes_equals [of "param_opts False" param_delims api "pre @ n" post
        "st\<lparr>token_start := Some (length pre)\<rparr>"] st
    by (simp add: push_token_def param_opts_def param_delims_def)
qed

lemma lexes_param:
  assumes "good_name n"
  shows "lexes api (param_opts False) param_delims (param_src (n, v))
     [Delim 59, Tok n, Delim 61, Tok v]"
proof -
  have "lexes api (param_opts False) param_delims
      ([59] @ [32] @ (n @ [61]) @ quote_value v) ([Delim 59] @ [] @ [Tok n, Delim 61] @ [Tok v])"
    unfolding quote_value_def
    using assms
    by (intro lexes_append [OF lexes_delim lexes_append [OF lexes_wsp
          lexes_append [OF lexes_name_equals lexes_quoted]]])
       (auto simp: param_delims_def param_opts_def is_wsp_def)
  then show ?thesis by simp
qed

lemma lexes_params:
  "\<forall>p\<in>set ps. good_name (fst p) \<Longrightarrow>
     lexes api (param_opts False) param_delims (concat (map param_src ps))
       (concat (map (\<lambda>(n, v). [Delim 59, Tok n, Delim 61, Tok v]) ps))"
proof (induction ps)
  case (Cons p ps)
  obtain n v where "p = (n, v)" by (cases p)
  with Cons show ?case
    using lexes_append [OF lexes_param [of n api v]] by fastforce
qed (simp add: lexes_Nil)

definition after_param :: "match_state \<Rightarrow> bool" where
  "after_param st \<longleftrightarrow> pm_name st = []"

lemma foldl_params:
  assumes "pm_name st = []" and "\<forall>p\<in>set ps. fst p \<noteq> []"
    and "\<forall>p\<in>set ps. do_rfc2231 \<longrightarrow> \<not> ends_star (fst p)"
  shows "\<exists>b. foldl (match_step do_rfc2231) st
      (concat (map (\<lambda>(n, v). [Delim 59, Tok n, Delim 61, Tok v]) ps)) =
    \<lparr>pm_name = [], pm_in_name = b, pm_matches = pm_matches st @ ps\<rparr>"
  using assms
proof (induction ps arbitrary: st)
  case Nil
  then show ?case by (intro exI [of _ "pm_in_name st"]) simp
next
  case (Cons p ps)
  obtain n v where p: "p = (n, v)" by (cases p)
  have "foldl (match_step do_rfc2231) st [Delim 59, Tok n, Delim 61, Tok v] =
      \<lparr>pm_name = [], pm_in_name = False, pm_matches = pm_matches st @ [(n, v)]\<rparr>"
    using Cons.prems p by (auto simp: match_step_def)
  then show ?case
    using Cons.IH [of "\<lparr>pm_name = [], pm_in_name = False, pm_matches = pm_matches st @ [(n, v)]\<rparr>"]
      Cons.prems p
    by simp
qed

lemma pre_semi_of_id:
  assumes "\<forall>c\<in>set t. \<not> js_ws c"
  shows "pre_semi_of t = t"
proof -
  have "trim t = t"
    using assms by (intro trim_id) (cases "t = []", auto)
  moreover have "\<forall>c\<in>set t. \<not> is_wsp c" using assms is_wsp_js_ws by blast
  ultimately show ?thesis by (simp add: pre_semi_of_def takeWhile_eq_all_conv [THEN iffD2])
qed

text \<open>
  A header written as a token and quoted parameters gives back the token and exactly these
  pairs, whatever characters the values hold.
\<close>

lemma parse_parameter_header_params:
  assumes "\<forall>c\<in>set t. \<not> js_ws c \<and> c \<noteq> 59" and "\<forall>p\<in>set ps. good_name (fst p)"
    and "\<forall>p\<in>set ps. do_rfc2231 \<longrightarrow> \<not> ends_star (fst p)"
  shows "parse_parameter_header api (t @ concat (map param_src ps)) False do_rfc2231 =
     Inr \<lparr>pv_pre_semi = t, pv_values = build_values api do_rfc2231 (sort_matches ps)\<rparr>"
proof -
  let ?s = "concat (map param_src ps)"
  have t: "59 \<notin> set t" using assms(1) by auto
  have split: "(case index_of 59 (t @ ?s) of None \<Rightarrow> t @ ?s | Some i \<Rightarrow> take i (t @ ?s)) = t
     \<and> (case index_of 59 (t @ ?s) of None \<Rightarrow> [] | Some i \<Rightarrow> drop i (t @ ?s)) = ?s"
  proof (cases ps)
    case Nil
    have "index_of 59 t = None" using t by (simp add: index_of_None_iff)
    with Nil show ?thesis by simp
  next
    case (Cons p ps')
    obtain r where "?s = 59 # r" using Cons by (cases p) auto
    then show ?thesis using index_of_append [OF t, of r] by simp
  qed
  have tok: "get_header_tokens api ?s param_delims (param_opts False) =
      Inr (concat (map (\<lambda>(n, v). [Delim 59, Tok n, Delim 61, Tok v]) ps))"
    using assms(2) by (intro get_header_tokens_lexes lexes_params)
  have "\<forall>p\<in>set ps. fst p \<noteq> []" using assms(2) by (auto simp: good_name_def)
  then obtain b where f: "foldl (match_step do_rfc2231) init_matches
      (concat (map (\<lambda>(n, v). [Delim 59, Tok n, Delim 61, Tok v]) ps)) =
      \<lparr>pm_name = [], pm_in_name = b, pm_matches = ps\<rparr>"
    using foldl_params [of init_matches ps do_rfc2231] assms(3) by (auto simp: init_matches_def)
  have pre: "pre_semi_of t = t" using assms(1) by (intro pre_semi_of_id) auto
  show ?thesis
    using split tok f pre
    by (simp add: parse_parameter_header_def Let_def finish_matches_def)
qed

section \<open>Properties\<close>

lemma sort_matches_starless:
  assumes "\<forall>p\<in>set ps. 42 \<notin> set (fst p)"
  shows "charset_values (sort_matches ps) = [] \<and> continuation_values (sort_matches ps) = []"
  using assms
proof (induction ps rule: rev_induct)
  case (snoc p ps)
  then have "index_of 42 (fst p) = None" by (simp add: index_of_None_iff)
  with snoc show ?case by (simp add: sort_matches_def sort_match_def)
qed (simp add: sort_matches_def)

lemma starless_end: "42 \<notin> set n \<Longrightarrow> \<not> ends_star n"
proof
  assume n: "42 \<notin> set n" and "ends_star n"
  then have "n \<noteq> []" "last n = 42" by (simp_all add: ends_star_def)
  with n show False using last_in_set [of n] by simp
qed

lemma build_values_starless:
  "\<forall>p\<in>set ps. 42 \<notin> set (fst p) \<Longrightarrow> build_values api True (sort_matches ps) = build_values api False (sort_matches ps)"
  by (simp add: build_values_def sort_matches_starless)

text \<open>C22: the parameters of a header whose values are quoted strings are read back: the text before
  the first semicolon, and for every name without a star its first value, whatever characters
  the value has.  The header is read without RFC 2047 decoding, as a Content-Type is; the names are
  atoms; and when RFC 2231 is decoded no name has a star.\<close>

theorem parameters_roundtrip:
  assumes "\<forall>c\<in>set t. \<not> js_ws c \<and> c \<noteq> 59" and "\<forall>p\<in>set ps. good_name (fst p)" and "42 \<notin> set k"
    and "do_rfc2231 \<longrightarrow> (\<forall>p\<in>set ps. 42 \<notin> set (fst p))"
  shows "bindE (parse_parameter_header api (t @ concat (map param_src ps)) False do_rfc2231)
       (\<lambda>v. Inr (pv_pre_semi v, map_of (pv_values v) k)) = Inr (t, map_of ps k)"
proof -
  have "\<forall>p\<in>set ps. do_rfc2231 \<longrightarrow> \<not> ends_star (fst p)"
    using assms(4) starless_end by blast
  from parse_parameter_header_params [OF assms(1,2) this, of api]
  show ?thesis
    using build_values_simple [OF assms(3), of api ps] build_values_starless [of ps api] assms(4)
    by (cases do_rfc2231) simp_all
qed

theorem parameters_roundtrip_witness:
  "bindE (parse_parameter_header latin1_api (js ''text/plain'' @ concat (map param_src
         [(js ''name'', js ''a;b''), (js ''name'', js ''c'')])) False True)
       (\<lambda>v. Inr (pv_pre_semi v, map_of (pv_values v) (js ''name''))) = Inr (js ''text/plain'', Some (js ''a;b''))"
proof -
  have 1: "\<forall>c\<in>set (js ''text/plain''). \<not> js_ws c \<and> c \<noteq> 59"
    "\<forall>p\<in>set [(js ''name'', js ''a;b''), (js ''name'', js ''c'')]. good_name (fst p)"
    "42 \<notin> set (js ''name'')" by code_simp+
  then show ?thesis
    using parameters_roundtrip [OF 1, of True latin1_api] by simp
qed

lemma atom_char_digit: "is_digit c \<Longrightarrow> atom_char (param_opts False) param_delims c"
  by (auto simp: is_digit_def atom_char_def param_opts_def param_delims_def is_wsp_def)

lemma cont_name_good:
  assumes "good_name name"
  shows "good_name (cont_name name i) \<and> \<not> ends_star (cont_name name i)"
proof -
  have "atom_char (param_opts False) param_delims 42" by code_simp
  then show ?thesis
    using assms nat_str_digits [of i] atom_char_digit not_ends_star_cont
    by (auto simp: good_name_def cont_name_def)
qed

text \<open>C23: the pieces of an RFC 2231 continuation are put together in the order of their numbers,
  in whatever order the header has them.\<close>

theorem continuations_any_order:
  assumes "\<forall>c\<in>set t. \<not> js_ws c \<and> c \<noteq> 59" and "good_name name" "42 \<notin> set name" and "vs \<noteq> []"
    and "mset ps = mset (zip [0..<length vs] vs)"
  shows "parse_parameter_header api
       (t @ concat (map param_src (map (\<lambda>(i, v). (cont_name name i, v)) ps))) False True =
     Inr \<lparr>pv_pre_semi = t, pv_values = [(name, concat vs)]\<rparr>"
proof -
  let ?ps = "map (\<lambda>(i, v). (cont_name name i, v)) ps"
  have "\<forall>p\<in>set ?ps. good_name (fst p)" "\<forall>p\<in>set ?ps. True \<longrightarrow> \<not> ends_star (fst p)"
    using cont_name_good [OF assms(2)] by auto
  from parse_parameter_header_params [OF assms(1) this, of api]
  show ?thesis unfolding build_values_cont [OF assms(3-5)] .
qed

theorem continuations_any_order_witness:
  "parse_parameter_header latin1_api
     (js ''a/b'' @ concat (map param_src (map (\<lambda>(i, v). (cont_name (js ''f'') i, v))
        [(1, js ''lo''), (0, js ''hel'')]))) False True =
     Inr \<lparr>pv_pre_semi = js ''a/b'', pv_values = [(js ''f'', concat [js ''hel'', js ''lo''])]\<rparr>"
proof (rule continuations_any_order)
  show "\<forall>c\<in>set (js ''a/b''). \<not> js_ws c \<and> c \<noteq> 59" "good_name (js ''f'')" by code_simp+
qed simp_all

text \<open>parameter names that differ in case are merged by \<open>parseContentType\<close>, and the last one
  counts, although of two parameters with the same spelling the first one counts.\<close>

theorem content_type_case_last_wins:
  "bindE (parse_content_type latin1_api [js ''text/plain; charset=a; charset=b''])
     (\<lambda>ct. Inr (ct_get ct (js ''charset''))) = Inr (Some (js ''a''))
   \<and> bindE (parse_content_type latin1_api [js ''text/plain; Charset=a; charset=b''])
     (\<lambda>ct. Inr (ct_get ct (js ''charset''))) = Inr (Some (js ''b''))"
proof
  show "bindE (parse_content_type latin1_api [js ''text/plain; charset=a; charset=b''])
     (\<lambda>ct. Inr (ct_get ct (js ''charset''))) = Inr (Some (js ''a''))" by code_simp
  show "bindE (parse_content_type latin1_api [js ''text/plain; Charset=a; charset=b''])
     (\<lambda>ct. Inr (ct_get ct (js ''charset''))) = Inr (Some (js ''b''))" by code_simp
qed

end
