(* ===== verification/StructuredHeaders.thy ===== *)
theory StructuredHeaders
  imports DateHeader ParamHeader
begin

text \<open>
  The structured headers: the tables of \<open>structuredHeaders\<close>, the registry of decoders of
  \<open>headerparser\<close> (\<open>parseStructuredHeader\<close>, \<open>addStructuredDecoder\<close>) and the class
  \<open>StructuredHeaders\<close> that holds the headers of one part.
\<close>

section \<open>The tables\<close>

text \<open>A structured value; \<open>VUser\<close> stands for what a decoder of the client returns.\<close>

datatype hvalue =
    VAddrs "addr list"
  | VText jstr
  | VTexts "jstr list"
  | VDate "int option"
  | VType content_type
  | VUser nat

datatype decoder =
    ParseAddress
  | ParseUnstructured
  | ParseMessageID
  | ParseDate
  | ParseContentType
  | ParseTransferEncoding
  | PreprocessMessageIDs
  | CustomDecoder "jstr list \<Rightarrow> js_error + hvalue"

datatype encoder = WriteAddress | WriteUnstructured | WriteMessageID | WriteDate

record tables =
  t_decoders :: "decoder jsmap"
  t_encoders :: "encoder jsmap"
  t_spellings :: "jstr jsmap"

definition add_header :: "jstr \<Rightarrow> decoder \<Rightarrow> encoder \<Rightarrow> tables \<Rightarrow> tables" where
  "add_header name decoder encoder t =
     t\<lparr>t_decoders := AList.update (to_lower name) decoder (t_decoders t),
       t_encoders := AList.update (to_lower name) encoder (t_encoders t),
       t_spellings := AList.update (to_lower name) name (t_spellings t)\<rparr>"

definition add_headers :: "string list \<Rightarrow> decoder \<Rightarrow> encoder \<Rightarrow> tables \<Rightarrow> tables" where
  "add_headers names decoder encoder t = foldl (\<lambda>t n. add_header (js n) decoder encoder t) t names"

definition set_decoder :: "string \<Rightarrow> decoder \<Rightarrow> tables \<Rightarrow> tables" where
  "set_decoder name decoder t = t\<lparr>t_decoders := AList.update (js name) decoder (t_decoders t)\<rparr>"

definition set_encoder :: "string \<Rightarrow> encoder \<Rightarrow> tables \<Rightarrow> tables" where
  "set_encoder name encoder t = t\<lparr>t_encoders := AList.update (js name) encoder (t_encoders t)\<rparr>"

definition default_tables :: tables where
  "default_tables =
     (let t0 = \<lparr>t_decoders = [], t_encoders = [], t_spellings = []\<rparr>;
          t1 = add_headers
            [''Bcc'', ''Cc'', ''From'', ''Reply-To'', ''Resent-Bcc'', ''Resent-Cc'',
             ''Resent-From'', ''Resent-Reply-To'', ''Resent-Sender'', ''Resent-To'', ''Sender'',
             ''To'', ''Approved'', ''Disposition-Notification-To'', ''Delivered-To'',
             ''Return-Receipt-To'', ''Mail-Reply-To'', ''Mail-Followup-To'']
            ParseAddress WriteAddress t0;
          t2 = set_decoder ''Content-Type'' ParseContentType t1;
          t3 = add_headers
            [''Comments'', ''Keywords'', ''Subject'', ''MIME-Version'', ''Content-Description'',
             ''User-Agent''] ParseUnstructured WriteUnstructured t2;
          t4 = add_headers
            [''Date'', ''Resent-Date'', ''Expires'', ''Injection-Date'', ''NNTP-Posting-Date'']
            ParseDate WriteDate t3;
          t5 = add_headers [''Message-ID'', ''Resent-Message-ID''] ParseMessageID WriteMessageID t4;
          t6 = set_decoder ''Content-Transfer-Encoding'' ParseTransferEncoding t5;
          t7 = set_encoder ''Content-Transfer-Encoding'' WriteUnstructured t6;
          t8 = set_decoder ''References'' PreprocessMessageIDs t7
      in set_decoder ''In-Reply-To'' PreprocessMessageIDs t8)"

text \<open>\<open>preprocessMessageIDs\<close>: every match of \<open>/<[^>]*>/g\<close> in the text.\<close>

function msg_ids :: "jstr \<Rightarrow> jstr list" where
  "msg_ids [] = []"
| "msg_ids (c # s) =
     (if c = 60
      then (case index_of 62 s of
              None \<Rightarrow> msg_ids s
            | Some i \<Rightarrow> (60 # take (Suc i) s) # msg_ids (drop (Suc i) s))
      else msg_ids s)"
  by pat_completeness auto
termination by (relation "measure length") auto

definition preprocess_message_ids :: "jstr list \<Rightarrow> jstr" where
  "preprocess_message_ids values = join [32] (msg_ids (join [44] values))"

section \<open>The registry of decoders\<close>

record registry =
  decoders :: "decoder jsmap"
  forbidden :: "jstr list"
  spellings :: "jstr jsmap"

definition add_structured_decoder :: "jstr \<Rightarrow> decoder \<Rightarrow> registry \<Rightarrow> js_error + registry" where
  "add_structured_decoder header decoder r =
     (let lower = to_lower header in
      if lower \<in> set (forbidden r) then Inl (CannotOverride header)
      else Inr (r\<lparr>decoders := AList.update lower decoder (decoders r),
                  spellings := (if map_of (spellings r) lower = None
                                then AList.update lower header (spellings r)
                                else spellings r)\<rparr>))"

fun load_decoders :: "(jstr \<times> decoder) list \<Rightarrow> registry \<Rightarrow> js_error + registry" where
  "load_decoders [] r = Inr r"
| "load_decoders ((name, d) # ds) r =
     bindE (add_structured_decoder name d r) (\<lambda>r'.
       load_decoders ds (r'\<lparr>forbidden := to_lower name # forbidden r'\<rparr>))"

definition empty_registry :: registry where
  "empty_registry = \<lparr>decoders = [], forbidden = [], spellings = t_spellings default_tables\<rparr>"

definition default_registry :: registry where
  "default_registry =
     (case load_decoders (t_decoders default_tables) empty_registry of
        Inr r \<Rightarrow> r | Inl e \<Rightarrow> empty_registry)"

definition run_structured_decoder :: "'d charset_api \<Rightarrow> decoder \<Rightarrow> jstr list \<Rightarrow> js_error + hvalue" where
  "run_structured_decoder api d values =
     (case d of
        ParseAddress \<Rightarrow>
          bindE (mapE (\<lambda>header. parse_addressing_header api header True) values)
            (\<lambda>results. Inr (VAddrs (concat results)))
      | ParseUnstructured \<Rightarrow>
          bindE (first_value values) (\<lambda>v. bindE (decode_rfc2047_words api v) (\<lambda>s. Inr (VText s)))
      | ParseMessageID \<Rightarrow>
          bindE (first_value values) (\<lambda>v. bindE (decode_rfc2047_words api v) (\<lambda>s. Inr (VText s)))
      | ParseDate \<Rightarrow>
          bindE (first_value values) (\<lambda>v. bindE (parse_date_header api v) (\<lambda>t. Inr (VDate t)))
      | ParseContentType \<Rightarrow> bindE (parse_content_type api values) (\<lambda>ct. Inr (VType ct))
      | ParseTransferEncoding \<Rightarrow> bindE (first_value values) (\<lambda>v. Inr (VText (to_lower v)))
      | PreprocessMessageIDs \<Rightarrow> Inr (VText (preprocess_message_ids values))
      | CustomDecoder f \<Rightarrow> f values)"

definition parse_structured_header ::
  "'d charset_api \<Rightarrow> registry \<Rightarrow> jstr \<Rightarrow> jstr list \<Rightarrow> js_error + hvalue" where
  "parse_structured_header api r header values =
     (case map_of (decoders r) (to_lower header) of
        Some d \<Rightarrow> run_structured_decoder api d values
      | None \<Rightarrow> Inl (UnknownHeader header))"

section \<open>The headers of a part\<close>

text \<open>
  The length of the line end that ends a header at the start of the text, 0 if there is none:
  the regular expression \<open>/(?:\r\n|\n)(?![ \t])|\r(?![ \t\n])/\<close> of the constructor.
\<close>

fun folds :: "jstr \<Rightarrow> bool" where
  "folds [] = False"
| "folds (c # s) = (c = 32 \<or> c = 9)"

fun header_sep :: "jstr \<Rightarrow> nat" where
  "header_sep [] = 0"
| "header_sep (c # s) =
     (if c = 10 then (if folds s then 0 else 1)
      else if c = 13 then
        (case s of
           [] \<Rightarrow> 1
         | d # s' \<Rightarrow> if d = 10 then (if folds s' then 0 else 2) else if folds s then 0 else 1)
      else 0)"

function split_headers :: "jstr \<Rightarrow> jstr list" where
  "split_headers [] = [[]]"
| "split_headers (c # s) =
     (if header_sep (c # s) = 0
      then (case split_headers s of [] \<Rightarrow> [[c]] | w # ws \<Rightarrow> (c # w) # ws)
      else [] # split_headers (drop (header_sep (c # s)) (c # s)))"
  by pat_completeness auto
termination by (relation "measure length") auto

record headers =
  raw_headers :: "jstr list jsmap"
  cached_headers :: "hvalue jsmap"
  raw_header_text :: jstr
  h_charset :: "jstr option"                  \<comment> \<open>\<open>None\<close> for \<open>null\<close>\<close>
  default_content_type :: "content_type option" \<comment> \<open>the getter that \<open>_parseHeaders\<close> defines\<close>

definition header_field :: "bool \<Rightarrow> jstr \<Rightarrow> jstr \<times> jstr" where
  "header_field strip line =
     (case index_of 58 line of
        Some colon \<Rightarrow>
          (to_lower (trim (take colon line)),
           let v = trim (drop (Suc colon) line)
           in if strip then filter (\<lambda>c. c \<noteq> 13 \<and> c \<noteq> 10) v else v)
      | None \<Rightarrow> (to_lower (trim line), []))"

definition add_field :: "jstr list jsmap \<Rightarrow> jstr \<times> jstr \<Rightarrow> jstr list jsmap" where
  "add_field m = (\<lambda>(name, v).
     if name = [] then m
     else case map_of m name of
            Some vs \<Rightarrow> AList.update name (vs @ [v]) m
          | None \<Rightarrow> AList.update name [v] m)"

text \<open>
  The lines after the mbox delimiter is dropped, and the text that is kept with them.  The code
  looks for the first remaining line by its text.
\<close>

definition header_lines :: "jstr \<Rightarrow> jstr list \<times> jstr" where
  "header_lines txt =
     (let values = split_headers txt in
      if values \<noteq> [] \<and> take 5 (hd values) = js ''From '' then
        (case tl values of
           [] \<Rightarrow> ([], [])
         | v # vs \<Rightarrow>
             (v # vs, case index_of_str v txt of Some i \<Rightarrow> drop i txt | None \<Rightarrow> txt))
      else (values, txt))"

definition structured_headers :: "jstr \<Rightarrow> bool \<Rightarrow> jstr option \<Rightarrow> headers" where
  "structured_headers txt strip charset =
     (let (values, txt') = header_lines txt
      in \<lparr>raw_headers = foldl add_field [] (map (header_field strip) values),
          cached_headers = [], raw_header_text = txt', h_charset = charset,
          default_content_type = None\<rparr>)"

definition get_raw_header :: "headers \<Rightarrow> jstr \<Rightarrow> jstr list option" where
  "get_raw_header h name = map_of (raw_headers h) (to_lower name)"

definition has_header :: "headers \<Rightarrow> jstr \<Rightarrow> bool" where
  "has_header h name \<longleftrightarrow> map_of (raw_headers h) (to_lower name) \<noteq> None"

definition set_charset :: "jstr option \<Rightarrow> headers \<Rightarrow> headers" where
  "set_charset charset h = h\<lparr>h_charset := charset, cached_headers := []\<rparr>"

text \<open>\<open>get\<close> without its cache.\<close>

definition structured_value ::
  "'d charset_api \<Rightarrow> registry \<Rightarrow> jstr option \<Rightarrow> jstr \<Rightarrow> jstr list \<Rightarrow> js_error + hvalue" where
  "structured_value api r charset name raw =
     bindE (mapE (\<lambda>v. convert_8bit_header api v charset) raw) (\<lambda>values.
       catchE (parse_structured_header api r name values) (\<lambda>_.
         bindE (mapE (decode_rfc2047_words api) values) (\<lambda>vs. Inr (VTexts vs))))"

definition get_header ::
  "'d charset_api \<Rightarrow> registry \<Rightarrow> headers \<Rightarrow> jstr \<Rightarrow> js_error + (hvalue option \<times> headers)" where
  "get_header api r h header_name =
     (let name = to_lower header_name in
      case map_of (cached_headers h) name of
        Some v \<Rightarrow> Inr (Some v, h)
      | None \<Rightarrow>
          (case map_of (raw_headers h) name of
             None \<Rightarrow> Inr (None, h)
           | Some raw \<Rightarrow>
               bindE (structured_value api r (h_charset h) name raw) (\<lambda>v.
                 Inr (Some v, h\<lparr>cached_headers := AList.update name v (cached_headers h)\<rparr>))))"

definition content_type_of ::
  "'d charset_api \<Rightarrow> registry \<Rightarrow> headers \<Rightarrow> js_error + (hvalue option \<times> headers)" where
  "content_type_of api r h =
     (case default_content_type h of
        Some ct \<Rightarrow> Inr (Some (VType ct), h)
      | None \<Rightarrow> get_header api r h (js ''Content-Type''))"

section \<open>The header names\<close>

definition is_word_char :: "jchar \<Rightarrow> bool" where
  "is_word_char c \<longleftrightarrow> is_digit c \<or> is_upper c \<or> is_lower c \<or> c = 95"

text \<open>\<open>capitalize\<close>: a lower-case letter after a word boundary becomes upper case.\<close>

fun capitalize_from :: "bool \<Rightarrow> jstr \<Rightarrow> jstr" where
  "capitalize_from in_word [] = []"
| "capitalize_from in_word (c # s) =
     (if \<not> in_word \<and> is_lower c then upper_char c else c) # capitalize_from (is_word_char c) s"

definition capitalize :: "jstr \<Rightarrow> jstr" where
  "capitalize s = capitalize_from False s"

definition header_keys :: "registry \<Rightarrow> headers \<Rightarrow> jstr list" where
  "header_keys r h =
     map (\<lambda>name. case map_of (spellings r) name of
                    Some sp \<Rightarrow> (if sp = [] then capitalize name else sp)
                  | None \<Rightarrow> capitalize name) (map fst (raw_headers h))"

fun header_entries_from ::
  "'d charset_api \<Rightarrow> registry \<Rightarrow> headers \<Rightarrow> jstr list \<Rightarrow> js_error + ((jstr \<times> hvalue option) list \<times> headers)" where
  "header_entries_from api r h [] = Inr ([], h)"
| "header_entries_from api r h (name # names) =
     bindE (get_header api r h name) (\<lambda>(v, h').
       bindE (header_entries_from api r h' names) (\<lambda>(es, h''). Inr ((name, v) # es, h'')))"

definition header_entries ::
  "'d charset_api \<Rightarrow> registry \<Rightarrow> headers \<Rightarrow> js_error + ((jstr \<times> hvalue option) list \<times> headers)" where
  "header_entries api r h = header_entries_from api r h (header_keys r h)"

section \<open>Message identifiers\<close>

lemma msg_ids_cons:
  "62 \<notin> set b \<Longrightarrow> msg_ids (60 # b @ 62 # t) = (60 # b @ [62]) # msg_ids t"
  by (simp add: index_of_append)

lemma msg_ids_form:
  "\<forall>i\<in>set (msg_ids s). \<exists>b. i = 60 # b @ [62] \<and> 62 \<notin> set b"
proof (induction s rule: msg_ids.induct)
  case (2 c s)
  show ?case
  proof (cases "c = 60 \<and> index_of 62 s \<noteq> None")
    case True
    then obtain i where i: "c = 60" "index_of 62 s = Some i" by auto
    then have "i < length s" "s ! i = 62" "62 \<notin> set (take i s)"
      using index_of_SomeD index_of_SomeD_take by auto
    then have "60 # take (Suc i) s = 60 # take i s @ [62]"
      by (simp add: take_Suc_conv_app_nth)
    with 2 i \<open>62 \<notin> set (take i s)\<close> show ?thesis by auto
  next
    case False
    with 2 show ?thesis by (auto split: option.splits)
  qed
qed simp

lemma msg_ids_join:
  assumes "\<forall>i\<in>set ids. \<exists>b. i = 60 # b @ [62] \<and> 62 \<notin> set b"
  shows "msg_ids (join [32] ids) = ids"
  using assms
proof (induction "[32::nat]" ids rule: join.induct)
  case (2 w)
  then obtain b where "w = 60 # b @ [62]" "62 \<notin> set b" by auto
  then show ?case using msg_ids_cons [of b "[]"] by simp
next
  case (3 w v ws)
  then obtain b where b: "w = 60 # b @ [62]" "62 \<notin> set b" by auto
  have "msg_ids (join [32] (w # v # ws)) = msg_ids (60 # b @ 62 # (32 # join [32] (v # ws)))"
    using b by simp
  also have "\<dots> = w # msg_ids (32 # join [32] (v # ws))"
    unfolding msg_ids_cons [OF b(2)] using b(1) by simp
  finally show ?case using 3 by simp
qed simp

lemma preprocess_message_ids_idem:
  "preprocess_message_ids [preprocess_message_ids values] = preprocess_message_ids values"
  unfolding preprocess_message_ids_def join.simps msg_ids_join [OF msg_ids_form] ..

section \<open>The registry\<close>

lemma load_decoders_ok:
  assumes "distinct (map (to_lower \<circ> fst) ds)"
    and "set (map (to_lower \<circ> fst) ds) \<inter> set (forbidden r) = {}"
  shows "\<exists>r'. load_decoders ds r = Inr r'
     \<and> set (forbidden r') = set (forbidden r) \<union> set (map (to_lower \<circ> fst) ds)
     \<and> (\<forall>n. map_of (decoders r') n =
          (case map_of (map (\<lambda>(n, d). (to_lower n, d)) ds) n of
             Some d \<Rightarrow> Some d | None \<Rightarrow> map_of (decoders r) n))"
  using assms
proof (induction ds arbitrary: r)
  case (Cons p ds)
  obtain name d where p: "p = (name, d)" by (cases p)
  have notin: "to_lower name \<notin> set (forbidden r)" using Cons.prems p by auto
  define r1 where "r1 = r\<lparr>decoders := AList.update (to_lower name) d (decoders r),
      spellings := (if map_of (spellings r) (to_lower name) = None
        then AList.update (to_lower name) name (spellings r) else spellings r),
      forbidden := to_lower name # forbidden r\<rparr>"
  have step: "load_decoders (p # ds) r = load_decoders ds r1"
    using notin by (simp add: p add_structured_decoder_def r1_def Let_def)
  have "set (map (to_lower \<circ> fst) ds) \<inter> set (forbidden r1) = {}"
    using Cons.prems p by (auto simp: r1_def)
  moreover have "distinct (map (to_lower \<circ> fst) ds)" using Cons.prems(1) by (simp add: comp_def)
  ultimately obtain r' where r': "load_decoders ds r1 = Inr r'"
    "set (forbidden r') = set (forbidden r1) \<union> set (map (to_lower \<circ> fst) ds)"
    "\<And>n. map_of (decoders r') n = (case map_of (map (\<lambda>(n, d). (to_lower n, d)) ds) n of
       Some d \<Rightarrow> Some d | None \<Rightarrow> map_of (decoders r1) n)"
    using Cons.IH [of r1] by blast
  have none: "map_of (map (\<lambda>(n, d). (to_lower n, d)) ds) (to_lower name) = None"
    using Cons.prems p by (force simp: map_of_eq_None_iff)
  have "map_of (decoders r') n = (case map_of (map (\<lambda>(n, d). (to_lower n, d)) (p # ds)) n of
       Some d \<Rightarrow> Some d | None \<Rightarrow> map_of (decoders r) n)" for n
    using none by (simp add: r'(3) r1_def p update_conv' split: option.split)
  then show ?case unfolding step using r'(1,2) by (intro exI [of _ r']) (auto simp: r1_def p)
qed simp

definition builtin_decoders :: "decoder jsmap" where
  "builtin_decoders = map (\<lambda>(n, d). (to_lower n, d)) (t_decoders default_tables)"

lemma default_names:
  "map (to_lower \<circ> fst) (t_decoders default_tables) = map js
     [''bcc'', ''cc'', ''from'', ''reply-to'', ''resent-bcc'', ''resent-cc'', ''resent-from'',
      ''resent-reply-to'', ''resent-sender'', ''resent-to'', ''sender'', ''to'', ''approved'',
      ''disposition-notification-to'', ''delivered-to'', ''return-receipt-to'', ''mail-reply-to'',
      ''mail-followup-to'', ''content-type'', ''comments'', ''keywords'', ''subject'',
      ''mime-version'', ''content-description'', ''user-agent'', ''date'', ''resent-date'',
      ''expires'', ''injection-date'', ''nntp-posting-date'', ''message-id'', ''resent-message-id'',
      ''content-transfer-encoding'', ''references'', ''in-reply-to'']"
  by (simp add: default_tables_def add_headers_def add_header_def set_decoder_def
      set_encoder_def Let_def to_lower_def lower_char_def is_upper_def)

lemma default_distinct: "distinct (map (to_lower \<circ> fst) (t_decoders default_tables))"
  unfolding default_names by code_simp

lemma default_registry_ok:
  "load_decoders (t_decoders default_tables) empty_registry = Inr default_registry"
  "set (forbidden default_registry) = fst ` set builtin_decoders"
  "map_of (decoders default_registry) n = map_of builtin_decoders n"
proof -
  obtain r' where r': "load_decoders (t_decoders default_tables) empty_registry = Inr r'"
    "set (forbidden r') = set (map (to_lower \<circ> fst) (t_decoders default_tables))"
    "\<And>n. map_of (decoders r') n = map_of builtin_decoders n"
  proof -
    have e: "forbidden empty_registry = []" "decoders empty_registry = []"
      by (simp_all add: empty_registry_def)
    have m: "(case map_of builtin_decoders n of None \<Rightarrow> map_of [] n | Some d \<Rightarrow> Some d) =
        map_of builtin_decoders n" for n
      by (cases "map_of builtin_decoders n") auto
    show thesis
      using load_decoders_ok [OF default_distinct, of empty_registry]
      unfolding builtin_decoders_def [symmetric] e m by (auto intro: that)
  qed
  then have "default_registry = r'" by (simp add: default_registry_def)
  then show "load_decoders (t_decoders default_tables) empty_registry = Inr default_registry"
    "set (forbidden default_registry) = fst ` set builtin_decoders"
    "map_of (decoders default_registry) n = map_of builtin_decoders n"
    using r' by (auto simp: builtin_decoders_def image_image case_prod_unfold)
qed

text \<open>The registries that a client can reach from the default one.\<close>

inductive registry_reachable :: "registry \<Rightarrow> bool" where
  reach_default: "registry_reachable default_registry"
| reach_add: "registry_reachable r \<Longrightarrow> add_structured_decoder header d r = Inr r' \<Longrightarrow>
     registry_reachable r'"

lemma registry_keeps_builtin:
  assumes "registry_reachable r"
  shows "forbidden r = forbidden default_registry \<and>
    (\<forall>n\<in>fst ` set builtin_decoders. map_of (decoders r) n = map_of builtin_decoders n)"
  using assms
proof induction
  case reach_default
  show ?case using default_registry_ok(3) by simp
next
  case (reach_add r header d r')
  then have f: "to_lower header \<notin> set (forbidden r)"
    and r': "r' = r\<lparr>decoders := AList.update (to_lower header) d (decoders r),
                  spellings := (if map_of (spellings r) (to_lower header) = None
                                then AList.update (to_lower header) header (spellings r)
                                else spellings r)\<rparr>"
    by (auto simp: add_structured_decoder_def Let_def split: if_splits)
  have "to_lower header \<notin> fst ` set builtin_decoders"
    using f reach_add.IH default_registry_ok(2) by simp
  then have "n \<noteq> to_lower header" if "n \<in> fst ` set builtin_decoders" for n
    using that by metis
  then show ?case using reach_add.IH by (simp add: r' update_conv')
qed

section \<open>The raw headers\<close>

definition values_of :: "(jstr \<times> jstr) list \<Rightarrow> jstr \<Rightarrow> jstr list" where
  "values_of pairs name = map snd (filter (\<lambda>f. fst f = name) pairs)"

lemma add_fields_get:
  "map_of (foldl add_field [] pairs) name =
     (if name = [] \<or> values_of pairs name = [] then None else Some (values_of pairs name))"
proof (induction pairs rule: rev_induct)
  case (snoc f pairs)
  then show ?case
    by (cases f) (auto simp: add_field_def values_of_def update_conv' split: option.splits if_splits)
qed (simp add: values_of_def)

lemma add_field_keys:
  "map fst (add_field m f) =
     (if fst f = [] \<or> fst f \<in> set (map fst m) then map fst m else map fst m @ [fst f])"
  by (cases f) (auto simp: add_field_def keys_alist_update map_of_eq_None_iff image_iff
      dest: map_of_SomeD split: option.splits)

lemma add_fields_keys:
  "distinct (map fst (foldl add_field [] pairs))
   \<and> (\<forall>n\<in>set (map fst (foldl add_field [] pairs)). n \<noteq> [] \<and> n \<in> fst ` set pairs)"
proof (induction pairs rule: rev_induct)
  case (snoc f pairs)
  let ?m = "foldl add_field [] pairs"
  have "map fst (foldl add_field [] (pairs @ [f])) =
      (if fst f = [] \<or> fst f \<in> set (map fst ?m) then map fst ?m else map fst ?m @ [fst f])"
    by (simp add: add_field_keys del: set_map)
  with snoc show ?case by (simp del: set_map)
qed simp

lemma header_field_lower: "to_lower (fst (header_field strip line)) = fst (header_field strip line)"
  by (simp add: header_field_def split: option.splits)

lemma structured_headers_names:
  assumes "h = structured_headers txt strip charset"
  shows "distinct (map fst (raw_headers h))"
    and "\<forall>n\<in>set (map fst (raw_headers h)). n \<noteq> [] \<and> to_lower n = n"
proof -
  let ?fs = "map (header_field strip) (fst (header_lines txt))"
  have raw: "raw_headers h = foldl add_field [] ?fs"
    by (simp add: assms structured_headers_def split: prod.splits)
  show "distinct (map fst (raw_headers h))" using add_fields_keys raw by simp
  show "\<forall>n\<in>set (map fst (raw_headers h)). n \<noteq> [] \<and> to_lower n = n"
  proof
    fix n
    assume "n \<in> set (map fst (raw_headers h))"
    then have "n \<noteq> []" "n \<in> fst ` set ?fs" using add_fields_keys [of ?fs] raw by auto
    then show "n \<noteq> [] \<and> to_lower n = n" using header_field_lower by auto
  qed
qed

text \<open>A piece of a header that is not cut by the constructor, wherever it ends a line.\<close>

definition unsplit :: "jstr \<Rightarrow> bool" where
  "unsplit l \<longleftrightarrow> (\<forall>t. \<not> folds t \<longrightarrow> split_headers (l @ 13 # 10 # t) = l # split_headers t)"

lemma unsplit_Nil: "unsplit []"
  by (simp add: unsplit_def)

lemma unsplit_Cons: "c \<noteq> 13 \<Longrightarrow> c \<noteq> 10 \<Longrightarrow> unsplit l \<Longrightarrow> unsplit (c # l)"
  by (simp add: unsplit_def)

lemma unsplit_text: "13 \<notin> set s \<Longrightarrow> 10 \<notin> set s \<Longrightarrow> unsplit l \<Longrightarrow> unsplit (s @ l)"
  by (induction s) (auto intro: unsplit_Cons)

lemma unsplit_fold: "unsplit l \<Longrightarrow> unsplit (13 # 10 # 32 # l)"
  by (simp add: unsplit_def)

lemma unsplit_folded:
  "\<forall>p\<in>set ps. 13 \<notin> set p \<and> 10 \<notin> set p \<Longrightarrow> unsplit (join [13, 10, 32] ps)"
proof (induction "[13::nat, 10, 32]" ps rule: join.induct)
  case (2 w)
  then show ?case using unsplit_text [of w "[]"] unsplit_Nil by simp
next
  case (3 w v ws)
  then show ?case using unsplit_text [of w] unsplit_fold by simp
qed (simp add: unsplit_Nil)

text \<open>
  A header block as a message writes it: name, colon, space, the value in folded pieces.
\<close>

definition field_line :: "jstr \<times> jstr list \<Rightarrow> jstr" where
  "field_line = (\<lambda>(name, parts). name @ [58, 32] @ join [13, 10, 32] parts)"

definition good_field :: "jstr \<times> jstr list \<Rightarrow> bool" where
  "good_field = (\<lambda>(name, parts).
     name \<noteq> [] \<and> (\<forall>c\<in>set name. c \<noteq> 58 \<and> \<not> js_ws c)
     \<and> (\<forall>p\<in>set parts. p \<noteq> [] \<and> 13 \<notin> set p \<and> 10 \<notin> set p \<and> \<not> js_ws (hd p) \<and> \<not> js_ws (last p)))"

fun header_block :: "(jstr \<times> jstr list) list \<Rightarrow> jstr" where
  "header_block [] = []"
| "header_block (f # fs) = field_line f @ 13 # 10 # header_block fs"

lemma ws_line_end: "js_ws 13" "js_ws 10"
  by (simp_all add: js_ws_def)

lemma good_name_start: "good_field (name, parts) \<Longrightarrow> \<not> folds (name @ s)"
proof (cases name)
  case (Cons c cs)
  assume "good_field (name, parts)"
  with Cons have "\<not> js_ws c" by (simp add: good_field_def)
  then have "c \<noteq> 32" "c \<noteq> 9" by (auto simp: js_ws_def)
  with Cons show ?thesis by simp
qed (simp add: good_field_def)

lemma header_block_folds: "list_all good_field fs \<Longrightarrow> \<not> folds (header_block fs)"
  using good_name_start by (cases fs) (auto simp: field_line_def split: prod.splits)

lemma split_header_block:
  "list_all good_field fs \<Longrightarrow> split_headers (header_block fs) = map field_line fs @ [[]]"
proof (induction fs)
  case (Cons f fs)
  obtain name parts where f: "f = (name, parts)" by (cases f)
  have name: "13 \<notin> set name" "10 \<notin> set name" and parts: "\<forall>p\<in>set parts. 13 \<notin> set p \<and> 10 \<notin> set p"
    using Cons.prems f ws_line_end by (auto simp: good_field_def)
  have "unsplit (field_line f)"
    using unsplit_text [OF name, of "58 # 32 # join [13, 10, 32] parts"]
      unsplit_Cons [of 58 "32 # join [13, 10, 32] parts"]
      unsplit_Cons [OF _ _ unsplit_folded [OF parts], of 32]
    by (simp add: f field_line_def)
  then show ?case
    using Cons header_block_folds [of fs] by (simp add: unsplit_def)
qed simp

lemma folded_ends:
  assumes "\<forall>p\<in>set parts. p \<noteq> [] \<and> \<not> js_ws (hd p) \<and> \<not> js_ws (last p)" and "parts \<noteq> []"
  shows "join sep parts \<noteq> []" "\<not> js_ws (hd (join sep parts))" "\<not> js_ws (last (join sep parts))"
  using assms by (induction sep parts rule: join.induct) auto

lemma trim_folded:
  assumes "\<forall>p\<in>set parts. p \<noteq> [] \<and> \<not> js_ws (hd p) \<and> \<not> js_ws (last p)"
  shows "trim (32 # join sep parts) = join sep parts"
proof (cases "parts = []")
  case True
  then show ?thesis by (simp add: trim_def trim_left_def)
next
  case False
  note e = folded_ends [OF assms False, of sep]
  then obtain c s where c: "join sep parts = c # s" "\<not> js_ws c"
    by (cases "join sep parts") auto
  have "trim_left (32 # join sep parts) = join sep parts"
    using c by (simp add: trim_left_def)
  moreover have "trim_right (join sep parts) = join sep parts"
    using e by (simp add: trim_right_def) (metis append_butlast_last_id rev_eq_Cons_iff
      dropWhile.simps(2) rev_rev_ident hd_rev hd_Cons_tl rev_is_Nil_conv)
  ultimately show ?thesis by (simp add: trim_def)
qed

lemma filter_folded:
  "\<forall>p\<in>set parts. 13 \<notin> set p \<and> 10 \<notin> set p \<Longrightarrow>
   filter (\<lambda>c. c \<noteq> 13 \<and> c \<noteq> 10) (join [13, 10, 32] parts) = join [32] parts"
proof (induction "[13::nat, 10, 32]" parts rule: join.induct)
  case (2 w)
  then show ?case by (auto simp: filter_id_conv)
next
  case (3 w v ws)
  have "filter (\<lambda>c. c \<noteq> 13 \<and> c \<noteq> 10) w = w"
    using 3 by (auto simp: filter_id_conv)
  with 3 show ?case by simp
qed simp

lemma header_field_line:
  assumes "good_field (name, parts)"
  shows "header_field strip (field_line (name, parts)) =
    (to_lower name, join (if strip then [32] else [13, 10, 32]) parts)"
proof -
  have name: "58 \<notin> set name" "\<forall>c\<in>set name. \<not> js_ws c"
    and parts: "\<forall>p\<in>set parts. p \<noteq> [] \<and> \<not> js_ws (hd p) \<and> \<not> js_ws (last p)"
      "\<forall>p\<in>set parts. 13 \<notin> set p \<and> 10 \<notin> set p"
    using assms by (auto simp: good_field_def)
  have "trim name = name" using name(2)
    by (intro trim_id) auto
  then show ?thesis
    using trim_folded [OF parts(1)] filter_folded [OF parts(2)] index_of_append [OF name(1)]
    by (simp add: header_field_def field_line_def)
qed

text \<open>
  Every field of a well-formed block is found again: under its name in any case, with all its
  values in the order of the message and its folds removed.
\<close>

lemma structured_headers_block:
  assumes "list_all good_field fs" and "take 5 (header_block fs) \<noteq> js ''From ''"
  shows "get_raw_header (structured_headers (header_block fs) strip charset) name =
    (let vs = values_of (map (\<lambda>(n, ps). (to_lower n, join (if strip then [32] else [13, 10, 32]) ps)) fs)
                (to_lower name)
     in if vs = [] then None else Some vs)"
proof -
  let ?sep = "if strip then [32] else [13, 10, 32]"
  let ?ps = "map (\<lambda>(n, ps). (to_lower n, join ?sep ps)) fs"
  have split: "split_headers (header_block fs) = map field_line fs @ [[]]"
    using assms(1) by (rule split_header_block)
  have "take 5 (hd (map field_line fs @ [[]])) \<noteq> js ''From ''"
  proof (cases fs)
    case (Cons f fs')
    then have "take 5 (header_block fs) = take 5 (field_line f)"
      if "take 5 (field_line f) = js ''From ''"
    proof -
      have "5 \<le> length (field_line f)" using arg_cong [OF that, of length] by simp
      then show ?thesis using Cons by simp
    qed
    with assms(2) Cons show ?thesis by auto
  qed simp
  then have lines: "header_lines (header_block fs) = (map field_line fs @ [[]], header_block fs)"
    by (simp add: header_lines_def split)
  have each: "map (header_field strip) (map field_line fs) = ?ps"
    using assms(1) header_field_line by (auto simp: list_all_iff)
  have last: "header_field strip [] = ([], [])"
    by (simp add: header_field_def trim_id)
  have names: "\<forall>p\<in>set ?ps. fst p \<noteq> []"
    using assms(1) by (auto simp: list_all_iff good_field_def to_lower_def)
  have m: "map (header_field strip) (map field_line fs @ [[]]) = ?ps @ [([], [])]"
    by (simp only: map_append each list.map last)
  have "raw_headers (structured_headers (header_block fs) strip charset) =
      foldl add_field [] (?ps @ [([], [])])"
    by (simp only: structured_headers_def lines Let_def prod.case m headers.simps)
  then have "raw_headers (structured_headers (header_block fs) strip charset) = foldl add_field [] ?ps"
    by (simp add: add_field_def)
  moreover have "values_of ?ps [] = []"
    using names by (auto simp: values_of_def filter_empty_conv)
  ultimately show ?thesis
    by (simp add: get_raw_header_def add_fields_get Let_def)
qed

section \<open>The cache\<close>

text \<open>The headers objects that a client can get by looking headers up and setting the charset.\<close>

inductive headers_reachable :: "'d charset_api \<Rightarrow> registry \<Rightarrow> headers \<Rightarrow> bool"
  for api r where
  reach_new: "headers_reachable api r (structured_headers txt strip charset)"
| reach_get: "headers_reachable api r h \<Longrightarrow> get_header api r h name = Inr (v, h') \<Longrightarrow>
     headers_reachable api r h'"
| reach_charset: "headers_reachable api r h \<Longrightarrow> headers_reachable api r (set_charset charset h)"

definition cache_ok :: "'d charset_api \<Rightarrow> registry \<Rightarrow> headers \<Rightarrow> bool" where
  "cache_ok api r h \<longleftrightarrow>
     (\<forall>n v. map_of (cached_headers h) n = Some v \<longrightarrow>
        (\<exists>raw. map_of (raw_headers h) n = Some raw \<and> structured_value api r (h_charset h) n raw = Inr v))"

lemma get_header_ok:
  assumes "cache_ok api r h" and "get_header api r h name = Inr (v, h')"
  shows "cache_ok api r h'" "raw_headers h' = raw_headers h" "h_charset h' = h_charset h"
    "default_content_type h' = default_content_type h"
  using assms unfolding get_header_def cache_ok_def
  by (auto simp: bindE_Inr_iff update_conv' Let_def split: option.splits if_splits)

lemma reachable_cache_ok: "headers_reachable api r h \<Longrightarrow> cache_ok api r h"
proof (induction rule: headers_reachable.induct)
  case (reach_new t strip charset)
  then show ?case by (simp add: cache_ok_def structured_headers_def split: prod.splits)
next
  case (reach_get h name v h')
  then show ?case using get_header_ok(1) by blast
next
  case (reach_charset h charset)
  then show ?case by (simp add: cache_ok_def set_charset_def)
qed

text \<open>What \<open>get\<close> returns, in terms of the raw headers and the charset alone.\<close>

definition header_result ::
  "'d charset_api \<Rightarrow> registry \<Rightarrow> headers \<Rightarrow> jstr \<Rightarrow> js_error + hvalue option" where
  "header_result api r h name =
     (case map_of (raw_headers h) (to_lower name) of
        None \<Rightarrow> Inr None
      | Some raw \<Rightarrow> bindE (structured_value api r (h_charset h) (to_lower name) raw) (\<lambda>v. Inr (Some v)))"

lemma get_header_result:
  assumes "cache_ok api r h"
  shows "bindE (get_header api r h name) (\<lambda>(v, _). Inr v) = header_result api r h name"
proof (cases "map_of (cached_headers h) (to_lower name)")
  case (Some v)
  then obtain raw where "map_of (raw_headers h) (to_lower name) = Some raw"
    "structured_value api r (h_charset h) (to_lower name) raw = Inr v"
    using assms by (auto simp: cache_ok_def)
  with Some show ?thesis by (simp add: get_header_def header_result_def)
next
  case None
  then show ?thesis
    by (cases "map_of (raw_headers h) (to_lower name)")
       (simp_all add: get_header_def header_result_def Let_def)
qed

section \<open>Properties\<close>

text \<open>C18: a block of well-formed fields is read back: under the name of a field in any case one
  finds all its values in the order of the message, with their folds removed when the parser
  strips continuations.\<close>

theorem header_block_roundtrip:
  assumes "list_all good_field fs" and "take 5 (header_block fs) \<noteq> js ''From ''"
  shows "get_raw_header (structured_headers (header_block fs) strip charset) name =
    (let vs = values_of (map (\<lambda>(n, ps). (to_lower n, join (if strip then [32] else [13, 10, 32]) ps)) fs)
                (to_lower name)
     in if vs = [] then None else Some vs)"
  using assms by (rule structured_headers_block)

theorem header_block_roundtrip_witness:
  "get_raw_header (structured_headers (header_block
      [(js ''Received'', [js ''a'']), (js ''Subject'', [js ''one'', js ''two'']), (js ''RECEIVED'', [js ''b''])])
      True None) (js ''received'') = Some [js ''a'', js ''b'']"
proof -
  let ?fs = "[(js ''Received'', [js ''a'']), (js ''Subject'', [js ''one'', js ''two'']),
    (js ''RECEIVED'', [js ''b''])]"
  have "list_all good_field ?fs" "take 5 (header_block ?fs) \<noteq> js ''From ''" by code_simp+
  then have "get_raw_header (structured_headers (header_block ?fs) True None) (js ''received'') =
    (let vs = values_of (map (\<lambda>(n, ps). (to_lower n, join (if True then [32] else [13, 10, 32]) ps)) ?fs)
                (to_lower (js ''received''))
     in if vs = [] then None else Some vs)"
    by (rule header_block_roundtrip)
  also have "\<dots> = Some [js ''a'', js ''b'']" by code_simp
  finally show ?thesis .
qed

text \<open>C20: the cache of structured values is invisible: on every headers object that a client can
  reach by looking headers up and setting the charset, \<open>get\<close> returns what decoding the raw
  values under the current charset gives, and it leaves the raw headers and the charset alone.\<close>

theorem cache_transparent:
  assumes "headers_reachable api r h"
  shows "bindE (get_header api r h name) (\<lambda>(v, _). Inr v) = header_result api r h name
    \<and> (\<forall>v h'. get_header api r h name = Inr (v, h') \<longrightarrow>
         raw_headers h' = raw_headers h \<and> h_charset h' = h_charset h)"
  using get_header_result [OF reachable_cache_ok] get_header_ok(2,3) [OF reachable_cache_ok] assms
  by blast

definition example_headers :: headers where
  "example_headers = structured_headers (js ''Message-ID: <a@b>'') True None"

theorem cache_transparent_witness:
  "\<exists>h. get_header latin1_api default_registry example_headers (js ''message-id'') =
      Inr (Some (VText (js ''<a@b>'')), h)
    \<and> bindE (get_header latin1_api default_registry h (js ''Message-Id'')) (\<lambda>(v, _). Inr v) =
      header_result latin1_api default_registry h (js ''Message-Id'')"
proof -
  have new: "headers_reachable latin1_api default_registry example_headers"
    unfolding example_headers_def by (rule reach_new)
  have v: "header_result latin1_api default_registry example_headers (js ''message-id'') =
      Inr (Some (VText (js ''<a@b>'')))"
    by code_simp
  have "bindE (get_header latin1_api default_registry example_headers (js ''message-id''))
      (\<lambda>(v, _). Inr v) = Inr (Some (VText (js ''<a@b>'')))"
    using cache_transparent [OF new, of "js ''message-id''"] v by simp
  then obtain h where h: "get_header latin1_api default_registry example_headers (js ''message-id'') =
      Inr (Some (VText (js ''<a@b>'')), h)"
    by (auto simp: bindE_Inr_iff)
  show ?thesis
    using h cache_transparent [OF reach_get [OF new h], of "js ''Message-Id''"] by blast
qed

text \<open>whatever decoders a client registers, a header that has a decoder of the library keeps
  it: registering one for it throws, and the registered decoders of the library never change.\<close>

theorem builtin_decoders_fixed:
  assumes "registry_reachable r" and "to_lower name \<in> fst ` set builtin_decoders"
  shows "add_structured_decoder name d r = Inl (CannotOverride name)
    \<and> parse_structured_header api r name values = parse_structured_header api default_registry name values"
proof -
  have "forbidden r = forbidden default_registry"
    "map_of (decoders r) (to_lower name) = map_of builtin_decoders (to_lower name)"
    using registry_keeps_builtin [OF assms(1)] assms(2) by auto
  then show ?thesis
    using assms(2) default_registry_ok(2,3)
    by (simp add: add_structured_decoder_def parse_structured_header_def Let_def)
qed

theorem builtin_decoders_fixed_witness:
  "add_structured_decoder (js ''SUBJECT'') (CustomDecoder (\<lambda>_. Inr (VUser 1))) default_registry =
     Inl (CannotOverride (js ''SUBJECT''))"
proof -
  have "to_lower (js ''SUBJECT'') \<in> set (map (to_lower \<circ> fst) (t_decoders default_tables))"
    unfolding default_names by code_simp
  then have "to_lower (js ''SUBJECT'') \<in> fst ` set builtin_decoders"
    by (force simp: builtin_decoders_def)
  from builtin_decoders_fixed [OF reach_default this] show ?thesis by blast
qed

text \<open>the text that \<open>preprocessMessageIDs\<close> makes of the \<open>References\<close> headers is a fixed point of
  it: decoding it again changes nothing, and it is the list of the identifiers with single
  spaces between them.\<close>

theorem message_ids_idempotent:
  "preprocess_message_ids [preprocess_message_ids values] = preprocess_message_ids values
   \<and> msg_ids (preprocess_message_ids values) = msg_ids (join [44] values)"
  using preprocess_message_ids_idem msg_ids_join [OF msg_ids_form]
  by (simp add: preprocess_message_ids_def)

text \<open>the keys of the raw headers are distinct, not empty and in lower case, so every lookup
  by a name in any case finds the one entry of that header.\<close>

theorem raw_header_names:
  "distinct (map fst (raw_headers (structured_headers txt strip charset)))
   \<and> list_all (\<lambda>n. n \<noteq> [] \<and> to_lower n = n) (map fst (raw_headers (structured_headers txt strip charset)))"
  using structured_headers_names [OF refl] by (auto simp: list_all_iff)

text \<open>the text kept with the headers of an mbox message may start in the middle of the
  delimiter line: the code looks for the first header line by its text, and finds it inside the
  sender address.\<close>

theorem mbox_text_misplaced:
  "raw_header_text (structured_headers (js ''From b: c@d'' @ [10] @ js ''b: c'' @ [10]) True None) =
     js ''b: c@d'' @ [10] @ js ''b: c'' @ [10]"
  by code_simp

end
