(* ===== verification/MimeParser.thy ===== *)
theory MimeParser
  imports StructuredHeaders
begin

text \<open>
  The raw MIME parser: a state machine that receives packets of a message, cuts them into
  headers, bodies and parts, and reports the parts to an emitter.  A parser holds a subparser,
  so the state is a tree.  The recursion of \<open>_dispatchData\<close> through the tree has a fuel;
  \<open>weight\<close> bounds what any call needs, and the entry points take that much.

  The callbacks of the emitter may throw, depending on all that was reported before; they do
  not change the headers object they receive.  An exception that leaves a call is its result.
\<close>

section \<open>Options, events and state\<close>

datatype body_format = BodyNone | BodyRaw | BodyNodecode | BodyDecode
datatype str_format = BinaryString | Unicode | TypedArray

datatype body_data = DString jstr | DBytes "nat list"

datatype event =
    StartMessage
  | EndMessage
  | StartPart jstr headers
  | EndPart jstr
  | PartData jstr body_data

datatype event_name = NStartMessage | NEndMessage | NStartPart | NEndPart | NPartData

fun event_name_of :: "event \<Rightarrow> event_name" where
  "event_name_of StartMessage = NStartMessage"
| "event_name_of EndMessage = NEndMessage"
| "event_name_of (StartPart _ _) = NStartPart"
| "event_name_of (EndPart _) = NEndPart"
| "event_name_of (PartData _ _) = NPartData"

fun event_part :: "event \<Rightarrow> jstr option" where
  "event_part StartMessage = None"
| "event_part EndMessage = None"
| "event_part (StartPart n _) = Some n"
| "event_part (EndPart n) = Some n"
| "event_part (PartData n _) = Some n"

record options =
  pruneat :: jstr
  bodyformat :: body_format
  strformat :: str_format
  opt_charset :: jstr
  force_charset :: bool
  stripcontinuations :: bool
  onerror :: "js_error \<Rightarrow> js_error option"      \<comment> \<open>\<open>None\<close>: the error is swallowed\<close>

record 'd mime_env =
  env_api :: "'d charset_api"
  env_registry :: registry
  env_options :: options
  env_has :: "event_name \<Rightarrow> bool"              \<comment> \<open>the methods the emitter has\<close>
  env_callback :: "event list \<Rightarrow> event \<Rightarrow> js_error option"

datatype parse_state = ParsingHeaders | BlackHole | ToEmitter | ToSubparser
datatype converter = ConvMultipart | ConvQP | ConvBase64 | ConvObject | ConvInherited
datatype 'd body_decoder = NoDecoder | IdentityDecoder | CharsetDecoder 'd

record 'd pstate =
  p_state :: parse_state
  header_data :: jstr
  p_headers :: "headers option"
  split_boundary :: "jstr option"
  sub_part_num :: "jstr option"
  p_count :: nat
  saved_buffer :: jstr
  convert_data :: "converter option"
  p_decoder :: "'d body_decoder"
  p_charset :: jstr
  default_type :: "jstr option"

datatype 'd parser = Parser (pstate_of: "'d pstate") (sub_of: "'d parser option")

definition reset_state :: "'d pstate \<Rightarrow> 'd pstate" where
  "reset_state s = s\<lparr>p_state := ParsingHeaders, header_data := [], split_boundary := None,
     sub_part_num := None, saved_buffer := [], convert_data := None, p_decoder := NoDecoder\<rparr>"

definition reset_parser :: "'d parser \<Rightarrow> 'd parser" where
  "reset_parser p = Parser (reset_state (pstate_of p)) None"

definition new_state :: "'d pstate" where
  "new_state = \<lparr>p_state = ParsingHeaders, header_data = [], p_headers = None, split_boundary = None,
     sub_part_num = None, p_count = 0, saved_buffer = [], convert_data = None,
     p_decoder = NoDecoder, p_charset = [], default_type = None\<rparr>"

definition new_parser :: "jstr option \<Rightarrow> 'd parser" where
  "new_parser dflt = Parser (new_state\<lparr>default_type := dflt\<rparr>) None"

section \<open>The emitter\<close>

definition will_ignore_part :: "options \<Rightarrow> jstr \<Rightarrow> bool" where
  "will_ignore_part opts part =
     (let m = pruneat opts in
      m \<noteq> [] \<and> (take (length m) part \<noteq> m
               \<or> (length m < length part \<and> part ! length m \<notin> {36, 46})))"

definition call_emitter :: "'d mime_env \<Rightarrow> event \<Rightarrow> event list \<Rightarrow> js_error + event list" where
  "call_emitter env ev log =
     (if env_has env (event_name_of ev)
         \<and> \<not> (case event_part ev of Some n \<Rightarrow> will_ignore_part (env_options env) n | None \<Rightarrow> False)
      then (case env_callback env log ev of
              None \<Rightarrow> Inr (log @ [ev])
            | Some e \<Rightarrow> (case onerror (env_options env) e of
                           None \<Rightarrow> Inr (log @ [ev]) | Some e' \<Rightarrow> Inl e'))
      else Inr log)"

section \<open>Cutting the input\<close>

text \<open>
  \<open>conditionToEndOnCRLF\<close>.  \<open>lastIndexOf\<close> takes a negative start as 0, so a buffer that is one
  carriage return is not held back.
\<close>

definition last_cr :: "jstr \<Rightarrow> nat option" where
  "last_cr s = (if length s \<le> 1 then last_index_of 13 s else last_index_of 13 (butlast s))"

definition condition_to_end :: "jstr \<Rightarrow> jstr \<times> jstr" where
  "condition_to_end s =
     (let n = max (case last_cr s of Some i \<Rightarrow> Suc i | None \<Rightarrow> 0)
                  (case last_index_of 10 s of Some i \<Rightarrow> Suc i | None \<Rightarrow> 0)
      in (take n s, drop n s))"

text \<open>The end of the headers, \<open>/(?:^(?:\r\n|[\r\n]))|(\r\n|[\r\n])\1/\<close>: index and length.\<close>

definition double_eol :: "jstr \<Rightarrow> nat" where
  "double_eol s =
     (if starts_with [13, 10, 13, 10] s then 4
      else if starts_with [13, 13] s \<or> starts_with [10, 10] s then 2 else 0)"

fun find_double_eol :: "jstr \<Rightarrow> (nat \<times> nat) option" where
  "find_double_eol [] = None"
| "find_double_eol (c # s) =
     (if double_eol (c # s) \<noteq> 0 then Some (0, double_eol (c # s))
      else map_option (\<lambda>(i, n). (Suc i, n)) (find_double_eol s))"

definition find_header_end :: "jstr \<Rightarrow> (nat \<times> nat) option" where
  "find_header_end s = (if eol_len s \<noteq> 0 then Some (0, eol_len s) else find_double_eol s)"

text \<open>
  The split expression of a multipart body,
  \<open>(\r\n|[\r\n]|^)--BOUNDARY(--)?[ \t]*(?:\r\n|[\r\n]|$)\<close>: what follows the first group.
\<close>

definition blank :: "jchar \<Rightarrow> bool" where
  "blank c \<longleftrightarrow> c = 32 \<or> c = 9"

definition line_tail :: "jstr \<Rightarrow> nat option" where
  "line_tail s =
     (let r = dropWhile blank s; n = length s - length r
      in if r = [] then Some n else if eol_len r \<noteq> 0 then Some (n + eol_len r) else None)"

definition boundary_match :: "jstr \<Rightarrow> jstr \<Rightarrow> (nat \<times> bool) option" where
  "boundary_match b s =
     (if starts_with (45 # 45 # b) s then
        let r = drop (2 + length b) s in
        (case (if starts_with [45, 45] r then line_tail (drop 2 r) else None) of
           Some n \<Rightarrow> Some (2 + length b + 2 + n, True)
         | None \<Rightarrow> map_option (\<lambda>n. (2 + length b + n, False)) (line_tail r))
      else None)"

text \<open>A match: its index, its length, the length of its first group, and whether it closes.\<close>

record split_match =
  m_index :: nat
  m_length :: nat
  m_eol :: nat
  m_close :: bool

definition delim_with :: "jstr \<Rightarrow> jstr \<Rightarrow> nat \<Rightarrow> split_match option" where
  "delim_with b s e =
     map_option (\<lambda>(n, close). \<lparr>m_index = 0, m_length = e + n, m_eol = e, m_close = close\<rparr>)
       (boundary_match b (drop e s))"

fun first_some :: "'a option list \<Rightarrow> 'a option" where
  "first_some [] = None"
| "first_some (x # xs) = (case x of Some y \<Rightarrow> Some y | None \<Rightarrow> first_some xs)"

definition delim_at :: "bool \<Rightarrow> jstr \<Rightarrow> jstr \<Rightarrow> split_match option" where
  "delim_at start b s =
     first_some
       [if starts_with [13, 10] s then delim_with b s 2 else None,
        if starts_with [13] s \<or> starts_with [10] s then delim_with b s 1 else None,
        if start then delim_with b s 0 else None]"

fun find_delim :: "bool \<Rightarrow> jstr \<Rightarrow> jstr \<Rightarrow> split_match option" where
  "find_delim start b [] = delim_at start b []"
| "find_delim start b (c # s) =
     (case delim_at start b (c # s) of
        Some m \<Rightarrow> Some m
      | None \<Rightarrow> map_option (\<lambda>m. m\<lparr>m_index := Suc (m_index m)\<rparr>) (find_delim False b s))"

definition split_search :: "jstr \<Rightarrow> jstr \<Rightarrow> split_match option" where
  "split_search b s = find_delim True b s"

section \<open>Converting body data\<close>

definition chop_eol :: "jstr \<Rightarrow> jstr" where
  "chop_eol s =
     (let s1 = (if s \<noteq> [] \<and> last s = 10 then butlast s else s)
      in if s1 \<noteq> [] \<and> last s1 = 13 then butlast s1 else s1)"

definition convert_multipart :: "jstr \<Rightarrow> bool \<Rightarrow> jstr \<times> jstr" where
  "convert_multipart buffer more_data =
     (let front = (if more_data then chop_eol buffer else buffer);
          (pre_lf, rest) = condition_to_end front
      in (pre_lf, rest @ drop (length front) buffer))"

text \<open>
  The entries of \<open>ContentDecoders\<close> and two properties that it inherits.  \<open>ConvObject\<close> is its
  \<open>constructor\<close>: \<open>Object(buffer)\<close> is a string object, which is taken apart into its first two
  characters.  With fewer than two there is \<open>undefined\<close> in the place of a string, which would go on into
  the data; the model ends the call there, except at the end of the data, where the second
  is not used.  \<open>ConvInherited\<close> is \<open>__proto__\<close>, which cannot be called.
\<close>

fun run_converter :: "converter \<Rightarrow> jstr \<Rightarrow> bool \<Rightarrow> js_error + (jstr \<times> jstr)" where
  "run_converter ConvMultipart buffer more_data = Inr (convert_multipart buffer more_data)"
| "run_converter ConvQP buffer more_data = Inr (decode_qp buffer more_data)"
| "run_converter ConvBase64 buffer more_data = decode_base64 buffer more_data"
| "run_converter ConvObject buffer more_data =
     (case buffer of
        [] \<Rightarrow> Inl BadType
      | [c] \<Rightarrow> if more_data then Inl BadType else Inr ([c], [])
      | c # d # _ \<Rightarrow> Inr ([c], [d]))"
| "run_converter ConvInherited buffer more_data = Inl BadType"

definition convert_saved :: "'d pstate \<Rightarrow> jstr \<Rightarrow> js_error + (jstr \<times> 'd pstate)" where
  "convert_saved s buf =
     (case convert_data s of
        None \<Rightarrow> Inr (buf, s)
      | Some c \<Rightarrow> bindE (run_converter c (saved_buffer s @ buf) True)
                    (\<lambda>(out, rest). Inr (out, s\<lparr>saved_buffer := rest\<rparr>)))"

text \<open>
  \<open>_coerceData\<close> of a binary string.  The decoder of a text part is always called with
  \<open>stream: false\<close>.
\<close>

definition coerce_data ::
  "'d mime_env \<Rightarrow> 'd body_decoder \<Rightarrow> str_format \<Rightarrow> jstr \<Rightarrow> js_error + (body_data \<times> 'd body_decoder)" where
  "coerce_data env d fmt buffer =
     (case fmt of
        BinaryString \<Rightarrow> Inr (DString buffer, d)
      | TypedArray \<Rightarrow> Inr (DBytes (string_to_typed_array buffer), d)
      | Unicode \<Rightarrow>
          (case d of
             NoDecoder \<Rightarrow> Inr (DBytes (string_to_typed_array buffer), d)
           | IdentityDecoder \<Rightarrow>
               Inr (DString (typed_array_to_string (string_to_typed_array buffer)), d)
           | CharsetDecoder dec \<Rightarrow>
               bindE (run_decoder (env_api env) dec (string_to_typed_array buffer) False)
                 (\<lambda>(txt, dec'). Inr (DString txt, CharsetDecoder dec'))))"

fun data_length :: "body_data \<Rightarrow> nat" where
  "data_length (DString s) = length s"
| "data_length (DBytes b) = length b"

definition emit_data ::
  "'d mime_env \<Rightarrow> 'd pstate \<Rightarrow> jstr \<Rightarrow> jstr \<Rightarrow> event list \<Rightarrow> js_error + ('d pstate \<times> event list)" where
  "emit_data env s part buf log =
     bindE (coerce_data env (p_decoder s) (strformat (env_options env)) buf) (\<lambda>(data, d).
       bindE (if 0 < data_length data then call_emitter env (PartData part data) log else Inr log)
         (\<lambda>log'. Inr (s\<lparr>p_decoder := d\<rparr>, log')))"

section \<open>The headers of a part\<close>

definition as_content_type :: "hvalue option \<Rightarrow> js_error + content_type" where
  "as_content_type v = (case v of Some (VType ct) \<Rightarrow> Inr ct | _ \<Rightarrow> Inl BadType)"

text \<open>\<open>_parseHeaders\<close>\<close>

definition parse_headers :: "'d mime_env \<Rightarrow> 'd pstate \<Rightarrow> js_error + 'd pstate" where
  "parse_headers env s =
     (let opts = env_options env;
          h0 = structured_headers (header_data s) (stripcontinuations opts) (Some (opt_charset opts))
      in bindE (get_header (env_api env) (env_registry env) h0 (js ''Content-Type'')) (\<lambda>(v, h1).
         bindE (case v of
                  Some _ \<Rightarrow> bindE (as_content_type v) (\<lambda>ct. Inr (ct, h1))
                | None \<Rightarrow>
                    bindE (parse_structured_header (env_api env) (env_registry env) (js ''Content-Type'')
                             [case default_type s of None \<Rightarrow> js ''text/plain'' | Some t \<Rightarrow> t])
                      (\<lambda>w. bindE (as_content_type (Some w))
                        (\<lambda>ct. Inr (ct, h1\<lparr>default_content_type := Some ct\<rparr>))))
           (\<lambda>(ct, h2).
             let charset = (if force_charset opts then opt_charset opts
                            else case ct_get ct (js ''charset'') of
                                   Some c \<Rightarrow> c | None \<Rightarrow> opt_charset opts)
             in Inr (s\<lparr>p_headers := Some (set_charset (Some charset) h2), p_charset := charset\<rparr>))))"

text \<open>\<open>_extractHeader("content-transfer-encoding", "")\<close> and the lookup in \<open>ContentDecoders\<close>.\<close>

definition extract_cte :: "'d mime_env \<Rightarrow> headers \<Rightarrow> js_error + (hvalue \<times> headers)" where
  "extract_cte env h =
     (if has_header h (js ''content-transfer-encoding'')
      then bindE (get_header (env_api env) (env_registry env) h (js ''content-transfer-encoding''))
             (\<lambda>(v, h'). case v of Some w \<Rightarrow> Inr (w, h') | None \<Rightarrow> Inl BadType)
      else bindE (parse_structured_header (env_api env) (env_registry env)
                    (js ''content-transfer-encoding'') [[]]) (\<lambda>w. Inr (w, h)))"

definition key_text :: "hvalue \<Rightarrow> jstr" where
  "key_text v = (case v of VText t \<Rightarrow> t | VTexts ts \<Rightarrow> join [44] ts | _ \<Rightarrow> [])"

definition content_decoder :: "hvalue \<Rightarrow> converter option" where
  "content_decoder v =
     (let k = key_text v in
      if k = js ''quoted-printable'' then Some ConvQP
      else if k = js ''base64'' then Some ConvBase64
      else if k = js ''constructor'' then Some ConvObject
      else if k = js ''__proto__'' then Some ConvInherited
      else None)"

definition decode_by_cte :: "'d mime_env \<Rightarrow> 'd pstate \<Rightarrow> headers \<Rightarrow> js_error + 'd pstate" where
  "decode_by_cte env s h =
     bindE (extract_cte env h) (\<lambda>(v, h').
       let s' = s\<lparr>p_headers := Some h'\<rparr>
       in Inr (case content_decoder v of None \<Rightarrow> s' | Some c \<Rightarrow> s'\<lparr>convert_data := Some c\<rparr>))"

definition text_decoder :: "'d mime_env \<Rightarrow> content_type \<Rightarrow> jstr \<Rightarrow> 'd body_decoder" where
  "text_decoder env ct charset =
     (if strformat (env_options env) = Unicode \<and> ct_mediatype ct = js ''text'' then
        (if charset = [] then IdentityDecoder
         else case new_decoder (env_api env) charset False of
                Inr d \<Rightarrow> CharsetDecoder d | Inl _ \<Rightarrow> IdentityDecoder)
      else NoDecoder)"

text \<open>\<open>_startBody\<close>: the new state, and the subparser when the body has parts.\<close>

definition is_message_type :: "content_type \<Rightarrow> bool" where
  "is_message_type ct \<longleftrightarrow>
     ct_type ct = js ''message/rfc822'' \<or> ct_type ct = js ''message/global''
     \<or> ct_type ct = js ''message/news''"

definition start_body ::
  "'d mime_env \<Rightarrow> 'd parser \<Rightarrow> jstr \<Rightarrow> js_error + 'd parser" where
  "start_body env p part =
     (let s0 = pstate_of p; opts = env_options env in
      case p_headers s0 of
        None \<Rightarrow> Inl BadType
      | Some h0 \<Rightarrow>
          bindE (content_type_of (env_api env) (env_registry env) h0) (\<lambda>(v, h).
          bindE (as_content_type v) (\<lambda>ct.
            let s = s0\<lparr>p_headers := Some h\<rparr> in
            if bodyformat opts = BodyRaw \<and> part = pruneat opts
            then Inr (Parser (s\<lparr>p_state := ToEmitter\<rparr>) (sub_of p))
            else if ct_mediatype ct = js ''multipart'' then
              (case ct_get ct (js ''boundary'') of
                 None \<Rightarrow> Inr (Parser (s\<lparr>p_state := BlackHole\<rparr>) (sub_of p))
               | Some b \<Rightarrow>
                   Inr (Parser (s\<lparr>p_state := BlackHole, split_boundary := Some b,
                                  convert_data := Some ConvMultipart,
                                  p_decoder := text_decoder env ct (p_charset s)\<rparr>)
                          (Some (new_parser (if ct_subtype ct = js ''digest''
                                             then Some (js ''message/rfc822'') else None)))))
            else if is_message_type ct then
              bindE (decode_by_cte env (s\<lparr>p_state := ToSubparser, sub_part_num := Some (part @ [36])\<rparr>) h)
                (\<lambda>s'. Inr (Parser (s'\<lparr>p_decoder := text_decoder env ct (p_charset s')\<rparr>)
                                (Some (new_parser None))))
            else
              bindE (if bodyformat opts = BodyDecode
                     then decode_by_cte env (s\<lparr>p_state := ToEmitter\<rparr>) h
                     else Inr (s\<lparr>p_state := ToEmitter\<rparr>))
                (\<lambda>s'. Inr (Parser (s'\<lparr>p_decoder := text_decoder env ct (p_charset s')\<rparr>) (sub_of p))))))"

section \<open>The core of the parser\<close>

text \<open>
  A call that may run out of fuel returns \<open>None\<close> then; otherwise its result or exception, with
  the new parser and all that was reported.
\<close>

type_synonym 'd run = "(js_error + ('d parser \<times> event list)) option"

definition bindR :: "(js_error + 'a) option \<Rightarrow> ('a \<Rightarrow> (js_error + 'b) option) \<Rightarrow> (js_error + 'b) option" where
  "bindR m f = (case m of None \<Rightarrow> None | Some (Inl e) \<Rightarrow> Some (Inl e) | Some (Inr x) \<Rightarrow> f x)"

text \<open>The header part of \<open>_dispatchData\<close>: \<open>Inl\<close> when the headers go on, else the body text.\<close>

definition header_phase ::
  "'d mime_env \<Rightarrow> 'd parser \<Rightarrow> jstr \<Rightarrow> jstr \<Rightarrow> event list \<Rightarrow>
   js_error + ('d parser + ('d parser \<times> jstr \<times> event list))" where
  "header_phase env p part buffer log =
     (let s = pstate_of p in
      if p_state s = ParsingHeaders then
        let hd' = header_data s @ buffer in
        case find_header_end hd' of
          None \<Rightarrow> Inr (Inl (Parser (s\<lparr>header_data := hd'\<rparr>) (sub_of p)))
        | Some (i, n) \<Rightarrow>
            bindE (parse_headers env (s\<lparr>header_data := take i hd'\<rparr>)) (\<lambda>s1.
            bindE (call_emitter env (StartPart part (the (p_headers s1))) log) (\<lambda>log1.
            bindE (start_body env (Parser s1 (sub_of p)) part) (\<lambda>p2.
              Inr (Inr (p2, drop (i + n) hd', log1)))))
      else Inr (Inr (p, buffer, log)))"

text \<open>Where the data goes when there is no split: the end of \<open>_dispatchData\<close>.\<close>

definition route ::
  "('d parser \<Rightarrow> jstr \<Rightarrow> jstr \<Rightarrow> event list \<Rightarrow> 'd run) \<Rightarrow>
   'd mime_env \<Rightarrow> 'd parser \<Rightarrow> jstr \<Rightarrow> jstr \<Rightarrow> event list \<Rightarrow> 'd run" where
  "route sub_dispatch env p part buffer log =
     (let s = pstate_of p in
      case p_state s of
        ToEmitter \<Rightarrow>
          if bodyformat (env_options env) = BodyNone \<or> will_ignore_part (env_options env) part
          then Some (Inr (p, log))
          else Some (bindE (convert_saved s buffer) (\<lambda>(buf, s1).
                 bindE (emit_data env s1 part buf log) (\<lambda>(s2, log2).
                   Inr (Parser s2 (sub_of p), log2))))
      | ToSubparser \<Rightarrow>
          bindR (Some (convert_saved s buffer)) (\<lambda>(buf, s1).
            if buf = [] then Some (Inr (Parser s1 (sub_of p), log))
            else (case (sub_of p, sub_part_num s1) of
                    (Some q, Some n) \<Rightarrow>
                      bindR (sub_dispatch q n buf log) (\<lambda>(q', log').
                        Some (Inr (Parser s1 (Some q'), log')))
                  | _ \<Rightarrow> Some (Inl BadType)))
      | _ \<Rightarrow> Some (Inr (p, log)))"

text \<open>The end of the current subpart in \<open>_whenMultipart\<close>.\<close>

definition end_subpart ::
  "('d parser \<Rightarrow> jstr \<Rightarrow> jstr \<Rightarrow> event list \<Rightarrow> 'd run) \<Rightarrow>
   ('d parser \<Rightarrow> jstr \<Rightarrow> event list \<Rightarrow> 'd run) \<Rightarrow>
   'd parser \<Rightarrow> jstr \<Rightarrow> jstr \<Rightarrow> event list \<Rightarrow> 'd run" where
  "end_subpart sub_dispatch sub_eof q n saved log =
     bindR (if saved \<noteq> [] then sub_dispatch q n saved log else Some (Inr (q, log)))
       (\<lambda>(q', log'). sub_eof q' n log')"

definition when_multipart ::
  "('d parser \<Rightarrow> jstr \<Rightarrow> jstr \<Rightarrow> event list \<Rightarrow> 'd run) \<Rightarrow>
   ('d parser \<Rightarrow> jstr \<Rightarrow> event list \<Rightarrow> 'd run) \<Rightarrow>
   'd parser \<Rightarrow> jstr \<Rightarrow> split_match \<Rightarrow> event list \<Rightarrow> 'd run" where
  "when_multipart sub_dispatch sub_eof p part m log =
     (let s = pstate_of p;
          prefix = (if part \<noteq> [] then part @ [46] else part)
      in bindR
           (case (sub_part_num s, sub_of p) of
              (None, sub) \<Rightarrow> Some (Inr ((sub, s\<lparr>p_count := 1\<rparr>), log))
            | (Some n, Some q) \<Rightarrow>
                bindR (end_subpart sub_dispatch sub_eof q n
                         (if m_eol m = 0 then chop_eol (saved_buffer s) else saved_buffer s) log)
                  (\<lambda>(q', log'). Some (Inr ((Some q', s), log')))
            | (Some _, None) \<Rightarrow> Some (Inl BadType))
           (\<lambda>((sub, s1), log1).
             let s2 = s1\<lparr>saved_buffer := []\<rparr> in
             if \<not> m_close m then
               (case sub of
                  None \<Rightarrow> Some (Inl BadType)
                | Some q \<Rightarrow>
                    Some (Inr (Parser (s2\<lparr>p_state := ToSubparser,
                                          sub_part_num := Some (prefix @ nat_str (p_count s2)),
                                          p_count := p_count s2 + 1\<rparr>)
                                 (Some (reset_parser q)), log1)))
             else Some (Inr (Parser (s2\<lparr>p_state := BlackHole, split_boundary := None\<rparr>) sub, log1))))"

text \<open>The two branches of \<open>_dispatchEOF\<close> below the headers.\<close>

definition finish_subparser ::
  "('d parser \<Rightarrow> jstr \<Rightarrow> jstr \<Rightarrow> event list \<Rightarrow> 'd run) \<Rightarrow>
   ('d parser \<Rightarrow> jstr \<Rightarrow> event list \<Rightarrow> 'd run) \<Rightarrow>
   'd parser \<Rightarrow> event list \<Rightarrow> 'd run" where
  "finish_subparser sub_dispatch sub_eof p log =
     (let s = pstate_of p in
      case (sub_of p, sub_part_num s) of
        (Some q, Some n) \<Rightarrow>
          bindR (case convert_data s of
                   Some c \<Rightarrow>
                     if saved_buffer s \<noteq> []
                     then bindR (Some (run_converter c (saved_buffer s) False))
                            (\<lambda>(buf, _). sub_dispatch q n buf log)
                     else Some (Inr (q, log))
                 | None \<Rightarrow> Some (Inr (q, log)))
            (\<lambda>(q1, log1). bindR (sub_eof q1 n log1)
              (\<lambda>(_, log2). Some (Inr (Parser s None, log2))))
      | _ \<Rightarrow> Some (Inl BadType))"

definition finish_body ::
  "'d mime_env \<Rightarrow> 'd parser \<Rightarrow> jstr \<Rightarrow> event list \<Rightarrow> js_error + ('d parser \<times> event list)" where
  "finish_body env p part log =
     (let s = pstate_of p in
      case convert_data s of
        Some c \<Rightarrow>
          if saved_buffer s \<noteq> []
          then bindE (run_converter c (saved_buffer s) False) (\<lambda>(buf, _).
                 bindE (emit_data env s part buf log) (\<lambda>(s', log').
                   Inr (Parser s' (sub_of p), log')))
          else Inr (p, log)
      | None \<Rightarrow> Inr (p, log))"

fun dispatch_data ::
  "nat \<Rightarrow> 'd mime_env \<Rightarrow> 'd parser \<Rightarrow> jstr \<Rightarrow> jstr \<Rightarrow> bool \<Rightarrow> event list \<Rightarrow> 'd run"
and dispatch_eof ::
  "nat \<Rightarrow> 'd mime_env \<Rightarrow> 'd parser \<Rightarrow> jstr \<Rightarrow> event list \<Rightarrow> 'd run" where
  "dispatch_data 0 env p part buffer check_split log = None"
| "dispatch_data (Suc n) env p part buffer check_split log =
     bindR (Some (header_phase env p part buffer log)) (\<lambda>r.
       case r of
         Inl p1 \<Rightarrow> Some (Inr (p1, log))
       | Inr (p1, buf, log1) \<Rightarrow>
           (case (if check_split then split_boundary (pstate_of p1) else None) of
              None \<Rightarrow> route (\<lambda>q k b l. dispatch_data n env q k b True l) env p1 part buf log1
            | Some b \<Rightarrow>
                (case split_search b buf of
                   None \<Rightarrow> route (\<lambda>q k b l. dispatch_data n env q k b True l) env p1 part buf log1
                 | Some m \<Rightarrow>
                     bindR (if 0 < m_index m
                            then dispatch_data n env p1 part (take (m_index m) buf) False log1
                            else Some (Inr (p1, log1))) (\<lambda>(p2, log2).
                     bindR (when_multipart (\<lambda>q k b l. dispatch_data n env q k b True l)
                              (dispatch_eof n env) p2 part m log2) (\<lambda>(p3, log3).
                       let rest = drop (m_index m + m_length m) buf in
                       if rest \<noteq> [] then dispatch_data n env p3 part rest True log3
                       else Some (Inr (p3, log3)))))))"
| "dispatch_eof 0 env p part log = None"
| "dispatch_eof (Suc n) env p part log =
     bindR
       (case p_state (pstate_of p) of
          ParsingHeaders \<Rightarrow>
            Some (bindE (parse_headers env (pstate_of p)) (\<lambda>s1.
              bindE (call_emitter env (StartPart part (the (p_headers s1))) log) (\<lambda>log1.
                Inr (Parser s1 (sub_of p), log1))))
        | ToSubparser \<Rightarrow>
            finish_subparser (\<lambda>q k b l. dispatch_data n env q k b True l) (dispatch_eof n env) p log
        | _ \<Rightarrow> Some (finish_body env p part log))
       (\<lambda>(p1, log1). Some (bindE (call_emitter env (EndPart part) log1) (\<lambda>log2. Inr (p1, log2))))"

section \<open>The entry points\<close>

fun weight :: "'d parser \<Rightarrow> nat" where
  "weight (Parser s sub) =
     4 * ((if p_state s = ParsingHeaders then length (header_data s) else 0) + length (saved_buffer s))
     + 2 + (case sub of None \<Rightarrow> 0 | Some q \<Rightarrow> weight q)"

record 'd mime_parser =
  core :: "'d parser"
  hold_data :: jstr
  triggered :: bool

definition mime_parser :: "'d mime_parser" where
  "mime_parser = \<lparr>core = new_parser None, hold_data = [], triggered = False\<rparr>"

definition reset_mime_parser :: "'d mime_parser \<Rightarrow> 'd mime_parser" where
  "reset_mime_parser mp = \<lparr>core = reset_parser (core mp), hold_data = [], triggered = False\<rparr>"

definition start_message ::
  "'d mime_env \<Rightarrow> 'd mime_parser \<Rightarrow> event list \<Rightarrow> js_error + event list" where
  "start_message env mp log = (if triggered mp then Inr log else call_emitter env StartMessage log)"

definition deliver_data ::
  "'d mime_env \<Rightarrow> 'd mime_parser \<Rightarrow> jstr \<Rightarrow> event list \<Rightarrow>
   (js_error + ('d mime_parser \<times> event list)) option" where
  "deliver_data env mp buffer log =
     (let (buf, hold) = condition_to_end (hold_data mp @ buffer) in
      if buf = [] then Some (Inr (mp\<lparr>hold_data := hold\<rparr>, log))
      else bindR (Some (start_message env mp log)) (\<lambda>log1.
           bindR (dispatch_data (weight (core mp) + 4 * length buf + 2) env (core mp) [] buf True log1)
             (\<lambda>(p, log2). Some (Inr (\<lparr>core = p, hold_data = hold, triggered = True\<rparr>, log2)))))"

definition deliver_eof ::
  "'d mime_env \<Rightarrow> 'd mime_parser \<Rightarrow> event list \<Rightarrow>
   (js_error + ('d mime_parser \<times> event list)) option" where
  "deliver_eof env mp log =
     bindR (Some (start_message env mp log)) (\<lambda>log1.
     bindR (if hold_data mp \<noteq> []
            then dispatch_data (weight (core mp) + 4 * length (hold_data mp) + 2) env (core mp) []
                   (hold_data mp) True log1
            else Some (Inr (core mp, log1))) (\<lambda>(p, log2).
     bindR (dispatch_eof (weight p + 1) env p [] log2) (\<lambda>(p', log3).
       Some (bindE (call_emitter env EndMessage log3) (\<lambda>log4.
         Inr (mp\<lparr>core := p', triggered := True\<rparr>, log4))))))"

fun parse_packets ::
  "'d mime_env \<Rightarrow> jstr list \<Rightarrow> 'd mime_parser \<Rightarrow> event list \<Rightarrow>
   (js_error + ('d mime_parser \<times> event list)) option" where
  "parse_packets env [] mp log = deliver_eof env mp log"
| "parse_packets env (b # bs) mp log =
     bindR (deliver_data env mp b log) (\<lambda>(mp', log'). parse_packets env bs mp' log')"

text \<open>A whole message, delivered in packets: the events that the emitter sees.\<close>

definition parse_message ::
  "'d mime_env \<Rightarrow> jstr list \<Rightarrow> (js_error + event list) option" where
  "parse_message env packets =
     bindR (parse_packets env packets mime_parser []) (\<lambda>(_, log). Some (Inr log))"

section \<open>Results of runs\<close>

text \<open>\<open>ends m Q\<close>: \<open>m\<close> has fuel enough, and a normal result satisfies \<open>Q\<close>.\<close>

definition ends :: "(js_error + 'a) option \<Rightarrow> ('a \<Rightarrow> bool) \<Rightarrow> bool" where
  "ends m Q \<longleftrightarrow> (case m of None \<Rightarrow> False | Some (Inl _) \<Rightarrow> True | Some (Inr x) \<Rightarrow> Q x)"

lemma ends_simps [simp]:
  "\<not> ends None Q" "ends (Some (Inl e)) Q" "ends (Some (Inr x)) Q = Q x"
  by (simp_all add: ends_def)

lemma bindR_simps [simp]:
  "bindR None f = None" "bindR (Some (Inl e)) f = Some (Inl e)" "bindR (Some (Inr x)) f = f x"
  by (simp_all add: bindR_def)

lemma ends_bindR:
  assumes "ends m P" and "\<And>x. P x \<Longrightarrow> ends (f x) Q"
  shows "ends (bindR m f) Q"
proof (cases m)
  case (Some r)
  then show ?thesis using assms by (cases r) simp_all
qed (use assms in simp)

lemma ends_mono: "ends m P \<Longrightarrow> (\<And>x. P x \<Longrightarrow> Q x) \<Longrightarrow> ends m Q"
  by (auto simp: ends_def split: option.splits sum.splits)

lemma ends_Some: "(\<And>x. m = Inr x \<Longrightarrow> Q x) \<Longrightarrow> ends (Some m) Q"
  by (cases m) auto

section \<open>Lengths\<close>

lemma length_chop_eol: "length (chop_eol s) \<le> length s"
  by (simp add: chop_eol_def Let_def)

lemma condition_to_end_split: "condition_to_end s = (a, b) \<Longrightarrow> s = a @ b"
  by (auto simp: condition_to_end_def Let_def)

lemma length_drop_eq_pad: "length (drop_eq_pad s) \<le> length s"
  by (auto simp: drop_eq_pad_def)

lemma length_atob:
  assumes "atob s = Inr out"
  shows "length out \<le> length s"
proof -
  let ?t = "filter (\<lambda>c. \<not> html_ws c) s"
  have "out = b64_bytes (drop_eq_pad ?t)"
    using assms by (simp add: atob_def Let_def split: if_splits)
  moreover have "length (b64_bytes (drop_eq_pad ?t)) \<le> length (drop_eq_pad ?t)" by (rule length_b64_bytes)
  moreover have "length (drop_eq_pad ?t) \<le> length ?t" by (rule length_drop_eq_pad)
  ultimately have "length out \<le> length ?t" by simp
  then show ?thesis by (rule order_trans) (rule length_filter_le)
qed

lemma length_strip_middle_eq: "length (strip_middle_eq y) \<le> length y"
proof (induction y rule: strip_middle_eq.induct)
  case (2 c s)
  then show ?case
    using length_dropWhile_le [of "\<lambda>x. x = 61" s] by (fastforce simp: Let_def)
qed simp

lemma length_decode_base64:
  assumes "decode_base64 b m = Inr (out, r)"
  shows "length out + length r \<le> length b"
proof -
  define v where "v = strip_middle_eq (filter (\<lambda>c. is_b64 c \<or> c = 61) b)"
  define k where "k = length v - length v mod 4"
  have v: "length v \<le> length b"
    using length_strip_middle_eq [of "filter (\<lambda>c. is_b64 c \<or> c = 61) b"]
      length_filter_le [of "\<lambda>c. is_b64 c \<or> c = 61" b] unfolding v_def by linarith
  have a: "atob (strip_pad_groups (take k v)) = Inr out"
    and r: "r = (if length v mod 4 \<noteq> 0 \<and> m then drop k v else [])"
    using assms by (auto simp: decode_base64_def Let_def v_def k_def bindE_Inr_iff)
  have "length (strip_pad_groups (take k v)) \<le> length (take k v)"
    unfolding strip_pad_groups_def by (rule order_trans [OF eq_refl [OF length_take] min.cobounded1])
  then have "length out \<le> length (take k v)" using length_atob [OF a] by linarith
  moreover have "length r \<le> length v - k" by (simp add: r)
  moreover have "k \<le> length v" by (simp add: k_def)
  ultimately show ?thesis using v by simp
qed

lemma length_run_converter:
  "run_converter c b m = Inr (out, r) \<Longrightarrow> length out + length r \<le> length b"
proof (induction c b m rule: run_converter.induct)
  case (1 b m)
  define front where "front = (if m then chop_eol b else b)"
  obtain x y where xy: "condition_to_end front = (x, y)" by (cases "condition_to_end front")
  have "length front \<le> length b" using length_chop_eol by (simp add: front_def)
  moreover have "length x + length y = length front"
    using condition_to_end_split [OF xy] by simp
  ultimately show ?case
    using 1 xy by (auto simp: convert_multipart_def Let_def front_def [symmetric])
next
  case (2 b m)
  then show ?case using length_qp_text [of b] by (simp add: decode_qp_def)
next
  case (3 b m)
  then show ?case by (simp add: length_decode_base64)
next
  case (4 b m)
  then show ?case by (auto split: list.splits if_splits)
qed simp

lemma convert_saved_length:
  assumes "convert_saved s buf = Inr (out, s')"
  shows "length out + length (saved_buffer s') \<le> length (saved_buffer s) + length buf"
    "p_state s' = p_state s" "sub_part_num s' = sub_part_num s" "header_data s' = header_data s"
    "split_boundary s' = split_boundary s" "p_count s' = p_count s"
  using assms length_run_converter
  by (auto simp: convert_saved_def bindE_Inr_iff split: option.splits dest!: length_run_converter)

lemma emit_data_state:
  assumes "emit_data env s part buf log = Inr (s', log')"
  shows "p_state s' = p_state s" "header_data s' = header_data s" "saved_buffer s' = saved_buffer s"
    "split_boundary s' = split_boundary s"
  using assms by (auto simp: emit_data_def bindE_Inr_iff)

lemma eol_len_bound: "eol_len s \<le> length s"
  by (cases s) (auto simp: eol_len_def starts_with_iff)

lemma double_eol_bound: "double_eol s \<le> length s"
  by (auto simp: double_eol_def starts_with_iff)

lemma find_double_eol_bound: "find_double_eol s = Some (i, n) \<Longrightarrow> 0 < n \<and> i + n \<le> length s"
proof (induction s arbitrary: i)
  case (Cons c s)
  then show ?case
    using double_eol_bound [of "c # s"] by (auto split: if_splits)
qed simp

lemma find_header_end_bound: "find_header_end s = Some (i, n) \<Longrightarrow> 0 < n \<and> i + n \<le> length s"
  using find_double_eol_bound eol_len_bound [of s] by (auto simp: find_header_end_def split: if_splits)

lemma line_tail_bound: "line_tail s = Some n \<Longrightarrow> n \<le> length s"
proof -
  assume a: "line_tail s = Some n"
  have "length (dropWhile blank s) \<le> length s" by (rule length_dropWhile_le)
  then show ?thesis
    using a eol_len_bound [of "dropWhile blank s"] by (auto simp: line_tail_def Let_def split: if_splits)
qed

lemma boundary_match_bound:
  assumes "boundary_match b s = Some (n, c)"
  shows "2 \<le> n" "n \<le> length s"
proof -
  from assms have "starts_with (45 # 45 # b) s" by (auto simp: boundary_match_def split: if_splits)
  then have l: "length s = 2 + length b + length (drop (2 + length b) s)"
    by (auto simp: starts_with_iff)
  show "2 \<le> n" "n \<le> length s"
    using assms l line_tail_bound
    by (auto simp: boundary_match_def Let_def starts_with_iff split: if_splits option.splits
        dest!: line_tail_bound)
qed

lemma delim_with_bound:
  "delim_with b s e = Some m \<Longrightarrow> e \<le> length s \<Longrightarrow> m_index m = 0 \<and> 2 \<le> m_length m \<and> m_length m \<le> length s"
  using boundary_match_bound by (fastforce simp: delim_with_def)

lemma delim_at_bound:
  "delim_at start b s = Some m \<Longrightarrow> m_index m = 0 \<and> 2 \<le> m_length m \<and> m_length m \<le> length s"
  by (auto simp: delim_at_def starts_with_iff dest!: delim_with_bound split: option.splits if_splits)

lemma find_delim_bound:
  "find_delim start b s = Some m \<Longrightarrow> 2 \<le> m_length m \<and> m_index m + m_length m \<le> length s"
proof (induction start b s arbitrary: m rule: find_delim.induct)
  case (1 start b)
  then show ?case using delim_at_bound by fastforce
next
  case (2 start b c s)
  then show ?case using delim_at_bound by (fastforce split: option.splits)
qed

section \<open>Fuel\<close>

text \<open>
  What a parser asks of its subparser: a call with fuel \<open>n\<close> ends when the weight of the
  subparser, four times the data and one are below \<open>n\<close>, and the weight does not grow by more
  than the data.
\<close>

locale sub_parser =
  fixes disp :: "'d parser \<Rightarrow> jstr \<Rightarrow> jstr \<Rightarrow> event list \<Rightarrow> 'd run"
    and eof :: "'d parser \<Rightarrow> jstr \<Rightarrow> event list \<Rightarrow> 'd run"
    and n :: nat
  assumes disp_ends: "weight q + 4 * length b + 1 < n \<Longrightarrow>
      ends (disp q k b l) (\<lambda>(q', _). weight q' \<le> weight q + 4 * length b)"
    and eof_ends: "weight q < n \<Longrightarrow> ends (eof q k l) (\<lambda>(q', _). weight q' \<le> weight q)"
begin

lemma route_ends:
  assumes "weight p + 4 * length buffer \<le> n" and "p_state (pstate_of p) \<noteq> ParsingHeaders"
  shows "ends (route disp env p part buffer log) (\<lambda>(p', _). weight p' \<le> weight p + 4 * length buffer)"
proof -
  obtain s sub where p: "p = Parser s sub" by (cases p)
  have st: "p_state s \<noteq> ParsingHeaders" using assms(2) by (simp add: p)
  show ?thesis
  proof (cases "p_state s")
    case ToEmitter
    have bound: "weight (Parser s2 sub) \<le> weight p + 4 * length buffer"
      if "convert_saved s buffer = Inr (buf, s1)" "emit_data env s1 part buf log = Inr (s2, log2)"
      for buf s1 s2 log2
      using st convert_saved_length [OF that(1)] emit_data_state [OF that(2)] by (simp add: p)
    have "ends (Some (bindE (convert_saved s buffer) (\<lambda>(buf, s1).
                 bindE (emit_data env s1 part buf log) (\<lambda>(s2, log2).
                   Inr (Parser s2 sub, log2))))) (\<lambda>(p', _). weight p' \<le> weight p + 4 * length buffer)"
      using bound by (intro ends_Some) (auto simp: bindE_Inr_iff simp del: weight.simps)
    then show ?thesis using ToEmitter by (simp add: route_def p)
  next
    case ToSubparser
    have "ends (Some (convert_saved s buffer)) (\<lambda>(buf, s1).
        length buf + length (saved_buffer s1) \<le> length (saved_buffer s) + length buffer
        \<and> p_state s1 = ToSubparser)"
      using ToSubparser convert_saved_length by (intro ends_Some) fastforce
    then have "ends (route disp env p part buffer log) (\<lambda>(p', _). weight p' \<le> weight p + 4 * length buffer)"
      unfolding route_def p Let_def parser.sel ToSubparser parse_state.case
    proof (rule ends_bindR, goal_cases)
      case (1 x)
      then obtain buf s1 where x: "x = (buf, s1)"
        and len: "length buf + length (saved_buffer s1) \<le> length (saved_buffer s) + length buffer"
        and st1: "p_state s1 = ToSubparser"
        by (cases x) auto
      have sub: "ends (disp q k buf log) (\<lambda>(q', _). weight q' \<le> weight q + 4 * length buf)"
        if "sub = Some q" for q k
        using that len assms(1) st by (intro disp_ends) (simp add: p)
      have sub': "ends (bindR (disp q k buf log) (\<lambda>(q', log'). Some (Inr (Parser s1 (Some q'), log'))))
          (\<lambda>(p', _). weight p' \<le> weight (Parser s (Some q)) + 4 * length buffer)"
        if "sub = Some q" for q k
        by (rule ends_bindR [OF sub [OF that]]) (use len st st1 in auto)
      show ?case
        using len st st1 sub' by (cases sub; cases "sub_part_num s1") (simp_all add: x)
    qed
    then show ?thesis .
  qed (use st in \<open>simp_all add: route_def p\<close>)
qed

lemma end_subpart_ends:
  assumes "weight q + 4 * length saved + 1 < n"
  shows "ends (end_subpart disp eof q k saved log) (\<lambda>(q', _). weight q' \<le> weight q + 4 * length saved)"
  unfolding end_subpart_def
proof (rule ends_bindR [where P = "\<lambda>(q', _). weight q' \<le> weight q + 4 * length saved"], goal_cases)
  case 1
  then show ?case using disp_ends [OF assms] by simp
next
  case (2 x)
  then show ?case using assms
    by (cases x) (auto intro!: ends_mono [OF eof_ends])
qed

lemma when_multipart_ends:
  assumes "weight p \<le> n"
  shows "ends (when_multipart disp eof p part m log)
    (\<lambda>(p', _). weight p' \<le> weight p)"
proof -
  obtain s sub where p: "p = Parser s sub" by (cases p)
  let ?saved = "if m_eol m = 0 then chop_eol (saved_buffer s) else saved_buffer s"
  have len: "length ?saved \<le> length (saved_buffer s)"
    using length_chop_eol [of "saved_buffer s"] by simp
  have fin: "ends (case (sub_part_num s, sub) of
              (None, sub) \<Rightarrow> Some (Inr ((sub, s\<lparr>p_count := 1\<rparr>), log))
            | (Some k, Some q) \<Rightarrow>
                bindR (end_subpart disp eof q k ?saved log) (\<lambda>(q', log'). Some (Inr ((Some q', s), log')))
            | (Some _, None) \<Rightarrow> Some (Inl BadType))
      (\<lambda>((sub', s'), _). (case sub' of None \<Rightarrow> 0 | Some q \<Rightarrow> weight q) + 2 \<le> weight p)"
  proof -
    have e: "ends (end_subpart disp eof q k ?saved log) (\<lambda>(q', _). weight q' + 2 \<le> weight p)"
      if "sub = Some q" for q k
    proof -
      have "weight q + 4 * length ?saved + 2 \<le> weight p" using len that by (simp add: p)
      then show ?thesis
        using assms by (intro ends_mono [OF end_subpart_ends]) auto
    qed
    have "ends (bindR (end_subpart disp eof q k ?saved log) (\<lambda>(q', log').
        Some (Inr ((Some q', s), log'))))
       (\<lambda>((sub', s'), _). (case sub' of None \<Rightarrow> 0 | Some q \<Rightarrow> weight q) + 2 \<le> weight p)"
      if "sub = Some q" for q k
      by (rule ends_bindR [OF e [OF that]]) auto
    then show ?thesis
      by (cases sub; cases "sub_part_num s") (simp_all add: p del: weight.simps, simp_all add: p)
  qed
  have two: "2 \<le> weight q" for q :: "'d parser" by (cases q) simp
  show ?thesis
    unfolding when_multipart_def p Let_def parser.sel
  proof (rule ends_bindR [OF fin], goal_cases)
    case (1 x)
    then obtain sub' s' log1 where x: "x = ((sub', s'), log1)"
      and w: "(case sub' of None \<Rightarrow> 0 | Some q \<Rightarrow> weight q) + 2 \<le> weight p"
      by (cases x) auto
    show ?case
    proof (cases sub')
      case (Some q)
      have "4 \<le> weight p" using w two [of q] by (simp add: Some)
      then show ?thesis using w by (simp add: Some x p reset_parser_def reset_state_def)
    qed (use w in \<open>simp add: x p\<close>)
  qed
qed

lemma finish_subparser_ends:
  assumes "weight p \<le> n"
  shows "ends (finish_subparser disp eof p log) (\<lambda>(p', _). weight p' \<le> weight p)"
proof -
  obtain s sub where p: "p = Parser s sub" by (cases p)
  show ?thesis
  proof (cases "\<exists>q k. sub = Some q \<and> sub_part_num s = Some k")
    case True
    then obtain q k where q: "sub = Some q" "sub_part_num s = Some k" by blast
    have w: "weight q + 4 * length (saved_buffer s) + 2 \<le> weight p" by (simp add: p q)
    have "ends (case convert_data s of
                   Some c \<Rightarrow> if saved_buffer s \<noteq> []
                     then bindR (Some (run_converter c (saved_buffer s) False))
                            (\<lambda>(buf, _). disp q k buf log)
                     else Some (Inr (q, log))
                 | None \<Rightarrow> Some (Inr (q, log))) (\<lambda>(q', _). weight q' + 2 \<le> weight p)"
    proof -
      have "ends (bindR (Some (run_converter c (saved_buffer s) False)) (\<lambda>(buf, _). disp q k buf log))
          (\<lambda>(q', _). weight q' + 2 \<le> weight p)" for c
      proof (rule ends_bindR [where P = "\<lambda>(buf, _). length buf \<le> length (saved_buffer s)"], goal_cases)
        case 1
        show ?case by (rule ends_Some) (auto dest!: length_run_converter)
      next
        case (2 x)
        then show ?case using w assms by (cases x) (auto intro!: ends_mono [OF disp_ends])
      qed
      then show ?thesis using w by (auto split: option.split)
    qed
    then have "ends (finish_subparser disp eof (Parser s (Some q)) log) (\<lambda>(p', _). weight p' \<le> weight p)"
      unfolding finish_subparser_def Let_def parser.sel q option.case prod.case
    proof (rule ends_bindR, clarify)
      fix q1 :: "'d parser" and log1
      assume "weight q1 + 2 \<le> weight p"
      then have "ends (eof q1 k log1) (\<lambda>(q', _). weight q' \<le> weight q1)"
        using assms by (intro eof_ends) simp
      then show "ends (bindR (eof q1 k log1) (\<lambda>(_, log2). Some (Inr (Parser s None, log2))))
         (\<lambda>(p', _). weight p' \<le> weight p)"
        by (rule ends_bindR) (auto simp: p)
    qed
    then show ?thesis by (simp add: p q)
  next
    case False
    then have "finish_subparser disp eof p log = Some (Inl BadType)"
      by (auto simp: finish_subparser_def p split: option.split)
    then show ?thesis by simp
  qed
qed

end

lemma decode_by_cte_state:
  assumes "decode_by_cte env s h = Inr s'"
  shows "p_state s' = p_state s" "saved_buffer s' = saved_buffer s" "header_data s' = header_data s"
    "sub_part_num s' = sub_part_num s" "split_boundary s' = split_boundary s"
  using assms by (auto simp: decode_by_cte_def Let_def bindE_Inr_iff split: option.splits)

text \<open>The four ways in which a body starts.\<close>

lemma start_body_cases:
  assumes "start_body env p part = Inr p'"
  obtains
    (emitter) s where "p' = Parser s (sub_of p)" "p_state s = ToEmitter"
      "saved_buffer s = saved_buffer (pstate_of p)" "sub_part_num s = sub_part_num (pstate_of p)"
      "split_boundary s = split_boundary (pstate_of p)"
  | (black_hole) s where "p' = Parser s (sub_of p)" "p_state s = BlackHole"
      "saved_buffer s = saved_buffer (pstate_of p)" "sub_part_num s = sub_part_num (pstate_of p)"
      "split_boundary s = split_boundary (pstate_of p)"
  | (multipart) s d b where "p' = Parser s (Some (new_parser d))" "p_state s = BlackHole"
      "saved_buffer s = saved_buffer (pstate_of p)" "sub_part_num s = sub_part_num (pstate_of p)"
      "split_boundary s = Some b" "convert_data s = Some ConvMultipart"
  | (message) s where "p' = Parser s (Some (new_parser None))" "p_state s = ToSubparser"
      "saved_buffer s = saved_buffer (pstate_of p)" "sub_part_num s = Some (part @ [36])"
      "split_boundary s = split_boundary (pstate_of p)"
proof -
  obtain h0 v h ct where 0: "p_headers (pstate_of p) = Some h0"
    "content_type_of (env_api env) (env_registry env) h0 = Inr (v, h)" "as_content_type v = Inr ct"
    using assms by (auto simp: start_body_def Let_def bindE_Inr_iff split: option.splits)
  let ?s = "(pstate_of p)\<lparr>p_headers := Some h\<rparr>"
  consider "bodyformat (env_options env) = BodyRaw \<and> part = pruneat (env_options env)"
    | "\<not> (bodyformat (env_options env) = BodyRaw \<and> part = pruneat (env_options env))"
      "ct_mediatype ct = js ''multipart''"
    | "\<not> (bodyformat (env_options env) = BodyRaw \<and> part = pruneat (env_options env))"
      "ct_mediatype ct \<noteq> js ''multipart''" "is_message_type ct"
    | "\<not> (bodyformat (env_options env) = BodyRaw \<and> part = pruneat (env_options env))"
      "ct_mediatype ct \<noteq> js ''multipart''" "\<not> is_message_type ct"
    by blast
  then show thesis
  proof cases
    case 1
    then have "p' = Parser (?s\<lparr>p_state := ToEmitter\<rparr>) (sub_of p)"
      using assms 0 by (simp add: start_body_def)
    then show ?thesis by (rule emitter) simp_all
  next
    case 2
    then show ?thesis
      using assms 0 by (cases "ct_get ct (js ''boundary'')")
        (auto simp: start_body_def simp del: js_Cons intro: multipart black_hole)
  next
    case 3
    then obtain s' where "decode_by_cte env (?s\<lparr>p_state := ToSubparser,
        sub_part_num := Some (part @ [36])\<rparr>) h = Inr s'"
      "p' = Parser (s'\<lparr>p_decoder := text_decoder env ct (p_charset s')\<rparr>) (Some (new_parser None))"
      using assms 0 by (auto simp: start_body_def bindE_Inr_iff Let_def simp del: js_Cons)
    then show ?thesis using decode_by_cte_state by (intro message) fastforce+
  next
    case 4
    then obtain s' where "(if bodyformat (env_options env) = BodyDecode
        then decode_by_cte env (?s\<lparr>p_state := ToEmitter\<rparr>) h else Inr (?s\<lparr>p_state := ToEmitter\<rparr>)) = Inr s'"
      "p' = Parser (s'\<lparr>p_decoder := text_decoder env ct (p_charset s')\<rparr>) (sub_of p)"
      using assms 0 by (auto simp: start_body_def bindE_Inr_iff Let_def simp del: js_Cons)
    then show ?thesis using decode_by_cte_state by (intro emitter) (fastforce split: if_splits)+
  qed
qed

lemma start_body_weight:
  assumes "start_body env p part = Inr p'" and "saved_buffer (pstate_of p) = saved"
  shows "p_state (pstate_of p') \<noteq> ParsingHeaders" "saved_buffer (pstate_of p') = saved"
    "sub_of p' = sub_of p \<or> (\<exists>d. sub_of p' = Some (new_parser d))"
  using assms by (cases rule: start_body_cases; auto)+

lemma parse_headers_state:
  assumes "parse_headers env s = Inr s'"
  shows "p_state s' = p_state s" "header_data s' = header_data s" "saved_buffer s' = saved_buffer s"
    "p_headers s' \<noteq> None" "split_boundary s' = split_boundary s" "sub_part_num s' = sub_part_num s"
  using assms by (auto simp: parse_headers_def Let_def bindE_Inr_iff split: option.splits)

lemma header_phase_weight:
  assumes "header_phase env p part buffer log = Inr r"
  shows "case r of
      Inl p1 \<Rightarrow> weight p1 \<le> weight p + 4 * length buffer
    | Inr (p1, buf, _) \<Rightarrow> weight p1 + 4 * length buf \<le> weight p + 4 * length buffer
        \<and> p_state (pstate_of p1) \<noteq> ParsingHeaders"
proof -
  obtain s sub where p: "p = Parser s sub" by (cases p)
  show ?thesis
  proof (cases "p_state s = ParsingHeaders")
    case True
    let ?h = "header_data s @ buffer"
    show ?thesis
    proof (cases "find_header_end ?h")
      case None
      then show ?thesis using assms True by (auto simp: header_phase_def p)
    next
      case (Some x)
      obtain i n where x: "x = (i, n)" by (cases x)
      have b: "0 < n" "i + n \<le> length ?h" using find_header_end_bound [of ?h i n] Some x by auto
      obtain s1 p2 log1 where s1: "parse_headers env (s\<lparr>header_data := take i ?h\<rparr>) = Inr s1"
        and p2: "start_body env (Parser s1 sub) part = Inr p2" and r: "r = Inr (p2, drop (i + n) ?h, log1)"
        using assms True Some x by (auto simp: header_phase_def p bindE_Inr_iff)
      note h = parse_headers_state [OF s1]
      note sb = start_body_weight [OF p2, of "saved_buffer s"]
      have ps: "p_state (pstate_of p2) \<noteq> ParsingHeaders" "saved_buffer (pstate_of p2) = saved_buffer s"
        "sub_of p2 = sub \<or> (\<exists>d. sub_of p2 = Some (new_parser d))"
        using sb h True by simp_all
      have "weight p2 \<le> 4 * length (saved_buffer s) + 4 + (case sub of None \<Rightarrow> 0 | Some q \<Rightarrow> weight q)"
        using ps by (cases p2) (auto simp: new_parser_def new_state_def split: option.splits)
      then show ?thesis using b True ps(1) by (auto simp: r p)
    qed
  next
    case False
    then show ?thesis using assms by (auto simp: header_phase_def p)
  qed
qed

text \<open>Every call with the fuel that \<open>weight\<close> asks for ends.\<close>

lemma dispatch_data_step:
  assumes sp: "sub_parser (\<lambda>q k b l. dispatch_data n env q k b True l) (dispatch_eof n env) n"
    and self: "\<And>p part buffer check_split log.
      weight p + 4 * length buffer + (if check_split then 1 else 0) < n \<Longrightarrow>
      ends (dispatch_data n env p part buffer check_split log)
        (\<lambda>(p', _). weight p' \<le> weight p + 4 * length buffer)"
    and w: "weight p + 4 * length buffer + (if check_split then 1 else 0) < Suc n"
  shows "ends (dispatch_data (Suc n) env p part buffer check_split log)
       (\<lambda>(p', _). weight p' \<le> weight p + 4 * length buffer)"
  unfolding dispatch_data.simps
proof (rule ends_bindR [where P = "\<lambda>r. case r of
      Inl p1 \<Rightarrow> weight p1 \<le> weight p + 4 * length buffer
    | Inr (p1, buf, _) \<Rightarrow> weight p1 + 4 * length buf \<le> weight p + 4 * length buffer
        \<and> p_state (pstate_of p1) \<noteq> ParsingHeaders"], goal_cases)
  case 1
  show ?case by (rule ends_Some) (rule header_phase_weight)
next
  case (2 r)
  show ?case
  proof (cases r)
    case (Inl p1)
    then show ?thesis using 2 by simp
  next
    case (Inr x)
    obtain p1 buf log1 where x: "x = (p1, buf, log1)" by (cases x)
    have w1: "weight p1 + 4 * length buf \<le> weight p + 4 * length buffer"
      and st: "p_state (pstate_of p1) \<noteq> ParsingHeaders"
      using 2 Inr x by auto
    have route: "ends (route (\<lambda>q k b l. dispatch_data n env q k b True l) env p1 part buf log1)
        (\<lambda>(p', _). weight p' \<le> weight p + 4 * length buffer)"
      by (rule ends_mono [OF sub_parser.route_ends [OF sp _ st]]) (use w w1 in auto)
    have split: "ends (bindR (if 0 < m_index m
                            then dispatch_data n env p1 part (take (m_index m) buf) False log1
                            else Some (Inr (p1, log1))) (\<lambda>(p2, log2).
                     bindR (when_multipart (\<lambda>q k b l. dispatch_data n env q k b True l)
                              (dispatch_eof n env) p2 part m log2) (\<lambda>(p3, log3).
                       let rest = drop (m_index m + m_length m) buf in
                       if rest \<noteq> [] then dispatch_data n env p3 part rest True log3
                       else Some (Inr (p3, log3)))))
        (\<lambda>(p', _). weight p' \<le> weight p + 4 * length buffer)"
      if m: "split_search b buf = Some m" for b m
    proof -
      have b: "2 \<le> m_length m" "m_index m + m_length m \<le> length buf"
        using find_delim_bound m by (auto simp: split_search_def)
      have before: "ends (if 0 < m_index m
            then dispatch_data n env p1 part (take (m_index m) buf) False log1
            else Some (Inr (p1, log1)))
          (\<lambda>(p2, _). weight p2 \<le> weight p1 + 4 * m_index m)"
      proof (cases "0 < m_index m")
        case True
        have "weight p1 + 4 * length (take (m_index m) buf) + (if False then 1 else 0) < n"
          using w w1 b by simp
        from self [OF this] show ?thesis using True b by simp
      qed simp
      show ?thesis
      proof (rule ends_bindR [OF before], goal_cases)
        case (1 x)
        then obtain p2 log2 where x: "x = (p2, log2)" and w2: "weight p2 \<le> weight p1 + 4 * m_index m"
          by (cases x) auto
        have "weight p2 \<le> n" using w2 w w1 b by simp
        from sub_parser.when_multipart_ends [OF sp this]
        show ?case
          unfolding x prod.case
        proof (rule ends_bindR, goal_cases)
          case (1 y)
          then obtain p3 log3 where y: "y = (p3, log3)" and w3: "weight p3 \<le> weight p2"
            by (cases y) auto
          define rest where "rest = drop (m_index m + m_length m) buf"
          have len: "length rest + m_index m + 2 \<le> length buf" using b by (simp add: rest_def)
          have "weight p3 + 4 * length rest + (if True then 1 else 0) < n"
            using w3 w2 w w1 len by simp
          from self [OF this] have "ends (dispatch_data n env p3 part rest True log3)
              (\<lambda>(p', _). weight p' \<le> weight p + 4 * length buffer)"
            by (rule ends_mono) (use w3 w2 w1 len in auto)
          then show ?case
            using w3 w2 w1 len unfolding y rest_def [symmetric] Let_def by auto
        qed
      qed
    qed
    show ?thesis
      using route split by (auto simp: Inr x split: option.split)
  qed
qed

lemma dispatch_eof_step:
  assumes sp: "sub_parser (\<lambda>q k b l. dispatch_data n env q k b True l) (dispatch_eof n env) n"
    and w: "weight p < Suc n"
  shows "ends (dispatch_eof (Suc n) env p part log) (\<lambda>(p', _). weight p' \<le> weight p)"
  unfolding dispatch_eof.simps
proof (rule ends_bindR [where P = "\<lambda>(p', _). weight p' \<le> weight p"], goal_cases)
  case 1
  obtain s sub where p: "p = Parser s sub" by (cases p)
  have body: "weight p' \<le> weight p" if "finish_body env p part log = Inr (p', log')" for p' log'
  proof -
    have "weight (Parser s' sub) \<le> weight p" if "emit_data env s part buf log = Inr (s', log')" for buf s'
      using emit_data_state [OF that] by (simp add: p)
    then show ?thesis
      using that by (auto simp: finish_body_def p bindE_Inr_iff simp del: weight.simps
          split: option.splits if_splits)
  qed
  have "weight (Parser s1 sub) \<le> weight p" if "parse_headers env s = Inr s1" for s1
    using parse_headers_state [OF that] by (simp add: p)
  then have hdr: "ends (Some (bindE (parse_headers env s) (\<lambda>s1.
              bindE (call_emitter env (StartPart part (the (p_headers s1))) log) (\<lambda>log1.
                Inr (Parser s1 sub, log1))))) (\<lambda>(p', _). weight p' \<le> weight p)"
    by (intro ends_Some) (auto simp: bindE_Inr_iff simp del: weight.simps)
  have fin: "ends (Some (finish_body env p part log)) (\<lambda>(p', _). weight p' \<le> weight p)"
    using body by (intro ends_Some) auto
  have "weight p \<le> n" using w by simp
  from sub_parser.finish_subparser_ends [OF sp this] hdr fin show ?case
    by (cases "p_state s") (simp_all add: p)
next
  case (2 x)
  then show ?case by (cases x) (auto intro!: ends_Some simp: bindE_Inr_iff)
qed

lemma dispatch_ends:
  "weight p + 4 * length buffer + (if check_split then 1 else 0) < n \<Longrightarrow>
     ends (dispatch_data n env p part buffer check_split log)
       (\<lambda>(p', _). weight p' \<le> weight p + 4 * length buffer)"
  "weight p < n \<Longrightarrow> ends (dispatch_eof n env p part log) (\<lambda>(p', _). weight p' \<le> weight p)"
proof (induction n arbitrary: p part buffer check_split log)
  case (Suc n)
  case 1
  have "sub_parser (\<lambda>q k b l. dispatch_data n env q k b True l) (dispatch_eof n env) n"
    using Suc.IH by unfold_locales auto
  from this Suc.IH(1) 1 show ?case by (rule dispatch_data_step)
next
  case (Suc n)
  case 2
  have "sub_parser (\<lambda>q k b l. dispatch_data n env q k b True l) (dispatch_eof n env) n"
    using Suc.IH by unfold_locales auto
  from this 2 show ?case by (rule dispatch_eof_step)
qed simp_all

declare dispatch_data.simps(2) [simp del] dispatch_eof.simps(2) [simp del]

interpretation jsmime: sub_parser
  "\<lambda>q k b l. dispatch_data n env q k b True l" "dispatch_eof n env" n for n env
proof unfold_locales
  show "ends (dispatch_data n env q k b True l) (\<lambda>(q', _). weight q' \<le> weight q + 4 * length b)"
    if "weight q + 4 * length b + 1 < n" for q k b l
    using that by (intro dispatch_ends) simp
qed (rule dispatch_ends)

text \<open>Delivering a packet, and the end, always returns.\<close>

lemma deliver_data_ends: "ends (deliver_data env mp buffer log) (\<lambda>_. True)"
proof -
  obtain buf hold where c: "condition_to_end (hold_data mp @ buffer) = (buf, hold)"
    by (cases "condition_to_end (hold_data mp @ buffer)")
  have d: "ends (dispatch_data (weight (core mp) + 4 * length buf + 2) env (core mp) [] buf True l)
      (\<lambda>_. True)" for l
    by (rule ends_mono [OF dispatch_ends(1)]) auto
  show ?thesis
    unfolding deliver_data_def c Let_def prod.case
    by (auto intro!: ends_bindR [OF d] ends_bindR [OF ends_Some, where P = "\<lambda>_. True"]
        simp del: add_2_eq_Suc add_2_eq_Suc')
qed

lemma deliver_eof_ends: "ends (deliver_eof env mp log) (\<lambda>_. True)"
proof -
  have d: "ends (if hold_data mp \<noteq> []
            then dispatch_data (weight (core mp) + 4 * length (hold_data mp) + 2) env (core mp) []
                   (hold_data mp) True l
            else Some (Inr (core mp, l))) (\<lambda>_. True)" for l
    by (auto intro!: ends_mono [OF dispatch_ends(1)])
  have e: "ends (dispatch_eof (Suc (weight p)) env p [] l) (\<lambda>_. True)" for p l
    by (rule ends_mono [OF dispatch_ends(2)]) auto
  show ?thesis
    unfolding deliver_eof_def
    by (auto intro!: ends_bindR [OF d] ends_bindR [OF e] ends_bindR [OF ends_Some, where P = "\<lambda>_. True"]
        ends_Some)
qed

lemma parse_packets_ends: "ends (parse_packets env packets mp log) (\<lambda>_. True)"
proof (induction packets arbitrary: mp log)
  case (Cons b bs)
  then show ?case by (auto intro!: ends_bindR [OF deliver_data_ends])
qed (simp add: deliver_eof_ends)

lemma parse_message_ends: "ends (parse_message env packets) (\<lambda>_. True)"
  unfolding parse_message_def by (rule ends_bindR [OF parse_packets_ends]) auto

text \<open>Where a packet is cut.\<close>

definition after_last :: "jchar \<Rightarrow> jstr \<Rightarrow> nat" where
  "after_last c s = (case last_index_of c s of Some i \<Rightarrow> Suc i | None \<Rightarrow> 0)"

lemma after_last:
  "c \<notin> set (drop (after_last c s) s)"
  "after_last c s \<noteq> 0 \<Longrightarrow> after_last c s \<le> length s \<and> s ! (after_last c s - 1) = c"
proof -
  have "c \<notin> set (drop (Suc i) s)" if "last_index_of c s = Some i" for i
    using that by (induction s arbitrary: i)
      (auto simp: last_index_of_None_iff split: option.splits if_splits)
  then show "c \<notin> set (drop (after_last c s) s)"
    by (auto simp: after_last_def last_index_of_None_iff split: option.split)
  show "after_last c s \<noteq> 0 \<Longrightarrow> after_last c s \<le> length s \<and> s ! (after_last c s - 1) = c"
    using last_index_of_SomeD [of c s] by (auto simp: after_last_def split: option.splits)
qed

lemma condition_to_end_cut:
  "condition_to_end s =
     (let n = max (after_last 13 (if length s \<le> 1 then s else butlast s)) (after_last 10 s)
      in (take n s, drop n s))"
  by (simp add: condition_to_end_def last_cr_def after_last_def)

lemma condition_to_end_spec:
  "s = fst (condition_to_end s) @ snd (condition_to_end s)
   \<and> (fst (condition_to_end s) = [] \<or> last (fst (condition_to_end s)) = 13 \<or> last (fst (condition_to_end s)) = 10)
   \<and> 10 \<notin> set (snd (condition_to_end s)) \<and> 13 \<notin> set (butlast (snd (condition_to_end s)))"
proof -
  define t where "t = (if length s \<le> 1 then s else butlast s)"
  define n where "n = max (after_last 13 t) (after_last 10 s)"
  have c: "condition_to_end s = (take n s, drop n s)"
    by (simp add: condition_to_end_cut Let_def n_def t_def)
  have len: "length t \<le> length s" and nth: "i < length t \<Longrightarrow> t ! i = s ! i" for i
    by (simp_all add: t_def nth_butlast split: if_splits)
  have last: "take n s = [] \<or> last (take n s) = 13 \<or> last (take n s) = 10"
  proof (cases "n = 0")
    case False
    then have "n \<le> length s \<and> (s ! (n - 1) = 13 \<or> s ! (n - 1) = 10)"
      using after_last(2) [of 13 t] after_last(2) [of 10 s] len nth [of "n - 1"]
      unfolding n_def max_def by (auto split: if_splits)
    moreover from this False have "last (take n s) = s ! (n - 1)"
      by (subst last_conv_nth) (auto simp: min_absorb2)
    ultimately show ?thesis by simp
  qed simp
  have lf: "10 \<notin> set (drop n s)"
    using after_last(1) [of 10 s] set_drop_subset_set_drop [of "after_last 10 s" n s]
    by (auto simp: n_def)
  have "13 \<notin> set (drop (after_last 13 t) t)" by (rule after_last(1))
  then have "13 \<notin> set (drop n t)"
    using set_drop_subset_set_drop [of "after_last 13 t" n t] by (auto simp: n_def)
  moreover have "set (butlast (drop n s)) \<subseteq> set (drop n t)"
  proof (cases "length s \<le> 1")
    case True
    then have "butlast (drop n s) = []" by (cases s) (auto simp: butlast_drop)
    then show ?thesis by simp
  next
    case False
    then show ?thesis by (simp add: t_def drop_butlast)
  qed
  ultimately have cr: "13 \<notin> set (butlast (drop n s))" by blast
  show ?thesis
    unfolding c fst_conv snd_conv using last lf cr append_take_drop_id [of n s] by metis
qed

text \<open>A part whose encoding is \<open>constructor\<close> loses all of a packet but two characters.\<close>

lemma constructor_encoding_loses_body:
  "content_decoder (VText (js ''constructor'')) = Some ConvObject"
  "run_converter ConvObject (js ''hello'') True = Inr (js ''h'', js ''e'')"
  by (code_simp, simp)

section \<open>Properties\<close>

text \<open>C3: parsing a message always comes to an end: whatever the packets, the options, the callbacks
  and the charset decoders do, the recursion of the parser is bounded by the weight of its state
  and the length of the data, and the call returns or throws.\<close>

theorem parse_message_returns: "\<exists>r. parse_message env packets = Some r"
  using parse_message_ends [of env packets] by (auto simp: ends_def split: option.splits)

text \<open>C24: a packet passes on all that was held and received but for a tail without a line end: what
  is dispatched and what is held are exactly the input, what is dispatched ends a line, and what
  is held has no line feed, and no carriage return but at its end.\<close>

theorem packet_conditioning:
  "case condition_to_end s of (now, hold) \<Rightarrow>
     s = now @ hold \<and> (now = [] \<or> last now = 13 \<or> last now = 10)
     \<and> 10 \<notin> set hold \<and> 13 \<notin> set (butlast hold)"
  using condition_to_end_spec by (simp add: case_prod_beta)

end
