(* ===== verification/MimeEvents.thy ===== *)
theory MimeEvents
  imports MimeParser
begin

text \<open>
  What the emitter of a message sees: the order of the events, the parts it is told of, and the
  data of a part that has no subparts.
\<close>

section \<open>The order of the events\<close>

text \<open>
  The parts that are open, innermost first, each with the number of subparts it has started.
  \<open>follow\<close> says which event may come next: a subpart is numbered in sequence, or is the body
  of a message (\<open>$\<close>); data comes only for the innermost part and only if it has no subparts;
  only the innermost part ends.
\<close>

type_synonym open_parts = "(jstr \<times> nat) list"

definition part_prefix :: "jstr \<Rightarrow> jstr" where
  "part_prefix part = (if part \<noteq> [] then part @ [46] else part)"

fun may_start :: "open_parts \<Rightarrow> jstr \<Rightarrow> bool" where
  "may_start [] n \<longleftrightarrow> n = []"
| "may_start ((m, k) # st) n \<longleftrightarrow> (k = 0 \<and> n = m @ [36]) \<or> n = part_prefix m @ nat_str (k + 1)"

fun bump :: "open_parts \<Rightarrow> open_parts" where
  "bump [] = []"
| "bump ((m, k) # st) = (m, k + 1) # st"

fun follow :: "open_parts \<Rightarrow> event \<Rightarrow> open_parts option" where
  "follow st (StartPart n h) = (if may_start st n then Some ((n, 0) # bump st) else None)"
| "follow ((m, k) # st) (EndPart n) = (if m = n then Some st else None)"
| "follow ((m, k) # st) (PartData n d) = (if m = n \<and> k = 0 then Some ((m, k) # st) else None)"
| "follow _ _ = None"

fun follow_all :: "open_parts \<Rightarrow> event list \<Rightarrow> open_parts option" where
  "follow_all st [] = Some st"
| "follow_all st (e # es) = (case follow st e of None \<Rightarrow> None | Some st' \<Rightarrow> follow_all st' es)"

lemma follow_all_append:
  "follow_all st (es @ es') =
     (case follow_all st es of None \<Rightarrow> None | Some st' \<Rightarrow> follow_all st' es')"
  by (induction es arbitrary: st) (auto split: option.split)

text \<open>An emitter that has every method, never throws and prunes nothing.\<close>

definition plain_env :: "'d mime_env \<Rightarrow> bool" where
  "plain_env env \<longleftrightarrow> (\<forall>n. env_has env n) \<and> (\<forall>log ev. env_callback env log ev = None)
     \<and> pruneat (env_options env) = []"

lemma call_emitter_plain: "plain_env env \<Longrightarrow> call_emitter env ev log = Inr (log @ [ev])"
  by (auto simp: plain_env_def call_emitter_def will_ignore_part_def split: option.split)

text \<open>
  \<open>parts_open p part st\<close>: a parser for part \<open>part\<close> in state \<open>p\<close> has opened \<open>st\<close> above the
  parts that were open before it.  \<open>over st base\<close> puts the two together.
\<close>

definition over :: "open_parts \<Rightarrow> open_parts \<Rightarrow> open_parts" where
  "over st base = (if st = [] then base else st @ bump base)"

definition unused :: "'d pstate \<Rightarrow> bool" where
  "unused s \<longleftrightarrow> p_state s = ParsingHeaders \<and> split_boundary s = None \<and> sub_part_num s = None
     \<and> saved_buffer s = []"

definition child_number :: "'d pstate \<Rightarrow> jstr \<Rightarrow> jstr \<Rightarrow> nat \<Rightarrow> bool" where
  "child_number s part n k \<longleftrightarrow>
     (n = part @ [36] \<and> k = 0 \<and> split_boundary s = None)
     \<or> (n = part_prefix part @ nat_str (k + 1) \<and> p_count s = k + 2)"

fun parts_open :: "'d parser \<Rightarrow> jstr \<Rightarrow> open_parts \<Rightarrow> bool" where
  "parts_open (Parser s sub) part st \<longleftrightarrow>
     (case p_state s of
        ParsingHeaders \<Rightarrow> st = [] \<and> unused s
      | ToEmitter \<Rightarrow> st = [(part, 0)] \<and> split_boundary s = None
      | BlackHole \<Rightarrow>
          saved_buffer s = [] \<and>
          (if split_boundary s = None then \<exists>k. st = [(part, k)]
           else st = [(part, 0)] \<and> sub_part_num s = None
                \<and> (\<exists>q. sub = Some q \<and> unused (pstate_of q)))
      | ToSubparser \<Rightarrow>
          (\<exists>n k st'. sub_part_num s = Some n \<and> child_number s part n k \<and> st = over st' [(part, k)]
             \<and> (case sub of None \<Rightarrow> False | Some q \<Rightarrow> parts_open q n st')))"

lemma parts_open_headers:
  "p_state s = ParsingHeaders \<Longrightarrow> parts_open (Parser s sub) part st \<longleftrightarrow> st = [] \<and> unused s"
  by simp

lemma parts_open_emitter:
  "p_state s = ToEmitter \<Longrightarrow>
   parts_open (Parser s sub) part st \<longleftrightarrow> st = [(part, 0)] \<and> split_boundary s = None"
  by simp

lemma parts_open_black_hole:
  "p_state s = BlackHole \<Longrightarrow>
   parts_open (Parser s sub) part st \<longleftrightarrow> saved_buffer s = [] \<and>
          (if split_boundary s = None then \<exists>k. st = [(part, k)]
           else st = [(part, 0)] \<and> sub_part_num s = None
                \<and> (\<exists>q. sub = Some q \<and> unused (pstate_of q)))"
  by simp

lemma parts_open_subparser:
  "p_state s = ToSubparser \<Longrightarrow>
   parts_open (Parser s sub) part st \<longleftrightarrow>
     (\<exists>q n k st'. sub = Some q \<and> sub_part_num s = Some n \<and> child_number s part n k
        \<and> st = over st' [(part, k)] \<and> parts_open q n st')"
  by (cases sub) simp_all

declare parts_open.simps [simp del]

lemmas parts_open_state =
  parts_open_headers parts_open_emitter parts_open_black_hole parts_open_subparser

lemma parts_open_unused: "unused (pstate_of q) \<Longrightarrow> parts_open q n []"
  by (cases q) (simp add: parts_open_headers unused_def)

lemma over_simps [simp]: "over [] base = base" "st \<noteq> [] \<Longrightarrow> over st base = st @ bump base"
  by (simp_all add: over_def)

lemma over_over: "over (over st [(m, k)]) base = over st ((m, k) # bump base)"
  by (auto simp: over_def)

lemma may_start_child: "child_number s part n k \<Longrightarrow> may_start ((part, k) # st) n"
  by (auto simp: child_number_def)

text \<open>\<open>holds m Q\<close>: if \<open>m\<close> returns normally, its result satisfies \<open>Q\<close>.\<close>

definition holds :: "(js_error + 'a) option \<Rightarrow> ('a \<Rightarrow> bool) \<Rightarrow> bool" where
  "holds m Q \<longleftrightarrow> (\<forall>x. m = Some (Inr x) \<longrightarrow> Q x)"

lemma holds_simps [simp]:
  "holds None Q" "holds (Some (Inl e)) Q" "holds (Some (Inr x)) Q = Q x"
  by (simp_all add: holds_def)

lemma holds_bindR:
  assumes "holds m P" and "\<And>x. P x \<Longrightarrow> holds (f x) Q"
  shows "holds (bindR m f) Q"
proof (cases m)
  case (Some r)
  then show ?thesis using assms by (cases r) simp_all
qed (use assms in simp)

lemma holdsD: "holds m Q \<Longrightarrow> m = Some (Inr x) \<Longrightarrow> Q x"
  by (simp add: holds_def)

lemma holds_mono: "holds m P \<Longrightarrow> (\<And>x. P x \<Longrightarrow> Q x) \<Longrightarrow> holds m Q"
  by (auto simp: holds_def)

lemma holds_Some: "(\<And>x. m = Inr x \<Longrightarrow> Q x) \<Longrightarrow> holds (Some m) Q"
  by (cases m) auto

text \<open>The contract: how a call moves the open parts, and that it only adds to the log.\<close>

definition moves :: "jstr \<Rightarrow> open_parts \<Rightarrow> open_parts \<Rightarrow> event list \<Rightarrow> 'd parser \<times> event list \<Rightarrow> bool" where
  "moves part st base log = (\<lambda>(p', log').
     \<exists>es st'. log' = log @ es \<and> parts_open p' part st' \<and> follow_all (over st base) es = Some (over st' base))"

definition closes :: "open_parts \<Rightarrow> open_parts \<Rightarrow> event list \<Rightarrow> 'd parser \<times> event list \<Rightarrow> bool" where
  "closes st base log = (\<lambda>(p', log').
     \<exists>es. log' = log @ es \<and> follow_all (over st base) es = Some (bump base))"

lemma moves_trans:
  assumes "moves part st base log (p1, log1)"
    and "\<And>st1. parts_open p1 part st1 \<Longrightarrow> moves part st1 base log1 x"
  shows "moves part st base log x"
proof -
  obtain es st1 where 1: "log1 = log @ es" "parts_open p1 part st1"
    "follow_all (over st base) es = Some (over st1 base)"
    using assms(1) by (auto simp: moves_def)
  obtain es' st' where "snd x = log1 @ es'" "parts_open (fst x) part st'"
    "follow_all (over st1 base) es' = Some (over st' base)"
    using assms(2) [OF 1(2)] by (auto simp: moves_def)
  with 1 show ?thesis
    unfolding moves_def by (cases x) (auto simp: follow_all_append intro!: exI [of _ "es @ es'"])
qed

lemma moves_refl: "parts_open p part st \<Longrightarrow> moves part st base log (p, log)"
  by (auto simp: moves_def)

lemma emit_data_log:
  assumes "plain_env env" and "emit_data env s part buf log = Inr (s2, log2)"
  shows "\<exists>d. log2 = log \<or> log2 = log @ [PartData part d]"
  using assms(2) call_emitter_plain [OF assms(1)]
  by (auto simp: emit_data_def bindE_Inr_iff split: if_splits)

lemma emit_data_moves:
  assumes "plain_env env" and "parts_open (Parser s sub) part st" and "p_state s = ToEmitter"
    and "emit_data env s' part buf log = Inr (s2, log2)"
    and "p_state s' = p_state s" "split_boundary s' = split_boundary s"
  shows "moves part st base log (Parser s2 sub', log2)"
proof -
  have st: "st = [(part, 0)]" "split_boundary s = None"
    using assms(2,3) by (simp_all add: parts_open_emitter)
  have open': "parts_open (Parser s2 sub') part st"
    using emit_data_state [OF assms(4)] assms(3,5,6) st by (simp add: parts_open_emitter)
  obtain d where "log2 = log \<or> log2 = log @ [PartData part d]"
    using emit_data_log [OF assms(1,4)] by blast
  then show ?thesis
    using open' st unfolding moves_def by (auto intro!: exI [of _ st])
qed

lemma header_phase_moves:
  assumes "plain_env env" and "parts_open p part st" and "may_start base part"
    and "header_phase env p part buffer log = Inr r"
  shows "case r of
      Inl p1 \<Rightarrow> moves part st base log (p1, log)
    | Inr (p1, buf, log1) \<Rightarrow> moves part st base log (p1, log1) \<and> p_state (pstate_of p1) \<noteq> ParsingHeaders"
proof -
  obtain s sub where p: "p = Parser s sub" by (cases p)
  show ?thesis
  proof (cases "p_state s = ParsingHeaders")
    case True
    then have st: "st = []" "unused s" using assms(2) by (simp_all add: p parts_open_headers)
    let ?h = "header_data s @ buffer"
    show ?thesis
    proof (cases "find_header_end ?h")
      case None
      then show ?thesis using assms(4) True st
        by (auto simp: header_phase_def p unused_def parts_open_headers intro!: moves_refl)
    next
      case (Some x)
      obtain i n where x: "x = (i, n)" by (cases x)
      obtain s1 p2 where s1: "parse_headers env (s\<lparr>header_data := take i ?h\<rparr>) = Inr s1"
        and p2: "start_body env (Parser s1 sub) part = Inr p2"
        and r: "r = Inr (p2, drop (i + n) ?h, log @ [StartPart part (the (p_headers s1))])"
        using assms(4) True Some x call_emitter_plain [OF assms(1)]
        by (auto simp: header_phase_def p bindE_Inr_iff)
      have s1': "split_boundary s1 = None" "sub_part_num s1 = None" "saved_buffer s1 = []"
        using parse_headers_state [OF s1] st(2) by (auto simp: unused_def)
      have new: "unused (pstate_of (new_parser d))" for d :: "jstr option"
        by (simp add: new_parser_def new_state_def unused_def)
      from p2 have "parts_open p2 part [(part, 0)] \<and> p_state (pstate_of p2) \<noteq> ParsingHeaders"
      proof (cases rule: start_body_cases)
        case (message s')
        have "[(part, 0)] = over [] [(part, 0::nat)]" by simp
        moreover have "child_number s' part (part @ [36]) 0"
          using message s1' by (simp add: child_number_def)
        ultimately show ?thesis using message parts_open_unused [OF new]
          by (auto simp: parts_open_subparser simp del: over_simps)
      qed (use s1' new in \<open>auto simp: parts_open_emitter parts_open_black_hole\<close>)
      then have "moves part st base log (p2, log @ [StartPart part (the (p_headers s1))])
          \<and> p_state (pstate_of p2) \<noteq> ParsingHeaders"
        using assms(3) unfolding moves_def by (auto simp: st(1) intro!: exI [of _ "[(part, 0)]"])
      then show ?thesis by (simp add: r)
    qed
  next
    case False
    then show ?thesis using assms(2,4) by (auto simp: header_phase_def p intro!: moves_refl)
  qed
qed

lemma sub_moves:
  assumes "parts_open (Parser s sub) part st" and "p_state s = ToSubparser"
  obtains q n k st' where "sub = Some q" "sub_part_num s = Some n" "child_number s part n k"
    "parts_open q n st'" "st = over st' [(part, k)]"
    "over st base = over st' ((part, k) # bump base)"
proof -
  obtain q n k st' where "sub = Some q" "sub_part_num s = Some n" "child_number s part n k"
    "parts_open q n st'" "st = over st' [(part, k)]"
    using assms by (auto simp: parts_open_subparser)
  then show thesis using over_over that by metis
qed

lemma moves_sub:
  assumes "moves n st' ((part, k) # bump base) log (q', log')"
    and "over st base = over st' ((part, k) # bump base)"
    and "child_number s part n k" "p_state s = ToSubparser" "sub_part_num s = Some n"
  shows "moves part st base log (Parser s (Some q'), log')"
proof -
  obtain es st'' where es: "log' = log @ es" "parts_open q' n st''"
    "follow_all (over st' ((part, k) # bump base)) es = Some (over st'' ((part, k) # bump base))"
    using assms(1) by (auto simp: moves_def)
  have "parts_open (Parser s (Some q')) part (over st'' [(part, k)])"
    using assms(3-5) es(2) by (auto simp: parts_open_subparser)
  then show ?thesis
    using es assms(2) over_over [of st'' part k base] unfolding moves_def
    by (auto intro!: exI [of _ "over st'' [(part, k)]"])
qed

locale nested_parser =
  fixes disp :: "'d parser \<Rightarrow> jstr \<Rightarrow> jstr \<Rightarrow> event list \<Rightarrow> 'd run"
    and eof :: "'d parser \<Rightarrow> jstr \<Rightarrow> event list \<Rightarrow> 'd run"
    and env :: "'d mime_env"
  assumes disp_moves: "parts_open q k st \<Longrightarrow> may_start base k \<Longrightarrow>
      holds (disp q k b l) (moves k st base l)"
    and eof_closes: "parts_open q k st \<Longrightarrow> may_start base k \<Longrightarrow>
      holds (eof q k l) (closes st base l)"
    and plain: "plain_env env"
begin

lemma route_moves:
  assumes "parts_open p part st" and "p_state (pstate_of p) \<noteq> ParsingHeaders"
  shows "holds (route disp env p part buffer log)
    (\<lambda>x. moves part st base log x \<and> split_boundary (pstate_of (fst x)) = split_boundary (pstate_of p)
       \<and> p_state (pstate_of (fst x)) = p_state (pstate_of p))"
proof -
  obtain s sub where p: "p = Parser s sub" by (cases p)
  show ?thesis
  proof (cases "p_state s")
    case ToEmitter
    have "holds (Some (bindE (convert_saved s buffer) (\<lambda>(buf, s1).
                 bindE (emit_data env s1 part buf log) (\<lambda>(s2, log2).
                   Inr (Parser s2 sub, log2)))))
      (\<lambda>x. moves part st base log x \<and> split_boundary (pstate_of (fst x)) = split_boundary s
         \<and> p_state (pstate_of (fst x)) = p_state s)"
    proof (rule holds_Some)
      fix x
      assume "bindE (convert_saved s buffer) (\<lambda>(buf, s1).
                 bindE (emit_data env s1 part buf log) (\<lambda>(s2, log2). Inr (Parser s2 sub, log2))) = Inr x"
      then obtain buf s1 s2 log2 where c: "convert_saved s buffer = Inr (buf, s1)"
        and e: "emit_data env s1 part buf log = Inr (s2, log2)" and x: "x = (Parser s2 sub, log2)"
        by (auto simp: bindE_Inr_iff)
      show "moves part st base log x \<and> split_boundary (pstate_of (fst x)) = split_boundary s
         \<and> p_state (pstate_of (fst x)) = p_state s"
        using emit_data_moves [OF plain assms(1) [unfolded p] ToEmitter e]
          convert_saved_length [OF c] emit_data_state [OF e] by (simp add: x)
    qed
    then show ?thesis using ToEmitter moves_refl [OF assms(1)]
      by (simp add: route_def p)
  next
    case ToSubparser
    from sub_moves [OF assms(1) [unfolded p] ToSubparser, of base]
    obtain q n k st' where sub: "sub = Some q" "sub_part_num s = Some n" "child_number s part n k"
      "parts_open q n st'" "st = over st' [(part, k)]"
      "over st base = over st' ((part, k) # bump base)" by blast
    note d = disp_moves [OF sub(4), where base = "(part, k) # bump base",
        OF may_start_child [OF sub(3)]]
    show ?thesis
      unfolding route_def p Let_def parser.sel ToSubparser parse_state.case
    proof (rule holds_bindR [where P = "\<lambda>(buf, s1). p_state s1 = ToSubparser
          \<and> sub_part_num s1 = Some n \<and> child_number s1 part n k \<and> split_boundary s1 = split_boundary s"],
        goal_cases)
      case 1
      have "p_state s1 = ToSubparser \<and> sub_part_num s1 = Some n \<and> child_number s1 part n k
          \<and> split_boundary s1 = split_boundary s" if "convert_saved s buffer = Inr (buf, s1)" for buf s1
        using convert_saved_length [OF that] ToSubparser sub(2,3) by (simp add: child_number_def)
      then show ?case by (intro holds_Some) auto
    next
      case (2 x)
      then obtain buf s1 where x: "x = (buf, s1)" and s1: "p_state s1 = ToSubparser"
        "sub_part_num s1 = Some n" "child_number s1 part n k" "split_boundary s1 = split_boundary s"
        by (cases x) auto
      have "parts_open (Parser s1 sub) part st" using s1 sub by (auto simp: parts_open_subparser)
      then show ?case
        using s1 moves_sub [OF _ sub(6) s1(3,1,2)] sub ToSubparser unfolding x prod.case
        by (auto intro!: moves_refl holds_bindR [OF d])
    qed
  qed (use assms in \<open>auto simp: route_def p intro!: moves_refl\<close>)
qed

lemma end_subpart_closes:
  assumes "parts_open q n st" and "may_start base n"
  shows "holds (end_subpart disp eof q n saved log) (closes st base log)"
  unfolding end_subpart_def
proof (rule holds_bindR [where P = "moves n st base log"], goal_cases)
  case 1
  then show ?case using disp_moves [OF assms] moves_refl [OF assms(1)] by simp
next
  case (2 x)
  then obtain q' es st' where x: "x = (q', log @ es)" "parts_open q' n st'"
    "follow_all (over st base) es = Some (over st' base)"
    by (cases x) (auto simp: moves_def)
  show ?case
    unfolding x(1) prod.case
  proof (rule holds_mono [OF eof_closes [OF x(2) assms(2)]], goal_cases)
    case (1 y)
    then obtain es' where "snd y = (log @ es) @ es'" "follow_all (over st' base) es' = Some (bump base)"
      by (cases y) (auto simp: closes_def)
    then show ?case
      using x(3) by (cases y) (auto simp: closes_def follow_all_append intro!: exI [of _ "es @ es'"])
  qed
qed

lemma when_multipart_moves:
  assumes "parts_open p part st" and "p_state (pstate_of p) \<noteq> ParsingHeaders"
    and "split_boundary (pstate_of p) \<noteq> None"
  shows "holds (when_multipart disp eof p part m log) (moves part st base log)"
proof -
  obtain s sub where p: "p = Parser s sub" by (cases p)
  have b: "split_boundary s \<noteq> None" using assms(3) by (simp add: p)
  have prefix: "(if part \<noteq> [] then part @ [46] else part) = part_prefix part"
    by (simp add: part_prefix_def)
  consider "p_state s = BlackHole" | "p_state s = ToSubparser"
    using assms b by (cases "p_state s") (simp_all add: p parts_open_emitter)
  then show ?thesis
  proof cases
    case 1
    then obtain q where st: "st = [(part, 0)]" "sub_part_num s = None" "sub = Some q"
      using assms(1) b by (auto simp: p parts_open_black_hole)
    have "unused (pstate_of (reset_parser q))"
      by (simp add: reset_parser_def reset_state_def unused_def)
    note sub = parts_open_unused [OF this]
    have "[(part, 0)] = over [] [(part, 0::nat)]" by simp
    then show ?thesis
      using st sub unfolding when_multipart_def p prefix
      by (auto simp: Let_def moves_def parts_open_subparser parts_open_black_hole child_number_def
          simp del: over_simps)
  next
    case 2
    from sub_moves [OF assms(1) [unfolded p] 2, of base]
    obtain q n k st' where sub: "sub = Some q" "sub_part_num s = Some n" "child_number s part n k"
      "parts_open q n st'" "st = over st' [(part, k)]"
      "over st base = over st' ((part, k) # bump base)" by blast
    have count: "p_count s = k + 2" using sub(3) b by (auto simp: child_number_def)
    let ?saved = "if m_eol m = 0 then chop_eol (saved_buffer s) else saved_buffer s"
    note e = end_subpart_closes [OF sub(4), where base = "(part, k) # bump base",
        OF may_start_child [OF sub(3)], of ?saved log]
    have again: "parts_open (Parser s' (Some (reset_parser q'))) part [(part, k + 1)]"
      if "s' = s\<lparr>saved_buffer := [], p_state := ToSubparser,
            sub_part_num := Some (part_prefix part @ nat_str (p_count s)), p_count := p_count s + 1\<rparr>"
      for s' q'
    proof -
      have "unused (pstate_of (reset_parser q'))"
        by (simp add: reset_parser_def reset_state_def unused_def)
      note sub' = parts_open_unused [OF this]
      have "[(part, k + 1)] = over [] [(part, k + 1)]" by simp
      moreover have "child_number s' part (part_prefix part @ nat_str (p_count s)) (k + 1)"
        using count by (simp add: that child_number_def)
      ultimately show ?thesis using sub' that by (auto simp: parts_open_subparser simp del: over_simps)
    qed
    have over': "over [(part, k + 1)] base = bump ((part, k) # bump base)" by simp
    have move: "moves part st base log (p', log')"
      if "closes st' ((part, k) # bump base) log (q', log')" "parts_open p' part [(part, k + 1)]"
      for p' q' :: "'d parser" and log'
      using that sub(6) over' unfolding moves_def closes_def
      by (auto intro!: exI [of _ "[(part, k + 1)]"] simp del: over_simps)
    show ?thesis
      unfolding when_multipart_def p prefix Let_def parser.sel sub(1,2) option.case prod.case
    proof (rule holds_bindR [where P = "\<lambda>((sub', s'), log'). s' = s
        \<and> (\<exists>q'. sub' = Some q' \<and> closes st' ((part, k) # bump base) log (q', log'))"], goal_cases)
      case 1
      then show ?case by (rule holds_bindR [OF e]) auto
    next
      case (2 x)
      then obtain q' log' where x: "x = ((Some q', s), log')"
        and c: "closes st' ((part, k) # bump base) log (q', log')" by (cases x) auto
      show ?case
        using move [OF c again [OF refl]] move [OF c] by (simp add: x parts_open_black_hole)
    qed
  qed
qed

lemma finish_subparser_closes:
  assumes "parts_open p part st" and "p_state (pstate_of p) = ToSubparser"
  shows "holds (finish_subparser disp eof p log) (\<lambda>(p', log').
     \<exists>es k. log' = log @ es \<and> follow_all (over st base) es = Some ((part, k) # bump base))"
proof -
  obtain s sub where p: "p = Parser s sub" by (cases p)
  have st: "p_state s = ToSubparser" using assms(2) by (simp add: p)
  from sub_moves [OF assms(1) [unfolded p] st, of base]
  obtain q n k st' where sub: "sub = Some q" "sub_part_num s = Some n" "child_number s part n k"
      "parts_open q n st'" "st = over st' [(part, k)]"
      "over st base = over st' ((part, k) # bump base)" by blast
  note may = may_start_child [OF sub(3), of "bump base"]
  show ?thesis
    unfolding finish_subparser_def p Let_def parser.sel sub(1,2) option.case prod.case
  proof (rule holds_bindR [where P = "moves n st' ((part, k) # bump base) log"], goal_cases)
    case 1
    show ?case
      using disp_moves [OF sub(4) may] moves_refl [OF sub(4)]
      by (auto split: option.split intro!: holds_bindR [OF holds_Some, where P = "\<lambda>_. True"])
  next
    case (2 x)
    then obtain q1 es st1 where x: "x = (q1, log @ es)" "parts_open q1 n st1"
      "follow_all (over st' ((part, k) # bump base)) es = Some (over st1 ((part, k) # bump base))"
      by (cases x) (auto simp: moves_def)
    show ?case
      unfolding x(1) prod.case
    proof (rule holds_bindR [OF eof_closes [OF x(2) may]], goal_cases)
      case (1 y)
      then obtain es' where "snd y = (log @ es) @ es'"
        "follow_all (over st1 ((part, k) # bump base)) es' = Some ((part, k + 1) # bump base)"
        by (cases y) (auto simp: closes_def)
      then show ?case
        using x(3) sub(6)
        by (cases y) (auto simp: follow_all_append intro!: exI [of _ "es @ es'"])
    qed
  qed
qed

end

text \<open>A call that does not look for splits leaves the split expression and the state alone.\<close>

definition keeps :: "'d parser \<Rightarrow> bool \<Rightarrow> 'd parser \<times> event list \<Rightarrow> bool" where
  "keeps p check_split x \<longleftrightarrow>
     (p_state (pstate_of p) \<noteq> ParsingHeaders \<and> \<not> check_split \<longrightarrow>
        split_boundary (pstate_of (fst x)) = split_boundary (pstate_of p)
        \<and> p_state (pstate_of (fst x)) = p_state (pstate_of p))"

lemma keeps_refl: "keeps p check_split (p, log)"
  by (simp add: keeps_def)

lemma dispatch_split_moves:
  assumes np: "nested_parser (\<lambda>q k b l. dispatch_data n env q k b True l) (dispatch_eof n env) env"
    and self: "\<And>p part st base buffer check_split log. parts_open p part st \<Longrightarrow> may_start base part \<Longrightarrow>
      holds (dispatch_data n env p part buffer check_split log)
        (\<lambda>x. moves part st base log x \<and> keeps p check_split x)"
    and open': "parts_open p part st" and may: "may_start base part"
    and st: "p_state (pstate_of p) \<noteq> ParsingHeaders" "split_boundary (pstate_of p) \<noteq> None"
  shows "holds (bindR (if 0 < m_index m
                       then dispatch_data n env p part (take (m_index m) buf) False log
                       else Some (Inr (p, log))) (\<lambda>(p2, log2).
                bindR (when_multipart (\<lambda>q k b l. dispatch_data n env q k b True l)
                         (dispatch_eof n env) p2 part m log2) (\<lambda>(p3, log3).
                  let rest = drop (m_index m + m_length m) buf in
                  if rest \<noteq> [] then dispatch_data n env p3 part rest True log3
                  else Some (Inr (p3, log3)))))
    (moves part st base log)"
proof (rule holds_bindR [where P = "\<lambda>x. moves part st base log x \<and> keeps p False x"], goal_cases)
  case 1
  then show ?case
    using self [OF open' may] moves_refl [OF open'] by (simp add: keeps_refl)
next
  case (2 x)
  obtain p2 log2 where x: "x = (p2, log2)" by (cases x)
  have k: "p_state (pstate_of p2) \<noteq> ParsingHeaders" "split_boundary (pstate_of p2) \<noteq> None"
    using 2 st by (auto simp: x keeps_def)
  from 2 obtain st2 where "parts_open p2 part st2" by (auto simp: x moves_def)
  show ?case
    unfolding x prod.case
  proof (rule holds_bindR [where P = "moves part st base log"], goal_cases)
    case 1
    show ?case
      unfolding holds_def
    proof (intro allI impI)
      fix y
      assume w: "when_multipart (\<lambda>q k b l. dispatch_data n env q k b True l)
                         (dispatch_eof n env) p2 part m log2 = Some (Inr y)"
      show "moves part st base log y"
        using 2 holdsD [OF nested_parser.when_multipart_moves [OF np _ k] w]
        by (auto simp: x intro: moves_trans)
    qed
  next
    case (2 y)
    obtain p3 log3 where y: "y = (p3, log3)" by (cases y)
    have "moves part st base log z"
      if "dispatch_data n env p3 part (drop (m_index m + m_length m) buf) True log3 = Some (Inr z)" for z
      using 2 holdsD [OF self [OF _ may] that] by (auto simp: y intro: moves_trans)
    then show ?case using 2 by (auto simp: y Let_def holds_def)
  qed
qed

lemma dispatch_data_moves_step:
  assumes np: "nested_parser (\<lambda>q k b l. dispatch_data n env q k b True l) (dispatch_eof n env) env"
    and self: "\<And>p part st base buffer check_split log. parts_open p part st \<Longrightarrow> may_start base part \<Longrightarrow>
      holds (dispatch_data n env p part buffer check_split log)
        (\<lambda>x. moves part st base log x \<and> keeps p check_split x)"
    and open': "parts_open p part st" and may: "may_start base part" and plain: "plain_env env"
  shows "holds (dispatch_data (Suc n) env p part buffer check_split log)
    (\<lambda>x. moves part st base log x \<and> keeps p check_split x)"
  unfolding dispatch_data.simps
proof (rule holds_bindR [where P = "\<lambda>r. (case r of
      Inl p1 \<Rightarrow> moves part st base log (p1, log)
    | Inr (p1, buf, log1) \<Rightarrow> moves part st base log (p1, log1) \<and> p_state (pstate_of p1) \<noteq> ParsingHeaders)
    \<and> (p_state (pstate_of p) \<noteq> ParsingHeaders \<longrightarrow> r = Inr (p, buffer, log))"], goal_cases)
  case 1
  show ?case
    by (rule holds_Some, rule conjI, rule header_phase_moves [OF plain open' may])
      (auto simp: header_phase_def Let_def)
next
  case (2 r)
  show ?case
  proof (cases r)
    case (Inl p1)
    then show ?thesis using 2 by (auto simp: keeps_def)
  next
    case (Inr y)
    obtain p1 buf log1 where y: "y = (p1, buf, log1)" by (cases y)
    have m1: "moves part st base log (p1, log1)" and st1: "p_state (pstate_of p1) \<noteq> ParsingHeaders"
      and same: "p_state (pstate_of p) \<noteq> ParsingHeaders \<longrightarrow> p1 = p"
      using 2 by (auto simp: Inr y)
    have "moves part st base log x \<and> keeps p check_split x"
      if "route (\<lambda>q k b l. dispatch_data n env q k b True l) env p1 part buf log1 = Some (Inr x)" for x
    proof -
      have r: "moves part st1' base log1 x"
          "split_boundary (pstate_of (fst x)) = split_boundary (pstate_of p1)"
          "p_state (pstate_of (fst x)) = p_state (pstate_of p1)" if "parts_open p1 part st1'" for st1'
        using holdsD [OF nested_parser.route_moves [OF np that st1] \<open>route _ env p1 part buf log1 = _\<close>]
        by auto
      obtain st1' where "parts_open p1 part st1'" using m1 by (auto simp: moves_def)
      from r(2,3) [OF this] same have "keeps p check_split x" by (auto simp: keeps_def)
      then show ?thesis using r(1) by (auto intro: moves_trans [OF m1])
    qed
    then have route: "holds (route (\<lambda>q k b l. dispatch_data n env q k b True l) env p1 part buf log1)
        (\<lambda>x. moves part st base log x \<and> keeps p check_split x)"
      by (simp add: holds_def)
    show ?thesis
    proof (cases "if check_split then split_boundary (pstate_of p1) else None")
      case None
      then show ?thesis using route by (simp add: Inr y del: if_split_asm)
    next
      case (Some b)
      then have c: "check_split" "split_boundary (pstate_of p1) \<noteq> None" by (auto split: if_splits)
      have "moves part st base log x \<and> keeps p check_split x"
        if "bindR (if 0 < m_index m
                       then dispatch_data n env p1 part (take (m_index m) buf) False log1
                       else Some (Inr (p1, log1))) (\<lambda>(p2, log2).
                bindR (when_multipart (\<lambda>q k b l. dispatch_data n env q k b True l)
                         (dispatch_eof n env) p2 part m log2) (\<lambda>(p3, log3).
                  let rest = drop (m_index m + m_length m) buf in
                  if rest \<noteq> [] then dispatch_data n env p3 part rest True log3
                  else Some (Inr (p3, log3)))) = Some (Inr x)" for m x
        using c(1) holdsD [OF dispatch_split_moves [OF np self _ may st1 c(2)] that]
        by (auto simp: keeps_def intro: moves_trans [OF m1])
      then show ?thesis
        using route Some by (auto simp: Inr y holds_def split: option.split)
    qed
  qed
qed

lemma dispatch_eof_closes_step:
  assumes np: "nested_parser (\<lambda>q k b l. dispatch_data n env q k b True l) (dispatch_eof n env) env"
    and open': "parts_open p part st" and may: "may_start base part" and plain: "plain_env env"
  shows "holds (dispatch_eof (Suc n) env p part log) (closes st base log)"
  unfolding dispatch_eof.simps
proof (rule holds_bindR [where P = "\<lambda>(p', log').
     \<exists>es k. log' = log @ es \<and> follow_all (over st base) es = Some ((part, k) # bump base)"], goal_cases)
  case 1
  obtain s sub where p: "p = Parser s sub" by (cases p)
  show ?case
  proof (cases "p_state s")
    case ParsingHeaders
    then show ?thesis
      using open' may call_emitter_plain [OF plain]
      by (auto simp: p parts_open_headers bindE_Inr_iff intro!: holds_Some)
  next
    case BlackHole
    then show ?thesis
      using open' by (auto simp: p parts_open_black_hole finish_body_def split: if_splits option.split)
  next
    case ToEmitter
    have st: "st = [(part, 0)]" using open' ToEmitter by (simp add: p parts_open_emitter)
    have "\<exists>d. log' = log \<or> log' = log @ [PartData part d]"
      if "finish_body env p part log = Inr (p', log')" for p' log'
      using that emit_data_log [OF plain]
      by (fastforce simp: p finish_body_def bindE_Inr_iff split: option.splits if_splits)
    then show ?thesis
      using ToEmitter by (fastforce simp: p st intro!: holds_Some)
  next
    case ToSubparser
    then show ?thesis
      using nested_parser.finish_subparser_closes [OF np open'] by (simp add: p)
  qed
next
  case (2 x)
  then show ?case
    using call_emitter_plain [OF plain]
    by (cases x) (auto simp: closes_def follow_all_append bindE_Inr_iff intro!: holds_Some)
qed

lemma dispatch_moves_keeps:
  assumes "plain_env env"
  shows "parts_open p part st \<Longrightarrow> may_start base part \<Longrightarrow>
      holds (dispatch_data n env p part buffer check_split log)
        (\<lambda>x. moves part st base log x \<and> keeps p check_split x)"
    and "parts_open p part st \<Longrightarrow> may_start base part \<Longrightarrow>
      holds (dispatch_eof n env p part log) (closes st base log)"
proof (induction n arbitrary: p part st base buffer check_split log)
  case (Suc n)
  case 1
  have "nested_parser (\<lambda>q k b l. dispatch_data n env q k b True l) (dispatch_eof n env) env"
    using Suc.IH assms by unfold_locales (blast intro: holds_mono)+
  from this Suc.IH(1) 1 assms show ?case by (rule dispatch_data_moves_step)
next
  case (Suc n)
  case 2
  have "nested_parser (\<lambda>q k b l. dispatch_data n env q k b True l) (dispatch_eof n env) env"
    using Suc.IH assms by unfold_locales (blast intro: holds_mono)+
  from this 2 assms show ?case by (rule dispatch_eof_closes_step)
qed simp_all

lemma dispatch_moves:
  assumes "plain_env env" and "parts_open p part st" and "may_start base part"
  shows "holds (dispatch_data n env p part buffer check_split log) (moves part st base log)"
    and "holds (dispatch_eof n env p part log) (closes st base log)"
  by (rule holds_mono [OF dispatch_moves_keeps(1) [OF assms]], simp)
    (rule dispatch_moves_keeps(2) [OF assms])

text \<open>
  The events of a whole message: it starts, its parts open and close as \<open>follow\<close> allows, all
  of them are closed, and it ends.
\<close>

definition core_log :: "bool \<Rightarrow> open_parts \<Rightarrow> event list \<Rightarrow> bool" where
  "core_log trig st log \<longleftrightarrow>
     (\<exists>es. log = (if trig then StartMessage # es else es) \<and> follow_all [] es = Some st
         \<and> (\<not> trig \<longrightarrow> es = []))"

definition mp_ok :: "'d mime_parser \<Rightarrow> event list \<Rightarrow> bool" where
  "mp_ok mp log \<longleftrightarrow> (\<exists>st. parts_open (core mp) [] st \<and> core_log (triggered mp) st log)"

lemma start_message_ok:
  assumes "plain_env env" and "mp_ok mp log" and "start_message env mp log = Inr log1"
  obtains st where "parts_open (core mp) [] st" "core_log True st log1"
  using assms call_emitter_plain [OF assms(1)]
  by (cases "triggered mp") (auto simp: mp_ok_def start_message_def core_log_def)

lemma core_log_append:
  assumes "core_log True st log" and "follow_all st es = Some st'"
  shows "core_log True st' (log @ es)"
  using assms by (auto simp: core_log_def follow_all_append)

lemma moves_core:
  assumes "core_log True st log" and "moves [] st [] log (p', log')"
  shows "\<exists>st'. parts_open p' [] st' \<and> core_log True st' log'"
proof -
  have o: "over st [] = st" for st by (cases "st = []") simp_all
  show ?thesis using assms core_log_append by (fastforce simp: moves_def o)
qed

lemma deliver_data_ok:
  assumes "plain_env env" and "mp_ok mp log"
  shows "holds (deliver_data env mp buffer log) (\<lambda>(mp', log'). mp_ok mp' log')"
proof -
  obtain buf hold where c: "condition_to_end (hold_data mp @ buffer) = (buf, hold)"
    by (cases "condition_to_end (hold_data mp @ buffer)")
  show ?thesis
  proof (cases "buf = []")
    case True
    then show ?thesis using assms(2) by (simp add: deliver_data_def c mp_ok_def)
  next
    case False
    show ?thesis
      unfolding deliver_data_def c Let_def prod.case if_not_P [OF False]
    proof (rule holds_bindR [where P = "\<lambda>log1. \<exists>st. parts_open (core mp) [] st \<and> core_log True st log1"],
        goal_cases)
      case 1
      then show ?case using start_message_ok [OF assms] by (intro holds_Some) metis
    next
      case (2 log1)
      then obtain st where st: "parts_open (core mp) [] st" "core_log True st log1" by blast
      have "may_start [] []" by simp
      from dispatch_moves(1) [OF assms(1) st(1) this] show ?case
        by (rule holds_bindR) (auto simp: mp_ok_def dest!: moves_core [OF st(2)])
    qed
  qed
qed

lemma deliver_eof_ok:
  assumes "plain_env env" and "mp_ok mp log"
  shows "holds (deliver_eof env mp log)
    (\<lambda>(_, log'). \<exists>es. log' = StartMessage # es @ [EndMessage] \<and> follow_all [] es = Some [])"
  unfolding deliver_eof_def
proof (rule holds_bindR [where P = "\<lambda>log1. \<exists>st. parts_open (core mp) [] st \<and> core_log True st log1"],
    goal_cases)
  case 1
  then show ?case using start_message_ok [OF assms] by (intro holds_Some) metis
next
  case (2 log1)
  then obtain st where st: "parts_open (core mp) [] st" "core_log True st log1" by blast
  have may: "may_start [] []" by simp
  show ?case
  proof (rule holds_bindR [where P = "\<lambda>(p, log2). \<exists>st. parts_open p [] st \<and> core_log True st log2"],
      goal_cases)
    case 1
    show ?case
      using st moves_core [OF st(2)] by (auto intro!: holds_mono [OF dispatch_moves(1) [OF assms(1) st(1) may]])
  next
    case (2 x)
    then obtain p log2 st2 where x: "x = (p, log2)" "parts_open p [] st2" "core_log True st2 log2"
      by (cases x) auto
    have o: "over st2 [] = st2" by (cases "st2 = []") simp_all
    show ?case
      unfolding x(1) prod.case
    proof (rule holds_bindR [OF dispatch_moves(2) [OF assms(1) x(2) may]], goal_cases)
      case (1 y)
      then obtain es where "snd y = log2 @ es" "follow_all st2 es = Some []"
        by (cases y) (auto simp: closes_def o)
      from core_log_append [OF x(3) this(2)] this(1) show ?case
        using call_emitter_plain [OF assms(1)]
        by (cases y) (auto simp: core_log_def intro!: holds_Some)
    qed
  qed
qed

lemma parse_packets_ok:
  assumes "plain_env env" and "mp_ok mp log"
  shows "holds (parse_packets env packets mp log)
    (\<lambda>(_, log'). \<exists>es. log' = StartMessage # es @ [EndMessage] \<and> follow_all [] es = Some [])"
  using assms(2)
proof (induction packets arbitrary: mp log)
  case Nil
  then show ?case using deliver_eof_ok [OF assms(1)] by simp
next
  case (Cons b bs)
  show ?case
    unfolding parse_packets.simps
    by (rule holds_bindR [OF deliver_data_ok [OF assms(1) Cons.prems]]) (auto intro: Cons.IH)
qed

lemma parse_message_events:
  assumes "plain_env env" and "parse_message env packets = Some (Inr log)"
  shows "\<exists>es. log = StartMessage # es @ [EndMessage] \<and> follow_all [] es = Some []"
proof -
  have "unused (pstate_of (core mime_parser))"
    by (simp add: mime_parser_def new_parser_def new_state_def unused_def)
  then have "mp_ok mime_parser []"
    using parts_open_unused by (auto simp: mp_ok_def core_log_def mime_parser_def)
  from parse_packets_ok [OF assms(1) this, of packets] show ?thesis
    using assms(2) by (auto simp: parse_message_def holds_def bindR_def
        split: option.splits sum.splits prod.splits)
qed

text \<open>Any environment, with an emitter that has every method, never throws and prunes nothing.\<close>

definition plain_of :: "'d mime_env \<Rightarrow> 'd mime_env" where
  "plain_of env = env\<lparr>env_has := \<lambda>_. True, env_callback := \<lambda>_ _. None,
     env_options := (env_options env)\<lparr>pruneat := []\<rparr>\<rparr>"

lemma plain_of: "plain_env (plain_of env)"
  by (simp add: plain_of_def plain_env_def)

interpretation plain: nested_parser
  "\<lambda>q k b l. dispatch_data n (plain_of env) q k b True l" "dispatch_eof n (plain_of env)" "plain_of env"
  for n env
  by unfold_locales
    (erule (1) dispatch_moves(1) [OF plain_of], erule (1) dispatch_moves(2) [OF plain_of], rule plain_of)

section \<open>Properties\<close>

definition example_options :: options where
  "example_options = \<lparr>pruneat = [], bodyformat = BodyDecode, strformat = BinaryString,
     opt_charset = js ''iso-8859-1'', force_charset = False, stripcontinuations = True,
     onerror = Some\<rparr>"

definition example_env :: "unit mime_env" where
  "example_env = \<lparr>env_api = latin1_api, env_registry = default_registry, env_options = example_options,
     env_has = (\<lambda>_. True), env_callback = (\<lambda>_ _. None)\<rparr>"

lemma example_plain: "plain_env example_env"
  by (simp add: example_env_def example_options_def plain_env_def)

text \<open>The text of the data events of one part.\<close>

fun data_of :: "jstr \<Rightarrow> event list \<Rightarrow> jstr" where
  "data_of n [] = []"
| "data_of n (PartData m (DString t) # es) = (if m = n then t else []) @ data_of n es"
| "data_of n (e # es) = data_of n es"

definition message_data :: "'d mime_env \<Rightarrow> jstr \<Rightarrow> jstr list \<Rightarrow> jstr option" where
  "message_data env n packets =
     (case parse_message env packets of Some (Inr log) \<Rightarrow> Some (data_of n log) | _ \<Rightarrow> None)"

definition crlf :: jstr where
  "crlf = [13, 10]"

definition two_parts :: jstr where
  "two_parts = js ''Content-Type: multipart/mixed; boundary=b'' @ crlf @ crlf
     @ js ''--b'' @ crlf @ crlf @ js ''one'' @ crlf
     @ js ''--b'' @ crlf @ crlf @ js ''two'' @ crlf @ js ''--b--'' @ crlf"

text \<open>C1: the events of a message are well nested: the message starts first and ends last; parts are
  numbered in order or named \<open>$\<close> below a message; data comes only for the innermost open part
  and only if it has no subparts; every part that starts is ended, innermost first.\<close>

theorem events_nested:
  assumes "plain_env env" and "parse_message env packets = Some (Inr log)"
  shows "\<exists>es. log = StartMessage # es @ [EndMessage] \<and> follow_all [] es = Some []"
  using assms by (rule parse_message_events)

theorem events_nested_witness:
  "\<exists>log es. parse_message example_env [two_parts] = Some (Inr log) \<and> length log = 10
     \<and> log = StartMessage # es @ [EndMessage] \<and> follow_all [] es = Some []"
proof -
  have "(case parse_message example_env [two_parts] of Some (Inr log) \<Rightarrow> length log = 10 | _ \<Rightarrow> False)"
    by code_simp
  then obtain log where log: "parse_message example_env [two_parts] = Some (Inr log)" "length log = 10"
    by (auto split: option.splits sum.splits)
  from events_nested [OF example_plain log(1)] log show ?thesis by blast
qed

text \<open>a carriage return that comes in a packet of its own is taken into the body of the part in
  front of a boundary, although the same message in one packet gives the body without it.\<close>

theorem lone_cr_corrupts_body:
  "message_data example_env (js ''1'') [js ''Content-Type: multipart/mixed; boundary=b'' @ crlf @ crlf
       @ js ''--b'' @ crlf @ crlf @ js ''x'' @ crlf, [13], [10] @ js ''--b--'' @ crlf] = Some (js ''x'' @ [13, 10, 13])
   \<and> message_data example_env (js ''1'') [js ''Content-Type: multipart/mixed; boundary=b'' @ crlf @ crlf
       @ js ''--b'' @ crlf @ crlf @ js ''x'' @ crlf @ [13] @ [10] @ js ''--b--'' @ crlf] = Some (js ''x'' @ crlf)"
proof
  show "message_data example_env (js ''1'') [js ''Content-Type: multipart/mixed; boundary=b'' @ crlf @ crlf
       @ js ''--b'' @ crlf @ crlf @ js ''x'' @ crlf, [13], [10] @ js ''--b--'' @ crlf] = Some (js ''x'' @ [13, 10, 13])"
    by code_simp
  show "message_data example_env (js ''1'') [js ''Content-Type: multipart/mixed; boundary=b'' @ crlf @ crlf
       @ js ''--b'' @ crlf @ crlf @ js ''x'' @ crlf @ [13] @ [10] @ js ''--b--'' @ crlf] = Some (js ''x'' @ crlf)"
    by code_simp
qed

text \<open>the last line of a message that ends inside a multipart is lost when it has no line end:
  the data that was kept back for it is converted as if it could still be cut at a line end.\<close>

theorem truncated_line_lost:
  "message_data example_env (js ''1'') [js ''Content-Type: multipart/mixed; boundary=b'' @ crlf @ crlf
       @ js ''--b'' @ crlf @ crlf @ js ''one'' @ crlf @ js ''two''] = Some (js ''one'' @ crlf)"
  by code_simp

end
