(* ===== verification/HeaderEmitter.thy ===== *)
theory HeaderEmitter
  imports StructuredHeaders Utf8
begin

text \<open>
  The header emitter: \<open>HeaderEmitter\<close> and the functions of \<open>headeremitter\<close> that make the text of
  structured headers.  An operation is a function of the emitter that may throw; the changes it
  made before that stay.  \<open>None\<close> is a run that does not end, which only the loop of
  \<open>encodeRFC2047Phrase\<close> could do.  The handler is the list of what it was given.
\<close>

section \<open>Operations that may throw\<close>

record emitter =
  use_ascii :: bool
  sanitize_date :: bool
  delivered :: "jstr list"             \<comment> \<open>the calls of \<open>deliverData\<close>\<close>
  eof_delivered :: bool
  current_line :: jstr
  soft_margin :: nat
  hard_margin :: nat
  preferred_breakpoint :: nat

type_synonym emit = "emitter \<Rightarrow> (emitter \<times> js_error option) option"

definition skip :: emit where
  "skip = (\<lambda>e. Some (e, None))"

definition throw :: "js_error \<Rightarrow> emit" where
  "throw err = (\<lambda>e. Some (e, Some err))"

definition and_then :: "emit \<Rightarrow> emit \<Rightarrow> emit" where
  "and_then f g = (\<lambda>e.
     case f e of
       None \<Rightarrow> None
     | Some (e', Some err) \<Rightarrow> Some (e', Some err)
     | Some (e', None) \<Rightarrow> g e')"

text \<open>\<open>try { f; g; return } catch { }\<close> followed by \<open>h\<close>; \<open>g\<close> does not throw.\<close>

definition try_return :: "emit \<Rightarrow> (emitter \<Rightarrow> emitter) \<Rightarrow> emit \<Rightarrow> emit" where
  "try_return f g h = (\<lambda>e.
     case f e of
       None \<Rightarrow> None
     | Some (e', None) \<Rightarrow> Some (g e', None)
     | Some (e', Some _) \<Rightarrow> h e')"

fun each :: "('a \<Rightarrow> emit) \<Rightarrow> 'a list \<Rightarrow> emit" where
  "each f [] = skip"
| "each f (x # xs) = and_then (f x) (each f xs)"

section \<open>Options\<close>

record emitter_options =
  eo_use_ascii :: "bool option"
  eo_sanitize :: "bool option"
  eo_soft :: "int option"
  eo_hard :: "int option"

definition clamp :: "int option \<Rightarrow> int \<Rightarrow> int \<Rightarrow> int \<Rightarrow> int" where
  "clamp prop lo hi dflt =
     (case prop of
        None \<Rightarrow> dflt
      | Some v \<Rightarrow> if v < lo then lo else if hi < v then hi else v)"

definition header_emitter :: "emitter_options \<Rightarrow> emitter" where
  "header_emitter opts =
     (let soft = clamp (eo_soft opts) 30 900 78
      in \<lparr>use_ascii = (case eo_use_ascii opts of None \<Rightarrow> True | Some b \<Rightarrow> b),
          sanitize_date = (case eo_sanitize opts of None \<Rightarrow> False | Some b \<Rightarrow> b),
          delivered = [], eof_delivered = False, current_line = [],
          soft_margin = nat soft, hard_margin = nat (clamp (eo_hard opts) soft 998 332),
          preferred_breakpoint = 0\<rparr>)"

section \<open>Lines\<close>

definition commit_line :: "nat option \<Rightarrow> emitter \<Rightarrow> emitter" where
  "commit_line at_pos e =
     (let (first, rest) =
        (case at_pos of
           Some n \<Rightarrow> (trim_right (take n (current_line e)), 32 # trim_left (drop n (current_line e)))
         | None \<Rightarrow> (trim_right (current_line e), []))
      in e\<lparr>delivered := delivered e @ [first @ [13, 10]], current_line := rest,
           preferred_breakpoint := 0\<rparr>)"

definition reserve_token_space :: "nat \<Rightarrow> emitter \<Rightarrow> bool \<times> emitter" where
  "reserve_token_space n e =
     (if length (current_line e) + n \<le> soft_margin e then (True, e)
      else
        let e1 = (if 0 < preferred_breakpoint e then commit_line (Some (preferred_breakpoint e)) e else e)
        in if 0 < preferred_breakpoint e \<and> length (current_line e1) + n \<le> soft_margin e1 then (True, e1)
           else if length (current_line e1) + n \<le> hard_margin e1 then (True, e1)
           else
             let e2 = (if 0 < length (current_line e1)
                       then commit_line (Some (length (current_line e1))) e1 else e1)
             in (length (current_line e2) + n \<le> hard_margin e2, e2))"

definition add_text :: "jstr \<Rightarrow> bool \<Rightarrow> emit" where
  "add_text txt may_break = (\<lambda>e.
     let (ok, e1) = reserve_token_space (length txt) e in
     if \<not> ok then Some (e1, Some (CannotEncode txt))
     else
       let line = current_line e1 @ txt
       in Some (if may_break
                then e1\<lparr>current_line := (if txt \<noteq> [] \<and> last txt = 32 then line else line @ [32]),
                        preferred_breakpoint := length line\<rparr>
                else e1\<lparr>current_line := line\<rparr>, None))"

definition needs_quote :: "jstr \<Rightarrow> jstr \<Rightarrow> bool" where
  "needs_quote txt qchars \<longleftrightarrow>
     \<not> (hd txt = 34 \<and> last txt = 34) \<and> qchars \<noteq> [] \<and> (\<exists>c\<in>set txt. c \<in> set qchars)"

definition quoted :: "jstr \<Rightarrow> jstr" where
  "quoted txt = [34] @ escape (\<lambda>c. c = 34 \<or> c = 92) txt @ [34]"

definition add_quotable :: "jstr \<Rightarrow> jstr \<Rightarrow> bool \<Rightarrow> emit" where
  "add_quotable txt qchars may_break =
     (if txt = [] then skip
      else add_text (if needs_quote txt qchars then quoted txt else txt) may_break)"

section \<open>Encoded words\<close>

definition non_ascii :: "jstr \<Rightarrow> bool" where
  "non_ascii s \<longleftrightarrow> (\<exists>c\<in>set s. c < 32 \<or> 126 < c)"

definition b64_prelude :: jstr where
  "b64_prelude = js ''=?UTF-8?B?''"

definition qp_prelude :: jstr where
  "qp_prelude = js ''=?UTF-8?Q?''"

definition qp_forbidden :: jstr where
  "qp_forbidden = 34 # js ''#$%&'' @ 39 # js ''(),.:;<=>?@['' @ 92 # js '']^_`{|}~''"

definition hex_string :: jstr where
  "hex_string = js ''0123456789abcdef''"

definition qp_escaped :: "nat \<Rightarrow> bool" where
  "qp_escaped b \<longleftrightarrow> b < 32 \<or> 127 \<le> b \<or> b \<in> set qp_forbidden"

definition qp_char :: "nat \<Rightarrow> jstr" where
  "qp_char b =
     (if qp_escaped b then [61, hex_string ! (b div 16 mod 16), hex_string ! (b mod 16)]
      else if b = 32 then [95]
      else [b])"

definition rfc2047_word :: "nat list \<Rightarrow> bool \<Rightarrow> jstr" where
  "rfc2047_word bytes use_qp =
     (if use_qp then qp_prelude @ concat (map qp_char bytes) @ js ''?=''
      else b64_prelude @ btoa (typed_array_to_string bytes) @ js ''?='')"

definition add_rfc2047_word :: "nat list \<Rightarrow> bool \<Rightarrow> bool \<Rightarrow> emit" where
  "add_rfc2047_word bytes use_qp may_break = add_text (rfc2047_word bytes use_qp) may_break"

text \<open>
  The loop that goes back to the start of a character: \<open>while ((b[i] & 0xc0) == 0x80) --i\<close>.
  The text comes from the encoder, so its first byte does not continue a character.
\<close>

fun char_start :: "nat list \<Rightarrow> nat \<Rightarrow> nat" where
  "char_start bs 0 = 0"
| "char_start bs (Suc i) = (if bs ! Suc i div 64 = 2 then char_start bs i else Suc i)"

partial_function (option) encode_loop ::
  "nat list \<Rightarrow> bool \<Rightarrow> nat \<Rightarrow> nat \<Rightarrow> nat \<Rightarrow> nat \<Rightarrow> int \<Rightarrow> emitter \<Rightarrow> (emitter \<times> js_error option) option"
where
  "encode_loop bs may_break start i b64_len qp_len max_chars e =
     (if i < length bs then
        let b64_inc = (if (i - start) mod 3 = 0 then 4 else 0);
            qp_inc = (if qp_escaped (bs ! i) then 3 else 1)
        in if max_chars < int (b64_len + b64_inc) \<and> max_chars < int (qp_len + qp_inc) then
             let j = char_start bs i
             in (case add_rfc2047_word (slice start j bs) (qp_len \<le> b64_len) True e of
                   None \<Rightarrow> None
                 | Some r \<Rightarrow>
                     if snd r = None
                     then encode_loop bs may_break j j 0 0 (int (soft_margin (fst r)) - 13) (fst r)
                     else Some r)
           else encode_loop bs may_break start (Suc i) (b64_len + b64_inc) (qp_len + qp_inc) max_chars e
      else add_rfc2047_word (drop start bs) (qp_len \<le> b64_len) may_break e)"

declare encode_loop.simps [code]

definition encode_rfc2047_phrase :: "jstr \<Rightarrow> bool \<Rightarrow> emit" where
  "encode_rfc2047_phrase txt may_break = (\<lambda>e.
     let (ok, e1) = reserve_token_space (length b64_prelude + 10) e;
         e2 = (if \<not> ok then commit_line (Some (length (current_line e1))) e1 else e1)
     in encode_loop (utf8_encode txt) may_break 0 0 0 0
          (int (soft_margin e2) - int (length (current_line e2)) - int (length b64_prelude + 2)) e2)"

section \<open>Phrases\<close>

definition break_at_last_space :: "jstr \<Rightarrow> emitter \<Rightarrow> emitter" where
  "break_at_last_space txt e =
     (if preferred_breakpoint e = 0 \<and> 32 \<in> set txt \<and> last (current_line e) \<noteq> 34
      then e\<lparr>preferred_breakpoint :=
               (case last_index_of 32 (current_line e) of Some i \<Rightarrow> i | None \<Rightarrow> 0)\<rparr>
      else e)"

fun add_words :: "jstr \<Rightarrow> bool \<Rightarrow> jstr list \<Rightarrow> emit" where
  "add_words qchars may_break [] = skip"
| "add_words qchars may_break [w] = add_quotable w qchars may_break"
| "add_words qchars may_break (w # ws) = and_then (add_quotable w qchars True) (add_words qchars may_break ws)"

definition add_phrase :: "jstr \<Rightarrow> jstr \<Rightarrow> bool \<Rightarrow> emit" where
  "add_phrase txt0 qchars may_break = (\<lambda>e.
     let txt = collapse is_wsp [32] txt0 in
     if use_ascii e \<and> non_ascii txt then encode_rfc2047_phrase txt may_break e
     else if length (current_line e) + length txt < soft_margin e
     then try_return (add_quotable txt qchars may_break) (break_at_last_space txt)
            (add_words qchars may_break (split_on 32 txt)) e
     else add_words qchars may_break (split_on 32 txt) e)"

section \<open>Headers\<close>

definition add_header_name :: "jstr \<Rightarrow> emit" where
  "add_header_name name = (\<lambda>e.
     let e1 = e\<lparr>current_line := trim_right (current_line e)\<rparr>;
         e2 = (if 0 < length (current_line e1) then commit_line None e1 else e1)
     in add_text (name @ js '': '') False e2)"

definition phrase_qchars :: jstr where
  "phrase_qchars = js '',()<>[]:;@.'' @ [34]"

definition local_qchars :: jstr where
  "local_qchars = js ''()<>[]:;@'' @ [92] @ js '','' @ [34] @ js '' !''"

definition add_addr_spec :: "mailbox \<Rightarrow> emit" where
  "add_addr_spec m =
     (let (localpart, domain) =
        (case last_index_of 64 (mb_email m) of
           None \<Rightarrow> (mb_email m, [])
         | Some at \<Rightarrow> (take at (mb_email m), drop at (mb_email m)))
      in and_then (add_quotable localpart local_qchars False)
           (add_text (domain @ (if mb_name m \<noteq> [] then js ''>'' else [])) False))"

definition add_address :: "mailbox \<Rightarrow> emit" where
  "add_address m = (\<lambda>e.
     if mb_name m \<noteq> [] then
       and_then (add_phrase (mb_name m) phrase_qchars True)
         (if mb_email m = [] then skip
          else and_then (add_text (js ''<'') False) (add_addr_spec m))
         (snd (reserve_token_space (length (mb_name m) + length (mb_email m) + 3) e))
     else add_addr_spec m e)"

fun addr_size :: "addr \<Rightarrow> nat" where
  "addr_size (Address m) = 1"
| "addr_size (Group n ms) = 2 + length ms"

definition add_comma :: "bool \<Rightarrow> emit" where
  "add_comma needs_comma = (if needs_comma then add_text (js '', '') True else skip)"

function add_addresses_from :: "bool \<Rightarrow> addr list \<Rightarrow> emit" where
  "add_addresses_from needs_comma [] = skip"
| "add_addresses_from needs_comma (Address m # addrs) =
     and_then (add_comma needs_comma) (and_then (add_address m) (add_addresses_from True addrs))"
| "add_addresses_from needs_comma (Group name ms # addrs) =
     and_then (add_comma needs_comma)
       (and_then (add_phrase name phrase_qchars False)
         (and_then (add_text (js '':'') True)
           (and_then (add_addresses_from False (map Address ms))
             (and_then (add_text (js '';'') True) (add_addresses_from True addrs)))))"
  by pat_completeness auto
termination
  by (relation "measure (\<lambda>(_, addrs). sum_list (map addr_size addrs))")
    (auto simp: comp_def sum_list_triv)

definition add_addresses :: "addr list \<Rightarrow> emit" where
  "add_addresses addrs = add_addresses_from False addrs"

definition add_unstructured :: "jstr \<Rightarrow> emit" where
  "add_unstructured txt = (if txt = [] then skip else add_phrase txt [] False)"

definition add_date :: "(int \<Rightarrow> int) \<Rightarrow> int option \<Rightarrow> emit" where
  "add_date tz date = (\<lambda>e.
     case format_date (sanitize_date e) tz date of
       Inl err \<Rightarrow> throw err e
     | Inr s \<Rightarrow> add_text s False e)"

text \<open>The encoders of the structured headers; one of the client is any operation.\<close>

datatype structured_encoder = Builtin encoder | CustomEncoder "hvalue \<Rightarrow> emit"

definition run_encoder :: "(int \<Rightarrow> int) \<Rightarrow> structured_encoder \<Rightarrow> hvalue \<Rightarrow> emit" where
  "run_encoder tz enc v =
     (case enc of
        CustomEncoder f \<Rightarrow> f v
      | Builtin WriteAddress \<Rightarrow> (case v of VAddrs addrs \<Rightarrow> add_addresses addrs | _ \<Rightarrow> throw BadType)
      | Builtin WriteDate \<Rightarrow> (case v of VDate d \<Rightarrow> add_date tz d | _ \<Rightarrow> throw BadType)
      | Builtin _ \<Rightarrow>
          (case v of VText t \<Rightarrow> add_unstructured t
           | VTexts [] \<Rightarrow> skip | VAddrs [] \<Rightarrow> skip | _ \<Rightarrow> throw BadType))"

record encoder_registry =
  encoders :: "structured_encoder jsmap"
  preferred_spellings :: "jstr jsmap"

definition add_structured_encoder ::
  "jstr \<Rightarrow> structured_encoder \<Rightarrow> encoder_registry \<Rightarrow> encoder_registry" where
  "add_structured_encoder header enc r =
     (let lower = to_lower header
      in r\<lparr>encoders := AList.update lower enc (encoders r),
           preferred_spellings := (if map_of (preferred_spellings r) lower = None
                                   then AList.update lower header (preferred_spellings r)
                                   else preferred_spellings r)\<rparr>)"

definition default_encoders :: encoder_registry where
  "default_encoders =
     foldl (\<lambda>r (header, enc). add_structured_encoder header (Builtin enc) r)
       \<lparr>encoders = [], preferred_spellings = t_spellings default_tables\<rparr> (t_encoders default_tables)"

text \<open>\<open>name.replace(/(^|-)[a-z]/g, \<dots>)\<close>\<close>

fun capitalize_words :: "bool \<Rightarrow> jstr \<Rightarrow> jstr" where
  "capitalize_words at_start [] = []"
| "capitalize_words at_start (c # s) =
     (if at_start \<and> is_lower c then upper_char c else c) # capitalize_words (c = 45) s"

definition add_structured_header ::
  "(int \<Rightarrow> int) \<Rightarrow> encoder_registry \<Rightarrow> jstr \<Rightarrow> hvalue \<Rightarrow> emit" where
  "add_structured_header tz r name v =
     (let lower = to_lower name in
      case map_of (encoders r) lower of
        Some enc \<Rightarrow>
          and_then (add_header_name (case map_of (preferred_spellings r) lower of
                                       Some sp \<Rightarrow> sp | None \<Rightarrow> js ''undefined''))
            (run_encoder tz enc v)
      | None \<Rightarrow>
          (case v of
             VText t \<Rightarrow> and_then (add_header_name (capitalize_words True name)) (add_unstructured t)
           | _ \<Rightarrow> throw (UnknownHeader name)))"

definition finish :: "bool \<Rightarrow> emit" where
  "finish deliver_eof = (\<lambda>e.
     let e1 = commit_line None e
     in Some (if deliver_eof then e1\<lparr>eof_delivered := True\<rparr> else e1, None))"

text \<open>The text that a \<open>StringHandler\<close> has collected at the end, or the exception.\<close>

definition string_of_run :: "emit \<Rightarrow> emitter_options \<Rightarrow> (js_error + jstr) option" where
  "string_of_run f opts =
     (case and_then f (finish True) (header_emitter opts) of
        None \<Rightarrow> None
      | Some (e, None) \<Rightarrow> Some (Inr (concat (delivered e)))
      | Some (e, Some err) \<Rightarrow> Some (Inl err))"

definition emit_structured_header ::
  "(int \<Rightarrow> int) \<Rightarrow> encoder_registry \<Rightarrow> jstr \<Rightarrow> hvalue \<Rightarrow> emitter_options \<Rightarrow> (js_error + jstr) option" where
  "emit_structured_header tz r name v opts = string_of_run (add_structured_header tz r name v) opts"

definition emit_structured_headers ::
  "(int \<Rightarrow> int) \<Rightarrow> encoder_registry \<Rightarrow> (jstr \<times> hvalue list) list \<Rightarrow> emitter_options \<Rightarrow>
   (js_error + jstr) option" where
  "emit_structured_headers tz r header_values opts =
     string_of_run (each (\<lambda>(name, vs). each (add_structured_header tz r name) vs) header_values) opts"

end
