(* ===== verification/EncodedWords.thy ===== *)
theory EncodedWords
  imports HeaderEmitter
begin

text \<open>
  How \<open>encodeRFC2047Phrase\<close> cuts a text into encoded words: it always comes to an end, the words
  carry the whole text, no character is cut, and every word fits a line.
\<close>

section \<open>Characters in UTF-8\<close>

text \<open>A byte that does not continue a character, and a text that has one among any four bytes.\<close>

definition lead :: "nat \<Rightarrow> bool" where
  "lead b \<longleftrightarrow> b div 64 \<noteq> 2"

definition utf8_like :: "nat list \<Rightarrow> bool" where
  "utf8_like bs \<longleftrightarrow> (\<forall>i<length bs. \<exists>j\<le>i. i \<le> j + 3 \<and> lead (bs ! j))"

lemma utf8_like_Nil: "utf8_like []"
  by (simp add: utf8_like_def)

lemma utf8_like_append:
  assumes "utf8_like bs" and "utf8_like cs"
  shows "utf8_like (bs @ cs)"
  unfolding utf8_like_def
proof (intro allI impI)
  fix i
  assume i: "i < length (bs @ cs)"
  show "\<exists>j\<le>i. i \<le> j + 3 \<and> lead ((bs @ cs) ! j)"
  proof (cases "i < length bs")
    case True
    then obtain j where "j \<le> i" "i \<le> j + 3" "lead (bs ! j)"
      using assms(1) by (auto simp: utf8_like_def)
    then show ?thesis using True by (intro exI [of _ j]) (simp add: nth_append)
  next
    case False
    then obtain k where k: "i = length bs + k" using le_Suc_ex by (metis not_less)
    then have "k < length cs" using i by simp
    then obtain j where "j \<le> k" "k \<le> j + 3" "lead (cs ! j)"
      using assms(2) by (auto simp: utf8_like_def)
    then show ?thesis using k by (intro exI [of _ "length bs + j"]) simp
  qed
qed

lemma lead_utf8_bytes: "utf8_bytes cp \<noteq> [] \<and> lead (hd (utf8_bytes cp)) \<and> length (utf8_bytes cp) \<le> 4"
proof -
  have "(192 + cp div 64) div 64 \<noteq> 2" "(224 + cp div 4096) div 64 \<noteq> 2"
    "(240 + cp div 262144) div 64 \<noteq> 2" "cp < 128 \<Longrightarrow> cp div 64 \<noteq> 2" by linarith+
  then show ?thesis by (auto simp: utf8_bytes_def lead_def)
qed

lemma utf8_like_char:
  assumes "bs \<noteq> []" and "lead (hd bs)" and "length bs \<le> 4"
  shows "utf8_like bs"
  using assms by (auto simp: utf8_like_def hd_conv_nth intro!: exI [of _ 0])

lemma utf8_like_encode: "utf8_like (utf8_encode s)"
proof -
  have "utf8_like (concat (map utf8_bytes cps))" for cps
    using utf8_like_char lead_utf8_bytes
    by (induction cps) (auto simp: utf8_like_Nil intro!: utf8_like_append)
  then show ?thesis by (simp add: utf8_encode_def)
qed

lemma lead_utf8_encode: "utf8_encode s \<noteq> [] \<Longrightarrow> lead (utf8_encode s ! 0)"
  using utf8_like_encode [of s] by (auto simp: utf8_like_def)

lemma char_start:
  assumes "utf8_like bs" and "i < length bs"
  shows "char_start bs i \<le> i" "i \<le> char_start bs i + 3" "lead (bs ! char_start bs i)"
proof -
  have le: "char_start bs i \<le> i" for i by (induction i) auto
  have greatest: "j \<le> char_start bs i" if "j \<le> i" "lead (bs ! j)" for i j
    using that by (induction i) (auto simp: lead_def le_Suc_eq)
  show "char_start bs i \<le> i" by (rule le)
  obtain j where j: "j \<le> i" "i \<le> j + 3" "lead (bs ! j)"
    using assms by (auto simp: utf8_like_def)
  then show "i \<le> char_start bs i + 3" using greatest [of j i] by linarith
  have "lead (bs ! char_start bs i)" if "\<exists>j\<le>i. lead (bs ! j)" for i
    using that
  proof (induction i)
    case (Suc i)
    show ?case
    proof (cases "bs ! Suc i div 64 = 2")
      case True
      then have "\<exists>j\<le>i. lead (bs ! j)" using Suc.prems by (auto simp: lead_def le_Suc_eq)
      then show ?thesis using Suc.IH True by simp
    qed (simp add: lead_def)
  qed simp
  then show "lead (bs ! char_start bs i)" using j by blast
qed

lemma char_start_ge: "lead (bs ! j) \<Longrightarrow> j \<le> i \<Longrightarrow> j \<le> char_start bs i"
  by (induction i) (auto simp: lead_def le_Suc_eq)

section \<open>The length of a word\<close>

definition b64_size :: "nat \<Rightarrow> nat" where
  "b64_size n = 4 * ((n + 2) div 3)"

definition qp_size :: "nat list \<Rightarrow> nat" where
  "qp_size bs = sum_list (map (\<lambda>b. if qp_escaped b then 3 else 1) bs)"

lemma length_btoa_words: "length (btoa s) = b64_size (length s)"
proof (induction s rule: btoa.induct)
  case (4 a b c s)
  have "(length s + 5) div 3 = Suc ((length s + 2) div 3)" by presburger
  then show ?case unfolding btoa.simps using 4 by (simp add: b64_size_def add.commute)
qed (simp_all add: b64_size_def)

lemma b64_size_Suc: "b64_size (Suc n) = b64_size n + (if n mod 3 = 0 then 4 else 0)"
proof -
  have "(Suc n + 2) div 3 = (n + 2) div 3 + (if n mod 3 = 0 then 1 else 0)" by presburger
  then show ?thesis unfolding b64_size_def by simp
qed

lemma b64_size_mono: "m \<le> n \<Longrightarrow> b64_size m \<le> b64_size n"
  by (simp add: b64_size_def div_le_mono)

lemma qp_size_append [simp]: "qp_size (s @ t) = qp_size s + qp_size t"
  by (simp add: qp_size_def)

lemma length_qp_chars: "length (concat (map qp_char bs)) = qp_size bs"
  by (induction bs) (simp_all add: qp_size_def qp_char_def)

lemma qp_size_ge: "length bs \<le> qp_size bs"
  by (induction bs) (simp_all add: qp_size_def)

lemma length_rfc2047_word:
  "length (rfc2047_word bs q) = 12 + (if q then qp_size bs else b64_size (length bs))"
  by (simp add: rfc2047_word_def qp_prelude_def b64_prelude_def length_qp_chars length_btoa_words
      typed_array_to_string_id)

section \<open>The loop\<close>

text \<open>What the loop adds: words, each but the last a preferred place to break the line.\<close>

fun add_encoded :: "(nat list \<times> bool) list \<Rightarrow> bool \<Rightarrow> emit" where
  "add_encoded [] may_break = skip"
| "add_encoded [w] may_break = add_rfc2047_word (fst w) (snd w) may_break"
| "add_encoded (w # ws) may_break =
     and_then (add_rfc2047_word (fst w) (snd w) True) (add_encoded ws may_break)"

definition good_chunk :: "nat \<Rightarrow> nat list \<times> bool \<Rightarrow> bool" where
  "good_chunk soft w \<longleftrightarrow> length (rfc2047_word (fst w) (snd w)) \<le> soft \<and> (fst w \<noteq> [] \<longrightarrow> lead (hd (fst w)))"

definition loop_inv :: "nat list \<Rightarrow> nat \<Rightarrow> nat \<Rightarrow> nat \<Rightarrow> nat \<Rightarrow> int \<Rightarrow> nat \<Rightarrow> bool" where
  "loop_inv bs start i b64 qp max_chars soft \<longleftrightarrow>
     start \<le> i \<and> i \<le> length bs \<and> (start < length bs \<longrightarrow> lead (bs ! start))
     \<and> b64 = b64_size (i - start) \<and> qp = qp_size (slice start i bs)
     \<and> int (min b64 qp) \<le> max 0 max_chars \<and> max_chars \<le> int soft - 12 \<and> 30 \<le> soft"

lemma slice_split:
  assumes "i \<le> j" and "j \<le> k"
  shows "slice i k s = slice i j s @ slice j k s"
proof -
  have k: "k - i = (j - i) + (k - j)" and j: "drop (j - i) (drop i s) = drop j s"
    using assms by simp_all
  show ?thesis unfolding slice_def k take_add j ..
qed

lemma slice_Suc: "i \<le> j \<Longrightarrow> j < length s \<Longrightarrow> slice i (Suc j) s = slice i j s @ [s ! j]"
  using slice_split [of i j "Suc j" s] by (simp add: slice_def take_Suc hd_drop_conv_nth)

lemma loop_inv_Suc:
  assumes "loop_inv bs start i b64 qp m soft" and "i < length bs"
    and "\<not> (m < int (b64 + (if (i - start) mod 3 = 0 then 4 else 0))
        \<and> m < int (qp + (if qp_escaped (bs ! i) then 3 else 1)))"
  shows "loop_inv bs start (Suc i) (b64 + (if (i - start) mod 3 = 0 then 4 else 0))
     (qp + (if qp_escaped (bs ! i) then 3 else 1)) m soft"
proof -
  have "start \<le> i" using assms(1) by (simp add: loop_inv_def)
  then have "Suc i - start = Suc (i - start)" by simp
  then have "b64_size (Suc i - start) = b64_size (i - start) + (if (i - start) mod 3 = 0 then 4 else 0)"
    using b64_size_Suc by simp
  moreover have "qp_size (slice start (Suc i) bs) =
      qp_size (slice start i bs) + (if qp_escaped (bs ! i) then 3 else 1)"
    using \<open>start \<le> i\<close> assms(2) by (simp add: slice_Suc qp_size_def)
  ultimately show ?thesis
    using assms unfolding loop_inv_def by (auto simp: min_def max_def)
qed

lemma loop_inv_chunk:
  assumes "loop_inv bs start i b64 qp m soft" and "start \<le> j" and "j \<le> i"
  shows "good_chunk soft (slice start j bs, qp \<le> b64)"
proof -
  have i: "i \<le> length bs" and l: "start < length bs \<longrightarrow> lead (bs ! start)"
    and b: "b64 = b64_size (i - start)" and q: "qp = qp_size (slice start i bs)"
    and m: "int (min b64 qp) \<le> max 0 m" "m \<le> int soft - 12" "30 \<le> soft"
    using assms(1) by (auto simp: loop_inv_def)
  have len: "length (slice start j bs) = j - start"
    using assms(2,3) i by (simp add: slice_def)
  have "qp_size (slice start j bs) \<le> qp"
    using q slice_split [OF assms(2,3), of bs] by simp
  moreover have "b64_size (length (slice start j bs)) \<le> b64"
    unfolding len b using assms(3) by (intro b64_size_mono) simp
  ultimately have "length (rfc2047_word (slice start j bs) (qp \<le> b64)) \<le> 12 + min b64 qp"
    by (auto simp: length_rfc2047_word)
  also have "\<dots> \<le> soft" using m by linarith
  finally have "length (rfc2047_word (slice start j bs) (qp \<le> b64)) \<le> soft" .
  moreover have "lead (hd (slice start j bs))" if "slice start j bs \<noteq> []"
  proof -
    have "start < j" using that len assms(2) by (cases "start = j") auto
    then have "hd (slice start j bs) = bs ! start"
      using assms(3) i by (simp add: slice_def hd_drop_conv_nth)
    then show ?thesis using l \<open>start < j\<close> assms(3) i by simp
  qed
  ultimately show ?thesis by (simp add: good_chunk_def)
qed

lemma loop_inv_overflow:
  assumes "loop_inv bs start i b64 qp m soft" and "i < length bs" and "utf8_like bs"
  shows "start \<le> char_start bs i" "char_start bs i \<le> i" "i \<le> char_start bs i + 3"
    "loop_inv bs (char_start bs i) (char_start bs i) 0 0 (int soft - 13) soft"
proof -
  have s: "start \<le> i" "start < length bs \<longrightarrow> lead (bs ! start)" "30 \<le> soft"
    using assms(1) by (auto simp: loop_inv_def)
  show le: "char_start bs i \<le> i" and "i \<le> char_start bs i + 3"
    using char_start(1,2) [OF assms(3,2)] .
  show "start \<le> char_start bs i" using s assms(2) by (intro char_start_ge) auto
  have "b64_size 0 = 0" by (simp add: b64_size_def)
  then show "loop_inv bs (char_start bs i) (char_start bs i) 0 0 (int soft - 13) soft"
    using le s(3) assms(2) char_start(3) [OF assms(3,2)]
    by (simp add: loop_inv_def qp_size_def slice_def)
qed

text \<open>A word that ends early has nine bytes at least, when a line has room for 17 characters.\<close>

lemma overflow_progress:
  assumes "loop_inv bs start i b64 qp m soft" and "17 \<le> m"
    and "m < int (b64 + (if (i - start) mod 3 = 0 then 4 else 0))"
  shows "start + 12 \<le> i"
proof -
  have s: "start \<le> i" "b64 = b64_size (i - start)" using assms(1) by (auto simp: loop_inv_def)
  then have "17 < b64_size (Suc (i - start))" using assms(2,3) by (simp add: b64_size_Suc)
  then have "17 < 4 * ((Suc (i - start) + 2) div 3)" unfolding b64_size_def .
  then have "12 \<le> i - start" by presburger
  then show ?thesis using s(1) by linarith
qed

lemma reserve_soft: "reserve_token_space n e = (ok, e') \<Longrightarrow> soft_margin e' = soft_margin e"
  by (auto simp: reserve_token_space_def commit_line_def Let_def split: if_splits)

lemma add_text_soft: "add_text t b e = Some (e', r) \<Longrightarrow> soft_margin e' = soft_margin e"
  by (auto simp: add_text_def Let_def split: prod.splits if_splits dest: reserve_soft)

lemma add_text_returns: "\<exists>r. add_text t b e = Some r"
  by (auto simp: add_text_def Let_def split: prod.splits)

lemma add_encoded_Cons:
  "ws \<noteq> [] \<Longrightarrow> add_encoded (w # ws) b = and_then (add_rfc2047_word (fst w) (snd w) True) (add_encoded ws b)"
  by (cases ws) simp_all

definition loop_words ::
  "nat list \<Rightarrow> nat \<Rightarrow> bool \<Rightarrow> emitter \<Rightarrow> (emitter \<times> js_error option) option \<Rightarrow> bool" where
  "loop_words bs start may_break e r \<longleftrightarrow>
     (\<exists>ws. ws \<noteq> [] \<and> concat (map fst ws) = drop start bs \<and> list_all (good_chunk (soft_margin e)) ws
         \<and> r = add_encoded ws may_break e)"

lemmas encode_loop_eq = encode_loop.simps [unfolded Let_def]

lemma encode_loop_end:
  assumes "loop_inv bs start i b64 qp m (soft_margin e)" and "\<not> i < length bs"
  shows "loop_words bs start mb e (encode_loop bs mb start i b64 qp m e)"
proof -
  have "i = length bs" "start \<le> i" using assms by (auto simp: loop_inv_def)
  then have "slice start i bs = drop start bs" by (simp add: slice_def)
  then have "good_chunk (soft_margin e) (drop start bs, qp \<le> b64)"
    using loop_inv_chunk [OF assms(1) \<open>start \<le> i\<close> order_refl] by simp
  then show ?thesis
    using assms(2) unfolding loop_words_def
    by (subst encode_loop.simps) (auto intro!: exI [of _ "[(drop start bs, qp \<le> b64)]"])
qed

lemma encode_loop_word:
  assumes "loop_inv bs start i b64 qp m (soft_margin e)" and "i < length bs" and "utf8_like bs"
    and "m < int (b64 + (if (i - start) mod 3 = 0 then 4 else 0))
        \<and> m < int (qp + (if qp_escaped (bs ! i) then 3 else 1))"
    and rest: "\<And>e'. soft_margin e' = soft_margin e \<Longrightarrow>
      loop_words bs (char_start bs i) mb e'
        (encode_loop bs mb (char_start bs i) (char_start bs i) 0 0 (int (soft_margin e') - 13) e')"
  shows "loop_words bs start mb e (encode_loop bs mb start i b64 qp m e)"
proof -
  define j where "j = char_start bs i"
  define w where "w = (slice start j bs, qp \<le> b64)"
  note j = loop_inv_overflow(1,2) [OF assms(1-3), folded j_def]
  have good: "good_chunk (soft_margin e) w"
    unfolding w_def by (rule loop_inv_chunk [OF assms(1) j])
  have step: "encode_loop bs mb start i b64 qp m e =
      (case add_rfc2047_word (fst w) (snd w) True e of
         None \<Rightarrow> None
       | Some r \<Rightarrow> if snd r = None
                   then encode_loop bs mb j j 0 0 (int (soft_margin (fst r)) - 13) (fst r) else Some r)"
    unfolding encode_loop_eq [of bs mb start i] if_P [OF assms(2)] if_P [OF assms(4)]
    by (simp only: w_def j_def fst_conv snd_conv)
  have cut: "slice start j bs @ drop j bs = drop start bs"
  proof -
    have "drop (j - start) (drop start bs) = drop j bs" using j(1) by simp
    then show ?thesis using append_take_drop_id [of "j - start" "drop start bs"]
      by (simp add: slice_def)
  qed
  obtain e1 err where a: "add_rfc2047_word (fst w) (snd w) True e = Some (e1, err)"
    using add_text_returns unfolding add_rfc2047_word_def by fastforce
  then have soft: "soft_margin e1 = soft_margin e"
    unfolding add_rfc2047_word_def by (rule add_text_soft)
  obtain ws where ws: "ws \<noteq> []" "concat (map fst ws) = drop j bs"
    "list_all (good_chunk (soft_margin e)) ws"
    "encode_loop bs mb j j 0 0 (int (soft_margin e1) - 13) e1 = add_encoded ws mb e1"
    using rest [OF soft] unfolding loop_words_def j_def [symmetric] soft by blast
  have "encode_loop bs mb start i b64 qp m e = add_encoded (w # ws) mb e"
    unfolding step a add_encoded_Cons [OF ws(1)] and_then_def using ws(4)
    by (cases err) simp_all
  moreover have "concat (map fst (w # ws)) = drop start bs"
    using ws(2) cut by (simp add: w_def)
  ultimately show ?thesis
    unfolding loop_words_def using good ws(3) by (intro exI [of _ "w # ws"]) simp
qed

lemma encode_loop_go_on:
  assumes "i < length bs"
    and "\<not> (m < int (b64 + (if (i - start) mod 3 = 0 then 4 else 0))
        \<and> m < int (qp + (if qp_escaped (bs ! i) then 3 else 1)))"
  shows "encode_loop bs mb start i b64 qp m e =
     encode_loop bs mb start (Suc i) (b64 + (if (i - start) mod 3 = 0 then 4 else 0))
       (qp + (if qp_escaped (bs ! i) then 3 else 1)) m e"
  unfolding encode_loop_eq [of bs mb start i] if_P [OF assms(1)] if_not_P [OF assms(2)] ..

lemma encode_loop_wide:
  assumes "loop_inv bs start i b64 qp m (soft_margin e)" and "17 \<le> m" and "utf8_like bs"
  shows "loop_words bs start mb e (encode_loop bs mb start i b64 qp m e)"
  using assms
proof (induction "(length bs - start) * Suc (length bs) + (length bs - i)"
    arbitrary: start i b64 qp m e rule: less_induct)
  case less
  show ?case
  proof (cases "i < length bs")
    case True
    let ?b = "if (i - start) mod 3 = 0 then 4 else 0" and ?q = "if qp_escaped (bs ! i) then 3 else 1"
    show ?thesis
    proof (cases "m < int (b64 + ?b) \<and> m < int (qp + ?q)")
      case overflow: True
      define j where "j = char_start bs i"
      note o = loop_inv_overflow [OF less.prems(1) True less.prems(3), folded j_def]
      have "start + 12 \<le> i"
        using overflow_progress [OF less.prems(1,2)] overflow by blast
      then have "start < j" using o(3) by linarith
      then have "Suc (length bs - j) \<le> length bs - start" using o(2) True by linarith
      then have "Suc (length bs - j) * Suc (length bs) \<le> (length bs - start) * Suc (length bs)"
        by (rule mult_le_mono1)
      then have dec: "(length bs - j) * Suc (length bs) + (length bs - j)
          < (length bs - start) * Suc (length bs) + (length bs - i)"
        unfolding mult_Suc by linarith
      have "30 \<le> soft_margin e" using less.prems(1) by (simp add: loop_inv_def)
      then show ?thesis
        using less.hyps [OF dec] o(4) less.prems(3)
        by (intro encode_loop_word [OF less.prems(1) True less.prems(3) overflow])
           (simp add: j_def)
    next
      case False
      have dec: "(length bs - start) * Suc (length bs) + (length bs - Suc i)
          < (length bs - start) * Suc (length bs) + (length bs - i)" using True by simp
      show ?thesis
        unfolding encode_loop_go_on [OF True False]
        by (rule less.hyps [OF dec loop_inv_Suc [OF less.prems(1) True False] less.prems(2,3)])
    qed
  next
    case False
    with less.prems(1) show ?thesis by (rule encode_loop_end)
  qed
qed

lemma encode_loop_words:
  assumes "loop_inv bs start i b64 qp m (soft_margin e)" and "utf8_like bs"
  shows "loop_words bs start mb e (encode_loop bs mb start i b64 qp m e)"
  using assms
proof (induction "length bs - i" arbitrary: i b64 qp)
  case 0
  then show ?case by (intro encode_loop_end) (auto simp: loop_inv_def)
next
  case (Suc k)
  then have i: "i < length bs" by simp
  let ?b = "if (i - start) mod 3 = 0 then 4 else 0" and ?q = "if qp_escaped (bs ! i) then 3 else 1"
  show ?case
  proof (cases "m < int (b64 + ?b) \<and> m < int (qp + ?q)")
    case True
    have "30 \<le> soft_margin e" using Suc.prems(1) by (simp add: loop_inv_def)
    then show ?thesis
      using loop_inv_overflow(4) [OF Suc.prems(1) i Suc.prems(2)] Suc.prems(2)
      by (intro encode_loop_word [OF Suc.prems(1) i Suc.prems(2) True] encode_loop_wide) simp_all
  next
    case False
    show ?thesis
      unfolding encode_loop_go_on [OF i False]
      using Suc.hyps(2) by (intro Suc.hyps(1) loop_inv_Suc [OF Suc.prems(1) i False] Suc.prems(2)) simp
  qed
qed

section \<open>The phrase\<close>

text \<open>The room that is made for a first word, and the words.\<close>

definition room_for_word :: "emitter \<Rightarrow> emitter" where
  "room_for_word e =
     (let (ok, e1) = reserve_token_space (length b64_prelude + 10) e
      in if \<not> ok then commit_line (Some (length (current_line e1))) e1 else e1)"

lemma soft_room: "soft_margin (room_for_word e) = soft_margin e"
  by (auto simp: room_for_word_def Let_def commit_line_def split: prod.splits dest: reserve_soft)

lemma encode_phrase_words:
  assumes "30 \<le> soft_margin e"
  shows "\<exists>ws. ws \<noteq> [] \<and> concat (map fst ws) = utf8_encode txt \<and> list_all (good_chunk (soft_margin e)) ws
     \<and> encode_rfc2047_phrase txt may_break e = add_encoded ws may_break (room_for_word e)"
proof -
  let ?bs = "utf8_encode txt" and ?e = "room_for_word e"
  let ?m = "int (soft_margin ?e) - int (length (current_line ?e)) - int (length b64_prelude + 2)"
  have "b64_size 0 = 0" by (simp add: b64_size_def)
  then have "loop_inv ?bs 0 0 0 0 ?m (soft_margin ?e)"
    using assms lead_utf8_encode [of "txt"] soft_room [of e]
    by (simp add: loop_inv_def qp_size_def slice_def b64_prelude_def)
  from encode_loop_words [OF this utf8_like_encode, of may_break]
  have "loop_words ?bs 0 may_break ?e (encode_loop ?bs may_break 0 0 0 0 ?m ?e)" .
  moreover have "encode_rfc2047_phrase txt may_break e = encode_loop ?bs may_break 0 0 0 0 ?m ?e"
    by (simp add: encode_rfc2047_phrase_def room_for_word_def Let_def split: prod.split)
  ultimately show ?thesis
    by (auto simp: loop_words_def soft_room)
qed

text \<open>The characters of an encoded word.\<close>

lemma non_ascii_printable: "\<not> non_ascii s \<longleftrightarrow> list_all printable s"
  by (auto simp: non_ascii_def printable_def list_all_iff)

lemma hex_string_printable: "n < 16 \<Longrightarrow> printable (hex_string ! n)"
proof -
  have "list_all printable hex_string" by (simp add: hex_string_def printable_def)
  moreover have "length hex_string = 16" by (simp add: hex_string_def)
  ultimately show "n < 16 \<Longrightarrow> printable (hex_string ! n)" by (simp add: list_all_length)
qed

lemma qp_char_printable: "list_all printable (qp_char b)"
  using hex_string_printable [of "b div 16 mod 16"] hex_string_printable [of "b mod 16"]
  by (auto simp: qp_char_def qp_escaped_def printable_def)

lemma b64_char_printable: "printable (b64_char n)"
  by (auto simp: b64_char_def printable_def)

lemma btoa_printable: "list_all printable (btoa s)"
  using b64_char_printable by (induction s rule: btoa.induct) (auto simp: printable_def)

lemma word_printable: "list_all printable (rfc2047_word bs q)"
proof -
  have "list_all printable (concat (map qp_char bs))"
    using qp_char_printable by (induction bs) auto
  moreover have "list_all printable qp_prelude" "list_all printable b64_prelude"
    "list_all printable (js ''?='')"
    by (simp_all add: qp_prelude_def b64_prelude_def printable_def)
  ultimately show ?thesis using btoa_printable by (simp add: rfc2047_word_def)
qed

end
