(* ===== verification/EmitterLines.thy ===== *)
theory EmitterLines
  imports EncodedWords
begin

text \<open>
  What every operation of the emitter keeps.  The locale \<open>emitter_invariant\<close> asks that committing a
  line and adding text that fits keep a property of the emitter; then every operation on the value
  of a header keeps it, and returns.  \<open>header_invariant\<close> adds the start of a header.
\<close>

section \<open>Invariants of the emitter\<close>

locale emitter_invariant =
  fixes I :: "emitter \<Rightarrow> bool" and C :: "jchar \<Rightarrow> bool"
  assumes margins: "I e \<Longrightarrow> 30 \<le> soft_margin e \<and> 30 \<le> hard_margin e"
    and commit: "I e \<Longrightarrow> 0 < n \<Longrightarrow> I (commit_line (Some n) e)"
    and add: "I e \<Longrightarrow> list_all C t \<Longrightarrow>
      length (current_line e) + length t \<le> soft_margin e \<or> length (current_line e) + length t \<le> hard_margin e \<Longrightarrow>
      I (e\<lparr>current_line := current_line e @ t\<rparr>) \<and> I (e\<lparr>current_line := current_line e @ t @ [32]\<rparr>)"
    and breakpoint: "I e \<Longrightarrow> I (e\<lparr>preferred_breakpoint := k\<rparr>)"
    and printable_ok: "printable c \<Longrightarrow> C c"
    and phrase_ok: "I e \<Longrightarrow> use_ascii e \<or> (\<forall>c. C c)"
begin

definition keeps :: "emit \<Rightarrow> bool" where
  "keeps f \<longleftrightarrow> (\<forall>e. I e \<longrightarrow> (\<exists>e' err. f e = Some (e', err) \<and> I e'))"

lemma keepsI: "(\<And>e. I e \<Longrightarrow> \<exists>e' err. f e = Some (e', err) \<and> I e') \<Longrightarrow> keeps f"
  by (simp add: keeps_def)

lemma keepsD: "keeps f \<Longrightarrow> I e \<Longrightarrow> \<exists>e' err. f e = Some (e', err) \<and> I e'"
  by (simp add: keeps_def)

lemma keeps_skip: "keeps skip"
  by (simp add: keeps_def skip_def)

lemma keeps_throw: "keeps (throw err)"
  by (simp add: keeps_def throw_def)

lemma keeps_and_then:
  assumes "keeps f" and "keeps g"
  shows "keeps (and_then f g)"
proof (rule keepsI)
  fix e
  assume "I e"
  then obtain e1 err where "f e = Some (e1, err)" "I e1" using keepsD [OF assms(1)] by blast
  then show "\<exists>e' err. and_then f g e = Some (e', err) \<and> I e'"
    using keepsD [OF assms(2)] by (cases err) (auto simp: and_then_def)
qed

lemma keeps_each: "(\<And>x. x \<in> set xs \<Longrightarrow> keeps (f x)) \<Longrightarrow> keeps (each f xs)"
  by (induction xs) (auto intro: keeps_skip keeps_and_then)

lemma keeps_try_return:
  assumes "keeps f" and "\<And>e. I e \<Longrightarrow> I (g e)" and "keeps h"
  shows "keeps (try_return f g h)"
proof (rule keepsI)
  fix e
  assume "I e"
  then obtain e1 err where "f e = Some (e1, err)" "I e1" using keepsD [OF assms(1)] by blast
  then show "\<exists>e' err. try_return f g h e = Some (e', err) \<and> I e'"
    using assms(2) keepsD [OF assms(3)] by (cases err) (auto simp: try_return_def)
qed

lemma reserve:
  assumes "I e" and "reserve_token_space n e = (ok, e')"
  shows "I e'"
    and "ok \<Longrightarrow> length (current_line e') + n \<le> soft_margin e' \<or> length (current_line e') + n \<le> hard_margin e'"
  using assms commit unfolding reserve_token_space_def
  by (auto simp: Let_def split: if_splits)

lemma keeps_add_text:
  assumes "list_all C t"
  shows "keeps (add_text t b)"
proof (rule keepsI)
  fix e
  assume e: "I e"
  obtain ok e1 where r: "reserve_token_space (length t) e = (ok, e1)"
    by (cases "reserve_token_space (length t) e")
  note r1 = reserve [OF e r]
  have new: "I (e1\<lparr>current_line := current_line e1 @ t\<rparr>)"
    "I (e1\<lparr>current_line := current_line e1 @ t @ [32]\<rparr>)" if ok
    using add [OF r1(1) assms r1(2)] that by blast+
  show "\<exists>e' err. add_text t b e = Some (e', err) \<and> I e'"
    using r1(1) new [THEN breakpoint] new by (auto simp: add_text_def r Let_def)
qed

lemma all_printable: "list_all printable t \<Longrightarrow> list_all C t"
  using printable_ok by (simp add: list_all_iff)

lemma keeps_add_quotable:
  assumes "list_all C t"
  shows "keeps (add_quotable t q b)"
proof -
  have "C 34" "C 92" using printable_ok by (simp_all add: printable_def)
  then have "list_all C (escape P t)" for P using assms by (induction t) auto
  with \<open>C 34\<close> have "list_all C (quoted t)" by (simp add: quoted_def)
  then show ?thesis using assms by (auto simp: add_quotable_def intro: keeps_skip keeps_add_text)
qed

lemma keeps_add_encoded: "keeps (add_encoded ws b)"
proof -
  have "keeps (add_rfc2047_word c q b)" for c q b
    using word_printable all_printable keeps_add_text by (simp add: add_rfc2047_word_def)
  then show ?thesis
    by (induction ws b rule: add_encoded.induct) (auto intro: keeps_skip keeps_and_then)
qed

lemma room_for_word: "I e \<Longrightarrow> I (room_for_word e)"
proof -
  assume e: "I e"
  obtain ok e1 where r: "reserve_token_space (length b64_prelude + 10) e = (ok, e1)"
    by (cases "reserve_token_space (length b64_prelude + 10) e")
  have I: "I e1" using reserve [OF e r] by blast
  show ?thesis
  proof (cases ok)
    case False
    have "current_line e1 \<noteq> []"
    proof
      assume "current_line e1 = []"
      moreover have "length (b64_prelude) = 10" by (simp add: b64_prelude_def)
      moreover have "30 \<le> hard_margin e1" using margins [OF I] by simp
      ultimately show False
        using r False by (auto simp: reserve_token_space_def Let_def commit_line_def split: if_splits)
    qed
    then show ?thesis using commit [OF I] False by (simp add: room_for_word_def r)
  qed (simp add: room_for_word_def r I)
qed

lemma keeps_encode_phrase: "keeps (encode_rfc2047_phrase t b)"
proof (rule keepsI)
  fix e
  assume e: "I e"
  have "30 \<le> soft_margin e" using margins [OF e] by simp
  from encode_phrase_words [OF this, of t b]
  obtain ws where "encode_rfc2047_phrase t b e = add_encoded ws b (room_for_word e)" by blast
  then show "\<exists>e' err. encode_rfc2047_phrase t b e = Some (e', err) \<and> I e'"
    using keepsD [OF keeps_add_encoded room_for_word [OF e]] by simp
qed

lemma keeps_add_words: "list_all (list_all C) ws \<Longrightarrow> keeps (add_words q b ws)"
  by (induction q b ws rule: add_words.induct)
    (auto intro: keeps_skip keeps_and_then keeps_add_quotable)

lemma keeps_add_phrase: "keeps (add_phrase t q b)"
proof (rule keepsI)
  fix e
  assume e: "I e"
  let ?t = "collapse is_wsp [32] t"
  show "\<exists>e' err. add_phrase t q b e = Some (e', err) \<and> I e'"
  proof (cases "use_ascii e \<and> non_ascii ?t")
    case True
    then show ?thesis using keepsD [OF keeps_encode_phrase e] by (simp add: add_phrase_def)
  next
    case False
    then have C: "list_all C ?t"
      using phrase_ok [OF e] non_ascii_printable all_printable by (auto simp: list_all_iff)
    have "set w \<subseteq> set s" if "w \<in> set (split_on 32 s)" for w s
      using that by (induction s arbitrary: w) (fastforce split: if_splits list.splits)+
    then have ws: "list_all (list_all C) (split_on 32 ?t)"
      using C by (fastforce simp: list_all_iff)
    have brk: "I (break_at_last_space ?t e)" if "I e" for e
      using that breakpoint by (simp add: break_at_last_space_def)
    note k = keeps_add_words [OF ws] keeps_try_return [OF keeps_add_quotable [OF C] brk keeps_add_words [OF ws]]
    show ?thesis
      using keepsD [OF k(1) e] keepsD [OF k(2) e] False unfolding add_phrase_def Let_def by auto
  qed
qed

lemma keeps_add_addr_spec:
  assumes "list_all C (mb_email m)"
  shows "keeps (add_addr_spec m)"
proof -
  have "list_all C (take i (mb_email m))" "list_all C (drop i (mb_email m))" for i
    using assms by (auto simp: list_all_iff dest: in_set_takeD in_set_dropD)
  moreover have "C 62" using printable_ok by (simp add: printable_def)
  ultimately show ?thesis
    using assms unfolding add_addr_spec_def
    by (auto simp: Let_def split: option.split intro!: keeps_and_then keeps_add_quotable keeps_add_text)
qed

lemma keeps_add_address:
  assumes "list_all C (mb_email m)"
  shows "keeps (add_address m)"
proof (rule keepsI)
  fix e
  assume e: "I e"
  let ?n = "length (mb_name m) + length (mb_email m) + 3"
  have r: "I (snd (reserve_token_space ?n e))" using reserve(1) [OF e] by (metis prod.collapse)
  have "C 60" using printable_ok by (simp add: printable_def)
  then have lt: "keeps (add_text (js ''<'') False)" by (intro keeps_add_text) simp
  have "keeps (and_then (add_phrase (mb_name m) phrase_qchars True)
      (if mb_email m = [] then skip else and_then (add_text (js ''<'') False) (add_addr_spec m)))"
    using keeps_add_phrase keeps_skip keeps_and_then [OF lt keeps_add_addr_spec [OF assms]]
    by (auto intro: keeps_and_then)
  from keepsD [OF this r] keepsD [OF keeps_add_addr_spec [OF assms] e]
  show "\<exists>e' err. add_address m e = Some (e', err) \<and> I e'"
    by (simp add: add_address_def)
qed

fun emails_ok :: "addr \<Rightarrow> bool" where
  "emails_ok (Address m) = list_all C (mb_email m)"
| "emails_ok (Group n ms) = list_all (\<lambda>m. list_all C (mb_email m)) ms"

lemma keeps_add_addresses:
  assumes "list_all emails_ok addrs"
  shows "keeps (add_addresses addrs)"
proof -
  have chars: "C 44" "C 32" "C 58" "C 59" using printable_ok by (simp_all add: printable_def)
  have "keeps (add_addresses_from b addrs)" for b
    using assms
  proof (induction b addrs rule: add_addresses_from.induct)
    case (2 b m addrs)
    then show ?case using chars keeps_skip
      by (auto simp: add_comma_def intro!: keeps_and_then keeps_add_text keeps_add_address)
  next
    case (3 b name ms addrs)
    then have "keeps (add_addresses_from False (map Address ms))" "keeps (add_addresses_from True addrs)"
      by (simp_all add: list_all_iff)
    then show ?case using chars keeps_skip
      by (auto simp: add_comma_def intro!: keeps_and_then keeps_add_text keeps_add_phrase)
  qed (simp add: keeps_skip)
  then show ?thesis by (simp add: add_addresses_def)
qed

lemma keeps_add_unstructured: "keeps (add_unstructured t)"
  by (simp add: add_unstructured_def keeps_skip keeps_add_phrase)

lemma keeps_add_date:
  assumes "\<And>b t s. format_date b tz t = Inr s \<Longrightarrow> list_all C s"
  shows "keeps (add_date tz d)"
proof (rule keepsI)
  fix e
  assume e: "I e"
  show "\<exists>e' err. add_date tz d e = Some (e', err) \<and> I e'"
    using keepsD [OF keeps_throw e] keepsD [OF keeps_add_text [OF assms] e]
    by (auto simp: add_date_def split: sum.split)
qed

text \<open>A value all of whose addresses have good characters, and encoders that keep the invariant.\<close>

fun value_ok :: "hvalue \<Rightarrow> bool" where
  "value_ok (VAddrs addrs) = list_all emails_ok addrs"
| "value_ok (VDate d) = (\<forall>b tz s. format_date b tz d = Inr s \<longrightarrow> list_all C s)"
| "value_ok v = True"

fun encoder_ok :: "structured_encoder \<Rightarrow> bool" where
  "encoder_ok (Builtin enc) = True"
| "encoder_ok (CustomEncoder f) = (\<forall>v. value_ok v \<longrightarrow> keeps (f v))"

lemma keeps_run_encoder:
  assumes "encoder_ok enc" and "value_ok v"
  shows "keeps (run_encoder tz enc v)"
proof (cases enc)
  case (Builtin b)
  have date: "keeps (add_date tz d)" if "v = VDate d" for d
  proof (rule keepsI)
    fix e
    assume e: "I e"
    show "\<exists>e' err. add_date tz d e = Some (e', err) \<and> I e'"
      using that assms(2) keepsD [OF keeps_throw e] keepsD [OF keeps_add_text e]
      by (auto simp: add_date_def split: sum.split)
  qed
  have addrs: "keeps (add_addresses addrs)" if "v = VAddrs addrs" for addrs
    using that assms(2) by (simp add: keeps_add_addresses)
  show ?thesis
    using date addrs keeps_skip keeps_throw keeps_add_unstructured
    by (cases b) (auto simp: run_encoder_def Builtin split: hvalue.split list.split)
next
  case (CustomEncoder f)
  then show ?thesis using assms by (simp add: run_encoder_def)
qed

end

locale header_invariant = emitter_invariant +
  assumes trim: "I e \<Longrightarrow> I (e\<lparr>current_line := trim_right (current_line e)\<rparr>)"
    and commit_last: "I e \<Longrightarrow> I (commit_line None e)"
    and eof: "I e \<Longrightarrow> I (e\<lparr>eof_delivered := b\<rparr>)"
begin

lemma keeps_add_header_name:
  assumes "list_all C name"
  shows "keeps (add_header_name name)"
proof (rule keepsI)
  fix e
  assume "I e"
  note e1 = trim [OF this] commit_last [OF trim [OF this]]
  have "C 58" "C 32" using printable_ok by (simp_all add: printable_def)
  then have "list_all C (name @ js '': '')" using assms by simp
  from keepsD [OF keeps_add_text [OF this] e1(1)] keepsD [OF keeps_add_text [OF this] e1(2)]
  show "\<exists>e' err. add_header_name name e = Some (e', err) \<and> I e'"
    by (cases "trim_right (current_line e) = []") (simp_all add: add_header_name_def Let_def)
qed

definition registry_ok :: "encoder_registry \<Rightarrow> bool" where
  "registry_ok r \<longleftrightarrow> (\<forall>enc\<in>snd ` set (encoders r). encoder_ok enc)
     \<and> (\<forall>sp\<in>snd ` set (preferred_spellings r). list_all C sp)"

lemma upper_char_printable: "printable (upper_char c) \<or> upper_char c = c"
  by (auto simp: upper_char_def is_lower_def printable_def)

lemma C_upper_char: "C c \<Longrightarrow> C (upper_char c)"
  using upper_char_printable [of c] printable_ok [of "upper_char c"] by auto

lemma keeps_add_structured_header:
  assumes "registry_ok r" and "list_all C name" and "value_ok v"
  shows "keeps (add_structured_header tz r name v)"
proof -
  have "list_all C (capitalize_words b s)" if "list_all C s" for b s
    using that C_upper_char by (induction b s rule: capitalize_words.induct) auto
  then have cap: "keeps (add_header_name (capitalize_words True name))"
    using assms(2) by (intro keeps_add_header_name)
  have "list_all C (js ''undefined'')" by (rule all_printable) (simp add: printable_def)
  then have sp: "keeps (add_header_name (case map_of (preferred_spellings r) n of
      Some sp \<Rightarrow> sp | None \<Rightarrow> js ''undefined''))" for n
    using assms(1) by (intro keeps_add_header_name)
      (auto simp: registry_ok_def dest!: map_of_SomeD split: option.split)
  have enc: "keeps (run_encoder tz enc v)" if "map_of (encoders r) n = Some enc" for n enc
    using assms(1,3) map_of_SomeD [OF that] by (intro keeps_run_encoder) (auto simp: registry_ok_def)
  show ?thesis
    using keeps_and_then [OF sp enc] keeps_and_then [OF cap keeps_add_unstructured] keeps_throw
    by (auto simp: add_structured_header_def Let_def split: option.split hvalue.split)
qed

lemma keeps_finish: "keeps (finish b)"
  using commit_last eof by (auto simp: keeps_def finish_def Let_def)

text \<open>A whole run ends, with an exception or with the text of an emitter that keeps the invariant.\<close>

lemma string_of_run:
  assumes "keeps f" and "I (header_emitter opts)"
  shows "\<exists>e. I e \<and> (string_of_run f opts = Some (Inr (concat (delivered e)))
     \<or> (\<exists>err. string_of_run f opts = Some (Inl err)))"
proof -
  obtain e err where "and_then f (finish True) (header_emitter opts) = Some (e, err)" "I e"
    using keepsD [OF keeps_and_then [OF assms(1) keeps_finish] assms(2)] by blast
  then show ?thesis by (cases err) (auto simp: string_of_run_def)
qed

lemma emit_headers:
  assumes "registry_ok r" and "I (header_emitter opts)"
    and "\<forall>h\<in>set headers. list_all C (fst h) \<and> list_all value_ok (snd h)"
  shows "\<exists>e. I e \<and> (emit_structured_headers tz r headers opts = Some (Inr (concat (delivered e)))
     \<or> (\<exists>err. emit_structured_headers tz r headers opts = Some (Inl err)))"
proof -
  have "keeps (each (\<lambda>(name, vs). each (add_structured_header tz r name) vs) headers)"
    using assms(3) by (intro keeps_each) (fastforce simp: list_all_iff
        intro: keeps_each keeps_add_structured_header [OF assms(1)])
  from string_of_run [OF this assms(2)] show ?thesis by (simp add: emit_structured_headers_def)
qed

lemma emit_header:
  assumes "registry_ok r" and "I (header_emitter opts)" and "list_all C name" and "value_ok v"
  shows "\<exists>e. I e \<and> (emit_structured_header tz r name v opts = Some (Inr (concat (delivered e)))
     \<or> (\<exists>err. emit_structured_header tz r name v opts = Some (Inl err)))"
  using string_of_run [OF keeps_add_structured_header [OF assms(1,3,4)] assms(2)]
  by (simp add: emit_structured_header_def)

end

section \<open>Every run returns\<close>

definition wide_enough :: "emitter \<Rightarrow> bool" where
  "wide_enough e \<longleftrightarrow> 30 \<le> soft_margin e \<and> 30 \<le> hard_margin e"

lemma commit_line_margins [simp]:
  "soft_margin (commit_line n e) = soft_margin e" "hard_margin (commit_line n e) = hard_margin e"
  "use_ascii (commit_line n e) = use_ascii e"
  by (simp_all add: commit_line_def split: option.split)

interpretation returns: header_invariant wide_enough "\<lambda>_. True"
  by unfold_locales (auto simp: wide_enough_def)

lemma margins_of_options:
  "30 \<le> soft_margin (header_emitter opts)" "30 \<le> hard_margin (header_emitter opts)"
  by (auto simp: header_emitter_def clamp_def Let_def split: option.split)

lemma wide_options: "wide_enough (header_emitter opts)"
  using margins_of_options by (simp add: wide_enough_def)

lemma list_all_True [simp]: "list_all (\<lambda>_. True) xs"
  by (simp add: list_all_iff)

lemma set_alist_update: "set (AList.update k v m) \<subseteq> insert (k, v) (set m)"
  by (induction m) auto

text \<open>The encoders that the library registers.\<close>

lemma default_encoders_builtin: "enc \<in> snd ` set (encoders default_encoders) \<Longrightarrow> \<exists>b. enc = Builtin b"
proof -
  have "\<forall>enc\<in>snd ` set (encoders (foldl (\<lambda>r (header, enc). add_structured_encoder header (Builtin enc) r) r encs)).
      \<exists>b. enc = Builtin b" if "\<forall>enc\<in>snd ` set (encoders r). \<exists>b. enc = Builtin b" for r encs
    using that
  proof (induction encs arbitrary: r)
    case (Cons x encs)
    have "set (encoders (add_structured_encoder h (Builtin enc) r)) \<subseteq>
        insert (to_lower h, Builtin enc) (set (encoders r))" for h enc
      using set_alist_update by (simp add: add_structured_encoder_def Let_def)
    then have "\<forall>enc\<in>snd ` set (encoders (add_structured_encoder (fst x) (Builtin (snd x)) r)). \<exists>b. enc = Builtin b"
      using Cons.prems by fastforce
    from Cons.IH [OF this] show ?case by (simp add: case_prod_beta)
  qed simp
  from this [of "\<lparr>encoders = [], preferred_spellings = t_spellings default_tables\<rparr>" "t_encoders default_tables"]
  show "enc \<in> snd ` set (encoders default_encoders) \<Longrightarrow> \<exists>b. enc = Builtin b"
    unfolding default_encoders_def by auto
qed

lemma returns_registry: "returns.registry_ok default_encoders"
  using default_encoders_builtin by (fastforce simp: returns.registry_ok_def list_all_iff)

section \<open>The length of the lines\<close>

definition ended_line :: "(jchar \<Rightarrow> bool) \<Rightarrow> nat \<Rightarrow> jstr \<Rightarrow> bool" where
  "ended_line P n l \<longleftrightarrow> (\<exists>t. l = t @ [13, 10] \<and> length t \<le> n \<and> list_all P t)"

definition line_bounds :: "nat \<Rightarrow> emitter \<Rightarrow> bool" where
  "line_bounds h e \<longleftrightarrow> hard_margin e = h \<and> 30 \<le> soft_margin e \<and> soft_margin e \<le> hard_margin e
     \<and> list_all (ended_line (\<lambda>_. True) (hard_margin e)) (delivered e)
     \<and> (length (current_line e) \<le> hard_margin e
        \<or> length (current_line e) = Suc (hard_margin e) \<and> last (current_line e) = 32)"

lemma last_trim_left: "trim_left s \<noteq> [] \<Longrightarrow> last (trim_left s) = last s"
  by (induction s) (auto simp: trim_left_def)

lemma commit_line_bounds:
  assumes "line_bounds h e" and "0 < n"
  shows "line_bounds h (commit_line (Some n) e)"
proof -
  let ?c = "current_line e" and ?h = "hard_margin e"
  have wide: "30 \<le> ?h" and c: "length ?c \<le> ?h \<or> length ?c = Suc ?h \<and> last ?c = 32"
    using assms(1) by (auto simp: line_bounds_def)
  have first: "length (trim_right (take n ?c)) \<le> ?h"
  proof (cases "length (take n ?c) \<le> ?h")
    case True
    then show ?thesis using length_trim_right [of "take n ?c"] by linarith
  next
    case False
    then have "take n ?c = ?c" "?c \<noteq> []" "last ?c = 32" "length ?c = Suc ?h" using c by auto
    then have "take n ?c = butlast ?c @ [32]" by (metis append_butlast_last_id)
    then have "trim_right (take n ?c) = trim_right (butlast ?c)" by simp
    then show ?thesis using length_trim_right [of "butlast ?c"] \<open>length ?c = Suc ?h\<close> by simp
  qed
  let ?r = "32 # trim_left (drop n ?c)"
  have "length ?r \<le> Suc (length ?c - n)" using length_trim_left [of "drop n ?c"] by simp
  then have r: "length ?r \<le> ?h \<or> length ?r = Suc ?h \<and> length ?c = Suc ?h"
    using c wide assms(2) by (auto simp del: length_Cons)
  have "last (trim_left (drop n ?c)) = last ?c" if "trim_left (drop n ?c) \<noteq> []"
  proof -
    have "drop n ?c \<noteq> []" using that by (auto simp: trim_left_def)
    then show ?thesis using last_trim_left [OF that] by simp
  qed
  then have "last ?r = 32" if "length ?c = Suc ?h"
    using that c by auto
  then show ?thesis
    using assms(1) first r by (auto simp: line_bounds_def commit_line_def ended_line_def)
qed

lemma line_bounds_last:
  assumes "line_bounds h e"
  shows "length (trim_right (current_line e)) \<le> hard_margin e"
proof -
  consider "length (current_line e) \<le> hard_margin e"
    | "length (current_line e) = Suc (hard_margin e)" "last (current_line e) = 32"
    using assms by (auto simp: line_bounds_def)
  then show ?thesis
  proof cases
    case 1
    then show ?thesis using length_trim_right [of "current_line e"] by linarith
  next
    case 2
    then obtain s where "current_line e = s @ [32]"
      by (metis append_butlast_last_id list.size(3) nat.distinct(1))
    then show ?thesis using 2 length_trim_right [of s] by simp
  qed
qed

interpretation bounds: header_invariant "line_bounds h" "\<lambda>_. True" for h
proof
  fix e
  assume e: "line_bounds h e"
  show "line_bounds h (commit_line None e)"
    using e line_bounds_last [OF e] by (auto simp: line_bounds_def commit_line_def ended_line_def)
  show "line_bounds h (e\<lparr>current_line := trim_right (current_line e)\<rparr>)"
    using e line_bounds_last [OF e] by (auto simp: line_bounds_def)
  show "line_bounds h (commit_line (Some n) e)" if "0 < n" for n
    using e that by (rule commit_line_bounds)
qed (auto simp: line_bounds_def)

lemma bounds_registry: "bounds.registry_ok h default_encoders"
  using default_encoders_builtin by (fastforce simp: bounds.registry_ok_def list_all_iff)

section \<open>The characters of the lines\<close>

definition printable_lines :: "emitter \<Rightarrow> bool" where
  "printable_lines e \<longleftrightarrow> wide_enough e \<and> use_ascii e
     \<and> list_all (\<lambda>l. ended_line printable (length l) l) (delivered e) \<and> list_all printable (current_line e)"

lemma list_all_trim:
  assumes "list_all P s"
  shows "list_all P (trim_right s)" "list_all P (trim_left s)"
  using assms set_trim_right [of s] set_trim_left [of s] by (auto simp: list_all_iff)

lemma list_all_take_drop: "list_all P s \<Longrightarrow> list_all P (take n s) \<and> list_all P (drop n s)"
  by (auto simp: list_all_iff dest: in_set_takeD in_set_dropD)

lemma printable_commit: "printable_lines e \<Longrightarrow> printable_lines (commit_line n e)"
  using list_all_take_drop [of printable "current_line e"] list_all_trim
  by (auto simp: printable_lines_def commit_line_def ended_line_def wide_enough_def printable_def [of 32]
      split: option.split)

interpretation ascii: header_invariant printable_lines printable
proof
  show "printable_lines (commit_line (Some n) e)" "printable_lines (commit_line None e)"
    if "printable_lines e" for e n
    using that by (rule printable_commit)+
qed (auto simp: printable_lines_def wide_enough_def printable_def [of 32] list_all_trim)

text \<open>The text of a date, and the preferred spellings, are printable.\<close>

lemma nat_str_printable: "list_all printable (nat_str n)"
  using nat_str_digits [of n] by (auto simp: list_all_iff is_digit_def printable_def)

lemma join_printable: "list_all (list_all P) ws \<Longrightarrow> list_all P sep \<Longrightarrow> list_all P (join sep ws)"
  by (induction sep ws rule: join.induct) auto

lemma format_date_printable:
  assumes "format_date b tz d = Inr s"
  shows "list_all printable s"
proof -
  obtain t off f where s: "s = date_text f off"
    and f: "f = date_fields_of t \<or> f = (date_fields_of t)\<lparr>seconds_of := 0\<rparr>"
    using assms by (auto simp: format_date_def Let_def split: option.splits if_splits)
  have "list_all (list_all printable) days_of_week" "list_all (list_all printable) month_names"
    by (simp_all add: days_of_week_def month_names_def printable_def)
  moreover have "length days_of_week = 7" "length month_names = 12"
    by (simp_all add: days_of_week_def month_names_def)
  moreover have "day_of_week f < 7" "month_index f < 12"
    using f date_fields_ranges [OF refl, of t] by auto
  ultimately have "list_all printable (days_of_week ! day_of_week f)"
    "list_all printable (month_names ! month_index f)" by (simp_all add: list_all_length)
  moreover have "list_all printable (pad_to_2_digits i)" for i
    using nat_str_printable by (simp add: pad_to_2_digits_def printable_def [of 48])
  ultimately show ?thesis
    unfolding s date_text_def using nat_str_printable
    by (intro join_printable) (simp_all add: printable_def)
qed

lemma default_spellings_printable:
  "\<forall>sp\<in>snd ` set (preferred_spellings default_encoders). list_all printable sp"
  by code_simp

lemma ascii_registry: "ascii.registry_ok default_encoders"
  using default_encoders_builtin default_spellings_printable
  by (fastforce simp: ascii.registry_ok_def)

section \<open>Folded lines\<close>

text \<open>Every line but the first is empty or starts with a space.\<close>

definition folded :: "jstr list \<Rightarrow> bool" where
  "folded ls \<longleftrightarrow> list_all (\<lambda>l. l = [13, 10] \<or> hd l = 32) (tl ls)"

definition folded_lines :: "emitter \<Rightarrow> bool" where
  "folded_lines e \<longleftrightarrow> printable_lines e \<and> folded (delivered e)
     \<and> (delivered e \<noteq> [] \<longrightarrow> current_line e \<noteq> [] \<and> hd (current_line e) = 32)"

lemma hd_trim_right: "trim_right s \<noteq> [] \<Longrightarrow> hd (trim_right s) = hd s"
proof (induction s rule: rev_induct)
  case (snoc c s)
  show ?case
  proof (cases "js_ws c")
    case True
    then have "trim_right s \<noteq> []" using snoc.prems by simp
    then have "s \<noteq> []" by (auto simp: trim_right_def)
    then show ?thesis using True snoc.IH \<open>trim_right s \<noteq> []\<close> by simp
  qed (simp add: trim_right_snoc)
qed simp

lemma folded_snoc: "folded (ls @ [l]) \<longleftrightarrow> folded ls \<and> (ls \<noteq> [] \<longrightarrow> l = [13, 10] \<or> hd l = 32)"
  by (cases ls) (auto simp: folded_def)

lemma folded_commit:
  assumes "folded_lines e" and "0 < n"
  shows "folded_lines (commit_line (Some n) e)"
proof -
  have "trim_right (take n (current_line e)) = [] \<or> hd (trim_right (take n (current_line e))) = hd (current_line e)"
    using hd_trim_right [of "take n (current_line e)"] assms(2) by (cases "current_line e"; cases n) auto
  then show ?thesis
    using assms(1) printable_commit [of e "Some n"]
    by (auto simp: folded_lines_def commit_line_def folded_snoc hd_append)
qed

interpretation one_header: emitter_invariant folded_lines printable
proof
  fix e and n :: nat
  assume "folded_lines e" "0 < n"
  then show "folded_lines (commit_line (Some n) e)" by (rule folded_commit)
next
  fix e t
  assume "folded_lines e" "list_all printable t"
  then show "folded_lines (e\<lparr>current_line := current_line e @ t\<rparr>)
      \<and> folded_lines (e\<lparr>current_line := current_line e @ t @ [32]\<rparr>)"
    by (auto simp: folded_lines_def printable_lines_def wide_enough_def printable_def [of 32])
qed (auto simp: folded_lines_def printable_lines_def wide_enough_def)

section \<open>Properties\<close>

lemma everything_ok: "returns.value_ok v" "bounds.value_ok v"
  "returns.emails_ok a" "bounds.emails_ok a"
proof -
  show a: "returns.emails_ok a" "bounds.emails_ok a" for a by (cases a; simp)+
  show "returns.value_ok v" "bounds.value_ok v" using a by (cases v; simp add: list_all_iff)+
qed

text \<open>C16: making the text of headers always comes to an end, with the text or with an exception: the
  loop that cuts a text into encoded words makes progress with every word but the first, whatever
  the margins and the text.\<close>

theorem emission_returns: "\<exists>r. emit_structured_headers tz default_encoders headers opts = Some r"
proof -
  have "\<forall>h\<in>set headers. list_all (\<lambda>_. True) (fst h) \<and> list_all returns.value_ok (snd h)"
    using everything_ok(1) by (simp add: list_all_iff)
  from returns.emit_headers [OF returns_registry wide_options this] show ?thesis by blast
qed

text \<open>C15: no line that the emitter makes is longer than the hard margin, whatever the headers, as long
  as the soft margin is not above the hard one.\<close>

theorem emitted_lines_bounded:
  assumes "soft_margin (header_emitter opts) \<le> hard_margin (header_emitter opts)"
    and "emit_structured_headers tz default_encoders headers opts = Some (Inr out)"
  shows "\<exists>ls. out = concat ls \<and> list_all (ended_line (\<lambda>_. True) (hard_margin (header_emitter opts))) ls"
proof -
  let ?h = "hard_margin (header_emitter opts)"
  have start: "line_bounds ?h (header_emitter opts)"
    using assms(1) margins_of_options(1) [of opts] by (simp add: line_bounds_def header_emitter_def Let_def)
  have "\<forall>h\<in>set headers. list_all (\<lambda>_. True) (fst h) \<and> list_all bounds.value_ok (snd h)"
    using everything_ok(2) by (simp add: list_all_iff)
  from bounds.emit_headers [OF bounds_registry start this, of tz] assms(2) show ?thesis
    by (auto simp: line_bounds_def)
qed

definition default_options :: emitter_options where
  "default_options = \<lparr>eo_use_ascii = None, eo_sanitize = None, eo_soft = None, eo_hard = None\<rparr>"

theorem emitted_lines_bounded_witness:
  "\<exists>ls. js ''Subject: a'' @ [13, 10] = concat ls
     \<and> list_all (ended_line (\<lambda>_. True) (hard_margin (header_emitter default_options))) ls"
proof (rule emitted_lines_bounded)
  show "emit_structured_headers (\<lambda>_. 0) default_encoders [(js ''subject'', [VText (js ''a'')])]
      default_options = Some (Inr (js ''Subject: a'' @ [13, 10]))" by code_simp
qed code_simp

text \<open>The addresses of a value have printable mail addresses; the display names are free.\<close>

fun plain_emails :: "addr \<Rightarrow> bool" where
  "plain_emails (Address m) = list_all printable (mb_email m)"
| "plain_emails (Group n ms) = list_all (\<lambda>m. list_all printable (mb_email m)) ms"

fun plain_value :: "hvalue \<Rightarrow> bool" where
  "plain_value (VAddrs addrs) = list_all plain_emails addrs"
| "plain_value v = True"

lemma plain_value_ok: "plain_value v \<Longrightarrow> one_header.value_ok v"
proof -
  have "plain_emails a = one_header.emails_ok a" for a by (cases a) simp_all
  then show "plain_value v \<Longrightarrow> one_header.value_ok v"
    using format_date_printable by (cases v) (simp_all add: list_all_iff)
qed

lemma one_header_lines:
  assumes "use_ascii (header_emitter opts)" and "list_all printable name" and "plain_value v"
    and "emit_structured_header tz default_encoders name v opts = Some (Inr out)"
  shows "\<exists>ls. out = concat ls \<and> folded ls \<and> list_all (\<lambda>l. ended_line printable (length l) l) ls"
proof -
  let ?e = "header_emitter opts"
  have start: "folded_lines ?e"
    using assms(1) wide_options [of opts]
    by (simp add: folded_lines_def printable_lines_def folded_def header_emitter_def Let_def)
  have empty: "current_line ?e = []" by (simp add: header_emitter_def Let_def)
  have same: "?e\<lparr>current_line := []\<rparr> = ?e" by (simp add: header_emitter_def Let_def)
  have named: "one_header.keeps (and_then (add_text (n @ js '': '') False) f)"
    if "list_all printable n" "one_header.keeps f" for n f
    using that by (intro one_header.keeps_and_then one_header.keeps_add_text) (simp_all add: printable_def)
  have name: "and_then (add_header_name n) f ?e = and_then (add_text (n @ js '': '') False) f ?e" for n f
    using empty by (simp add: add_header_name_def and_then_def trim_right_def Let_def same)
  have body: "one_header.keeps (run_encoder tz enc v)" if "enc \<in> snd ` set (encoders default_encoders)" for enc
    using default_encoders_builtin [OF that] plain_value_ok [OF assms(3)]
    by (intro one_header.keeps_run_encoder) auto
  have run: "\<exists>e' err. f ?e = Some (e', err) \<and> folded_lines e'"
    if "f = add_structured_header tz default_encoders name v" for f
  proof (cases "map_of (encoders default_encoders) (to_lower name)")
    case (Some enc)
    define sp where "sp = (case map_of (preferred_spellings default_encoders) (to_lower name) of
        Some sp \<Rightarrow> sp | None \<Rightarrow> js ''undefined'')"
    have "list_all printable sp"
      using default_spellings_printable unfolding sp_def
      by (auto simp: printable_def dest!: map_of_SomeD split: option.split)
    moreover have "enc \<in> snd ` set (encoders default_encoders)" using map_of_SomeD [OF Some] by force
    ultimately show ?thesis
      using one_header.keepsD [OF named [OF _ body] start, of sp enc] that Some
      by (simp add: add_structured_header_def Let_def sp_def [symmetric] name)
  next
    case None
    have "list_all printable (capitalize_words b s)" if "list_all printable s" for b s
      using that ascii.C_upper_char by (induction b s rule: capitalize_words.induct) auto
    then have "list_all printable (capitalize_words True name)" using assms(2) by blast
    from one_header.keepsD [OF named [OF this one_header.keeps_add_unstructured] start]
    have u: "\<exists>e' err. and_then (add_header_name (capitalize_words True name)) (add_unstructured t) ?e
        = Some (e', err) \<and> folded_lines e'" for t
      unfolding name .
    show ?thesis
      using u one_header.keepsD [OF one_header.keeps_throw start] that None
      by (cases v) (simp_all add: add_structured_header_def Let_def)
  qed
  obtain e1 err where e1: "add_structured_header tz default_encoders name v ?e = Some (e1, err)"
    "folded_lines e1" using run [OF refl] by blast
  with assms(4) have "err = None" and out: "out = concat (delivered (commit_line None e1))"
    by (auto simp: emit_structured_header_def string_of_run_def and_then_def finish_def Let_def
        split: option.splits)
  have "delivered e1 \<noteq> [] \<longrightarrow> trim_right (current_line e1) = [] \<or> hd (trim_right (current_line e1)) = 32"
    using e1(2) hd_trim_right [of "current_line e1"] unfolding folded_lines_def by metis
  then have "folded (delivered (commit_line None e1))"
    using e1(2) by (auto simp: folded_lines_def commit_line_def folded_snoc hd_append)
  moreover have "printable_lines (commit_line None e1)"
    using e1(2) printable_commit by (simp add: folded_lines_def)
  ultimately show ?thesis using out by (auto simp: printable_lines_def)
qed

text \<open>C14: a header cannot inject another: with useASCII, the default, and a header name of printable
  ASCII characters, whatever the text or the display names are, all that is emitted
  are lines of printable ASCII characters that end with CR LF, and every line but the first
  starts with a space or is empty.  The mail addresses must be printable too.\<close>

theorem no_header_injection:
  assumes "use_ascii (header_emitter opts)" and "list_all printable name" and "plain_value v"
    and "emit_structured_header tz default_encoders name v opts = Some (Inr out)"
  shows "\<exists>ls. out = concat ls \<and> folded ls \<and> list_all (\<lambda>l. ended_line printable (length l) l) ls"
  using assms by (rule one_header_lines)

theorem no_header_injection_witness:
  "\<exists>ls. js ''Subject: a Bcc: b'' @ [13, 10] = concat ls \<and> folded ls
     \<and> list_all (\<lambda>l. ended_line printable (length l) l) ls"
proof (rule no_header_injection)
  show "emit_structured_header (\<lambda>_. 0) default_encoders (js ''subject'')
      (VText (js ''a'' @ [13, 10] @ js ''Bcc: b'')) default_options
      = Some (Inr (js ''Subject: a Bcc: b'' @ [13, 10]))" by code_simp
qed code_simp+

definition narrow_options :: emitter_options where
  "narrow_options = default_options\<lparr>eo_soft := Some 30, eo_hard := Some 30\<rparr>"

text \<open>with a hard margin close to the soft one, a display name that needs much quoting makes the
  emitter write an empty line in the middle of the header, which ends the headers of a message.\<close>

theorem empty_line_in_header:
  "emit_structured_header (\<lambda>_. 0) default_encoders (js ''to'')
     (VAddrs [Address \<lparr>mb_name = js ''a'' @ replicate 8 34 @ [32] @ replicate 8 34 @ js ''b'',
        mb_email = js ''a@c.d''\<rparr>]) narrow_options =
   Some (Inr (js ''To:'' @ [13, 10, 13, 10, 32, 34, 97] @ concat (replicate 8 [92, 34]) @ [34, 13, 10, 32, 34]
     @ concat (replicate 8 [92, 34]) @ js ''b'' @ [34] @ js '' <a@c.d>'' @ [13, 10]))"
  by code_simp

text \<open>a display name that starts and ends with a quotation mark is written as it is, so a name
  can add recipients: what the emitter writes for one address is read back as two.\<close>

theorem display_name_adds_recipient:
  "emit_structured_header (\<lambda>_. 0) default_encoders (js ''to'')
     (VAddrs [Address \<lparr>mb_name = [34] @ js ''A'' @ [34] @ js '' <e@x>, '' @ [34] @ js ''B'' @ [34],
        mb_email = js ''a@c.d''\<rparr>]) default_options =
   Some (Inr (js ''To: '' @ [34] @ js ''A'' @ [34] @ js '' <e@x>, '' @ [34] @ js ''B'' @ [34]
     @ js '' <a@c.d>'' @ [13, 10]))
   \<and> parse_addressing_header latin1_api
      ([34] @ js ''A'' @ [34] @ js '' <e@x>, '' @ [34] @ js ''B'' @ [34] @ js '' <a@c.d>'') False =
     Inr [Address \<lparr>mb_name = js ''A'', mb_email = js ''e@x''\<rparr>,
          Address \<lparr>mb_name = js ''B'', mb_email = js ''a@c.d''\<rparr>]"
  by code_simp

text \<open>a soft margin above the default hard margin is accepted without a hard margin, and then
  lines are longer than the hard margin.\<close>

theorem hard_margin_below_soft:
  "hard_margin (header_emitter (default_options\<lparr>eo_soft := Some 400\<rparr>)) = 332
   \<and> emit_structured_header (\<lambda>_. 0) default_encoders (js ''subject'') (VText (replicate 350 97))
       (default_options\<lparr>eo_soft := Some 400\<rparr>) =
     Some (Inr (js ''Subject: '' @ replicate 350 97 @ [13, 10]))"
  by code_simp

end
