(* ===== verification/EmitterRoundtrip.thy ===== *)
theory EmitterRoundtrip
  imports EmitterLines
begin

text \<open>
  What the emitter writes is read back.  While words are added, the emitter is \<open>open\<close>: its line
  ends with a single space, and what it has written is the name of the header, a colon and a body
  whose line ends are all folds.  Then the parser finds the body again.
\<close>

section \<open>Folded text\<close>

text \<open>Text whose only line ends are folds, and the text without them.\<close>

fun fold_text :: "jstr \<Rightarrow> bool" where
  "fold_text [] = True"
| "fold_text (c # s) =
     (if c = 13 then (case s of d # f # s' \<Rightarrow> d = 10 \<and> f = 32 \<and> fold_text s' | _ \<Rightarrow> False)
      else c \<noteq> 10 \<and> fold_text s)"

definition unfold :: "jstr \<Rightarrow> jstr" where
  "unfold s = filter (\<lambda>c. c \<noteq> 13 \<and> c \<noteq> 10) s"

definition no_eol :: "jstr \<Rightarrow> bool" where
  "no_eol s \<longleftrightarrow> 13 \<notin> set s \<and> 10 \<notin> set s"

lemma unfold_simps [simp]:
  "unfold [] = []" "unfold (c # s) = (if c \<noteq> 13 \<and> c \<noteq> 10 then c # unfold s else unfold s)"
  "unfold (s @ t) = unfold s @ unfold t"
  by (auto simp: unfold_def)

lemma unfold_no_eol: "no_eol s \<Longrightarrow> unfold s = s"
  by (auto simp: unfold_def no_eol_def filter_id_conv)

lemma no_eol_simps [simp]:
  "no_eol []" "no_eol (c # s) \<longleftrightarrow> c \<noteq> 13 \<and> c \<noteq> 10 \<and> no_eol s" "no_eol (s @ t) \<longleftrightarrow> no_eol s \<and> no_eol t"
  by (auto simp: no_eol_def)

lemma fold_text_append: "fold_text s \<Longrightarrow> fold_text t \<Longrightarrow> fold_text (s @ t)"
  by (induction s rule: fold_text.induct) (auto split: list.splits if_splits)

lemma fold_text_no_eol: "no_eol s \<Longrightarrow> fold_text s"
  by (induction s) auto

lemma fold_text_fold: "fold_text (13 # 10 # 32 # s) = fold_text s"
  by simp

lemma fold_text_front: "fold_text (s @ [32]) \<Longrightarrow> s = [] \<or> last s \<noteq> 10 \<Longrightarrow> fold_text s"
proof (induction s rule: fold_text.induct)
  case (2 c s)
  show ?case
  proof (cases "c = 13")
    case True
    then obtain d f t where s: "s = d # f # t"
      using "2.prems" by (cases s; cases "tl s") auto
    then have "fold_text (t @ [32])" "t = [] \<or> last t \<noteq> 10" "d = 10" "f = 32"
      using "2.prems" True by auto
    then show ?thesis using "2.IH"(1) [OF True s refl] True s by simp
  next
    case False
    have "s = [] \<or> last s \<noteq> 10" using "2.prems"(2) by (cases s) auto
    then show ?thesis using "2.IH"(2) [OF False] "2.prems"(1) False by simp
  qed
qed simp

text \<open>A folded text is one header for the constructor of \<open>StructuredHeaders\<close>.\<close>

lemma unsplit_fold_text: "fold_text s \<Longrightarrow> unsplit s"
proof (induction s rule: fold_text.induct)
  case (2 c s)
  show ?case
  proof (cases "c = 13")
    case True
    then obtain s' where "s = 10 # 32 # s'" "fold_text s'"
      using 2 by (auto split: list.splits)
    then show ?thesis using 2 True unsplit_fold by auto
  next
    case False
    then show ?thesis using 2 by (auto intro: unsplit_Cons)
  qed
qed (simp add: unsplit_Nil)

lemma filter_dropWhile: "(\<And>x. \<not> P x \<Longrightarrow> Q x) \<Longrightarrow> filter P (dropWhile Q s) = dropWhile Q (filter P s)"
  by (induction s) auto

lemma unfold_trim: "unfold (trim s) = trim (unfold s)"
proof -
  have d: "filter (\<lambda>c. c \<noteq> 13 \<and> c \<noteq> 10) (dropWhile js_ws t) = dropWhile js_ws (filter (\<lambda>c. c \<noteq> 13 \<and> c \<noteq> 10) t)" for t
    using ws_line_end by (intro filter_dropWhile) auto
  show ?thesis
    unfolding unfold_def trim_def trim_right_def trim_left_def rev_filter [symmetric] d ..
qed

text \<open>The raw header that the parser finds in one emitted header.\<close>

lemma raw_of_folded:
  assumes "fold_text body" and "name \<noteq> []" and "58 \<notin> set name" and "\<forall>c\<in>set name. \<not> js_ws c"
  shows "raw_headers (structured_headers (name @ 58 # body @ [13, 10]) True charset) =
    [(to_lower name, [trim (unfold body)])]"
proof -
  have "no_eol name" using assms(4) ws_line_end by (auto simp: no_eol_def)
  then have "unsplit (name @ 58 # body)"
    using unsplit_text [of name "58 # body"] unsplit_Cons [of 58 body] unsplit_fold_text [OF assms(1)]
    by (simp add: no_eol_def)
  then have split: "split_headers (name @ 58 # body @ [13, 10]) = [name @ 58 # body, []]"
    unfolding unsplit_def by (metis append.assoc append_Cons folds.simps(1) split_headers.simps(1))
  have "32 \<notin> set name" using assms(4) by (metis js_ws_space)
  then have "take 5 (name @ 58 # body) \<noteq> js ''From ''"
  proof -
    have "index_of 58 (name @ 58 # body) = Some (length name)" by (rule index_of_append [OF assms(3)])
    show ?thesis
    proof
      assume t: "take 5 (name @ 58 # body) = js ''From ''"
      show False
      proof (cases "length name < 5")
        case True
        then have "58 \<in> set (take 5 (name @ 58 # body))" by (simp add: take_Cons')
        then show False unfolding t by simp
      next
        case False
        then have "take 5 name = js ''From ''" using t by simp
        then have "32 \<in> set (take 5 name)" by simp
        then show False using \<open>32 \<notin> set name\<close> by (auto dest: in_set_takeD)
      qed
    qed
  qed
  then have lines: "header_lines (name @ 58 # body @ [13, 10]) = ([name @ 58 # body, []], name @ 58 # body @ [13, 10])"
    by (simp add: header_lines_def split)
  have "trim name = name" using assms(4) by (intro trim_id) auto
  then have field: "header_field True (name @ 58 # body) = (to_lower name, trim (unfold body))"
    using index_of_append [OF assms(3), of body] unfold_trim [of body]
    by (simp add: header_field_def unfold_def)
  have "header_field True [] = ([], [])" by (simp add: header_field_def trim_id)
  moreover have "to_lower name \<noteq> []" using assms(2) by (simp add: to_lower_def)
  ultimately show ?thesis
    by (simp add: structured_headers_def lines field add_field_def)
qed

section \<open>Adding words\<close>

definition written :: "emitter \<Rightarrow> jstr" where
  "written e = concat (delivered e) @ current_line e"

definition same_options :: "emitter \<Rightarrow> emitter \<Rightarrow> bool" where
  "same_options o' e \<longleftrightarrow> use_ascii e = use_ascii o' \<and> soft_margin e = soft_margin o' \<and> hard_margin e = hard_margin o'"

text \<open>The emitter between two words: what is written, without the space at its end, is the content.\<close>

definition open_line :: "emitter \<Rightarrow> jstr \<Rightarrow> jstr \<Rightarrow> emitter \<Rightarrow> bool" where
  "open_line o' name content e \<longleftrightarrow> same_options o' e \<and>
     (\<exists>body a. written e = name @ 58 # body @ [32] \<and> fold_text (body @ [32]) \<and> unfold body = content
        \<and> current_line e = a @ [32] \<and> (a \<noteq> [] \<longrightarrow> \<not> js_ws (last a))
        \<and> (preferred_breakpoint e = 0 \<or> preferred_breakpoint e = length a))"

definition closed_line :: "emitter \<Rightarrow> jstr \<Rightarrow> jstr \<Rightarrow> emitter \<Rightarrow> bool" where
  "closed_line o' name content e \<longleftrightarrow> same_options o' e \<and>
     (\<exists>body. written e = name @ 58 # body \<and> fold_text body \<and> unfold body = content
        \<and> current_line e \<noteq> [] \<and> \<not> js_ws (last (current_line e)))"

lemma commit_open:
  assumes "open_line o' name content e" and "current_line e = a @ [32]" and "a \<noteq> []"
    and "n = length a \<or> n = Suc (length a)"
  shows "open_line o' name content (commit_line (Some n) e) \<and> current_line (commit_line (Some n) e) = [32]"
proof -
  obtain body where b: "written e = name @ 58 # body @ [32]" "fold_text (body @ [32])" "unfold body = content"
    and same: "same_options o' e" and last: "\<not> js_ws (last a)"
    using assms(1-3) by (auto simp: open_line_def)
  have front: "concat (delivered e) @ a = name @ 58 # body"
    using b(1) assms(2) by (simp add: written_def)
  have "trim_right a = a" using last by (intro trim_right_id) simp
  then have "trim_right (take n (current_line e)) = a \<and> trim_left (drop n (current_line e)) = []"
    using assms(2,4) by (auto simp: trim_left_def)
  then have c: "delivered (commit_line (Some n) e) = delivered e @ [a @ [13, 10]]"
    "current_line (commit_line (Some n) e) = [32]" "preferred_breakpoint (commit_line (Some n) e) = 0"
    by (simp_all add: commit_line_def)
  have "last (58 # body) = last a" using arg_cong [OF front, of last] assms(3) by simp
  then have "body = [] \<or> last body \<noteq> 10" using last ws_line_end by (cases "body = []") auto
  with b(2) have "fold_text body" by (rule fold_text_front)
  then have "fold_text ((body @ [13, 10]) @ [32])" using fold_text_append [of body "[13, 10, 32]"] by simp
  moreover have "written (commit_line (Some n) e) = name @ 58 # (body @ [13, 10]) @ [32]"
  proof -
    have "written (commit_line (Some n) e) = (concat (delivered e) @ a) @ [13, 10, 32]"
      by (simp add: written_def c)
    then show ?thesis unfolding front by simp
  qed
  moreover have "same_options o' (commit_line (Some n) e)" using same by (simp add: same_options_def)
  moreover have "unfold (body @ [13, 10]) = content" using b(3) by simp
  ultimately show ?thesis
    unfolding open_line_def using c(2,3)
    by (intro conjI exI [of _ "body @ [13, 10]"] exI [of _ "[]"]) simp_all
qed

lemma reserve_open:
  assumes "open_line o' name content e" and "n < hard_margin o'"
  shows "\<exists>e'. reserve_token_space n e = (True, e') \<and> open_line o' name content e'"
proof -
  obtain a where a: "current_line e = a @ [32]"
    and bp: "preferred_breakpoint e = 0 \<or> preferred_breakpoint e = length a"
    using assms(1) by (auto simp: open_line_def)
  have hard: "hard_margin e = hard_margin o'" using assms(1) by (simp add: open_line_def same_options_def)
  show ?thesis
  proof (cases "a = []")
    case True
    then show ?thesis
      using a bp assms hard by (auto simp: reserve_token_space_def Let_def)
  next
    case False
    note c = commit_open [OF assms(1) a False]
    have c1: "open_line o' name content (commit_line (Some (length a)) e)"
      "current_line (commit_line (Some (length a)) e) = [32]"
      and c2: "open_line o' name content (commit_line (Some (Suc (length a))) e)"
      "current_line (commit_line (Some (Suc (length a))) e) = [32]"
      using c by auto
    show ?thesis
      using a bp assms hard False c1 c2 unfolding reserve_token_space_def Let_def
      by (cases "preferred_breakpoint e = 0") auto
  qed
qed

lemma add_text_open:
  assumes "open_line o' name content e" and "length w < hard_margin o'"
    and "w \<noteq> []" "no_eol w" "\<not> js_ws (last w)"
  shows "\<exists>e'. add_text w True e = Some (e', None) \<and> open_line o' name (content @ 32 # w) e'"
    and "\<exists>e'. add_text w False e = Some (e', None) \<and> closed_line o' name (content @ 32 # w) e'"
proof -
  obtain e1 where r: "reserve_token_space (length w) e = (True, e1)" and o1: "open_line o' name content e1"
    using reserve_open [OF assms(1,2)] by blast
  obtain body a where b: "written e1 = name @ 58 # body @ [32]" "fold_text (body @ [32])"
    "unfold body = content" "current_line e1 = a @ [32]" and same: "same_options o' e1"
    using o1 by (auto simp: open_line_def)
  have w32: "last w \<noteq> 32" using assms(5) by auto
  have f: "fold_text ((body @ [32]) @ w)" 
    by (rule fold_text_append [OF b(2) fold_text_no_eol [OF assms(4)]])
  then have f2: "fold_text (((body @ [32]) @ w) @ [32])" by (rule fold_text_append) simp
  have u: "unfold ((body @ [32]) @ w) = content @ 32 # w" using b(3) assms(4) by (simp add: unfold_no_eol)
  let ?e = "e1\<lparr>current_line := current_line e1 @ w @ [32],
      preferred_breakpoint := length (current_line e1 @ w)\<rparr>"
  have "open_line o' name (content @ 32 # w) ?e"
    unfolding open_line_def
  proof (intro conjI exI)
    show "written ?e = name @ 58 # ((body @ [32]) @ w) @ [32]" using b(1) by (simp add: written_def)
    show "current_line ?e = (current_line e1 @ w) @ [32]" by simp
  qed (use same f2 u assms(3,5) in \<open>simp_all add: same_options_def\<close>)
  then show "\<exists>e'. add_text w True e = Some (e', None) \<and> open_line o' name (content @ 32 # w) e'"
    using r w32 by (simp add: add_text_def)
  have "closed_line o' name (content @ 32 # w) (e1\<lparr>current_line := current_line e1 @ w\<rparr>)"
    unfolding closed_line_def
  proof (intro conjI exI)
    show "written (e1\<lparr>current_line := current_line e1 @ w\<rparr>) = name @ 58 # (body @ [32]) @ w"
      using b(1) by (simp add: written_def)
  qed (use same f u assms(3,5) in \<open>simp_all add: same_options_def\<close>)
  then show "\<exists>e'. add_text w False e = Some (e', None) \<and> closed_line o' name (content @ 32 # w) e'"
    using r by (simp add: add_text_def)
qed

text \<open>A sequence of words, the last of which closes the line.\<close>

definition good_word :: "nat \<Rightarrow> jstr \<Rightarrow> bool" where
  "good_word h w \<longleftrightarrow> length w < h \<and> w \<noteq> [] \<and> no_eol w \<and> \<not> js_ws (last w)"

fun add_texts :: "jstr list \<Rightarrow> emit" where
  "add_texts [] = skip"
| "add_texts [w] = add_text w False"
| "add_texts (w # ws) = and_then (add_text w True) (add_texts ws)"

lemma add_texts_open:
  assumes "open_line o' name content e" and "ws \<noteq> []" and "list_all (good_word (hard_margin o')) ws"
  shows "\<exists>e'. add_texts ws e = Some (e', None) \<and> closed_line o' name (content @ 32 # join [32] ws) e'"
  using assms
proof (induction ws arbitrary: content e rule: add_texts.induct)
  case (2 w)
  then show ?case using add_text_open(2) by (simp add: good_word_def)
next
  case (3 w v ws)
  then obtain e1 where e1: "add_text w True e = Some (e1, None)" "open_line o' name (content @ 32 # w) e1"
    using add_text_open(1) by (fastforce simp: good_word_def)
  then show ?case using "3.IH" [OF e1(2)] "3.prems" by (simp add: and_then_def)
qed simp

lemma add_words_texts: "\<forall>w\<in>set ws. w \<noteq> [] \<Longrightarrow> add_words [] False ws = add_texts ws"
  by (induction ws rule: add_texts.induct) (simp_all add: add_quotable_def needs_quote_def)

lemma add_encoded_texts:
  "add_encoded ws False = add_texts (map (\<lambda>w. rfc2047_word (fst w) (snd w)) ws)"
  by (induction ws rule: induct_list012) (simp_all add: add_rfc2047_word_def)
section \<open>Unstructured headers\<close>

lemma start_open:
  assumes "length sp + 2 \<le> soft_margin (header_emitter opts)"
  shows "\<exists>e. add_header_name sp (header_emitter opts) = Some (e, None) \<and> open_line (header_emitter opts) sp [] e"
proof -
  let ?e = "header_emitter opts"
  have new: "current_line ?e = []" "delivered ?e = []" "preferred_breakpoint ?e = 0"
    "?e\<lparr>current_line := []\<rparr> = ?e"
    by (simp_all add: header_emitter_def Let_def)
  let ?e1 = "?e\<lparr>current_line := sp @ [58, 32]\<rparr>"
  have "add_header_name sp ?e = Some (?e1, None)"
    using assms new(1) by (simp add: add_header_name_def add_text_def reserve_token_space_def new(4))
  moreover have "open_line ?e sp [] ?e1"
    unfolding open_line_def
  proof (intro conjI exI)
    show "written ?e1 = sp @ 58 # [] @ [32]" using new by (simp add: written_def)
    show "current_line ?e1 = (sp @ [58]) @ [32]" by simp
  qed (use new in \<open>simp_all add: same_options_def js_ws_def\<close>)
  ultimately show ?thesis by blast
qed

lemma printable_no_eol: "list_all printable s \<Longrightarrow> no_eol s"
  by (auto simp: no_eol_def list_all_iff printable_def)

lemma printable_ws: "printable c \<Longrightarrow> js_ws c \<longleftrightarrow> c = 32"
  by (auto simp: printable_def js_ws_def)

lemma set_split_on: "w \<in> set (split_on c s) \<Longrightarrow> set w \<subseteq> set s - {c}"
  by (induction s arbitrary: w) (fastforce split: if_splits list.splits)+

lemma split_on_word:
  assumes "list_all printable t" and "w \<in> set (split_on 32 t)" and "w \<noteq> []"
  shows "no_eol w \<and> \<not> js_ws (last w)"
proof -
  have w: "list_all printable w" "32 \<notin> set w"
    using assms(1) set_split_on [OF assms(2)] by (auto simp: list_all_iff)
  then have "last w \<noteq> 32" "printable (last w)"
    using last_in_set [OF assms(3)] by (auto simp: list_all_iff)
  then show ?thesis using w(1) printable_no_eol printable_ws by blast
qed

lemma last_join: "ws \<noteq> [] \<Longrightarrow> last ws \<noteq> [] \<Longrightarrow> join sep ws \<noteq> [] \<and> last (join sep ws) = last (last ws)"
  by (induction sep ws rule: join.induct) auto

definition ascii_words :: "nat \<Rightarrow> jstr \<Rightarrow> bool" where
  "ascii_words h t \<longleftrightarrow> list_all printable t \<and> list_all (\<lambda>w. w \<noteq> [] \<and> length w < h) (split_on 32 t)"

lemma phrase_ascii:
  assumes "open_line o' name content e" and "soft_margin o' \<le> hard_margin o'"
    and "t = collapse is_wsp [32] txt0" and "ascii_words (hard_margin o') t"
  shows "\<exists>e'. add_phrase txt0 [] False e = Some (e', None) \<and> closed_line o' name (content @ 32 # t) e'"
proof -
  let ?ws = "split_on 32 t"
  have t: "list_all printable t" and ws: "\<forall>w\<in>set ?ws. w \<noteq> [] \<and> length w < hard_margin o'"
    using assms(4) by (auto simp: ascii_words_def list_all_iff)
  have na: "\<not> non_ascii t" using t by (simp add: non_ascii_printable)
  have "list_all (good_word (hard_margin o')) ?ws"
    using ws split_on_word [OF t] by (auto simp: good_word_def list_all_iff)
  from add_texts_open [OF assms(1) _ this]
  have words: "\<exists>e'. add_words [] False ?ws e = Some (e', None) \<and> closed_line o' name (content @ 32 # t) e'"
    using ws by (simp add: add_words_texts join_split_on)
  show ?thesis
  proof (cases "length (current_line e) + length t < soft_margin e")
    case True
    have ne: "t \<noteq> []" using ws by auto
    have "last ?ws \<in> set ?ws" by simp
    then have "\<not> js_ws (last (last ?ws)) \<and> last ?ws \<noteq> []" using ws split_on_word [OF t] by blast
    moreover have "last t = last (last ?ws)" if "last ?ws \<noteq> []"
      using last_join [of ?ws "[32]"] that by (simp add: join_split_on)
    ultimately have last: "\<not> js_ws (last t)" by simp
    have "soft_margin e = soft_margin o'" using assms(1) by (simp add: open_line_def same_options_def)
    then have "length t < hard_margin o'" using True assms(2) by simp
    from add_text_open(2) [OF assms(1) this ne printable_no_eol [OF t] last]
    obtain e1 where e1: "add_text t False e = Some (e1, None)" "closed_line o' name (content @ 32 # t) e1"
      by blast
    have "closed_line o' name (content @ 32 # t) (break_at_last_space t e1)"
      using e1(2) by (auto simp: break_at_last_space_def closed_line_def same_options_def written_def)
    then show ?thesis
      using True na e1(1) ne assms(3)
      by (simp add: add_phrase_def Let_def add_quotable_def needs_quote_def try_return_def)
  next
    case False
    then show ?thesis using na words assms(3) by (simp add: add_phrase_def Let_def)
  qed
qed

lemma word_token: "good_chunk s w \<Longrightarrow> s < h \<Longrightarrow> good_word h (rfc2047_word (fst w) (snd w))"
proof -
  assume "good_chunk s w" "s < h"
  moreover have "rfc2047_word (fst w) (snd w) \<noteq> []" "last (rfc2047_word (fst w) (snd w)) = 61"
    by (simp_all add: rfc2047_word_def)
  ultimately show ?thesis
    using printable_no_eol [OF word_printable] by (simp add: good_word_def good_chunk_def js_ws_def)
qed

lemma phrase_encoded:
  assumes "open_line o' name content e" and "soft_margin o' < hard_margin o'" and "30 \<le> soft_margin o'"
    and "t = collapse is_wsp [32] txt0" and "use_ascii o'" and "non_ascii t"
  shows "\<exists>e' ws. add_phrase txt0 [] False e = Some (e', None) \<and> ws \<noteq> [] \<and> concat (map fst ws) = utf8_encode t
     \<and> list_all (good_chunk (soft_margin o')) ws
     \<and> closed_line o' name (content @ 32 # join [32] (map (\<lambda>w. rfc2047_word (fst w) (snd w)) ws)) e'"
proof -
  have same: "use_ascii e" "soft_margin e = soft_margin o'"
    using assms(1,5) by (simp_all add: open_line_def same_options_def)
  from encode_phrase_words [of e t False] assms(3) same(2)
  obtain ws where ws: "ws \<noteq> []" "concat (map fst ws) = utf8_encode t"
    "list_all (good_chunk (soft_margin o')) ws"
    "encode_rfc2047_phrase t False e = add_encoded ws False (room_for_word e)" by auto
  have "length b64_prelude + 10 < hard_margin o'" using assms(2,3) by (simp add: b64_prelude_def)
  from reserve_open [OF assms(1) this]
  have room: "open_line o' name content (room_for_word e)" by (auto simp: room_for_word_def)
  let ?ts = "map (\<lambda>w. rfc2047_word (fst w) (snd w)) ws"
  have "list_all (good_word (hard_margin o')) ?ts"
    using ws(3) word_token [OF _ assms(2)] by (auto simp: list_all_iff)
  from add_texts_open [OF room _ this] ws(1)
  obtain e' where "add_texts ?ts (room_for_word e) = Some (e', None)"
    "closed_line o' name (content @ 32 # join [32] ?ts) e'" by auto
  moreover have "add_phrase txt0 [] False e = encode_rfc2047_phrase t False e"
    using same(1) assms(4,6) by (simp add: add_phrase_def Let_def)
  then have "add_phrase txt0 [] False e = add_texts ?ts (room_for_word e)"
    unfolding ws(4) add_encoded_texts .
  ultimately show ?thesis using ws(1-3) by (intro exI [of _ e'] exI [of _ ws]) simp
qed

lemma finish_closed:
  assumes "closed_line o' name content e"
  shows "\<exists>e' body. finish True e = Some (e', None) \<and> concat (delivered e') = name @ 58 # body @ [13, 10]
     \<and> fold_text body \<and> unfold body = content"
proof -
  obtain body where b: "written e = name @ 58 # body" "fold_text body" "unfold body = content"
    "current_line e \<noteq> []" "\<not> js_ws (last (current_line e))"
    using assms by (auto simp: closed_line_def)
  then have "trim_right (current_line e) = current_line e" by (intro trim_right_id) simp
  then have "concat (delivered (commit_line None e)) = written e @ [13, 10]"
    by (simp add: commit_line_def written_def)
  then show ?thesis using b by (auto simp: finish_def Let_def)
qed

lemma emit_unstructured:
  assumes "map_of (encoders r) (to_lower header) = Some (Builtin WriteUnstructured)"
    and "map_of (preferred_spellings r) (to_lower header) = Some sp"
    and "length sp + 2 \<le> soft_margin (header_emitter opts)" and "t \<noteq> []"
    and phrase: "\<And>e. open_line (header_emitter opts) sp [] e \<Longrightarrow>
      \<exists>e'. add_phrase t [] False e = Some (e', None) \<and> closed_line (header_emitter opts) sp content e'"
  shows "\<exists>body. emit_structured_header tz r header (VText t) opts = Some (Inr (sp @ 58 # body @ [13, 10]))
     \<and> fold_text body \<and> unfold body = content"
proof -
  obtain e where e: "add_header_name sp (header_emitter opts) = Some (e, None)"
    "open_line (header_emitter opts) sp [] e"
    using start_open [OF assms(3)] by blast
  obtain e1 where e1: "add_phrase t [] False e = Some (e1, None)" "closed_line (header_emitter opts) sp content e1"
    using phrase [OF e(2)] by blast
  obtain e2 body where "finish True e1 = Some (e2, None)" "concat (delivered e2) = sp @ 58 # body @ [13, 10]"
    "fold_text body" "unfold body = content"
    using finish_closed [OF e1(2)] by blast
  then show ?thesis
    using assms(1,2,4) e(1) e1(1)
    by (simp add: emit_structured_header_def string_of_run_def add_structured_header_def and_then_def
        run_encoder_def add_unstructured_def)
qed

section \<open>Reading encoded words\<close>

definition underscore_space :: "jchar \<Rightarrow> jchar" where
  "underscore_space c = (if c = 95 then 32 else c)"

lemma hex_string_digits:
  "n < 16 \<Longrightarrow> is_hex (hex_string ! n) \<and> hex_val (hex_string ! n) = n \<and> hex_string ! n \<noteq> 95"
proof -
  have "list_all (\<lambda>n. is_hex (hex_string ! n) \<and> hex_val (hex_string ! n) = n \<and> hex_string ! n \<noteq> 95) [0..<16]"
    by code_simp
  then show "n < 16 \<Longrightarrow> is_hex (hex_string ! n) \<and> hex_val (hex_string ! n) = n \<and> hex_string ! n \<noteq> 95"
    by (simp add: list_all_iff)
qed

lemma qp_text_chars:
  "binary bs \<Longrightarrow> qp_text (map underscore_space (concat (map qp_char bs))) = bs"
proof (induction bs)
  case (Cons b bs)
  let ?r = "map underscore_space (concat (map qp_char bs))"
  have b: "b < 256" and IH: "qp_text ?r = bs" using Cons by simp_all
  show ?case
  proof (cases "qp_escaped b")
    case True
    have d: "b div 16 mod 16 = b div 16" "b div 16 < 16" "16 * (b div 16) + b mod 16 = b"
      using b by simp_all
    obtain h l where hl: "qp_char b = [61, h, l]" "is_hex h" "is_hex l" "h \<noteq> 95" "l \<noteq> 95"
      "16 * hex_val h + hex_val l = b"
      using True hex_string_digits [of "b div 16"] hex_string_digits [of "b mod 16"] d
      by (simp add: qp_char_def)
    then show ?thesis using IH by (simp add: underscore_space_def [of 61] underscore_space_def [of h]
        underscore_space_def [of l] qp_escape_def)
  next
    case False
    then have "b \<noteq> 61" "b \<noteq> 95" by (auto simp: qp_escaped_def qp_forbidden_def)
    then show ?thesis
      using False IH by (simp add: qp_char_def [of b] underscore_space_def [of b] underscore_space_def [of 95])
  qed
qed simp

lemma qp_chars_no_question: "63 \<notin> set (concat (map qp_char bs))"
proof -
  have "hex_string ! n \<noteq> 63" if "n < 16" for n
    using hex_string_digits [OF that] by (auto simp: is_hex_def is_digit_def)
  moreover have "qp_escaped 63" by (simp add: qp_escaped_def qp_forbidden_def)
  ultimately have "63 \<notin> set (qp_char b)" for b by (auto simp: qp_char_def)
  then show ?thesis by auto
qed

text \<open>An emitted word as the parser sees it.\<close>

definition word_code :: "bool \<Rightarrow> jchar" where
  "word_code q = (if q then 81 else 66)"

definition word_text :: "nat list \<Rightarrow> bool \<Rightarrow> jstr" where
  "word_text bs q = (if q then concat (map qp_char bs) else btoa bs)"

lemma word_is_enc_word: "rfc2047_word bs q = enc_word (js ''UTF-8'') (word_code q) (word_text bs q)"
  by (simp add: rfc2047_word_def enc_word_def word_code_def word_text_def qp_prelude_def b64_prelude_def
      typed_array_to_string_id)

lemma word_text_ok:
  assumes "binary bs"
  shows "63 \<notin> set (word_text bs q)" "decode_2047_bytes [word_code q] (word_text bs q) = Inr (Some bs)"
proof -
  have chars: "list_all (\<lambda>c. is_b64 c \<or> c = 61) (btoa bs)" by (rule btoa_b64 [OF assms])
  have "63 \<notin> set (btoa bs)"
    using chars by (auto simp: list_all_iff is_b64_def is_upper_def is_lower_def is_digit_def)
  then show "63 \<notin> set (word_text bs q)" using qp_chars_no_question by (simp add: word_text_def)
  have "decode_base64 (btoa bs) False = Inr (bs, [])" using assms by (rule decode_base64_btoa)
  moreover have "\<not> (\<exists>c\<in>set (btoa bs). \<not> (c = 32 \<or> is_b64 c \<or> c = 61))"
    using chars by (auto simp: list_all_iff)
  moreover have "underscore_space = (\<lambda>c. if c = 95 then 32 else c)"
    by (simp add: fun_eq_iff underscore_space_def)
  ultimately show "decode_2047_bytes [word_code q] (word_text bs q) = Inr (Some bs)"
    using qp_text_chars [OF assms]
    by (auto simp: decode_2047_bytes_def word_code_def word_text_def decode_qp_def)
qed

text \<open>A decoder that is fed chunk by chunk, as \<open>TextDecoder\<close> with \<open>stream: true\<close>.\<close>

fun decode_stream :: "'d charset_api \<Rightarrow> 'd \<Rightarrow> nat list list \<Rightarrow> js_error + jstr" where
  "decode_stream api d [] = Inr []"
| "decode_stream api d [c] = bindE (run_decoder api d c False) (\<lambda>(t, _). Inr t)"
| "decode_stream api d (c # cs) =
     bindE (run_decoder api d c True) (\<lambda>(t, d'). bindE (decode_stream api d' cs) (\<lambda>r. Inr (t @ r)))"

fun word_components :: "(nat list \<times> bool) list \<Rightarrow> jstr list" where
  "word_components [] = [[]]"
| "word_components (w # ws) = [32] # rfc2047_word (fst w) (snd w) # word_components ws"

lemma charset_ok: "63 \<notin> set (js ''UTF-8'')" "42 \<notin> set (js ''UTF-8'')" "js ''UTF-8'' \<noteq> []"
  "is_2047_encoding (word_code q)" "charset_of_token (js ''UTF-8'') = js ''UTF-8''"
  "to_upper (js ''UTF-8'') \<noteq> js ''ISO-2022-JP''"
  by (simp_all add: is_2047_encoding_def word_code_def charset_of_token_def to_upper_def)

lemma split_2047_word:
  assumes "binary bs"
  shows "split_2047 acc (rfc2047_word bs q @ r) = acc # rfc2047_word bs q # split_2047 [] r"
proof -
  obtain c s where w: "rfc2047_word bs q = c # s" by (simp add: word_is_enc_word enc_word_def)
  have "enc_word_rest (rfc2047_word bs q @ r) = Some r"
    unfolding word_is_enc_word
    by (rule enc_word_rest_enc_word [OF charset_ok(1) word_text_ok(1) [OF assms] charset_ok(4)])
  then show ?thesis by (simp add: w)
qed

lemma split_2047_words:
  assumes "list_all (binary \<circ> fst) (w # ws)"
  shows "split_2047 acc (join [32] (map (\<lambda>w. rfc2047_word (fst w) (snd w)) (w # ws))) =
     acc # rfc2047_word (fst w) (snd w) # word_components ws"
  using assms
proof (induction ws arbitrary: acc w)
  case Nil
  then show ?case using split_2047_word [of "fst w" acc "snd w" "[]"] by simp
next
  case (Cons v ws)
  have sp: "split_2047 [] (32 # s) = split_2047 [32] s" for s by (simp add: enc_word_rest_def)
  show ?case
    using split_2047_word [of "fst w" acc "snd w"] Cons sp by simp
qed

text \<open>The decoder that the next word finds, or gets.\<close>

definition word_decoder :: "'d charset_api \<Rightarrow> jstr \<Rightarrow> 'd words_state \<Rightarrow> 'd \<Rightarrow> bool" where
  "word_decoder api cs st d \<longleftrightarrow>
     last_charset st = [] \<and> current_decoder st = None \<and> new_decoder api cs False = Inr d
     \<or> last_charset st = cs \<and> current_decoder st = Some d"

lemma decode_token:
  assumes "split_on 63 tok = [p, cs, e, x, [61]]" and "charset_of_token cs = cs" and "cs \<noteq> []"
    and "to_upper cs \<noteq> js ''ISO-2022-JP''" and "decode_2047_bytes e x = Inr (Some bs)" and "binary bs"
    and "word_decoder api cs st d"
  shows "decode_2047_token api tok is_last st =
     bindE (run_decoder api d bs (\<not> is_last)) (\<lambda>(t, d').
       Inr (Some t, st\<lparr>last_charset := cs, current_decoder := Some d'\<rparr>))"
proof -
  have bytes: "string_to_typed_array bs = bs" using assms(6) by (rule string_to_typed_array_id)
  have eq: "js ''='' = [61]" by simp
  consider "last_charset st = []" "current_decoder st = None" "new_decoder api cs False = Inr d"
    | "last_charset st = cs" "current_decoder st = Some d"
    using assms(7) by (auto simp: word_decoder_def)
  then show ?thesis
    by cases (simp_all add: decode_2047_token_def assms(1-5) eq Let_def flush_decoder_def bytes
        del: js_Cons)
qed

lemma decode_word:
  assumes "binary bs" and "word_decoder api (js ''UTF-8'') st d"
  shows "decode_2047_token api (rfc2047_word bs q) is_last st =
     bindE (run_decoder api d bs (\<not> is_last)) (\<lambda>(t, d').
       Inr (Some t, st\<lparr>last_charset := js ''UTF-8'', current_decoder := Some d'\<rparr>))"
  by (rule decode_token [OF _ charset_ok(5,3,6) word_text_ok(2) [OF assms(1)] assms])
    (simp only: word_is_enc_word split_on_enc_word [OF charset_ok(1) word_text_ok(1) [OF assms(1)] charset_ok(4)])

lemma word_component: "is_2047_component (rfc2047_word bs q)"
  by (simp add: word_is_enc_word)

lemma decode_components_word:
  assumes "binary bs" and "word_decoder api (js ''UTF-8'') st d"
  shows "decode_components api last_i i (rfc2047_word bs q # cs) st =
     bindE (run_decoder api d bs (last_i \<noteq> Some i)) (\<lambda>(t, d').
       bindE (decode_components api last_i (Suc i) cs
                (st\<lparr>last_charset := js ''UTF-8'', current_decoder := Some d'\<rparr>)) (\<lambda>r. Inr (t @ r)))"
  unfolding decode_components.simps decode_word [OF assms] if_P [OF word_component] Let_def bindE_assoc
  by (cases "run_decoder api d bs (last_i \<noteq> Some i)") (auto split: prod.split)

lemma decode_components_words:
  assumes "list_all (binary \<circ> fst) (w # ws)" and "word_decoder api (js ''UTF-8'') st d"
    and "last_i = i + 2 * length ws"
  shows "decode_components api (Some last_i) i (rfc2047_word (fst w) (snd w) # word_components ws) st =
     decode_stream api d (map fst (w # ws))"
  using assms
proof (induction ws arbitrary: i st d w)
  case Nil
  then have w: "binary (fst w)" and i: "last_i = i" by simp_all
  show ?case
    unfolding decode_components_word [OF w Nil.prems(2)] i
    by (cases "run_decoder api d (fst w) False") auto
next
  case (Cons v ws)
  then have w: "binary (fst w)" and i: "Some last_i \<noteq> Some i" by simp_all
  have space: "\<not> is_2047_component [32]" by (simp add: is_2047_component_def)
  show ?case
  proof (cases "run_decoder api d (fst w) True")
    case (Inl err)
    then show ?thesis unfolding decode_components_word [OF w Cons.prems(2)] using i by simp
  next
    case (Inr y)
    obtain t d' where y: "y = (t, d')" by (cases y)
    let ?st = "st\<lparr>last_charset := js ''UTF-8'', current_decoder := Some d'\<rparr>"
    have "word_decoder api (js ''UTF-8'') ?st d'" by (simp add: word_decoder_def)
    moreover have "last_i = Suc (Suc i) + 2 * length ws" "list_all (binary \<circ> fst) (v # ws)"
      using Cons.prems(1,3) by (simp_all add: comp_def)
    ultimately have "decode_components api (Some last_i) (Suc (Suc i))
        (rfc2047_word (fst v) (snd v) # word_components ws) ?st = decode_stream api d' (map fst (v # ws))"
      by (intro Cons.IH)
    then have "decode_components api (Some last_i) (Suc i) (word_components (v # ws)) ?st =
        decode_stream api d' (map fst (v # ws))"
      using space by (simp add: is_wsp_def)
    then show ?thesis
      unfolding decode_components_word [OF w Cons.prems(2)] using i Inr y by simp
  qed
qed

lemma last_component_words:
  "last_component i (rfc2047_word (fst w) (snd w) # word_components ws) = Some (i + 2 * length ws)"
proof (induction ws arbitrary: i w)
  case (Cons v ws)
  have "\<not> is_2047_component [32]" by (simp add: is_2047_component_def)
  with Cons [of "Suc (Suc i)" v] show ?case by simp
qed (simp add: word_component)

lemma decode_emitted_words:
  assumes "list_all (binary \<circ> fst) ws" and "ws \<noteq> []" and "new_decoder api (js ''UTF-8'') False = Inr d"
  shows "decode_rfc2047_words api (join [32] (map (\<lambda>w. rfc2047_word (fst w) (snd w)) ws)) =
     decode_stream api d (map fst ws)"
proof -
  obtain w vs where ws: "ws = w # vs" using assms(2) by (cases ws) auto
  let ?c = "rfc2047_word (fst w) (snd w) # word_components vs"
  have split: "split_2047 [] (join [32] (map (\<lambda>w. rfc2047_word (fst w) (snd w)) ws)) = [] # ?c"
    using split_2047_words [of w vs "[]"] assms(1) ws by simp
  have last: "last_component 0 ([] # ?c) = Some (1 + 2 * length vs)"
    using last_component_words [of 1 w vs] by simp
  let ?st = "\<lparr>last_charset = [], current_decoder = None\<rparr>"
  have "word_decoder api (js ''UTF-8'') ?st d" using assms(3) by (simp add: word_decoder_def)
  then have "decode_components api (Some (1 + 2 * length vs)) 1 ?c ?st = decode_stream api d (map fst ws)"
    using assms(1) ws decode_components_words [of w vs api ?st d "1 + 2 * length vs" 1] by simp
  then show ?thesis
    unfolding decode_rfc2047_words_def split Let_def last by simp
qed

section \<open>A subject, written and read\<close>

definition read_header :: "'d charset_api \<Rightarrow> jstr \<Rightarrow> jstr \<Rightarrow> js_error + hvalue option" where
  "read_header api txt0 name =
     bindE (get_header api default_registry (structured_headers txt0 True None) name) (\<lambda>(v, _). Inr v)"

lemma subject_decoder: "map_of (decoders default_registry) (js ''subject'') = Some ParseUnstructured"
proof -
  have "(case map_of builtin_decoders (js ''subject'') of Some ParseUnstructured \<Rightarrow> True | _ \<Rightarrow> False)"
    by code_simp
  then show ?thesis
    unfolding default_registry_ok(3) by (auto split: option.splits decoder.splits)
qed

lemma subject_encoder:
  "map_of (encoders default_encoders) (to_lower (js ''subject'')) = Some (Builtin WriteUnstructured)"
  "map_of (preferred_spellings default_encoders) (to_lower (js ''subject'')) = Some (js ''Subject'')"
proof -
  have "(case map_of (encoders default_encoders) (to_lower (js ''subject'')) of
      Some (Builtin WriteUnstructured) \<Rightarrow> True | _ \<Rightarrow> False)"
    by code_simp
  then show "map_of (encoders default_encoders) (to_lower (js ''subject'')) = Some (Builtin WriteUnstructured)"
    by (auto split: option.splits structured_encoder.splits encoder.splits)
  show "map_of (preferred_spellings default_encoders) (to_lower (js ''subject'')) = Some (js ''Subject'')"
    by code_simp
qed

lemma read_subject:
  assumes "fold_text body" and "trim (unfold body) = s" and "list_all printable s"
    and "decode_rfc2047_words api s = Inr t"
  shows "read_header api (js ''Subject'' @ 58 # body @ [13, 10]) (js ''subject'') = Inr (Some (VText t))"
proof -
  let ?h = "structured_headers (js ''Subject'' @ 58 # body @ [13, 10]) True None"
  have lower: "to_lower (js ''Subject'') = js ''subject''" "to_lower (js ''subject'') = js ''subject''"
    by (simp_all add: to_lower_def lower_char_def is_upper_def)
  have "raw_headers ?h = [(to_lower (js ''Subject''), [trim (unfold body)])]"
    by (rule raw_of_folded [OF assms(1)]) (simp_all add: js_ws_def)
  then have raw: "raw_headers ?h = [(js ''subject'', [s])]" unfolding lower assms(2) .
  have conv: "convert_8bit_header api s c = Inr s" for c
    using assms(3) by (intro convert_8bit_header_ascii) (auto simp: list_all_iff printable_def)
  have "parse_structured_header api default_registry (js ''subject'') [s] = Inr (VText t)"
    using assms(4) by (simp add: parse_structured_header_def lower subject_decoder
        run_structured_decoder_def first_value_def del: js_Cons)
  then have "structured_value api default_registry c (js ''subject'') [s] = Inr (VText t)" for c
    using conv by (simp add: structured_value_def del: js_Cons)
  moreover have "cached_headers ?h = []" by (simp add: structured_headers_def split: prod.split)
  ultimately show ?thesis
    using raw by (simp add: read_header_def get_header_def lower del: js_Cons)
qed

lemma hd_join: "ws \<noteq> [] \<Longrightarrow> hd ws \<noteq> [] \<Longrightarrow> hd (join sep ws) = hd (hd ws)"
  by (induction sep ws rule: join.induct) auto

lemma ascii_words_ends:
  assumes "ascii_words h t"
  shows "t \<noteq> []" "\<not> js_ws (hd t)" "\<not> js_ws (last t)"
proof -
  let ?ws = "split_on 32 t"
  have t: "list_all printable t" and ws: "\<forall>w\<in>set ?ws. w \<noteq> []"
    using assms by (auto simp: ascii_words_def list_all_iff)
  have ends: "hd ?ws \<in> set ?ws" "last ?ws \<in> set ?ws" by simp_all
  show "t \<noteq> []" using ws by auto
  have "hd t = hd (hd ?ws)" "last t = last (last ?ws)"
    using hd_join [of ?ws "[32]"] last_join [of ?ws "[32]"] ws ends by (simp_all add: join_split_on)
  moreover have "hd (hd ?ws) \<in> set t - {32}" "last (last ?ws) \<in> set t - {32}"
    using ws ends set_split_on [OF ends(1)] set_split_on [OF ends(2)] hd_in_set last_in_set by blast+
  ultimately show "\<not> js_ws (hd t)" "\<not> js_ws (last t)"
    using t printable_ws by (auto simp: list_all_iff)
qed

lemma trim_space: "s \<noteq> [] \<Longrightarrow> \<not> js_ws (hd s) \<Longrightarrow> \<not> js_ws (last s) \<Longrightarrow> trim (32 # s) = s"
  using trim_id [of s] by (simp add: trim_def trim_left_def)

lemma ascii_subject:
  assumes "soft_margin (header_emitter opts) \<le> hard_margin (header_emitter opts)"
    and "t = collapse is_wsp [32] txt0" and "ascii_words (hard_margin (header_emitter opts)) t"
    and "\<not> has_eq_question t"
  shows "\<exists>out. emit_structured_header tz default_encoders (js ''subject'') (VText txt0) opts = Some (Inr out)
     \<and> read_header api out (js ''subject'') = Inr (Some (VText t))"
proof -
  let ?o = "header_emitter opts"
  note ends = ascii_words_ends [OF assms(3)]
  have "txt0 \<noteq> []" using ends(1) assms(2) by auto
  moreover have "length (js ''Subject'') + 2 \<le> soft_margin ?o" using margins_of_options(1) [of opts] by simp
  ultimately obtain body where body: "emit_structured_header tz default_encoders (js ''subject'') (VText txt0) opts
      = Some (Inr (js ''Subject'' @ 58 # body @ [13, 10]))" "fold_text body" "unfold body = [] @ 32 # t"
    using emit_unstructured [OF subject_encoder, of opts txt0 "[] @ 32 # t" tz]
      phrase_ascii [OF _ assms(1-3)] by blast
  have "trim (unfold body) = t" using trim_space [OF ends] body(3) by simp
  moreover have "list_all printable t" using assms(3) by (simp add: ascii_words_def)
  moreover have "\<not> is_wsp (hd t)" using ends(2) is_wsp_js_ws by blast
  then have "decode_rfc2047_words api t = Inr t"
    using ends(1) by (intro decode_rfc2047_words_text [OF assms(4)]) auto
  ultimately have "read_header api (js ''Subject'' @ 58 # body @ [13, 10]) (js ''subject'') = Inr (Some (VText t))"
    by (intro read_subject [OF body(2)])
  then show ?thesis using body(1) by blast
qed

text \<open>What a UTF-8 decoder does, however the bytes are cut.\<close>

definition decodes_utf8 :: "'d charset_api \<Rightarrow> jstr \<Rightarrow> bool" where
  "decodes_utf8 api t \<longleftrightarrow> (\<exists>d. new_decoder api (js ''UTF-8'') False = Inr d
     \<and> (\<forall>cs. cs \<noteq> [] \<longrightarrow> concat cs = utf8_encode t \<longrightarrow> decode_stream api d cs = Inr t))"

lemma utf8_bytes_binary: "cp < 1114112 \<Longrightarrow> binary (utf8_bytes cp)"
  by (auto simp: utf8_bytes_def binary_def)

lemma code_points_bound: "list_all (\<lambda>c. c < 65536) s \<Longrightarrow> list_all (\<lambda>c. c < 1114112) (code_points s)"
  by (induction s rule: code_points.induct) (auto simp: high_surrogate_def low_surrogate_def)

lemma utf8_encode_binary: "list_all (\<lambda>c. c < 65536) s \<Longrightarrow> binary (utf8_encode s)"
proof -
  have "binary (concat (map utf8_bytes cps))" if "list_all (\<lambda>c. c < 1114112) cps" for cps
    using that utf8_bytes_binary by (induction cps) auto
  then show "list_all (\<lambda>c. c < 65536) s \<Longrightarrow> binary (utf8_encode s)"
    using code_points_bound by (simp add: utf8_encode_def)
qed

lemma binary_chunks: "binary (concat (map fst ws)) \<Longrightarrow> list_all (binary \<circ> fst) ws"
  by (induction ws) (auto simp: binary_def)

lemma printable_words: "list_all printable (join [32] (map (\<lambda>w. rfc2047_word (fst w) (snd w)) ws))"
  using word_printable by (intro join_printable) (auto simp: list_all_iff printable_def)

lemma encoded_subject:
  assumes "soft_margin (header_emitter opts) < hard_margin (header_emitter opts)"
    and "use_ascii (header_emitter opts)" and "t = collapse is_wsp [32] txt0" and "non_ascii t"
    and "list_all (\<lambda>c. c < 65536) t" and "decodes_utf8 api t"
  shows "\<exists>out. emit_structured_header tz default_encoders (js ''subject'') (VText txt0) opts = Some (Inr out)
     \<and> read_header api out (js ''subject'') = Inr (Some (VText t))"
proof -
  let ?o = "header_emitter opts"
  note soft = margins_of_options(1) [of opts]
  have "txt0 \<noteq> []" using assms(3,4) by (auto simp: non_ascii_def)
  have "length (js ''Subject'') + 2 \<le> soft_margin ?o" using soft by simp
  then obtain e where e: "add_header_name (js ''Subject'') ?o = Some (e, None)" "open_line ?o (js ''Subject'') [] e"
    using start_open by blast
  from phrase_encoded [OF e(2) assms(1) soft assms(3,2,4)]
  obtain e1 ws where e1: "add_phrase txt0 [] False e = Some (e1, None)" and ws: "ws \<noteq> []"
    "concat (map fst ws) = utf8_encode t" "list_all (good_chunk (soft_margin ?o)) ws"
    and c1: "closed_line ?o (js ''Subject'') ([] @ 32 # join [32] (map (\<lambda>w. rfc2047_word (fst w) (snd w)) ws)) e1"
    by blast
  let ?s = "join [32] (map (\<lambda>w. rfc2047_word (fst w) (snd w)) ws)"
  from finish_closed [OF c1]
  obtain e2 body where fin: "finish True e1 = Some (e2, None)"
    "concat (delivered e2) = js ''Subject'' @ 58 # body @ [13, 10]" "fold_text body" "unfold body = [] @ 32 # ?s"
    by blast
  have emit: "emit_structured_header tz default_encoders (js ''subject'') (VText txt0) opts
      = Some (Inr (js ''Subject'' @ 58 # body @ [13, 10]))"
    using e(1) e1 fin(1,2) \<open>txt0 \<noteq> []\<close> subject_encoder
    by (simp add: emit_structured_header_def string_of_run_def add_structured_header_def and_then_def
        run_encoder_def add_unstructured_def del: js_Cons)
  have ends: "?s \<noteq> []" "hd ?s = 61" "last ?s = 61"
    using hd_join [of "map (\<lambda>w. rfc2047_word (fst w) (snd w)) ws" "[32]"]
      last_join [of "map (\<lambda>w. rfc2047_word (fst w) (snd w)) ws" "[32]"] ws(1)
    by (simp_all add: hd_map last_map word_is_enc_word enc_word_def)
  have "trim (unfold body) = ?s"
    using trim_space [of ?s] ends fin(4) by (simp add: js_ws_def)
  moreover have "binary (utf8_encode t)" using assms(5) by (rule utf8_encode_binary)
  then have "decode_rfc2047_words api ?s = Inr t"
    using assms(6) decode_emitted_words [OF binary_chunks [of ws] ws(1), of api] ws(1,2)
    by (auto simp: decodes_utf8_def)
  ultimately have "read_header api (js ''Subject'' @ 58 # body @ [13, 10]) (js ''subject'') = Inr (Some (VText t))"
    using printable_words by (intro read_subject [OF fin(3)])
  then show ?thesis using emit by blast
qed

text \<open>
  A decoder of UTF-8 for the examples: it keeps the bytes of a stream until the last call, and
  decodes well-formed UTF-8.
\<close>

fun utf8_units :: "nat list \<Rightarrow> jstr" where
  "utf8_units (a # b # c # d # s) =
     (if a < 128 then a # utf8_units (b # c # d # s)
      else if a < 224 then ((a - 192) * 64 + (b - 128)) # utf8_units (c # d # s)
      else if a < 240 then ((a - 224) * 4096 + (b - 128) * 64 + (c - 128)) # utf8_units (d # s)
      else (let cp = (a - 240) * 262144 + (b - 128) * 4096 + (c - 128) * 64 + (d - 128) - 65536
            in (55296 + cp div 1024) # (56320 + cp mod 1024) # utf8_units s))"
| "utf8_units (a # b # c # s) =
     (if a < 128 then a # utf8_units (b # c # s)
      else if a < 224 then ((a - 192) * 64 + (b - 128)) # utf8_units (c # s)
      else [(a - 224) * 4096 + (b - 128) * 64 + (c - 128)])"
| "utf8_units (a # b # s) =
     (if a < 128 then a # utf8_units (b # s) else [(a - 192) * 64 + (b - 128)])"
| "utf8_units s = s"

definition utf8_api :: "nat list charset_api" where
  "utf8_api = \<lparr>new_decoder = (\<lambda>label fatal.
       if to_lower label = js ''utf-8'' then Inr [] else Inl (UnknownCharset label)),
     run_decoder = (\<lambda>pending bytes stream.
       if stream then Inr ([], pending @ bytes) else Inr (utf8_units (pending @ bytes), []))\<rparr>"

lemma utf8_api_decodes:
  assumes "utf8_units (utf8_encode t) = t"
  shows "decodes_utf8 utf8_api t"
proof -
  have run: "run_decoder utf8_api pending bytes stream =
      (if stream then Inr ([], pending @ bytes) else Inr (utf8_units (pending @ bytes), []))" for pending bytes stream
    by (simp add: utf8_api_def)
  have "decode_stream utf8_api pending cs = Inr (utf8_units (pending @ concat cs))" if "cs \<noteq> []" for pending cs
    using that
  proof (induction cs arbitrary: pending rule: induct_list012)
    case (3 c c' cs)
    then show ?case by (simp add: run)
  qed (simp_all add: run)
  moreover have "new_decoder utf8_api (js ''UTF-8'') False = Inr []"
    by (simp add: utf8_api_def to_lower_def lower_char_def is_upper_def)
  ultimately show ?thesis using assms by (auto simp: decodes_utf8_def intro!: exI [of _ "[]"])
qed

section \<open>Properties\<close>

text \<open>C13: a subject of printable ASCII text is written and read back: the emitter folds it into lines
  wherever it must, and the parser gives back the same text with single spaces between the words.
  Every word must fit a line, and the text must not look like an encoded word.\<close>

theorem ascii_subject_roundtrip:
  assumes "soft_margin (header_emitter opts) \<le> hard_margin (header_emitter opts)"
    and "t = collapse is_wsp [32] txt0" and "ascii_words (hard_margin (header_emitter opts)) t"
    and "\<not> has_eq_question t"
  shows "\<exists>out. emit_structured_header tz default_encoders (js ''subject'') (VText txt0) opts = Some (Inr out)
     \<and> read_header api out (js ''subject'') = Inr (Some (VText t))"
  using assms by (rule ascii_subject)

theorem ascii_subject_roundtrip_witness:
  "\<exists>out. emit_structured_header (\<lambda>_. 0) default_encoders (js ''subject'') (VText (js ''Hello   all of you''))
       (default_options\<lparr>eo_soft := Some 30, eo_hard := Some 40\<rparr>) = Some (Inr out)
     \<and> read_header utf8_api out (js ''subject'') = Inr (Some (VText (js ''Hello all of you'')))"
proof (rule ascii_subject_roundtrip)
  show "ascii_words (hard_margin (header_emitter (default_options\<lparr>eo_soft := Some 30, eo_hard := Some 40\<rparr>)))
      (js ''Hello all of you'')" by code_simp
qed code_simp+

text \<open>C12: a subject with any other characters is written as encoded words and read back, whatever
  the lines and the words it is cut into, by any decoder that decodes UTF-8 chunk by chunk.\<close>

theorem encoded_subject_roundtrip:
  assumes "soft_margin (header_emitter opts) < hard_margin (header_emitter opts)"
    and "use_ascii (header_emitter opts)" and "t = collapse is_wsp [32] txt0" and "non_ascii t"
    and "list_all (\<lambda>c. c < 65536) t" and "decodes_utf8 api t"
  shows "\<exists>out. emit_structured_header tz default_encoders (js ''subject'') (VText txt0) opts = Some (Inr out)
     \<and> read_header api out (js ''subject'') = Inr (Some (VText t))"
  using assms by (rule encoded_subject)

theorem encoded_subject_roundtrip_witness:
  "\<exists>out. emit_structured_header (\<lambda>_. 0) default_encoders (js ''subject'') (VText [228, 32, 32, 8364, 55357, 56832])
       default_options = Some (Inr out)
     \<and> read_header utf8_api out (js ''subject'') = Inr (Some (VText [228, 32, 8364, 55357, 56832]))"
proof (rule encoded_subject_roundtrip)
  show "decodes_utf8 utf8_api [228, 32, 8364, 55357, 56832]"
    by (rule utf8_api_decodes) code_simp
qed code_simp+

text \<open>C17: the encoder cuts a text into encoded words that carry exactly its UTF-8 bytes, in order; every
  word starts with a whole character and is no longer than the soft margin.\<close>

theorem encoded_words_carry_text:
  assumes "30 \<le> soft_margin e"
  shows "\<exists>ws. encode_rfc2047_phrase t may_break e = add_encoded ws may_break (room_for_word e)
     \<and> concat (map fst ws) = utf8_encode t \<and> list_all (good_chunk (soft_margin e)) ws"
  using encode_phrase_words [OF assms, of t may_break] by blast

theorem encoded_words_carry_text_witness:
  "\<exists>ws. encode_rfc2047_phrase [228] False (header_emitter default_options) =
      add_encoded ws False (room_for_word (header_emitter default_options))
     \<and> concat (map fst ws) = [195, 164] \<and> list_all (good_chunk 78) ws"
proof -
  have s: "30 \<le> soft_margin (header_emitter default_options)" "soft_margin (header_emitter default_options) = 78"
    and u: "utf8_encode [228] = [195, 164]" by code_simp+
  from encoded_words_carry_text [OF s(1), of "[228]" False] show ?thesis unfolding s(2) u .
qed

text \<open>a subject that looks like an encoded word is written as it is, and is read back as the
  text that it seems to encode.\<close>

theorem subject_looks_encoded:
  "emit_structured_header (\<lambda>_. 0) default_encoders (js ''subject'') (VText (js ''=?UTF-8?Q?x?='')) default_options =
     Some (Inr (js ''Subject: =?UTF-8?Q?x?='' @ [13, 10]))
   \<and> decode_rfc2047_words utf8_api (js ''=?UTF-8?Q?x?='') = Inr (js ''x'')"
  by code_simp

text \<open>a display name with a backslash and no other special character is not quoted, and loses
  the backslash when it is read back.\<close>

theorem backslash_lost:
  "emit_structured_header (\<lambda>_. 0) default_encoders (js ''to'')
     (VAddrs [Address \<lparr>mb_name = js ''a'' @ [92] @ js ''b'', mb_email = js ''c@d''\<rparr>]) default_options =
     Some (Inr (js ''To: a'' @ [92] @ js ''b <c@d>'' @ [13, 10]))
   \<and> parse_addressing_header utf8_api (js ''a'' @ [92] @ js ''b <c@d>'') False =
     Inr [Address \<lparr>mb_name = js ''ab'', mb_email = js ''c@d''\<rparr>]"
  by code_simp

end
