(* ===== verification/TreeView.thy ===== *)
theory TreeView
  imports Prelude
begin

text \<open>
  The tree views of the user interface: \<open>PROTO_TREE_VIEW\<close> of
  \<open>mailnews/base/content/jsTreeView.js\<close>, the prototype of every tree that is written in
  JavaScript, and the items of the chat log tree (\<open>chatLogTreeGroupItem\<close> and
  \<open>chatLogTreeLogItem\<close> of \<open>mail/components/im/content/chat-messenger.js\<close>) that it shows.

  The rows of a view are objects: the same object is in \<open>_rowMap\<close> and in the \<open>children\<close> array
  of its parent, and opening a row assigns its \<open>_open\<close> property.  The model therefore keeps a
  store of type \<open>'s\<close> and names its objects by references of type \<open>'r\<close>; what the prototype
  asks of an item is the record \<open>item_ops\<close>, which each kind of tree supplies.  The getter
  \<open>children\<close> returns a new store, because some items build their children when first asked.

  The theorems are about the row map as a picture of a forest of items: the rows are always
  the visible nodes of the forest in preorder, whatever sequence of rows is toggled, and the
  recursion that adds the rows of an opened item ends.
\<close>

section \<open>Items and views\<close>

record ('s, 'r) item_ops =
  id_of :: "'s \<Rightarrow> 'r \<Rightarrow> jstr"
  level_of :: "'s \<Rightarrow> 'r \<Rightarrow> nat"
  open_of :: "'s \<Rightarrow> 'r \<Rightarrow> bool"
  set_open :: "'r \<Rightarrow> bool \<Rightarrow> 's \<Rightarrow> 's"           \<comment> \<open>assignment to \<open>_open\<close>\<close>
  children_of :: "'s \<Rightarrow> 'r \<Rightarrow> 'r list \<times> 's"
  parent_of :: "'s \<Rightarrow> 'r \<Rightarrow> 'r option"
  text_of :: "'s \<Rightarrow> 'r \<Rightarrow> jstr \<Rightarrow> jstr"
  properties_of :: "'s \<Rightarrow> 'r \<Rightarrow> jstr"

text \<open>What a view tells the tree element that shows it.\<close>

datatype tree_note =
    RowCountChanged nat int
  | InvalidateRow nat

record ('s, 'r) tree_view =
  store :: 's
  row_map :: "'r list"              \<comment> \<open>\<open>_rowMap\<close>\<close>
  persist_open_map :: "jstr list"   \<comment> \<open>\<open>_persistOpenMap\<close>\<close>
  has_tree :: bool                  \<comment> \<open>\<open>_tree\<close> is set\<close>
  tree_calls :: "tree_note list"         \<comment> \<open>the calls made on \<open>_tree\<close> so far\<close>

text \<open>
  A view as \<open>PROTO_TREE_VIEW\<close> makes it.  The views of chat logs inherit one such object, and with it one
  array \<open>_persistOpenMap\<close> that they share; here each has its own, and only \<open>_restoreOpenStates\<close>,
  which the views of chat logs do not call, would show the difference.
\<close>

definition proto_tree_view :: "'s \<Rightarrow> ('s, 'r) tree_view" where
  "proto_tree_view s = \<lparr>store = s, row_map = [], persist_open_map = [], has_tree = False, tree_calls = []\<rparr>"

definition set_tree :: "bool \<Rightarrow> ('s, 'r) tree_view \<Rightarrow> ('s, 'r) tree_view" where
  "set_tree t v = v\<lparr>has_tree := t\<rparr>"

definition row_count :: "('s, 'r) tree_view \<Rightarrow> nat" where
  "row_count v = length (row_map v)"

definition row :: "('s, 'r) tree_view \<Rightarrow> nat \<Rightarrow> js_error + 'r" where
  "row v i = (if i < length (row_map v) then Inr (row_map v ! i) else Inl TypeError)"

definition notify :: "tree_note \<Rightarrow> ('s, 'r) tree_view \<Rightarrow> ('s, 'r) tree_view" where
  "notify n v = (if has_tree v then v\<lparr>tree_calls := tree_calls v @ [n]\<rparr> else v)"

lemma notify_simps [simp]:
  "row_map (notify n v) = row_map v" "store (notify n v) = store v"
  "persist_open_map (notify n v) = persist_open_map v" "has_tree (notify n v) = has_tree v"
  by (simp_all add: notify_def)

subsection \<open>Questions about a row\<close>

definition get_cell_text :: "('s, 'r) item_ops \<Rightarrow> ('s, 'r) tree_view \<Rightarrow> nat \<Rightarrow> jstr \<Rightarrow> js_error + jstr" where
  "get_cell_text ops v i col = bindE (row v i) (\<lambda>r. Inr (text_of ops (store v) r col))"

definition get_row_properties :: "('s, 'r) item_ops \<Rightarrow> ('s, 'r) tree_view \<Rightarrow> nat \<Rightarrow> js_error + jstr" where
  "get_row_properties ops v i = bindE (row v i) (\<lambda>r. Inr (properties_of ops (store v) r))"

definition get_level :: "('s, 'r) item_ops \<Rightarrow> ('s, 'r) tree_view \<Rightarrow> nat \<Rightarrow> js_error + nat" where
  "get_level ops v i = bindE (row v i) (\<lambda>r. Inr (level_of ops (store v) r))"

text \<open>\<open>xs.indexOf(x)\<close>, with \<open>-1\<close> for an element that is not there.\<close>

fun array_index_of :: "'a \<Rightarrow> 'a list \<Rightarrow> int" where
  "array_index_of x [] = - 1"
| "array_index_of x (y # ys) =
     (if y = x then 0 else if array_index_of x ys = - 1 then - 1 else array_index_of x ys + 1)"

definition get_parent_index :: "('s, 'r) item_ops \<Rightarrow> ('s, 'r) tree_view \<Rightarrow> nat \<Rightarrow> js_error + int" where
  "get_parent_index ops v i =
     bindE (row v i) (\<lambda>r.
       Inr (case parent_of ops (store v) r of
              None \<Rightarrow> - 1
            | Some p \<Rightarrow> array_index_of p (row_map v)))"

fun sibling_among :: "('r \<Rightarrow> nat) \<Rightarrow> nat \<Rightarrow> 'r list \<Rightarrow> bool" where
  "sibling_among lev l [] = False"
| "sibling_among lev l (r # rs) =
     (if lev r = l then True else if lev r < l then False else sibling_among lev l rs)"

definition has_next_sibling ::
    "('s, 'r) item_ops \<Rightarrow> ('s, 'r) tree_view \<Rightarrow> nat \<Rightarrow> nat \<Rightarrow> js_error + bool" where
  "has_next_sibling ops v i next =
     bindE (row v i) (\<lambda>r.
       Inr (sibling_among (level_of ops (store v)) (level_of ops (store v) r)
              (drop (next + 1) (row_map v))))"

definition is_container ::
    "('s, 'r) item_ops \<Rightarrow> ('s, 'r) tree_view \<Rightarrow> nat \<Rightarrow> js_error + (bool \<times> ('s, 'r) tree_view)" where
  "is_container ops v i =
     bindE (row v i) (\<lambda>r.
       let (kids, s) = children_of ops (store v) r in Inr (kids \<noteq> [], v\<lparr>store := s\<rparr>))"

definition is_container_empty ::
    "('s, 'r) item_ops \<Rightarrow> ('s, 'r) tree_view \<Rightarrow> nat \<Rightarrow> js_error + (bool \<times> ('s, 'r) tree_view)" where
  "is_container_empty ops v i =
     bindE (row v i) (\<lambda>r.
       let (kids, s) = children_of ops (store v) r in Inr (kids = [], v\<lparr>store := s\<rparr>))"

definition is_container_open :: "('s, 'r) item_ops \<Rightarrow> ('s, 'r) tree_view \<Rightarrow> nat \<Rightarrow> js_error + bool" where
  "is_container_open ops v i = bindE (row v i) (\<lambda>r. Inr (open_of ops (store v) r))"

text \<open>The answers that are the same for every tree.\<close>

definition is_editable :: "nat \<Rightarrow> bool" where
  "is_editable i = False"

definition is_separator :: "nat \<Rightarrow> bool" where
  "is_separator i = False"

definition is_sorted :: bool where
  "is_sorted = False"

section \<open>Opening and closing\<close>

text \<open>\<open>xs.splice(i, 0, x)\<close> and \<open>xs.splice(i, n)\<close>.\<close>

definition splice_in :: "nat \<Rightarrow> 'a \<Rightarrow> 'a list \<Rightarrow> 'a list" where
  "splice_in i x xs = take i xs @ x # drop i xs"

definition splice_out :: "nat \<Rightarrow> nat \<Rightarrow> 'a list \<Rightarrow> 'a list" where
  "splice_out i n xs = take i xs @ drop (i + n) xs"

text \<open>
  The loop of \<open>recursivelyAddToMap\<close> over the entries \<open>(i, child)\<close> of the children that are
  left; \<open>new\<close> is \<open>aNewIndex\<close>.  The recursive call for a child is written out in it; it is
  \<open>recursively_add_to_map\<close> below (lemma \<open>add_children_Cons\<close>).  The recursion follows
  \<open>children\<close>, which nothing in the code keeps from being cyclic, so not returning is \<open>None\<close>.
\<close>

partial_function (option) add_children ::
    "('s, 'r) item_ops \<Rightarrow> 'r list \<Rightarrow> nat \<Rightarrow> nat \<Rightarrow> 's \<Rightarrow> 'r list \<Rightarrow> ('s \<times> 'r list) option" where
  "add_children ops entries i new s rows =
     (case entries of
        [] \<Rightarrow> Some (s, rows)
      | child # entries' \<Rightarrow>
          let index = new + i + 1;
              rows1 = splice_in index child rows;
              (kids, s1) = children_of ops s child
          in if kids \<noteq> [] \<and> open_of ops s1 child
             then let (kids2, s2) = children_of ops s1 (rows1 ! index)
                  in Option.bind (add_children ops kids2 0 index s2 rows1) (\<lambda>(s3, rows3).
                       add_children ops entries' (i + 1) (new + (length rows3 - length rows1)) s3 rows3)
             else add_children ops entries' (i + 1) new s1 rows1)"

declare add_children.simps [code]

definition recursively_add_to_map ::
    "('s, 'r) item_ops \<Rightarrow> 'r \<Rightarrow> nat \<Rightarrow> 's \<Rightarrow> 'r list \<Rightarrow> (nat \<times> 's \<times> 'r list) option" where
  "recursively_add_to_map ops child new s rows =
     (let (kids, s1) = children_of ops s child
      in if kids \<noteq> [] \<and> open_of ops s1 child
         then let (kids2, s2) = children_of ops s1 (rows ! new)
              in Option.bind (add_children ops kids2 0 new s2 rows) (\<lambda>(s3, rows3).
                   Some (length rows3 - length rows, s3, rows3))
         else Some (0, s1, rows))"

text \<open>The rows below an item: those up to the next one whose level is not greater.\<close>

fun rows_below :: "('r \<Rightarrow> nat) \<Rightarrow> nat \<Rightarrow> 'r list \<Rightarrow> nat" where
  "rows_below lev l [] = 0"
| "rows_below lev l (r # rs) = (if lev r > l then Suc (rows_below lev l rs) else 0)"

definition close_row :: "('s, 'r) item_ops \<Rightarrow> nat \<Rightarrow> ('s, 'r) tree_view \<Rightarrow> ('s, 'r) tree_view" where
  "close_row ops i v =
     (let s = store v;
          r = row_map v ! i;
          n = rows_below (level_of ops s) (level_of ops s r) (drop (i + 1) (row_map v))
      in notify (RowCountChanged (i + 1) (- int n))
           (v\<lparr>row_map := splice_out (i + 1) n (row_map v),
              persist_open_map := remove1 (id_of ops s r) (persist_open_map v)\<rparr>))"

definition open_row ::
    "('s, 'r) item_ops \<Rightarrow> nat \<Rightarrow> ('s, 'r) tree_view \<Rightarrow> ('s, 'r) tree_view option" where
  "open_row ops i v =
     Option.bind (recursively_add_to_map ops (row_map v ! i) i (store v) (row_map v)) (\<lambda>(n, s, rows).
       let rid = id_of ops s (rows ! i);
           ids = (if rid \<in> set (persist_open_map v) then persist_open_map v
                  else persist_open_map v @ [rid])
       in Some (notify (RowCountChanged (i + 1) (int (length rows) - int (length (row_map v))))
                  (v\<lparr>store := s, row_map := rows, persist_open_map := ids\<rparr>)))"

definition toggle_open_state ::
    "('s, 'r) item_ops \<Rightarrow> nat \<Rightarrow> ('s, 'r) tree_view \<Rightarrow> (js_error + ('s, 'r) tree_view) option" where
  "toggle_open_state ops i v =
     (if i < length (row_map v)
      then let r = row_map v ! i;
               v1 = v\<lparr>store := set_open ops r (\<not> open_of ops (store v) r) (store v)\<rparr>
           in map_option (\<lambda>v2. Inr (notify (InvalidateRow i) v2))
                (if \<not> open_of ops (store v1) r then Some (close_row ops i v1) else open_row ops i v1)
      else Some (Inl TypeError))"

text \<open>
  The loop of \<open>_restoreOpenStates\<close>: the row map grows while it runs, so that it too may in
  principle go on for ever.
\<close>

partial_function (option) restore_from ::
    "('s, 'r) item_ops \<Rightarrow> nat \<Rightarrow> ('s, 'r) tree_view \<Rightarrow> (js_error + ('s, 'r) tree_view) option" where
  "restore_from ops i v =
     (if i < length (row_map v)
      then if id_of ops (store v) (row_map v ! i) \<in> set (persist_open_map v)
           then Option.bind (toggle_open_state ops i v) (\<lambda>x.
                  case x of Inl e \<Rightarrow> Some (Inl e) | Inr v' \<Rightarrow> restore_from ops (i + 1) v')
           else restore_from ops (i + 1) v
      else Some (Inr v))"

declare restore_from.simps [code]

definition restore_open_states ::
    "('s, 'r) item_ops \<Rightarrow> ('s, 'r) tree_view \<Rightarrow> (js_error + ('s, 'r) tree_view) option" where
  "restore_open_states ops v = restore_from ops 0 v"

lemma add_children_Nil [simp]: "add_children ops [] i new s rows = Some (s, rows)"
  by (simp add: add_children.simps)

lemma add_children_Cons:
  "add_children ops (c # cs) i new s rows =
     Option.bind (recursively_add_to_map ops c (new + i + 1) s (splice_in (new + i + 1) c rows))
       (\<lambda>(n, s', rows'). add_children ops cs (i + 1) (new + n) s' rows')"
  by (subst add_children.simps)
     (simp add: recursively_add_to_map_def Let_def split: prod.split bind_split)

section \<open>The forest that a view shows\<close>

datatype 'r node = Node (root: 'r) (subnodes: "'r node list")

fun nodes :: "'r node \<Rightarrow> 'r list" where
  "nodes (Node r ts) = r # concat (map nodes ts)"

text \<open>The rows of a node: itself and, when it is open, the rows of its children.\<close>

fun visible_in :: "('r \<Rightarrow> bool) \<Rightarrow> 'r node \<Rightarrow> 'r list" where
  "visible_in op (Node r ts) = r # (if op r then concat (map (visible_in op) ts) else [])"

definition forest_rows :: "('r \<Rightarrow> bool) \<Rightarrow> 'r node list \<Rightarrow> 'r list" where
  "forest_rows op ts = concat (map (visible_in op) ts)"

fun shaped :: "('s, 'r) item_ops \<Rightarrow> 's \<Rightarrow> 'r node \<Rightarrow> bool" where
  "shaped ops s (Node r ts) \<longleftrightarrow>
     fst (children_of ops s r) = map root ts \<and>
     (\<forall>t\<in>set ts. level_of ops s (root t) = Suc (level_of ops s r) \<and>
                parent_of ops s (root t) = Some r \<and> shaped ops s t)"

definition forest_of :: "('s, 'r) item_ops \<Rightarrow> 's \<Rightarrow> 'r node list \<Rightarrow> bool" where
  "forest_of ops s ts \<longleftrightarrow> distinct (concat (map nodes ts)) \<and>
     (\<forall>t\<in>set ts. shaped ops s t \<and> level_of ops s (root t) = 0 \<and> parent_of ops s (root t) = None)"

definition displays :: "('s, 'r) item_ops \<Rightarrow> 'r node list \<Rightarrow> ('s, 'r) tree_view \<Rightarrow> bool" where
  "displays ops ts v \<longleftrightarrow> forest_of ops (store v) ts \<and>
     row_map v = forest_rows (open_of ops (store v)) ts"

lemma forest_rows_simps [simp]:
  "forest_rows op [] = []"
  "forest_rows op (t # ts) = visible_in op t @ forest_rows op ts"
  by (simp_all add: forest_rows_def)

lemma visible_in_root: "visible_in op t = root t # tl (visible_in op t)"
  by (cases t) simp

lemma visible_in_Node:
  "visible_in op (Node r ts) = r # (if op r then forest_rows op ts else [])"
  by (simp add: forest_rows_def)

lemma set_visible_in: "set (visible_in op t) \<subseteq> set (nodes t)"
  by (induction t) auto

lemma set_forest_rows: "set (forest_rows op ts) \<subseteq> set (concat (map nodes ts))"
  unfolding forest_rows_def using set_visible_in by fastforce

lemma root_in_nodes [simp]: "root t \<in> set (nodes t)"
  by (cases t) simp

lemma distinct_visible_in: "distinct (nodes t) \<Longrightarrow> distinct (visible_in op t)"
proof (induction t)
  case (Node r ts)
  have "distinct (concat (map (visible_in op) us))"
    if "set us \<subseteq> set ts" "distinct (concat (map nodes us))" for us
    using that
  proof (induction us)
    case (Cons u us)
    then show ?case
      using Node set_visible_in[of op] set_forest_rows[of op us] unfolding forest_rows_def by fastforce
  qed simp
  moreover have "r \<notin> set (concat (map (visible_in op) ts))"
    using Node.prems set_visible_in[of op] by fastforce
  ultimately show ?case using Node.prems by auto
qed

lemma distinct_forest_rows:
  "distinct (concat (map nodes ts)) \<Longrightarrow> distinct (forest_rows op ts)"
proof (induction ts)
  case (Cons t ts)
  then show ?case
    using distinct_visible_in[of t op] set_visible_in[of op t] set_forest_rows[of op ts] by fastforce
qed simp

lemma visible_in_cong:
  "(\<And>x. x \<in> set (nodes t) \<Longrightarrow> op' x = op x) \<Longrightarrow> visible_in op' t = visible_in op t"
proof (induction t)
  case (Node r ts)
  then have m: "map (visible_in op') ts = map (visible_in op) ts" by auto
  have r: "op' r = op r" using Node.prems by simp
  show ?case by (simp only: visible_in.simps m r)
qed

lemma forest_rows_cong:
  "(\<And>x. x \<in> set (concat (map nodes ts)) \<Longrightarrow> op' x = op x) \<Longrightarrow> forest_rows op' ts = forest_rows op ts"
  unfolding forest_rows_def
  by (rule arg_cong[where f = concat], rule map_cong[OF refl], rule visible_in_cong) auto

lemma level_ge:
  "shaped ops s t \<Longrightarrow> x \<in> set (nodes t) \<Longrightarrow> level_of ops s (root t) \<le> level_of ops s x"
  by (induction t) (fastforce dest: Suc_leD)

lemma level_gt:
  assumes "shaped ops s (Node r ts)" and "x \<in> set (concat (map nodes ts))"
  shows "level_of ops s r < level_of ops s x"
  using assms level_ge by fastforce

subsection \<open>Finding a row\<close>

text \<open>
  \<open>found lev op F pre u post\<close>: in the rows \<open>F op\<close>, the node \<open>u\<close> has the rows \<open>pre\<close> before it and
  \<open>post\<close> after it, and opening or closing \<open>u\<close> changes nothing else.
\<close>

definition found ::
    "('r \<Rightarrow> nat) \<Rightarrow> ('r \<Rightarrow> bool) \<Rightarrow> (('r \<Rightarrow> bool) \<Rightarrow> 'r list) \<Rightarrow> 'r list \<Rightarrow> 'r node \<Rightarrow> 'r list \<Rightarrow> bool" where
  "found lev op F pre u post \<longleftrightarrow>
     (\<forall>op'. (\<forall>x. x \<noteq> root u \<longrightarrow> op' x = op x) \<longrightarrow> F op' = pre @ visible_in op' u @ post) \<and>
     (post \<noteq> [] \<longrightarrow> lev (hd post) \<le> lev (root u))"

lemma foundD: "found lev op F pre u post \<Longrightarrow> F op = pre @ visible_in op u @ post"
  by (simp add: found_def)

lemma found_extend:
  assumes "found lev op F pre u post"
    and "\<And>op'. (\<forall>x. x \<noteq> root u \<longrightarrow> op' x = op x) \<Longrightarrow> G op' = A @ F op' @ B"
    and "B \<noteq> [] \<Longrightarrow> lev (hd B) \<le> lev (root u)"
  shows "found lev op G (A @ pre) u (post @ B)"
  using assms unfolding found_def by (cases post) auto

lemma found_forest:
  assumes "\<And>t. t \<in> set ts \<Longrightarrow> r \<in> set (visible_in op t) \<Longrightarrow>
             \<exists>pre u post. root u = r \<and> shaped ops s u \<and> set (nodes u) \<subseteq> set (nodes t) \<and>
               found (level_of ops s) op (\<lambda>o'. visible_in o' t) pre u post"
    and "r \<in> set (forest_rows op ts)" and "distinct (concat (map nodes ts))"
    and "\<forall>t\<in>set ts. shaped ops s t \<and> level_of ops s (root t) = l"
  shows "\<exists>pre u post. root u = r \<and> shaped ops s u \<and> set (nodes u) \<subseteq> set (concat (map nodes ts)) \<and>
           found (level_of ops s) op (\<lambda>o'. forest_rows o' ts) pre u post"
  using assms
proof (induction ts)
  case (Cons t ts)
  show ?case
  proof (cases "r \<in> set (visible_in op t)")
    case True
    then obtain pre u post where u: "root u = r" "shaped ops s u" "set (nodes u) \<subseteq> set (nodes t)"
      "found (level_of ops s) op (\<lambda>o'. visible_in o' t) pre u post"
      using Cons.prems(1)[of t] by auto
    have rt: "r \<in> set (nodes t)" using True set_visible_in by fastforce
    have notin: "root u \<notin> set (concat (map nodes ts))"
      using u(1) rt Cons.prems(3) by auto
    have same: "forest_rows o' ts = forest_rows op ts" if "\<forall>x. x \<noteq> root u \<longrightarrow> o' x = op x" for o'
      by (rule forest_rows_cong) (use that notin in metis)
    have lev: "level_of ops s (hd (forest_rows op ts)) \<le> level_of ops s (root u)"
      if "forest_rows op ts \<noteq> []"
    proof (cases ts)
      case (Cons t' ts')
      then have "level_of ops s (hd (forest_rows op ts)) = l"
        using Cons.prems(4) visible_in_root[of op t'] by (metis append_Cons forest_rows_simps(2) list.sel(1) list.set_intros(1) list.set_intros(2))
      moreover have "l \<le> level_of ops s r" using level_ge rt Cons.prems(4) by fastforce
      ultimately show ?thesis using u(1) by simp
    qed (use that in simp)
    have "found (level_of ops s) op (\<lambda>o'. forest_rows o' (t # ts)) ([] @ pre) u (post @ forest_rows op ts)"
    proof (rule found_extend[OF u(4) _ lev])
      fix o' assume "\<forall>x. x \<noteq> root u \<longrightarrow> o' x = op x"
      from same[OF this] show "forest_rows o' (t # ts) = [] @ visible_in o' t @ forest_rows op ts"
        by simp
    qed
    then show ?thesis using u by fastforce
  next
    case False
    then have r: "r \<in> set (forest_rows op ts)" using Cons.prems(2) by simp
    have d: "distinct (concat (map nodes ts))" using Cons.prems(3) by simp
    obtain pre u post where u: "root u = r" "shaped ops s u" "set (nodes u) \<subseteq> set (concat (map nodes ts))"
      "found (level_of ops s) op (\<lambda>o'. forest_rows o' ts) pre u post"
      using Cons.IH[OF Cons.prems(1) r d] Cons.prems(4) by auto
    have rt: "r \<notin> set (nodes t)"
      using u(1,3) Cons.prems(3) root_in_nodes[of u] by auto
    have same: "visible_in o' t = visible_in op t" if "\<forall>x. x \<noteq> root u \<longrightarrow> o' x = op x" for o'
      by (rule visible_in_cong) (use that u(1) rt in metis)
    have "found (level_of ops s) op (\<lambda>o'. forest_rows o' (t # ts)) (visible_in op t @ pre) u (post @ [])"
    proof (rule found_extend[OF u(4)])
      fix o' assume "\<forall>x. x \<noteq> root u \<longrightarrow> o' x = op x"
      from same[OF this] show "forest_rows o' (t # ts) = visible_in op t @ forest_rows o' ts @ []"
        by simp
    qed simp
    then show ?thesis using u by fastforce
  qed
qed simp

lemma found_node:
  "r \<in> set (visible_in op t) \<Longrightarrow> shaped ops s t \<Longrightarrow> distinct (nodes t) \<Longrightarrow>
   \<exists>pre u post. root u = r \<and> shaped ops s u \<and> set (nodes u) \<subseteq> set (nodes t) \<and>
     found (level_of ops s) op (\<lambda>o'. visible_in o' t) pre u post"
proof (induction t)
  case (Node q ts)
  show ?case
  proof (cases "r = q")
    case True
    have "found (level_of ops s) op (\<lambda>o'. visible_in o' (Node q ts)) [] (Node q ts) []"
      by (simp add: found_def)
    then show ?thesis
      by (intro exI[of _ "[]"] exI[of _ "Node q ts"] conjI) (use True Node.prems in simp_all)
  next
    case False
    then have op: "op q" and r: "r \<in> set (forest_rows op ts)"
      using Node.prems(1) unfolding visible_in_Node by (auto split: if_splits)
    have "\<exists>pre u post. root u = r \<and> shaped ops s u \<and> set (nodes u) \<subseteq> set (concat (map nodes ts)) \<and>
            found (level_of ops s) op (\<lambda>o'. forest_rows o' ts) pre u post"
    proof (rule found_forest)
      fix t assume t: "t \<in> set ts" "r \<in> set (visible_in op t)"
      have "distinct (nodes t)" using t(1) Node.prems(3) by (auto simp: distinct_concat_iff)
      then show "\<exists>pre u post. root u = r \<and> shaped ops s u \<and> set (nodes u) \<subseteq> set (nodes t) \<and>
               found (level_of ops s) op (\<lambda>o'. visible_in o' t) pre u post"
        using Node t by auto
    qed (use r Node.prems in auto)
    then obtain pre u post where u: "root u = r" "shaped ops s u" "set (nodes u) \<subseteq> set (concat (map nodes ts))"
      "found (level_of ops s) op (\<lambda>o'. forest_rows o' ts) pre u post"
      by blast
    have "found (level_of ops s) op (\<lambda>o'. visible_in o' (Node q ts)) ([q] @ pre) u (post @ [])"
      by (rule found_extend[OF u(4)]) (use op False u(1) in \<open>auto simp: forest_rows_def\<close>)
    then show ?thesis using u by fastforce
  qed
qed

lemma found_row:
  assumes "forest_of ops s ts" and "i < length (forest_rows op ts)"
  shows "\<exists>pre u post. root u = forest_rows op ts ! i \<and> length pre = i \<and> shaped ops s u \<and>
           set (nodes u) \<subseteq> set (concat (map nodes ts)) \<and>
           found (level_of ops s) op (\<lambda>o'. forest_rows o' ts) pre u post"
proof -
  let ?r = "forest_rows op ts ! i"
  have d: "distinct (concat (map nodes ts))" using assms(1) by (simp add: forest_of_def)
  obtain pre u post where u: "root u = ?r" "shaped ops s u" "set (nodes u) \<subseteq> set (concat (map nodes ts))"
    "found (level_of ops s) op (\<lambda>o'. forest_rows o' ts) pre u post"
    using found_forest[of ts ?r op ops s 0] found_node[of ?r op _ ops s] assms
    by (fastforce simp: forest_of_def distinct_concat_iff)
  have rows: "forest_rows op ts = pre @ root u # tl (visible_in op u) @ post"
    using foundD[OF u(4)] visible_in_root[of op u] by (metis append_Cons)
  have "length pre = i"
  proof (rule nth_eq_iff_index_eq[THEN iffD1, OF distinct_forest_rows[OF d]])
    show "forest_rows op ts ! length pre = forest_rows op ts ! i" using rows u(1) by (metis nth_append_length)
  qed (use assms(2) rows in auto)
  then show ?thesis using u by blast
qed

subsection \<open>Parents and siblings\<close>

text \<open>
  Every visible row that is not a root has its parent above it, and between the two there are
  only rows at least as deep as itself.
\<close>

definition parent_above :: "('s, 'r) item_ops \<Rightarrow> 's \<Rightarrow> 'r \<Rightarrow> 'r list \<Rightarrow> bool" where
  "parent_above ops s r rows \<longleftrightarrow> (\<exists>A p B C. rows = A @ p # B @ r # C \<and> parent_of ops s r = Some p \<and>
     level_of ops s r = Suc (level_of ops s p) \<and> (\<forall>x\<in>set B. level_of ops s r \<le> level_of ops s x))"

lemma parent_above_append:
  assumes "parent_above ops s r rows" shows "parent_above ops s r (X @ rows @ Y)"
proof -
  obtain A p B C where v: "rows = A @ p # B @ r # C" "parent_of ops s r = Some p"
    "level_of ops s r = Suc (level_of ops s p)" "\<forall>x\<in>set B. level_of ops s r \<le> level_of ops s x"
    using assms by (auto simp: parent_above_def)
  have "X @ rows @ Y = (X @ A) @ p # B @ r # (C @ Y)" by (simp add: v(1))
  then show ?thesis unfolding parent_above_def using v by blast
qed

lemma parent_above_forest:
  assumes "\<And>t. t \<in> set ts \<Longrightarrow> r \<in> set (visible_in op t) \<Longrightarrow> r \<noteq> root t \<Longrightarrow>
             parent_above ops s r (visible_in op t)"
    and "r \<in> set (forest_rows op ts)" and "r \<notin> root ` set ts"
  shows "parent_above ops s r (forest_rows op ts)"
proof -
  obtain t where t: "t \<in> set ts" "r \<in> set (visible_in op t)"
    using assms(2) by (auto simp: forest_rows_def)
  then obtain us ws where ts: "ts = us @ t # ws" by (meson split_list)
  have "parent_above ops s r (visible_in op t)" using assms(1)[OF t] t(1) assms(3) by blast
  from parent_above_append[OF this, of "forest_rows op us" "forest_rows op ws"]
  show ?thesis by (simp add: ts forest_rows_def)
qed

lemma parent_above_node:
  "r \<in> set (visible_in op t) \<Longrightarrow> r \<noteq> root t \<Longrightarrow> shaped ops s t \<Longrightarrow> parent_above ops s r (visible_in op t)"
proof (induction t)
  case (Node q ts)
  have op: "op q" and r: "r \<in> set (forest_rows op ts)"
    using Node.prems(1,2) unfolding visible_in_Node by (auto split: if_splits)
  have vis: "visible_in op (Node q ts) = q # forest_rows op ts"
    using op by (simp add: forest_rows_def)
  show ?case
  proof (cases "r \<in> root ` set ts")
    case True
    then have pr: "parent_of ops s r = Some q" "level_of ops s r = Suc (level_of ops s q)"
      using Node.prems(3) by auto
    obtain B C where BC: "forest_rows op ts = B @ r # C" using r by (meson split_list)
    have "level_of ops s r \<le> level_of ops s x" if "x \<in> set B" for x
    proof -
      have "x \<in> set (concat (map nodes ts))" using that BC set_forest_rows[of op ts] by auto
      then show ?thesis using level_gt[OF Node.prems(3)] pr(2) by fastforce
    qed
    then have "visible_in op (Node q ts) = [] @ q # B @ r # C" "\<forall>x\<in>set B. level_of ops s r \<le> level_of ops s x"
      using vis BC by auto
    then show ?thesis unfolding parent_above_def using pr by blast
  next
    case False
    have "parent_above ops s r (forest_rows op ts)"
      by (rule parent_above_forest[OF _ r False]) (use Node in auto)
    from parent_above_append[OF this, of "[q]" "[]"] show ?thesis by (simp only: vis) simp
  qed
qed

text \<open>The same by row numbers, for the roots too.\<close>

definition parent_row :: "('s, 'r) item_ops \<Rightarrow> ('s, 'r) tree_view \<Rightarrow> nat \<Rightarrow> nat option \<Rightarrow> bool" where
  "parent_row ops v i j \<longleftrightarrow>
     (let s = store v; l = level_of ops s (row_map v ! i); p = parent_of ops s (row_map v ! i)
      in case j of
           None \<Rightarrow> p = None \<and> l = 0
         | Some j \<Rightarrow> j < i \<and> p = Some (row_map v ! j) \<and> l = Suc (level_of ops s (row_map v ! j)) \<and>
                     (\<forall>k. j < k \<and> k < i \<longrightarrow> l \<le> level_of ops s (row_map v ! k)))"

lemma displays_distinct: "displays ops ts v \<Longrightarrow> distinct (row_map v)"
  unfolding displays_def forest_of_def using distinct_forest_rows by metis

lemma nth_between:
  "length A < k \<Longrightarrow> k < Suc (length A + length B) \<Longrightarrow> (A @ p # B @ D) ! k = B ! (k - Suc (length A))"
  by (cases "k - length A") (auto simp: nth_append diff_Suc)

lemma parent_row_exists:
  assumes "displays ops ts v" and i: "i < length (row_map v)"
  shows "\<exists>j. parent_row ops v i j"
proof -
  let ?o = "open_of ops (store v)" and ?r = "row_map v ! i"
  have rows: "row_map v = forest_rows ?o ts" and F: "forest_of ops (store v) ts"
    using assms(1) by (simp_all add: displays_def)
  have d: "distinct (row_map v)" by (rule displays_distinct[OF assms(1)])
  show ?thesis
  proof (cases "?r \<in> root ` set ts")
    case True
    then have "parent_row ops v i None" using F by (auto simp: parent_row_def forest_of_def)
    then show ?thesis ..
  next
    case False
    have r: "?r \<in> set (forest_rows ?o ts)" using i rows by (metis nth_mem)
    have "parent_above ops (store v) ?r (forest_rows ?o ts)"
      by (rule parent_above_forest[OF _ r False], rule parent_above_node)
         (use F in \<open>auto simp: forest_of_def\<close>)
    then obtain A p B C where v: "row_map v = A @ p # B @ ?r # C" "parent_of ops (store v) ?r = Some p"
      "level_of ops (store v) ?r = Suc (level_of ops (store v) p)"
      "\<forall>x\<in>set B. level_of ops (store v) ?r \<le> level_of ops (store v) x"
      unfolding rows parent_above_def by blast
    have ri: "row_map v ! (Suc (length A + length B)) = ?r"
      by (subst v(1)) (simp add: nth_append)
    have "Suc (length A + length B) < length (row_map v)" by (subst v(1)) simp
    then have i': "i = Suc (length A + length B)" using nth_eq_iff_index_eq[OF d _ i] ri by metis
    have pj: "row_map v ! length A = p" by (subst v(1)) simp
    have "row_map v ! k \<in> set B" if "length A < k" "k < i" for k
    proof -
      have "row_map v ! k = B ! (k - Suc (length A))"
        by (subst v(1)) (rule nth_between, use that i' in simp_all)
      then show ?thesis using that i' by simp
    qed
    then have "parent_row ops v i (Some (length A))"
      using v(2-4) pj i' by (simp add: parent_row_def)
    then show ?thesis ..
  qed
qed

lemma array_index_of_nth:
  "distinct xs \<Longrightarrow> j < length xs \<Longrightarrow> array_index_of (xs ! j) xs = int j"
proof (induction xs arbitrary: j)
  case (Cons x xs)
  then show ?case by (cases j) auto
qed simp

lemma get_parent_index_row:
  assumes d: "displays ops ts v" and i: "i < length (row_map v)" and p: "parent_row ops v i j"
  shows "get_parent_index ops v i = Inr (case j of None \<Rightarrow> - 1 | Some j \<Rightarrow> int j)"
proof -
  have "distinct (row_map v)" by (rule displays_distinct[OF d])
  then show ?thesis using p i
    by (auto simp: get_parent_index_def row_def parent_row_def Let_def array_index_of_nth split: option.splits)
qed

lemma sibling_among_iff:
  "sibling_among lev l xs \<longleftrightarrow> (\<exists>k < length xs. lev (xs ! k) = l \<and> (\<forall>m < k. l < lev (xs ! m)))"
proof (induction xs)
  case (Cons x xs)
  have "(\<exists>k < length (x # xs). lev ((x # xs) ! k) = l \<and> (\<forall>m < k. l < lev ((x # xs) ! m))) \<longleftrightarrow>
      lev x = l \<or> (l < lev x \<and> (\<exists>k < length xs. lev (xs ! k) = l \<and> (\<forall>m < k. l < lev (xs ! m))))"
    by (auto simp: less_Suc_eq_0_disj nth_Cons split: nat.splits) (metis Suc_less_eq gr0_conv_Suc nat.simps(5))+
  then show ?case using Cons by auto
qed simp

lemma sibling_among_drop:
  assumes i: "i < length xs"
  shows "sibling_among lev l (drop (Suc i) xs) \<longleftrightarrow>
    (\<exists>k. i < k \<and> k < length xs \<and> lev (xs ! k) = l \<and> (\<forall>m. i < m \<and> m < k \<longrightarrow> l < lev (xs ! m)))"
    (is "_ \<longleftrightarrow> (\<exists>k. ?R k)")
proof -
  have dr: "drop (Suc i) xs ! k = xs ! (Suc i + k)" for k
    using nth_drop[OF Suc_leI[OF i]] by simp
  have "(\<exists>k. ?R k) \<longleftrightarrow>
      (\<exists>k < length xs - Suc i. lev (xs ! (Suc i + k)) = l \<and> (\<forall>m < k. l < lev (xs ! (Suc i + m))))"
  proof
    assume "\<exists>k. ?R k"
    then obtain k where "?R k" by blast
    then show "\<exists>k < length xs - Suc i. lev (xs ! (Suc i + k)) = l \<and> (\<forall>m < k. l < lev (xs ! (Suc i + m)))"
      by (intro exI[of _ "k - Suc i"]) auto
  next
    assume "\<exists>k < length xs - Suc i. lev (xs ! (Suc i + k)) = l \<and> (\<forall>m < k. l < lev (xs ! (Suc i + m)))"
    then obtain k where k: "k < length xs - Suc i" "lev (xs ! (Suc i + k)) = l"
      "\<And>m. m < k \<Longrightarrow> l < lev (xs ! (Suc i + m))" by blast
    have "l < lev (xs ! m)" if "i < m" "m < Suc i + k" for m
      using k(3)[of "m - Suc i"] that by simp
    then show "\<exists>k. ?R k" using k by (intro exI[of _ "Suc i + k"]) auto
  qed
  then show ?thesis unfolding sibling_among_iff dr by simp
qed

text \<open>\<open>hasNextSibling\<close>, which reads only levels, answers whether a later row has the same parent.\<close>

lemma has_next_sibling_iff:
  assumes d: "displays ops ts v" and i: "i < length (row_map v)"
  shows "has_next_sibling ops v i i = Inr (\<exists>k. i < k \<and> k < length (row_map v) \<and>
           parent_of ops (store v) (row_map v ! k) = parent_of ops (store v) (row_map v ! i))"
proof -
  let ?lev = "\<lambda>k. level_of ops (store v) (row_map v ! k)"
    and ?par = "\<lambda>k. parent_of ops (store v) (row_map v ! k)"
    and ?n = "length (row_map v)"
  have dist: "distinct (row_map v)" by (rule displays_distinct[OF d])
  obtain j where j: "parent_row ops v i j" using parent_row_exists[OF d i] by blast
  have eq: "j' = j" if k: "i < k" "k < ?n" and j': "parent_row ops v k j'" and par: "?par k = ?par i" for k j'
    using j j' par i k dist
    by (auto simp: parent_row_def Let_def nth_eq_iff_index_eq split: option.splits)
  have "(\<exists>k. i < k \<and> k < ?n \<and> ?lev k = ?lev i \<and> (\<forall>m. i < m \<and> m < k \<longrightarrow> ?lev i < ?lev m)) \<longleftrightarrow>
      (\<exists>k. i < k \<and> k < ?n \<and> ?par k = ?par i)"
  proof
    assume "\<exists>k. i < k \<and> k < ?n \<and> ?lev k = ?lev i \<and> (\<forall>m. i < m \<and> m < k \<longrightarrow> ?lev i < ?lev m)"
    then obtain k where k: "i < k" "k < ?n" "?lev k = ?lev i" "\<forall>m. i < m \<and> m < k \<longrightarrow> ?lev i < ?lev m"
      by blast
    obtain j' where j': "parent_row ops v k j'" using parent_row_exists[OF d k(2)] by blast
    have "?par k = ?par i"
    proof (cases j)
      case None
      then show ?thesis using j j' k(3) by (auto simp: parent_row_def Let_def split: option.splits)
    next
      case (Some a)
      then have a: "a < i" "?par i = Some (row_map v ! a)" "?lev i = Suc (?lev a)"
        "\<And>m. a < m \<Longrightarrow> m < i \<Longrightarrow> ?lev i \<le> ?lev m"
        using j by (auto simp: parent_row_def Let_def)
      then obtain b where b: "j' = Some b" "b < k" "?par k = Some (row_map v ! b)" "?lev k = Suc (?lev b)"
        "\<And>m. b < m \<Longrightarrow> m < k \<Longrightarrow> ?lev k \<le> ?lev m"
        using j' k(3) by (auto simp: parent_row_def Let_def split: option.splits)
      have "a = b"
      proof (rule ccontr)
        assume "a \<noteq> b"
        then consider "b < a" | "a < b" "b < i" | "b = i" | "i < b" by linarith
        then show False
          using a b k by cases (metis Suc_n_not_le_n less_trans, metis Suc_n_not_le_n k(3), simp, metis Suc_lessD less_irrefl_nat)
      qed
      then show ?thesis using a b by simp
    qed
    then show "\<exists>k. i < k \<and> k < ?n \<and> ?par k = ?par i" using k by blast
  next
    assume "\<exists>k. i < k \<and> k < ?n \<and> ?par k = ?par i"
    then obtain k where k: "i < k" "k < ?n" "?par k = ?par i" by blast
    obtain j' where j': "parent_row ops v k j'" using parent_row_exists[OF d k(2)] by blast
    have lev: "?lev k = ?lev i" "\<And>m. i < m \<Longrightarrow> m < k \<Longrightarrow> ?lev i \<le> ?lev m"
      using j j' eq[OF k(1,2) j' k(3)] by (auto simp: parent_row_def Let_def split: option.splits)
    let ?P = "\<lambda>m. i < m \<and> ?lev m \<le> ?lev i"
    define m where "m = (LEAST m. ?P m)"
    have "?P k" using k lev by simp
    then have m: "?P m" "m \<le> k" unfolding m_def by (rule LeastI, rule Least_le)
    have "?lev m = ?lev i" using m lev by (cases "m = k") (auto intro: le_antisym)
    moreover have "?lev i < ?lev q" if "i < q" "q < m" for q
      using not_less_Least[of q ?P] that unfolding m_def[symmetric] by auto
    ultimately show "\<exists>k. i < k \<and> k < ?n \<and> ?lev k = ?lev i \<and> (\<forall>m. i < m \<and> m < k \<longrightarrow> ?lev i < ?lev m)"
      using m k by (meson le_less_trans)
  qed
  then show ?thesis using i by (simp add: has_next_sibling_def row_def sibling_among_drop)
qed

subsection \<open>Toggles\<close>

lemma rows_below_append:
  "\<forall>x\<in>set xs. l < lev x \<Longrightarrow> post = [] \<or> lev (hd post) \<le> l \<Longrightarrow> rows_below lev l (xs @ post) = length xs"
proof (induction xs)
  case Nil
  then show ?case by (cases post) auto
qed simp

lemma level_gt_tl:
  "shaped ops s u \<Longrightarrow> x \<in> set (tl (visible_in op u)) \<Longrightarrow> level_of ops s (root u) < level_of ops s x"
  using level_gt[of ops s "root u" "subnodes u" x] set_forest_rows[of op "subnodes u"]
  by (cases u) (auto simp: forest_rows_def split: if_splits)

lemma splice_out_mid:
  "length pre = i \<Longrightarrow> splice_out (Suc i) (length m) (pre @ r # m @ post) = pre @ r # post"
  by (auto simp: splice_out_def)

text \<open>What a toggle leaves behind: the calls on the tree element and the persistent map.\<close>

definition toggle_calls :: "nat \<Rightarrow> ('s, 'r) tree_view \<Rightarrow> ('s, 'r) tree_view \<Rightarrow> tree_note list" where
  "toggle_calls i v v' =
     (if has_tree v
      then [RowCountChanged (i + 1) (int (row_count v') - int (row_count v)), InvalidateRow i] else [])"

definition persisted :: "jstr \<Rightarrow> bool \<Rightarrow> jstr list \<Rightarrow> jstr list" where
  "persisted rid opened ids =
     (if opened then if rid \<in> set ids then ids else ids @ [rid] else remove1 rid ids)"

definition toggled ::
    "('s, 'r) item_ops \<Rightarrow> 'r node list \<Rightarrow> nat \<Rightarrow> ('s, 'r) tree_view \<Rightarrow> ('s, 'r) tree_view \<Rightarrow> bool" where
  "toggled ops ts i v v' \<longleftrightarrow>
     (let r = row_map v ! i; o1 = open_of ops (store v); o2 = open_of ops (store v')
      in displays ops ts v' \<and> (\<forall>x. x \<noteq> r \<longrightarrow> o2 x = o1 x) \<and>
         (fst (children_of ops (store v) r) \<noteq> [] \<longrightarrow> o2 r = (\<not> o1 r)) \<and>
         persist_open_map v' = persisted (id_of ops (store v) r) (o2 r) (persist_open_map v) \<and>
         tree_calls v' = tree_calls v @ toggle_calls i v v' \<and> has_tree v' = has_tree v)"

fun toggle_rows :: "('s, 'r) item_ops \<Rightarrow> nat list \<Rightarrow> ('s, 'r) tree_view \<Rightarrow> ('s, 'r) tree_view option" where
  "toggle_rows ops [] v = Some v"
| "toggle_rows ops (i # is) v =
     Option.bind (toggle_open_state ops i v) (\<lambda>x.
       case x of Inl e \<Rightarrow> toggle_rows ops is v | Inr v' \<Rightarrow> toggle_rows ops is v')"

text \<open>The number of rows that the tree element has been told of.\<close>

fun count_changes :: "tree_note list \<Rightarrow> int" where
  "count_changes [] = 0"
| "count_changes (RowCountChanged i n # ns) = n + count_changes ns"
| "count_changes (InvalidateRow i # ns) = count_changes ns"

lemma count_changes_append [simp]: "count_changes (xs @ ys) = count_changes xs + count_changes ys"
  by (induction xs rule: count_changes.induct) auto

section \<open>The contract of the items\<close>

text \<open>
  Two stores are alike when no item of one tells them apart; \<open>_open\<close> is kept apart, since it
  is what a toggle changes.
\<close>

definition alike :: "('s, 'r) item_ops \<Rightarrow> 's \<Rightarrow> 's \<Rightarrow> bool" where
  "alike ops s s' \<longleftrightarrow>
     id_of ops s' = id_of ops s \<and> level_of ops s' = level_of ops s \<and>
     parent_of ops s' = parent_of ops s \<and>
     (\<forall>r. fst (children_of ops s' r) = fst (children_of ops s r))"

lemma alike_refl [simp]: "alike ops s s"
  by (simp add: alike_def)

lemma alike_trans: "alike ops s s' \<Longrightarrow> alike ops s' s'' \<Longrightarrow> alike ops s s''"
  by (simp add: alike_def)

lemma alike_level: "alike ops s s' \<Longrightarrow> level_of ops s' = level_of ops s"
  by (simp add: alike_def)

lemma alike_shaped: "alike ops s s' \<Longrightarrow> shaped ops s' t = shaped ops s t"
  by (induction t) (auto simp: alike_def)

lemma alike_forest_of: "alike ops s s' \<Longrightarrow> forest_of ops s' ts = forest_of ops s ts"
  unfolding forest_of_def by (auto simp: alike_shaped) (auto simp: alike_def)

locale jstv_items =
  fixes ops :: "('s, 'r) item_ops"
  assumes touch: "alike ops s (snd (children_of ops s r))"
    and touch_open: "open_of ops (snd (children_of ops s r)) = open_of ops s"
    and assign: "alike ops s (set_open ops r b s)"
    and assign_other: "r' \<noteq> r \<Longrightarrow> open_of ops (set_open ops r b s) r' = open_of ops s r'"
    and assign_self: "fst (children_of ops s r) \<noteq> [] \<Longrightarrow> open_of ops (set_open ops r b s) r = b"
begin

definition steps_to :: "'s \<Rightarrow> 's \<Rightarrow> bool" where
  "steps_to s s' \<longleftrightarrow> alike ops s s' \<and> open_of ops s' = open_of ops s"

lemma steps_to_refl [simp]: "steps_to s s"
  by (simp add: steps_to_def)

lemma steps_to_trans: "steps_to s s' \<Longrightarrow> steps_to s' s'' \<Longrightarrow> steps_to s s''"
  by (auto simp: steps_to_def intro: alike_trans)

lemma steps_to_touch: "steps_to s (snd (children_of ops s r))"
  by (simp add: steps_to_def touch touch_open)

lemma steps_to_shaped: "steps_to s s' \<Longrightarrow> shaped ops s' t = shaped ops s t"
  by (simp add: steps_to_def alike_shaped)

text \<open>What \<open>recursivelyAddToMap\<close> does for an item that is the root of a node.\<close>

definition adds :: "'r node \<Rightarrow> bool" where
  "adds t \<longleftrightarrow> (\<forall>s A B. shaped ops s t \<longrightarrow> (\<exists>s'. steps_to s s' \<and>
     recursively_add_to_map ops (root t) (length A) s (A @ root t # B) =
       Some (length (visible_in (open_of ops s) t) - 1, s', A @ visible_in (open_of ops s) t @ B)))"

lemma add_children_adds:
  assumes "\<forall>t\<in>set ts. adds t" and "\<forall>t\<in>set ts. shaped ops s t" and "length A = new + i + 1"
  shows "\<exists>s'. steps_to s s' \<and>
     add_children ops (map root ts) i new s (A @ B) = Some (s', A @ forest_rows (open_of ops s) ts @ B)"
  using assms
proof (induction ts arbitrary: s A new i)
  case Nil
  then show ?case by (auto intro: exI[of _ s])
next
  case (Cons t ts)
  let ?o = "open_of ops s"
  have spl: "splice_in (new + i + 1) (root t) (A @ B) = A @ root t # B"
    using Cons.prems(3) by (simp add: splice_in_def)
  obtain s1 where s1: "steps_to s s1"
    "recursively_add_to_map ops (root t) (length A) s (A @ root t # B) =
       Some (length (visible_in ?o t) - 1, s1, A @ visible_in ?o t @ B)"
    using Cons.prems unfolding adds_def by (metis list.set_intros(1))
  have o1: "open_of ops s1 = ?o" using s1(1) by (simp add: steps_to_def)
  have ne: "length (visible_in ?o t) = Suc (length (visible_in ?o t) - 1)"
    using visible_in_root[of ?o t] by (metis length_Cons length_tl)
  have len: "length (A @ visible_in ?o t) = (new + (length (visible_in ?o t) - 1)) + (i + 1) + 1"
    using Cons.prems(3) ne by simp
  obtain s2 where s2: "steps_to s1 s2"
    "add_children ops (map root ts) (i + 1) (new + (length (visible_in ?o t) - 1)) s1 ((A @ visible_in ?o t) @ B) =
       Some (s2, (A @ visible_in ?o t) @ forest_rows (open_of ops s1) ts @ B)"
    using Cons.IH[of s1 "A @ visible_in ?o t", OF _ _ len] Cons.prems(1,2) steps_to_shaped[OF s1(1)] by auto
  have "add_children ops (map root (t # ts)) i new s (A @ B) = Some (s2, A @ forest_rows ?o (t # ts) @ B)"
    using s1(2) s2(2) Cons.prems(3) by (simp add: add_children_Cons spl[simplified] o1)
  then show ?case using steps_to_trans[OF s1(1) s2(1)] by blast
qed

lemma adds_all: "adds t"
proof (induction t)
  case (Node r ts)
  show ?case unfolding adds_def
  proof (intro allI impI)
    fix s A B assume sh: "shaped ops s (Node r ts)"
    obtain s1 where c1: "children_of ops s r = (map root ts, s1)"
      using sh by (metis prod.collapse shaped.simps)
    have s1: "steps_to s s1" using steps_to_touch[of s r] c1 by simp
    have o1: "open_of ops s1 r = open_of ops s r" using s1 by (simp add: steps_to_def)
    have "fst (children_of ops s1 r) = map root ts"
      using s1 c1 by (auto simp: steps_to_def alike_def)
    then obtain s2 where c2: "children_of ops s1 r = (map root ts, s2)"
      by (metis prod.collapse)
    have s2: "steps_to s s2" using steps_to_touch[of s1 r] c2 s1 steps_to_trans by auto
    have o2: "open_of ops s2 = open_of ops s" using s2 by (simp add: steps_to_def)
    have shs: "\<forall>t\<in>set ts. shaped ops s2 t" using sh steps_to_shaped[OF s2] by simp
    obtain s3 where s3: "steps_to s2 s3"
      "add_children ops (map root ts) 0 (length A) s2 ((A @ [r]) @ B) =
         Some (s3, (A @ [r]) @ forest_rows (open_of ops s2) ts @ B)"
      using add_children_adds[of ts s2 "A @ [r]" "length A" 0 B] Node shs by auto
    show "\<exists>s'. steps_to s s' \<and>
      recursively_add_to_map ops (root (Node r ts)) (length A) s (A @ root (Node r ts) # B) =
        Some (length (visible_in (open_of ops s) (Node r ts)) - 1, s',
              A @ visible_in (open_of ops s) (Node r ts) @ B)"
    proof (cases "map root ts \<noteq> [] \<and> open_of ops s r")
      case True
      then show ?thesis
        using s3 o2 steps_to_trans[OF s2 s3(1)]
        by (intro exI[of _ s3])
           (auto simp: recursively_add_to_map_def c1 c2 o1 visible_in_Node simp del: visible_in.simps)
    next
      case False
      then show ?thesis
        using s1 by (intro exI[of _ s1]) (auto simp: recursively_add_to_map_def c1 o1)
    qed
  qed
qed

text \<open>A toggle returns, and keeps the row map a picture of the forest.\<close>

lemma toggle_displays:
  assumes d: "displays ops ts v" and i: "i < length (row_map v)"
  shows "\<exists>v'. toggle_open_state ops i v = Some (Inr v') \<and> toggled ops ts i v v' \<and>
           alike ops (store v) (store v') \<and> take (Suc i) (row_map v') = take (Suc i) (row_map v)"
proof -
  let ?o = "open_of ops (store v)" and ?r = "row_map v ! i"
  define s1 where "s1 = set_open ops ?r (\<not> ?o ?r) (store v)"
  let ?o1 = "open_of ops s1"
  have F: "forest_of ops (store v) ts" and rows: "row_map v = forest_rows ?o ts"
    using d by (simp_all add: displays_def)
  obtain pre u post where u: "root u = ?r" "length pre = i" "shaped ops (store v) u"
    "found (level_of ops (store v)) ?o (\<lambda>o'. forest_rows o' ts) pre u post"
    using found_row[OF F] i rows by metis
  have al: "alike ops (store v) s1" by (simp add: s1_def assign)
  have other: "\<forall>x. x \<noteq> ?r \<longrightarrow> ?o1 x = ?o x" by (simp add: s1_def assign_other)
  have self: "?o1 ?r = (\<not> ?o ?r)" if "fst (children_of ops (store v) ?r) \<noteq> []"
    using that by (simp add: s1_def assign_self)
  have rows1: "forest_rows ?o1 ts = pre @ visible_in ?o1 u @ post"
    using u(4) other u(1) by (simp add: found_def)
  have rows0: "row_map v = pre @ ?r # tl (visible_in ?o u) @ post"
    using foundD[OF u(4)] visible_in_root[of ?o u] rows u(1) by (metis append_Cons)
  have take1: "take (Suc i) (row_map v) = pre @ [?r]"
    by (subst rows0) (simp add: u(2))
  have sh1: "shaped ops s1 u" using u(3) al by (simp add: alike_shaped)
  have F1: "forest_of ops s1 ts" using F al by (simp add: alike_forest_of)
  show ?thesis
  proof (cases "?o1 ?r")
    case False
    have n: "rows_below (level_of ops s1) (level_of ops s1 ?r) (drop (Suc i) (row_map v)) =
        length (tl (visible_in ?o u))"
    proof -
      have post: "post = [] \<or> level_of ops (store v) (hd post) \<le> level_of ops (store v) ?r"
        using conjunct2[OF u(4)[unfolded found_def]] u(1) by metis
      have gt: "\<forall>x\<in>set (tl (visible_in ?o u)). level_of ops (store v) ?r < level_of ops (store v) x"
        using level_gt_tl[OF u(3)] u(1) by metis
      have dr: "drop (Suc i) (row_map v) = tl (visible_in ?o u) @ post"
        by (subst rows0) (simp add: u(2))
      show ?thesis unfolding alike_level[OF al] dr by (rule rows_below_append[OF gt post])
    qed
    let ?v = "close_row ops i (v\<lparr>store := s1\<rparr>)"
    have "row_map ?v = splice_out (Suc i) (length (tl (visible_in ?o u))) (row_map v)"
      using n by (simp add: close_row_def notify_def Let_def)
    also have "\<dots> = pre @ ?r # post"
      by (subst rows0) (rule splice_out_mid[OF u(2)])
    finally have rm: "row_map ?v = pre @ ?r # post" .
    have vis: "visible_in ?o1 u = [?r]" using False u(1) by (cases u) simp
    have dv: "displays ops ts ?v"
      using F1 rows1 vis rm by (simp add: displays_def) (simp add: close_row_def notify_def Let_def)
    have st: "store ?v = s1" by (simp add: close_row_def notify_def Let_def)
    have "toggle_open_state ops i v = Some (Inr (notify (InvalidateRow i) ?v))"
      using i False by (simp add: toggle_open_state_def s1_def[symmetric])
    moreover have "length (row_map v) = length (pre @ ?r # post) + length (tl (visible_in ?o u))"
      by (subst rows0) simp
    then have cnt: "- int (length (tl (visible_in ?o u))) = int (row_count ?v) - int (row_count v)"
      by (simp only: row_count_def rm)
    have calls: "tree_calls ?v = tree_calls v @
        (if has_tree v then [RowCountChanged (i + 1) (int (row_count ?v) - int (row_count v))] else [])"
      using n unfolding cnt[symmetric] by (simp add: close_row_def notify_def Let_def)
    have pers: "persist_open_map ?v = remove1 (id_of ops s1 ?r) (persist_open_map v)"
      by (simp add: close_row_def notify_def Let_def)
    have "toggled ops ts i v (notify (InvalidateRow i) ?v)"
      using dv st other self False calls pers al
      by (auto simp: toggled_def toggle_calls_def persisted_def displays_def notify_def row_count_def)
         (auto simp: close_row_def notify_def alike_def Let_def)
    moreover have "take (Suc i) (row_map ?v) = take (Suc i) (row_map v)"
      unfolding take1 rm using u(2) by simp
    ultimately show ?thesis using al st by auto
  next
    case True
    have vis: "visible_in ?o u = [?r]"
    proof (cases u)
      case (Node q us)
      have "us = [] \<or> \<not> ?o ?r" using True self u(1,3) Node by auto
      then show ?thesis using Node u(1) by auto
    qed
    obtain s2 where s2: "steps_to s1 s2"
      "recursively_add_to_map ops ?r i s1 (row_map v) =
         Some (length (visible_in ?o1 u) - 1, s2, pre @ visible_in ?o1 u @ post)"
      using adds_all[of u] sh1 u(1,2) rows0 vis unfolding adds_def by (metis append_Nil list.sel(3))
    let ?rows = "pre @ visible_in ?o1 u @ post"
    have ri: "?rows ! i = ?r" using visible_in_root[of ?o1 u] u(1,2) by (metis append_Cons nth_append_length)
    let ?v = "notify (RowCountChanged (i + 1) (int (length ?rows) - int (length (row_map v))))
                (v\<lparr>store := s2, row_map := ?rows,
                   persist_open_map := persisted (id_of ops s2 ?r) True (persist_open_map v)\<rparr>)"
    have al2: "alike ops (store v) s2" using al s2(1) alike_trans by (auto simp: steps_to_def)
    have op: "open_row ops i (v\<lparr>store := s1\<rparr>) = Some ?v"
      using s2(2) ri by (simp add: open_row_def persisted_def Let_def)
    have "toggle_open_state ops i v = Some (Inr (notify (InvalidateRow i) ?v))"
      using i True op by (simp add: toggle_open_state_def s1_def[symmetric])
    moreover have o2: "open_of ops s2 = ?o1" using s2(1) by (simp add: steps_to_def)
    have "toggled ops ts i v (notify (InvalidateRow i) ?v)"
      using F other self True rows1 al2
      by (auto simp: toggled_def toggle_calls_def displays_def notify_def row_count_def o2 alike_forest_of)
         (auto simp: alike_def)
    moreover have "take (Suc i) ?rows = take (Suc i) (row_map v)"
      unfolding take1 using visible_in_root[of ?o1 u] u(1,2) by (cases u) auto
    ultimately show ?thesis using al2 by auto
  qed
qed

text \<open>Any sequence of clicks on the rows; a row that is not there throws and changes nothing.\<close>

lemma toggle_rows_displays:
  "displays ops ts v \<Longrightarrow>
   \<exists>v'. toggle_rows ops is v = Some v' \<and> displays ops ts v' \<and> alike ops (store v) (store v') \<and>
        has_tree v' = has_tree v \<and> (has_tree v \<longrightarrow>
          count_changes (tree_calls v') - count_changes (tree_calls v) = int (row_count v') - int (row_count v))"
proof (induction "is" arbitrary: v)
  case (Cons i "is")
  show ?case
  proof (cases "i < length (row_map v)")
    case True
    obtain v1 where v1: "toggle_open_state ops i v = Some (Inr v1)" "toggled ops ts i v v1"
      "alike ops (store v) (store v1)"
      using toggle_displays[OF Cons.prems True] by blast
    have d: "displays ops ts v1" "has_tree v1 = has_tree v"
      "tree_calls v1 = tree_calls v @ toggle_calls i v v1"
      using v1(2) by (auto simp: toggled_def Let_def)
    show ?thesis
      using Cons.IH[OF d(1)] v1(1,3) d(2,3)
      by (auto simp: toggle_calls_def intro: alike_trans)
  next
    case False
    then show ?thesis using Cons.IH[OF Cons.prems] by (simp add: toggle_open_state_def)
  qed
qed simp

lemma toggle_twice:
  assumes d: "displays ops ts v" and i: "i < length (row_map v)"
    and kids: "fst (children_of ops (store v) (row_map v ! i)) \<noteq> []"
  shows "\<exists>v'. toggle_rows ops [i, i] v = Some v' \<and> row_map v' = row_map v \<and>
           open_of ops (store v') = open_of ops (store v)"
proof -
  let ?r = "row_map v ! i"
  obtain v1 where v1: "toggle_open_state ops i v = Some (Inr v1)" "toggled ops ts i v v1"
    "alike ops (store v) (store v1)" "take (Suc i) (row_map v1) = take (Suc i) (row_map v)"
    using toggle_displays[OF d i] by blast
  have i1: "i < length (row_map v1)" and r1: "row_map v1 ! i = ?r"
    using v1(4) i by (metis Suc_le_eq length_take linorder_not_less min.absorb2 min.cobounded1 take_all_iff, metis v1(4) lessI nth_take)
  have d1: "displays ops ts v1" using v1(2) by (simp add: toggled_def Let_def)
  have k1: "fst (children_of ops (store v1) ?r) \<noteq> []" using kids v1(3) by (simp add: alike_def)
  obtain v2 where v2: "toggle_open_state ops i v1 = Some (Inr v2)" "toggled ops ts i v1 v2"
    using toggle_displays[OF d1 i1] by blast
  have op: "open_of ops (store v2) = open_of ops (store v)"
  proof
    fix x show "open_of ops (store v2) x = open_of ops (store v) x"
      using v1(2) v2(2) kids k1 r1 by (cases "x = ?r") (auto simp: toggled_def Let_def)
  qed
  moreover have "row_map v2 = row_map v"
    using d v2(2) op by (simp add: toggled_def displays_def Let_def)
  ultimately show ?thesis using v1(1) v2(1) by auto
qed

text \<open>
  \<open>_restoreOpenStates\<close> on a freshly built view, where everything is closed: it returns, and the
  rows are those that the persistent map asks for.
\<close>

lemma restore_from_opens:
  assumes "displays ops ts v"
    and "\<forall>x\<in>set (concat (map nodes ts)).
           id_of ops (store v) x \<in> set (persist_open_map v) \<longrightarrow> fst (children_of ops (store v) x) \<noteq> []"
    and "\<forall>x\<in>set (take i (row_map v)).
           open_of ops (store v) x = (id_of ops (store v) x \<in> set (persist_open_map v))"
    and "\<forall>x\<in>set (concat (map nodes ts)) - set (take i (row_map v)). \<not> open_of ops (store v) x"
  shows "\<exists>v'. restore_from ops i v = Some (Inr v') \<and> displays ops ts v' \<and>
           alike ops (store v) (store v') \<and> persist_open_map v' = persist_open_map v \<and>
           (\<forall>x\<in>set (row_map v'). open_of ops (store v') x =
              (id_of ops (store v) x \<in> set (persist_open_map v)))"
  using assms
proof (induction "length (concat (map nodes ts)) - i" arbitrary: i v rule: less_induct)
  case (less i v)
  let ?N = "concat (map nodes ts)"
  have F: "distinct ?N" and rows: "row_map v = forest_rows (open_of ops (store v)) ts"
    using less.prems(1) by (simp_all add: displays_def forest_of_def)
  have dr: "distinct (row_map v)" and sub: "set (row_map v) \<subseteq> set ?N"
    using distinct_forest_rows[OF F] set_forest_rows rows by metis+
  have le: "length (row_map v) \<le> length ?N"
    using dr sub F by (metis card_mono distinct_card finite_set)
  show ?case
  proof (cases "i < length (row_map v)")
    case False
    then show ?thesis
      using less.prems by (auto simp: restore_from.simps[of ops i v])
  next
    case True
    let ?r = "row_map v ! i"
    have rN: "?r \<in> set ?N" using sub True nth_mem by blast
    have notin: "?r \<notin> set (take i (row_map v))"
      using dr True by (simp add: distinct_conv_nth in_set_conv_nth) 
    have closed: "\<not> open_of ops (store v) ?r" using less.prems(4) rN notin by blast
    have smaller: "length ?N - Suc i < length ?N - i" using True le by linarith
    have ts: "set (take (Suc i) (row_map v)) = insert ?r (set (take i (row_map v)))"
      using True by (simp add: take_Suc_conv_app_nth)
    show ?thesis
    proof (cases "id_of ops (store v) ?r \<in> set (persist_open_map v)")
      case False
      have "\<exists>v'. restore_from ops (Suc i) v = Some (Inr v') \<and> displays ops ts v' \<and>
           alike ops (store v) (store v') \<and> persist_open_map v' = persist_open_map v \<and>
           (\<forall>x\<in>set (row_map v'). open_of ops (store v') x =
              (id_of ops (store v) x \<in> set (persist_open_map v)))"
        by (rule less.hyps[OF smaller less.prems(1,2)]) (use less.prems(3,4) closed False ts in auto)
      then show ?thesis using True False by (simp add: restore_from.simps[of ops i v])
    next
      case p: True
      have kids: "fst (children_of ops (store v) ?r) \<noteq> []" using less.prems(2) rN p by blast
      obtain v1 where v1: "toggle_open_state ops i v = Some (Inr v1)" "toggled ops ts i v v1"
        "alike ops (store v) (store v1)" "take (Suc i) (row_map v1) = take (Suc i) (row_map v)"
        using toggle_displays[OF less.prems(1) True] by blast
      have t: "displays ops ts v1" "\<forall>x. x \<noteq> ?r \<longrightarrow> open_of ops (store v1) x = open_of ops (store v) x"
        "open_of ops (store v1) ?r"
        using v1(2) kids closed by (auto simp: toggled_def Let_def)
      have pm: "persist_open_map v1 = persist_open_map v"
        using v1(2) t(3) p by (simp add: toggled_def persisted_def Let_def)
      have id1: "id_of ops (store v1) = id_of ops (store v)" using v1(3) by (simp add: alike_def)
      have "\<exists>v'. restore_from ops (Suc i) v1 = Some (Inr v') \<and> displays ops ts v' \<and>
           alike ops (store v1) (store v') \<and> persist_open_map v' = persist_open_map v1 \<and>
           (\<forall>x\<in>set (row_map v'). open_of ops (store v') x =
              (id_of ops (store v1) x \<in> set (persist_open_map v1)))"
      proof (rule less.hyps[OF smaller t(1)], unfold v1(4) ts pm id1)
        show "\<forall>x\<in>set ?N. id_of ops (store v) x \<in> set (persist_open_map v) \<longrightarrow>
            fst (children_of ops (store v1) x) \<noteq> []"
          using less.prems(2) v1(3) by (simp add: alike_def)
        show "\<forall>x\<in>insert ?r (set (take i (row_map v))). open_of ops (store v1) x =
            (id_of ops (store v) x \<in> set (persist_open_map v))"
          using less.prems(3) t(2,3) p notin by (metis insert_iff)
        show "\<forall>x\<in>set ?N - insert ?r (set (take i (row_map v))). \<not> open_of ops (store v1) x"
          using less.prems(4) t(2) by auto
      qed
      then show ?thesis
        using True p v1(1,3) pm id1 by (auto simp: restore_from.simps[of ops i v] intro: alike_trans)
    qed
  qed
qed

end

end
