(* ===== verification/ChatLogTree.thy ===== *)
theory ChatLogTree
  imports TreeView "HOL-Library.Multiset" "HOL-Library.List_Lexorder"
begin

text \<open>
  The tree of chat logs of \<open>mail/components/im/content/chat-messenger.js\<close>: the items
  \<open>chatLogTreeGroupItem\<close> and \<open>chatLogTreeLogItem\<close>, the construction of the tree from a list of
  logs (\<open>chatLogTreeView._rebuild\<close>) and the selection of a log in it (\<open>_showLogList\<close>).  The
  view is a \<open>PROTO_TREE_VIEW\<close>, so that the items are shown to satisfy the contract of
  \<open>TreeView\<close> and the theorems about toggling carry over.

  Dates and the texts of the string bundles come from outside the repository; they are the
  functions of the record \<open>log_env\<close>.  The time of a log is that of a valid date; for another one
  the code throws \<open>RangeError\<close> when it formats it, which is not modelled.
\<close>

section \<open>Items\<close>

record chat_log =
  log_time :: int      \<comment> \<open>seconds since the epoch\<close>
  log_json :: bool     \<comment> \<open>\<open>format == "json"\<close>\<close>
  log_title :: jstr

datatype chat_item =
    GroupItem jstr "nat list" bool                     \<comment> \<open>\<open>_title\<close>, \<open>_children\<close>, \<open>_open\<close>\<close>
  | LogItem chat_log jstr nat "nat option"             \<comment> \<open>\<open>log\<close>, \<open>_text\<close>, \<open>_level\<close>, \<open>_parent\<close>\<close>

record chat_store =
  objs :: "nat \<Rightarrow> chat_item"
  fresh :: nat

text \<open>
  A log item has \<open>open\<close> false whatever is assigned to its \<open>_open\<close>; nothing reads that property
  of a log item, so that it is not kept.
\<close>

definition chat_children :: "chat_store \<Rightarrow> nat \<Rightarrow> nat list" where
  "chat_children s r = (case objs s r of GroupItem t c b \<Rightarrow> c | LogItem l t d p \<Rightarrow> [])"

definition chat_set_open :: "nat \<Rightarrow> bool \<Rightarrow> chat_store \<Rightarrow> chat_store" where
  "chat_set_open r b s =
     (case objs s r of
        GroupItem t c b' \<Rightarrow> s\<lparr>objs := (objs s)(r := GroupItem t c b)\<rparr>
      | LogItem l t d p \<Rightarrow> s)"

definition chat_ops :: "(chat_store, nat) item_ops" where
  "chat_ops = \<lparr>
     id_of = (\<lambda>s r. case objs s r of GroupItem t c b \<Rightarrow> t | LogItem l t d p \<Rightarrow> log_title l),
     level_of = (\<lambda>s r. case objs s r of GroupItem t c b \<Rightarrow> 0 | LogItem l t d p \<Rightarrow> d),
     open_of = (\<lambda>s r. case objs s r of GroupItem t c b \<Rightarrow> b | LogItem l t d p \<Rightarrow> False),
     set_open = chat_set_open,
     children_of = (\<lambda>s r. (chat_children s r, s)),
     parent_of = (\<lambda>s r. case objs s r of GroupItem t c b \<Rightarrow> None | LogItem l t d p \<Rightarrow> p),
     text_of = (\<lambda>s r col. case objs s r of GroupItem t c b \<Rightarrow> t | LogItem l t d p \<Rightarrow> t),
     properties_of = (\<lambda>s r. [])\<rparr>"

text \<open>The chat items keep the contract of the tree view.\<close>

interpretation chat: jstv_items chat_ops
proof unfold_locales
  fix s r b r'
  show "alike chat_ops s (snd (children_of chat_ops s r))"
    and "open_of chat_ops (snd (children_of chat_ops s r)) = open_of chat_ops s"
    by (simp_all add: chat_ops_def)
  show "alike chat_ops s (set_open chat_ops r b s)"
    by (auto simp: alike_def chat_ops_def chat_set_open_def chat_children_def fun_eq_iff split: chat_item.split)
  show "open_of chat_ops (set_open chat_ops r b s) r' = open_of chat_ops s r'" if "r' \<noteq> r"
    using that by (auto simp: chat_ops_def chat_set_open_def split: chat_item.split)
  show "open_of chat_ops (set_open chat_ops r b s) r = b" if "fst (children_of chat_ops s r) \<noteq> []"
    using that by (auto simp: chat_ops_def chat_set_open_def chat_children_def split: chat_item.splits)
qed

definition new_log_item :: "chat_log \<Rightarrow> jstr \<Rightarrow> nat \<Rightarrow> chat_store \<Rightarrow> nat \<times> chat_store" where
  "new_log_item l t d s =
     (fresh s, s\<lparr>objs := (objs s)(fresh s := LogItem l t d None), fresh := fresh s + 1\<rparr>)"

definition set_parent :: "nat \<Rightarrow> chat_item \<Rightarrow> chat_item" where
  "set_parent p x = (case x of LogItem l t d q \<Rightarrow> LogItem l t d (Some p) | GroupItem t c b \<Rightarrow> x)"

definition new_group_item :: "jstr \<Rightarrow> nat list \<Rightarrow> chat_store \<Rightarrow> nat \<times> chat_store" where
  "new_group_item t cs s =
     (let r = fresh s; m = (objs s)(r := GroupItem t cs False)
      in (r, \<lparr>objs = fold (\<lambda>c m. m(c := set_parent r (m c))) cs m, fresh = r + 1\<rparr>))"

section \<open>Building the tree\<close>

record log_env =
  today_ms :: int                       \<comment> \<open>00:00 of today, in milliseconds\<close>
  format_date :: "int \<Rightarrow> jstr"
  format_date_time :: "int \<Rightarrow> jstr"
  format_weekday :: "int \<Rightarrow> jstr"
  month_start :: "int \<Rightarrow> int"          \<comment> \<open>00:00 of the first day of the month\<close>
  iso_string :: "int \<Rightarrow> jstr"
  year_of :: "int \<Rightarrow> int"
  month_of :: "int \<Rightarrow> int"
  now_ms :: int
  format_month :: "int \<Rightarrow> jstr"
  format_month_year :: "int \<Rightarrow> jstr"
  this_month_text :: jstr               \<comment> \<open>\<open>finduri-AgeInMonths-is-0\<close>\<close>
  log_text :: "jstr \<Rightarrow> jstr"           \<comment> \<open>the string \<open>log.<id>\<close> of the chat bundle\<close>

definition day_ms :: int where
  "day_ms = 24 * 60 * 60 * 1000"

definition week_ms :: int where
  "week_ms = 7 * day_ms"

definition two_weeks_ms :: int where
  "two_weeks_ms = 2 * week_ms"

text \<open>Where the loop of \<open>_rebuild\<close> puts a log.\<close>

datatype log_place = TodayLog | YesterdayLog | FirstGroup jstr | MonthGroup

definition place_of :: "log_env \<Rightarrow> chat_log \<Rightarrow> log_place" where
  "place_of e l =
     (let time_from_today = today_ms e - log_time l * 1000
      in if time_from_today \<le> 0 then (if log_json l then TodayLog else FirstGroup (js ''today''))
         else if time_from_today \<le> day_ms
           then (if log_json l then YesterdayLog else FirstGroup (js ''yesterday''))
         else if time_from_today \<le> week_ms - day_ms then FirstGroup (js ''currentWeek'')
         else if time_from_today \<le> two_weeks_ms - day_ms then FirstGroup (js ''previousWeek'')
         else MonthGroup)"

definition title_of :: "log_env \<Rightarrow> chat_log \<Rightarrow> jstr" where
  "title_of e l =
     (let d = log_time l * 1000
      in if place_of e l = FirstGroup (js ''currentWeek'') \<and> log_json l then format_weekday e d
         else if log_json l then format_date e d else format_date_time e d)"

definition group_name :: "log_env \<Rightarrow> int \<Rightarrow> jstr" where
  "group_name e d =
     (if year_of e d = year_of e (now_ms e)
      then if month_of e d = month_of e (now_ms e) then this_month_text e else format_month e d
      else format_month_year e d)"

record build =
  b_store :: chat_store
  b_today :: "nat option"
  b_yesterday :: "nat option"
  b_first :: "(nat list) jsmap"               \<comment> \<open>\<open>firstgroups\<close>\<close>
  b_groups :: "(jstr \<times> nat list) jsmap"    \<comment> \<open>\<open>groups\<close>: name and entries\<close>

definition push_to :: "jstr \<Rightarrow> nat \<Rightarrow> (nat list) jsmap \<Rightarrow> (nat list) jsmap" where
  "push_to k r m = map (\<lambda>(k', rs). (k', if k' = k then rs @ [r] else rs)) m"

definition push_month :: "log_env \<Rightarrow> int \<Rightarrow> nat \<Rightarrow> (jstr \<times> nat list) jsmap \<Rightarrow> (jstr \<times> nat list) jsmap" where
  "push_month e d r m =
     (let k = iso_string e d
      in case map_of m k of
           None \<Rightarrow> AList.update k (group_name e d, [r]) m
         | Some (n, rs) \<Rightarrow> AList.update k (n, rs @ [r]) m)"

definition add_log :: "log_env \<Rightarrow> chat_log \<Rightarrow> build \<Rightarrow> build" where
  "add_log e l b =
     (case place_of e l of
        TodayLog \<Rightarrow>
          (let (r, s) = new_log_item l (log_text e (js ''today'')) 0 (b_store b)
           in b\<lparr>b_store := s, b_today := Some r\<rparr>)
      | YesterdayLog \<Rightarrow>
          (let (r, s) = new_log_item l (log_text e (js ''yesterday'')) 0 (b_store b)
           in b\<lparr>b_store := s, b_yesterday := Some r\<rparr>)
      | FirstGroup k \<Rightarrow>
          (let (r, s) = new_log_item l (title_of e l) 1 (b_store b)
           in b\<lparr>b_store := s, b_first := push_to k r (b_first b)\<rparr>)
      | MonthGroup \<Rightarrow>
          (let (r, s) = new_log_item l (title_of e l) 1 (b_store b)
           in b\<lparr>b_store := s,
                b_groups := push_month e (month_start e (log_time l * 1000)) r (b_groups b)\<rparr>))"

definition first_group_ids :: "jstr list" where
  "first_group_ids = [js ''previousWeek'', js ''currentWeek'', js ''yesterday'', js ''today'']"

definition start_build :: "chat_store \<Rightarrow> build" where
  "start_build s = \<lparr>b_store = s, b_today = None, b_yesterday = None,
     b_first = map (\<lambda>k. (k, [])) first_group_ids, b_groups = []\<rparr>"

text \<open>The groups of the first weeks go in front of the months, the last one first.\<close>

definition add_first_group ::
    "log_env \<Rightarrow> jstr \<times> nat list \<Rightarrow> jstr list \<times> (jstr \<times> nat list) jsmap \<Rightarrow>
     jstr list \<times> (jstr \<times> nat list) jsmap" where
  "add_first_group e g x =
     (case (g, x) of ((k, rs), (ids, m)) \<Rightarrow>
        if rs = [] then (ids, m) else (k # ids, AList.update k (log_text e k, rs) m))"

definition all_groups :: "log_env \<Rightarrow> build \<Rightarrow> jstr list \<times> (jstr \<times> nat list) jsmap" where
  "all_groups e b =
     fold (add_first_group e) (b_first b) (rev (sort (map fst (b_groups b))), b_groups b)"

definition time_of :: "chat_store \<Rightarrow> nat \<Rightarrow> int" where
  "time_of s r = (case objs s r of LogItem l t d p \<Rightarrow> log_time l | GroupItem t c b \<Rightarrow> 0)"

text \<open>\<open>push_groups\<close> sorts the entries of each group and appends its item to the rows.\<close>

fun push_groups :: "(jstr \<times> nat list) list \<Rightarrow> chat_store \<times> nat list \<Rightarrow> chat_store \<times> nat list" where
  "push_groups [] x = x"
| "push_groups ((name, rs) # gs) (s, rows) =
     (let (r, s') = new_group_item name (sort_key (\<lambda>c. - time_of s c) rs) s
      in push_groups gs (s', rows @ [r]))"

definition group_lookup :: "(jstr \<times> nat list) jsmap \<Rightarrow> jstr \<Rightarrow> js_error + (jstr \<times> nat list)" where
  "group_lookup m k = (case map_of m k of None \<Rightarrow> Inl TypeError | Some g \<Rightarrow> Inr g)"

definition rebuild ::
    "log_env \<Rightarrow> chat_log list \<Rightarrow> (chat_store, nat) tree_view \<Rightarrow> js_error + (chat_store, nat) tree_view" where
  "rebuild e logs v =
     (let v1 = notify (RowCountChanged 0 (- int (row_count v))) v;
          b = fold (add_log e) logs (start_build (store v));
          (ids, m) = all_groups e b;
          top = (case b_today b of Some r \<Rightarrow> [r] | None \<Rightarrow> []) @
                (case b_yesterday b of Some r \<Rightarrow> [r] | None \<Rightarrow> [])
      in bindE (mapE (group_lookup m) ids) (\<lambda>gs.
           let (s, rows) = push_groups gs (b_store b, top)
           in Inr (notify (RowCountChanged 0 (int (length rows))) (v1\<lparr>store := s, row_map := rows\<rparr>))))"

text \<open>\<open>new chatLogTreeView(aTree, aLogs)\<close>\<close>

definition empty_store :: chat_store where
  "empty_store = \<lparr>objs = (\<lambda>r. GroupItem [] [] False), fresh = 0\<rparr>"

definition chat_log_tree_view :: "log_env \<Rightarrow> chat_log list \<Rightarrow> js_error + (chat_store, nat) tree_view" where
  "chat_log_tree_view e logs = rebuild e logs (set_tree True (proto_tree_view empty_store))"

section \<open>What the rebuilt tree shows\<close>

text \<open>
  Two JSON logs of the same day never come together: of several JSON logs of today, or of
  yesterday, the last one wins.
\<close>

definition superseded :: "log_env \<Rightarrow> chat_log list \<Rightarrow> chat_log list" where
  "superseded e logs = butlast (filter (\<lambda>l. place_of e l = TodayLog) logs) @
     butlast (filter (\<lambda>l. place_of e l = YesterdayLog) logs)"

lemma superseded_shorter: "logs \<noteq> [] \<Longrightarrow> length (superseded e logs) < length logs"
proof -
  assume ne: "logs \<noteq> []"
  let ?T = "filter (\<lambda>l. place_of e l = TodayLog) logs" and ?Y = "filter (\<lambda>l. place_of e l = YesterdayLog) logs"
  have "length ?T + length ?Y \<le> length logs" by (induction logs) auto
  then have "(length ?T - 1) + (length ?Y - 1) < length logs"
    using ne by (cases "length ?T"; cases "length ?Y") auto
  then show ?thesis by (simp add: superseded_def)
qed

definition log_of :: "chat_store \<Rightarrow> nat \<Rightarrow> chat_log list" where
  "log_of s r = (case objs s r of LogItem l t d p \<Rightarrow> [l] | GroupItem t c b \<Rightarrow> [])"

definition logs_of :: "chat_store \<Rightarrow> nat list \<Rightarrow> chat_log list" where
  "logs_of s rs = concat (map (log_of s) rs)"

definition forest_logs :: "chat_store \<Rightarrow> nat node list \<Rightarrow> chat_log list" where
  "forest_logs s ts = logs_of s (concat (map nodes ts))"

lemma logs_of_simps [simp]:
  "logs_of s [] = []" "logs_of s (r # rs) = log_of s r @ logs_of s rs"
  "logs_of s (rs @ rs') = logs_of s rs @ logs_of s rs'"
  by (simp_all add: logs_of_def)

lemma logs_of_cong: "(\<And>r. r \<in> set rs \<Longrightarrow> log_of s' r = log_of s r) \<Longrightarrow> logs_of s' rs = logs_of s rs"
  unfolding logs_of_def by (rule arg_cong[where f = concat], rule map_cong[OF refl])

lemma mset_concat_cong: "mset xss = mset yss \<Longrightarrow> mset (concat xss) = mset (concat yss)"
  by (simp add: mset_concat sum_mset_sum_list[symmetric] del: sum_mset_sum_list)

lemma mset_logs_of: "mset rs = mset rs' \<Longrightarrow> mset (logs_of s rs) = mset (logs_of s rs')"
  unfolding logs_of_def by (rule mset_concat_cong) simp

text \<open>A log item at depth \<open>d\<close> that has no parent yet.\<close>

definition new_log_at :: "chat_store \<Rightarrow> nat \<Rightarrow> nat \<Rightarrow> bool" where
  "new_log_at s d r \<longleftrightarrow> r < fresh s \<and> (\<exists>l t. objs s r = LogItem l t d None)"

lemma fold_set_parent:
  "fold (\<lambda>c m. m(c := set_parent p (m c))) cs m x = (if x \<in> set cs then set_parent p (m x) else m x)"
proof -
  have idem: "set_parent p (set_parent p y) = set_parent p y" for y
    by (cases y) (simp_all add: set_parent_def)
  show ?thesis by (induction cs arbitrary: m) (auto simp: idem)
qed

lemma log_of_set_parent:
  "objs s' r = set_parent p (objs s r) \<Longrightarrow> log_of s' r = log_of s r"
  by (cases "objs s r") (simp_all add: log_of_def set_parent_def)

lemma new_group_item_effect:
  assumes "new_group_item name cs s = (g, s')" and "\<forall>c\<in>set cs. new_log_at s 1 c"
  shows "g = fresh s" and "fresh s' = Suc g" and "objs s' g = GroupItem name cs False"
    and "\<And>r. r < fresh s \<Longrightarrow> objs s' r = (if r \<in> set cs then set_parent g (objs s r) else objs s r)"
proof -
  have g: "g \<notin> set cs" using assms by (auto simp: new_group_item_def new_log_at_def Let_def)
  show "g = fresh s" "fresh s' = Suc g"
    using assms(1) by (auto simp: new_group_item_def Let_def)
  show "objs s' g = GroupItem name cs False"
    using assms(1) g by (auto simp: new_group_item_def Let_def fold_set_parent)
  show "\<And>r. r < fresh s \<Longrightarrow> objs s' r = (if r \<in> set cs then set_parent g (objs s r) else objs s r)"
    using assms(1) by (auto simp: new_group_item_def Let_def fold_set_parent)
qed

definition leaf :: "nat \<Rightarrow> nat node" where
  "leaf r = Node r []"

lemma leaf_simps [simp]: "root (leaf r) = r" "nodes (leaf r) = [r]" "visible_in o' (leaf r) = [r]"
  by (simp_all add: leaf_def)

lemma concat_leaves [simp]:
  "concat (map (nodes \<circ> leaf) cs) = cs" "concat (map (visible_in o' \<circ> leaf) cs) = cs"
  by (induction cs) auto

text \<open>A closed group is a node with its log items below it.\<close>

lemma group_node:
  assumes "new_group_item name cs s = (g, s')" and "\<forall>c\<in>set cs. new_log_at s 1 c"
  shows "shaped chat_ops s' (Node g (map leaf cs))" and "level_of chat_ops s' g = 0"
    and "parent_of chat_ops s' g = None" and "\<not> open_of chat_ops s' g"
    and "logs_of s' (nodes (Node g (map leaf cs))) = logs_of s cs"
proof -
  note eff = new_group_item_effect[OF assms]
  have c: "\<exists>l t. objs s' r = LogItem l t 1 (Some g)" if "r \<in> set cs" for r
    using eff(4)[of r] assms(2) that by (auto simp: new_log_at_def set_parent_def)
  then have shape: "\<forall>r\<in>set cs. level_of chat_ops s' r = 1 \<and> parent_of chat_ops s' r = Some g \<and>
      chat_children s' r = []"
    by (fastforce simp: chat_ops_def chat_children_def)
  show "level_of chat_ops s' g = 0" "parent_of chat_ops s' g = None" "\<not> open_of chat_ops s' g"
    by (simp_all add: chat_ops_def eff(3))
  then show "shaped chat_ops s' (Node g (map leaf cs))"
    using shape eff(3) by (auto simp: leaf_def chat_ops_def chat_children_def comp_def)
  have "log_of s' r = log_of s r" if "r \<in> set cs" for r
    using eff(4)[of r] assms(2) that by (auto simp: new_log_at_def intro: log_of_set_parent)
  then have "logs_of s' cs = logs_of s cs" by (rule logs_of_cong)
  then show "logs_of s' (nodes (Node g (map leaf cs))) = logs_of s cs"
    using eff(3) by (simp add: log_of_def)
qed

text \<open>Storing further groups leaves the finished nodes alone.\<close>

definition closed_forest :: "chat_store \<Rightarrow> nat node list \<Rightarrow> bool" where
  "closed_forest s ts \<longleftrightarrow> forest_of chat_ops s ts \<and>
     (\<forall>r\<in>set (concat (map nodes ts)). r < fresh s \<and> \<not> open_of chat_ops s r) \<and>
     (\<forall>t\<in>set ts. log_of s (root t) = [] \<longrightarrow> subnodes t \<noteq> [])"

lemma shaped_cong:
  "(\<And>r. r \<in> set (nodes t) \<Longrightarrow> objs s' r = objs s r) \<Longrightarrow> shaped chat_ops s' t = shaped chat_ops s t"
proof (induction t)
  case (Node r ts)
  have "objs s' r = objs s r" using Node.prems by simp
  moreover have "objs s' (root t) = objs s (root t)" if "t \<in> set ts" for t
    by (rule Node.prems) (use that in \<open>auto intro: bexI[of _ t]\<close>)
  ultimately show ?case using Node by (auto simp: chat_ops_def chat_children_def)
qed

lemma closed_forest_extend:
  assumes cf: "closed_forest s ts" and grp: "new_group_item name cs s = (g, s')"
    and cs: "\<forall>c\<in>set cs. new_log_at s 1 c" "distinct cs" "set cs \<inter> set (concat (map nodes ts)) = {}"
      "cs \<noteq> []"
  shows "closed_forest s' (ts @ [Node g (map leaf cs)])"
    and "forest_logs s' (ts @ [Node g (map leaf cs)]) = forest_logs s ts @ logs_of s cs"
proof -
  note eff = new_group_item_effect[OF grp cs(1)] and gn = group_node[OF grp cs(1)]
  have old: "objs s' r = objs s r" if "r \<in> set (concat (map nodes ts))" for r
  proof -
    have "r \<notin> set cs" "r < fresh s" using that cf cs(3) by (blast, auto simp: closed_forest_def)
    then show ?thesis using eff(4)[of r] by simp
  qed
  have "shaped chat_ops s' t = shaped chat_ops s t \<and> level_of chat_ops s' (root t) = level_of chat_ops s (root t) \<and>
      parent_of chat_ops s' (root t) = parent_of chat_ops s (root t)" if "t \<in> set ts" for t
  proof -
    have o: "objs s' r = objs s r" if "r \<in> set (nodes t)" for r using that \<open>t \<in> set ts\<close> old by auto
    then show ?thesis using shaped_cong[of t s' s] by (simp add: chat_ops_def)
  qed
  then have F: "\<forall>t\<in>set ts. shaped chat_ops s' t \<and> level_of chat_ops s' (root t) = 0 \<and>
      parent_of chat_ops s' (root t) = None"
    using cf by (simp add: closed_forest_def forest_of_def)
  have lt: "\<forall>r\<in>set (concat (map nodes ts)). r < fresh s" "\<forall>r\<in>set cs. r < fresh s"
    using cf cs(1) by (auto simp: closed_forest_def new_log_at_def)
  have dist: "distinct (concat (map nodes ts) @ g # cs)"
    using cf cs(2,3) lt eff(1) by (auto simp: closed_forest_def forest_of_def)
  have closed: "\<not> open_of chat_ops s' r" if "r \<in> set (concat (map nodes ts)) \<or> r \<in> set cs" for r
    using that
  proof
    assume "r \<in> set (concat (map nodes ts))"
    then show ?thesis using old cf by (auto simp: closed_forest_def chat_ops_def)
  next
    assume "r \<in> set cs"
    then show ?thesis using eff(4)[of r] cs(1) by (auto simp: new_log_at_def chat_ops_def set_parent_def)
  qed
  have "log_of s' (root t) = log_of s (root t)" if "t \<in> set ts" for t
    using old[of "root t"] that root_in_nodes[of t] by (fastforce simp: log_of_def)
  then have full: "\<forall>t\<in>set ts. log_of s' (root t) = [] \<longrightarrow> subnodes t \<noteq> []"
    using cf by (simp add: closed_forest_def)
  show "closed_forest s' (ts @ [Node g (map leaf cs)])"
    unfolding closed_forest_def forest_of_def
    using F gn dist lt eff(1,2) closed full cs(4) by (auto simp del: shaped.simps) fastforce+
  have "logs_of s' (concat (map nodes ts)) = logs_of s (concat (map nodes ts))"
    by (rule logs_of_cong) (use old in \<open>simp add: log_of_def\<close>)
  then show "forest_logs s' (ts @ [Node g (map leaf cs)]) = forest_logs s ts @ logs_of s cs"
    using gn(5) by (simp add: forest_logs_def del: nodes.simps)
qed

lemma new_log_at_new_group:
  assumes "new_group_item name cs s = (g, s')" and "\<forall>c\<in>set cs. new_log_at s 1 c"
    and "new_log_at s d r" and "r \<notin> set cs"
  shows "new_log_at s' d r" and "log_of s' r = log_of s r"
  using new_group_item_effect[OF assms(1,2)] assms(3,4) by (auto simp: new_log_at_def log_of_def)

lemma push_groups_forest:
  assumes "closed_forest s ts"
    and "\<forall>c\<in>set (concat (map snd gs)). new_log_at s 1 c" and "distinct (concat (map snd gs))"
    and "set (concat (map snd gs)) \<inter> set (concat (map nodes ts)) = {}"
    and "\<forall>g\<in>set gs. snd g \<noteq> []"
    and "push_groups gs (s, map root ts) = (s', rows)"
  shows "\<exists>us. closed_forest s' us \<and> rows = map root us \<and>
           mset (forest_logs s' us) = mset (forest_logs s ts) + mset (logs_of s (concat (map snd gs)))"
  using assms
proof (induction gs arbitrary: s ts)
  case Nil
  then show ?case by auto
next
  case (Cons x gs)
  obtain name rs where x: "x = (name, rs)" by force
  define cs where "cs = sort_key (\<lambda>c. - time_of s c) rs"
  have cs: "mset cs = mset rs" "set cs = set rs" "distinct cs"
    using Cons.prems(3) x by (simp_all add: cs_def)
  obtain g s1 where g: "new_group_item name cs s = (g, s1)" by force
  let ?t = "Node g (map leaf cs)"
  have new: "\<forall>c\<in>set cs. new_log_at s 1 c" using Cons.prems(2) x cs(2) by auto
  have disj: "set cs \<inter> set (concat (map nodes ts)) = {}" using Cons.prems(4) x cs(2) by auto
  have ne: "cs \<noteq> []" using Cons.prems(5) x cs(2) by auto
  note ext = closed_forest_extend[OF Cons.prems(1) g new cs(3) disj ne]
  have later: "new_log_at s1 1 c \<and> log_of s1 c = log_of s c \<and> c \<notin> set (concat (map nodes (ts @ [?t])))"
    if "c \<in> set (concat (map snd gs))" for c
  proof -
    have c: "new_log_at s 1 c" "c \<notin> set cs" "c \<notin> set (concat (map nodes ts))"
      using that Cons.prems(2-4) x cs(2) by auto
    moreover have "c \<noteq> g" using c(1) new_group_item_effect(1)[OF g new] by (auto simp: new_log_at_def)
    ultimately show ?thesis using new_log_at_new_group[OF g new c(1,2)] by simp
  qed
  have "\<exists>us. closed_forest s' us \<and> rows = map root us \<and>
      mset (forest_logs s' us) = mset (forest_logs s1 (ts @ [?t])) + mset (logs_of s1 (concat (map snd gs)))"
  proof (rule Cons.IH[OF ext(1)])
    show "\<forall>c\<in>set (concat (map snd gs)). new_log_at s1 1 c" using later by blast
    show "distinct (concat (map snd gs))" using Cons.prems(3) x by simp
    show "set (concat (map snd gs)) \<inter> set (concat (map nodes (ts @ [?t]))) = {}" using later by blast
    show "\<forall>g\<in>set gs. snd g \<noteq> []" using Cons.prems(5) by simp
    show "push_groups gs (s1, map root (ts @ [?t])) = (s', rows)"
      using Cons.prems(6) g by (simp add: x cs_def)
  qed
  moreover have "logs_of s1 (concat (map snd gs)) = logs_of s (concat (map snd gs))"
    by (rule logs_of_cong) (use later in blast)
  ultimately show ?case
    using ext(2) mset_logs_of[OF cs(1), of s] by (auto simp: x add.assoc)
qed

subsection \<open>The loop over the logs\<close>

definition entry_refs :: "build \<Rightarrow> nat list" where
  "entry_refs b = concat (map snd (b_first b)) @ concat (map (snd \<circ> snd) (b_groups b))"

definition top_refs :: "build \<Rightarrow> nat list" where
  "top_refs b = (case b_today b of Some r \<Rightarrow> [r] | None \<Rightarrow> []) @
     (case b_yesterday b of Some r \<Rightarrow> [r] | None \<Rightarrow> [])"

definition iso_ids :: "log_env \<Rightarrow> bool" where
  "iso_ids e \<longleftrightarrow> (\<forall>d. iso_string e d \<notin> set first_group_ids)"

definition slot_logs :: "chat_store \<Rightarrow> nat option \<Rightarrow> chat_log list \<Rightarrow> bool" where
  "slot_logs s x ls \<longleftrightarrow> (case x of None \<Rightarrow> ls = [] | Some r \<Rightarrow> ls \<noteq> [] \<and> log_of s r = [last ls])"

definition built :: "log_env \<Rightarrow> chat_log list \<Rightarrow> build \<Rightarrow> bool" where
  "built e logs b \<longleftrightarrow>
     (\<forall>r\<in>set (top_refs b). new_log_at (b_store b) 0 r) \<and>
     (\<forall>r\<in>set (entry_refs b). new_log_at (b_store b) 1 r) \<and>
     distinct (top_refs b @ entry_refs b) \<and>
     map fst (b_first b) = first_group_ids \<and> distinct (map fst (b_groups b)) \<and>
     set (map fst (b_groups b)) \<inter> set first_group_ids = {} \<and>
     (\<forall>g\<in>set (map snd (b_groups b)). snd g \<noteq> []) \<and>
     slot_logs (b_store b) (b_today b) (filter (\<lambda>l. place_of e l = TodayLog) logs) \<and>
     slot_logs (b_store b) (b_yesterday b) (filter (\<lambda>l. place_of e l = YesterdayLog) logs) \<and>
     mset (logs_of (b_store b) (entry_refs b)) =
       mset (filter (\<lambda>l. place_of e l \<noteq> TodayLog \<and> place_of e l \<noteq> YesterdayLog) logs)"

lemma new_log_item_effect:
  assumes "new_log_item l t d s = (r, s')"
  shows "r = fresh s" and "new_log_at s' d r" and "log_of s' r = [l]"
    and "new_log_at s d' q \<Longrightarrow> new_log_at s' d' q \<and> log_of s' q = log_of s q \<and> q \<noteq> r"
  using assms by (auto simp: new_log_item_def new_log_at_def log_of_def)

lemma push_to_keys: "map fst (push_to k r m) = map fst m"
  by (auto simp: push_to_def comp_def split_def)

lemma push_to_entries:
  "distinct (map fst m) \<Longrightarrow> k \<in> set (map fst m) \<Longrightarrow>
   mset (concat (map snd (push_to k r m))) = add_mset r (mset (concat (map snd m)))"
proof (induction m)
  case (Cons x m)
  obtain k' rs where x: "x = (k', rs)" by force
  have other: "push_to k r m = m" if "k \<notin> set (map fst m)"
    using that unfolding push_to_def by (induction m) auto
  have Cn: "push_to k r (x # m) = (k', if k' = k then rs @ [r] else rs) # push_to k r m"
    by (simp add: push_to_def x)
  show ?case
  proof (cases "k' = k")
    case True
    then have "k \<notin> set (map fst m)" using Cons.prems x by auto
    then show ?thesis using True other unfolding Cn by (simp add: x)
  next
    case False
    then show ?thesis using Cons x unfolding Cn by auto
  qed
qed simp

lemma mset_update_Some:
  "distinct (map fst m) \<Longrightarrow> map_of m k = Some (n, rs) \<Longrightarrow>
   mset (concat (map (snd \<circ> snd) (AList.update k (n, rs @ [r]) m))) = add_mset r (mset (concat (map (snd \<circ> snd) m)))"
  by (induction m) (auto split: if_splits)

lemma update_None: "map_of m k = None \<Longrightarrow> AList.update k v m = m @ [(k, v)]"
  by (induction m) (auto split: if_splits)

lemma keys_update_image: "fst ` set (AList.update k v m) = insert k (fst ` set m)"
  by (induction m) auto

lemma values_update: "set (map snd (AList.update k v m)) \<subseteq> insert v (set (map snd m))"
  by (induction m) auto

lemma push_month_effect:
  assumes "distinct (map fst m)"
  shows "mset (concat (map (snd \<circ> snd) (push_month e d r m))) = add_mset r (mset (concat (map (snd \<circ> snd) m)))"
    and "distinct (map fst (push_month e d r m))"
    and "set (map fst (push_month e d r m)) = insert (iso_string e d) (set (map fst m))"
  using assms
  by (auto simp: push_month_def Let_def update_None mset_update_Some distinct_update keys_update_image
      split: option.split)

lemma push_month_full:
  assumes "\<forall>g\<in>set (map snd m). snd g \<noteq> []"
  shows "\<forall>g\<in>set (map snd (push_month e d r m)). snd g \<noteq> []"
proof (cases "map_of m (iso_string e d)")
  case None
  then show ?thesis using assms by (simp add: push_month_def Let_def update_None)
next
  case (Some g)
  obtain n rs where g: "g = (n, rs)" by force
  show ?thesis
    using assms values_update[of "iso_string e d" "(n, rs @ [r])" m] Some g
    unfolding push_month_def Let_def by fastforce
qed

lemma mset_entry_refs:
  "mset (entry_refs b) = mset (concat (map snd (b_first b))) + mset (concat (map (snd \<circ> snd) (b_groups b)))"
  by (simp add: entry_refs_def)

lemma distinct_add:
  "mset ys = add_mset r (mset xs) \<Longrightarrow> distinct (us @ xs) \<Longrightarrow> r \<notin> set (us @ xs) \<Longrightarrow> distinct (us @ ys)"
  by (metis distinct.simps(2) mset.simps(2) mset_append mset_eq_imp_distinct_iff union_mset_add_mset_right)

lemma built_new:
  assumes b: "built e logs b" and r: "new_log_item l t d (b_store b) = (r, s')"
  shows "r \<notin> set (top_refs b @ entry_refs b)"
    and "\<forall>q\<in>set (top_refs b). new_log_at s' 0 q" and "\<forall>q\<in>set (entry_refs b). new_log_at s' 1 q"
    and "slot_logs s' (b_today b) (filter (\<lambda>l. place_of e l = TodayLog) logs)"
    and "slot_logs s' (b_yesterday b) (filter (\<lambda>l. place_of e l = YesterdayLog) logs)"
    and "logs_of s' (entry_refs b) = logs_of (b_store b) (entry_refs b)"
proof -
  have old: "new_log_at s' d q \<and> log_of s' q = log_of (b_store b) q \<and> q \<noteq> r"
    if "new_log_at (b_store b) d q" for d q
    using new_log_item_effect(4)[OF r that] .
  have top: "\<forall>q\<in>set (top_refs b). new_log_at s' 0 q \<and> log_of s' q = log_of (b_store b) q \<and> q \<noteq> r"
    and ent: "\<forall>q\<in>set (entry_refs b). new_log_at s' 1 q \<and> log_of s' q = log_of (b_store b) q \<and> q \<noteq> r"
    using b old unfolding built_def by blast+
  show "r \<notin> set (top_refs b @ entry_refs b)" "\<forall>q\<in>set (top_refs b). new_log_at s' 0 q"
    "\<forall>q\<in>set (entry_refs b). new_log_at s' 1 q"
    using top ent by auto
  show "logs_of s' (entry_refs b) = logs_of (b_store b) (entry_refs b)"
    by (rule logs_of_cong) (use ent in simp)
  show "slot_logs s' (b_today b) (filter (\<lambda>l. place_of e l = TodayLog) logs)"
    "slot_logs s' (b_yesterday b) (filter (\<lambda>l. place_of e l = YesterdayLog) logs)"
    using b top by (auto simp: built_def slot_logs_def top_refs_def split: option.splits)
qed

text \<open>A log that goes to a group: the new object is among the entries, everything else is as it was.\<close>

lemma built_entry:
  assumes b: "built e logs b" and r: "new_log_item l t 1 (b_store b) = (r, s')"
    and pl: "place_of e l \<noteq> TodayLog" "place_of e l \<noteq> YesterdayLog"
    and b': "b_store b' = s'" "b_today b' = b_today b" "b_yesterday b' = b_yesterday b"
    "map fst (b_first b') = first_group_ids" "distinct (map fst (b_groups b'))"
    "set (map fst (b_groups b')) \<inter> set first_group_ids = {}"
    "\<forall>g\<in>set (map snd (b_groups b')). snd g \<noteq> []"
    "mset (entry_refs b') = add_mset r (mset (entry_refs b))"
  shows "built e (logs @ [l]) b'"
proof -
  note eff = new_log_item_effect[OF r] and new = built_new[OF b r]
  have top: "top_refs b' = top_refs b" using b' by (simp add: top_refs_def)
  have ent: "set (entry_refs b') = insert r (set (entry_refs b))"
    using arg_cong[OF b'(8), of set_mset] by simp
  have "mset (logs_of s' (entry_refs b')) = mset (logs_of s' (r # entry_refs b))"
    by (rule mset_logs_of) (simp add: b'(8))
  then have logs: "mset (logs_of s' (entry_refs b')) = add_mset l (mset (logs_of (b_store b) (entry_refs b)))"
    by (simp add: eff(3) new(6))
  have "distinct (top_refs b @ entry_refs b')"
    by (rule distinct_add[OF b'(8) _ new(1)]) (use b in \<open>simp add: built_def\<close>)
  then show ?thesis
    using b b' eff(2) new ent logs pl unfolding built_def top by simp
qed

text \<open>A JSON log of today or yesterday takes the slot of that day.\<close>

lemma slot_logs_new: "log_of s r = [l] \<Longrightarrow> slot_logs s (Some r) (ls @ [l])"
  by (simp add: slot_logs_def)

lemma built_today:
  assumes b: "built e logs b" and r: "new_log_item l t 0 (b_store b) = (r, s')"
    and pl: "place_of e l = TodayLog"
  shows "built e (logs @ [l]) (b\<lparr>b_store := s', b_today := Some r\<rparr>)"
proof -
  note eff = new_log_item_effect[OF r] and new = built_new[OF b r]
  have "entry_refs (b\<lparr>b_store := s', b_today := Some r\<rparr>) = entry_refs b"
    by (simp add: entry_refs_def)
  then show ?thesis
    using b eff(2) pl new slot_logs_new[OF eff(3)] unfolding built_def
    by (simp add: top_refs_def split: option.splits)
qed

lemma built_yesterday:
  assumes b: "built e logs b" and r: "new_log_item l t 0 (b_store b) = (r, s')"
    and pl: "place_of e l = YesterdayLog"
  shows "built e (logs @ [l]) (b\<lparr>b_store := s', b_yesterday := Some r\<rparr>)"
proof -
  note eff = new_log_item_effect[OF r] and new = built_new[OF b r]
  have "entry_refs (b\<lparr>b_store := s', b_yesterday := Some r\<rparr>) = entry_refs b"
    by (simp add: entry_refs_def)
  then show ?thesis
    using b eff(2) pl new slot_logs_new[OF eff(3)] unfolding built_def
    by (simp add: top_refs_def split: option.splits)
qed

lemma built_add_log:
  assumes b: "built e logs b" and iso: "iso_ids e"
  shows "built e (logs @ [l]) (add_log e l b)"
proof -
  have first: "map fst (b_first b) = first_group_ids" and df: "distinct first_group_ids"
    and dg: "distinct (map fst (b_groups b))" "set (map fst (b_groups b)) \<inter> set first_group_ids = {}"
    "\<forall>g\<in>set (map snd (b_groups b)). snd g \<noteq> []"
    using b by (auto simp: built_def first_group_ids_def)
  show ?thesis
  proof (cases "place_of e l")
    case TodayLog
    then show ?thesis using built_today[OF b _ TodayLog] by (auto simp: add_log_def split: prod.split)
  next
    case YesterdayLog
    then show ?thesis using built_yesterday[OF b _ YesterdayLog] by (auto simp: add_log_def split: prod.split)
  next
    case (FirstGroup k)
    obtain r s' where r: "new_log_item l (title_of e l) 1 (b_store b) = (r, s')" by force
    have k: "k \<in> set (map fst (b_first b))"
      using FirstGroup unfolding first
      by (auto simp: place_of_def first_group_ids_def Let_def split: if_splits)
    have "built e (logs @ [l]) (b\<lparr>b_store := s', b_first := push_to k r (b_first b)\<rparr>)"
      by (rule built_entry[OF b r])
         (use FirstGroup first df dg k in \<open>simp_all add: push_to_keys push_to_entries mset_entry_refs\<close>)
    then show ?thesis using FirstGroup r by (simp add: add_log_def)
  next
    case MonthGroup
    obtain r s' where r: "new_log_item l (title_of e l) 1 (b_store b) = (r, s')" by force
    let ?d = "month_start e (log_time l * 1000)"
    have "built e (logs @ [l]) (b\<lparr>b_store := s', b_groups := push_month e ?d r (b_groups b)\<rparr>)"
      by (rule built_entry[OF b r])
         (use MonthGroup first dg(1,2) iso push_month_effect[OF dg(1), of e ?d r]
             push_month_full[OF dg(3), of e ?d r] in \<open>simp_all add: mset_entry_refs iso_ids_def\<close>)
    then show ?thesis using MonthGroup r by (simp add: add_log_def)
  qed
qed

lemma built_all:
  assumes "iso_ids e" shows "built e logs (fold (add_log e) logs (start_build s))"
proof (induction logs rule: rev_induct)
  case Nil
  then show ?case
    by (simp add: built_def start_build_def top_refs_def entry_refs_def slot_logs_def comp_def first_group_ids_def)
next
  case (snoc l logs)
  then show ?case using built_add_log[OF _ assms] by simp
qed

subsection \<open>The whole tree\<close>

lemma fold_add_first_group:
  "distinct (map fst fs) \<Longrightarrow> set (map fst fs) \<inter> set (map fst m) = {} \<Longrightarrow>
   fold (add_first_group e) fs (ids, m) =
     (rev (map fst (filter (\<lambda>g. snd g \<noteq> []) fs)) @ ids,
      m @ map (\<lambda>g. (fst g, (log_text e (fst g), snd g))) (filter (\<lambda>g. snd g \<noteq> []) fs))"
proof (induction fs arbitrary: ids m)
  case (Cons g fs)
  have "map_of m (fst g) = None" using Cons.prems(2) by (auto simp: map_of_eq_None_iff)
  then have "add_first_group e g (ids, m) =
      (if snd g = [] then (ids, m) else (fst g # ids, m @ [(fst g, (log_text e (fst g), snd g))]))"
    by (cases g) (simp add: add_first_group_def update_None)
  then show ?case using Cons by auto
qed simp

lemma mapE_group_lookup:
  "set ids \<subseteq> set (map fst m) \<Longrightarrow> mapE (group_lookup m) ids = Inr (map (\<lambda>k. the (map_of m k)) ids)"
proof (induction ids)
  case (Cons k ids)
  then obtain g where "map_of m k = Some g" by (metis list.set_intros(1) map_of_eq_None_iff not_None_eq set_map subset_eq)
  then show ?case using Cons by (simp add: group_lookup_def)
qed simp

lemma map_the_map_of: "distinct (map fst m) \<Longrightarrow> map (\<lambda>k. the (map_of m k)) (map fst m) = map snd m"
  by (induction m) (auto simp: image_iff intro!: map_cong)

lemma all_groups_entries:
  assumes b: "built e logs b"
  shows "\<exists>gs. mapE (group_lookup (snd (all_groups e b))) (fst (all_groups e b)) = Inr gs \<and>
           mset (concat (map snd gs)) = mset (entry_refs b) \<and> (\<forall>g\<in>set gs. snd g \<noteq> [])"
proof -
  let ?ne = "filter (\<lambda>g. snd g \<noteq> []) (b_first b)"
  let ?m = "b_groups b @ map (\<lambda>g. (fst g, (log_text e (fst g), snd g))) ?ne"
  let ?ids = "rev (map fst ?ne) @ rev (sort (map fst (b_groups b)))"
  have df: "distinct (map fst (b_first b))" "set (map fst (b_first b)) \<inter> set (map fst (b_groups b)) = {}"
    "distinct (map fst (b_groups b))"
    using b by (auto simp: built_def first_group_ids_def)
  have ag: "all_groups e b = (?ids, ?m)"
    unfolding all_groups_def by (rule fold_add_first_group[OF df(1,2)])
  have keys: "map fst ?m = map fst (b_groups b) @ map fst ?ne" by simp
  have dm: "distinct (map fst ?m)"
    unfolding keys using df distinct_map_filter[OF df(1)] by auto
  have ids: "mset ?ids = mset (map fst ?m)" unfolding keys by simp
  let ?gs = "map (\<lambda>k. the (map_of ?m k)) ?ids"
  have ok: "mapE (group_lookup ?m) ?ids = Inr ?gs"
    by (rule mapE_group_lookup) (use mset_eq_setD[OF ids] in simp)
  have "mset ?gs = mset (map (\<lambda>k. the (map_of ?m k)) (map fst ?m))"
    using ids by (simp only: mset_map)
  then have vals: "mset ?gs = mset (map snd ?m)"
    unfolding map_the_map_of[OF dm] .
  then have "mset (concat (map snd ?gs)) = mset (concat (map snd (map snd ?m)))"
    unfolding mset_map by (intro mset_concat_cong) (simp only: mset_map)
  moreover have "concat (map snd ?ne) = concat (map snd fs)" if "?ne = filter (\<lambda>g. snd g \<noteq> []) fs" for fs
    unfolding that by (induction fs) auto
  then have "mset (concat (map snd (map snd ?m))) = mset (entry_refs b)"
    by (simp add: mset_entry_refs comp_def)
  ultimately have ent: "mset (concat (map snd ?gs)) = mset (entry_refs b)" by (rule trans)
  have "\<forall>g\<in>set (map snd ?m). snd g \<noteq> []" using b by (auto simp: built_def)
  then have "\<forall>g\<in>set ?gs. snd g \<noteq> []"
    unfolding mset_eq_setD[OF vals] .
  with ok ent show ?thesis unfolding ag fst_conv snd_conv by (intro exI[of _ ?gs] conjI)
qed

lemma closed_leaves:
  assumes "\<forall>r\<in>set rs. new_log_at s 0 r" and "distinct rs"
  shows "closed_forest s (map leaf rs)" and "forest_logs s (map leaf rs) = logs_of s rs"
proof -
  have "shaped chat_ops s (leaf r) \<and> level_of chat_ops s r = 0 \<and> parent_of chat_ops s r = None \<and>
      \<not> open_of chat_ops s r \<and> r < fresh s \<and> log_of s r \<noteq> []" if "r \<in> set rs" for r
    using assms(1) that by (auto simp: new_log_at_def leaf_def chat_ops_def chat_children_def log_of_def)
  then show "closed_forest s (map leaf rs)"
    using assms(2) unfolding closed_forest_def forest_of_def by simp
  show "forest_logs s (map leaf rs) = logs_of s rs"
    by (simp add: forest_logs_def)
qed

lemma closed_forest_rows:
  assumes "closed_forest s ts" shows "forest_rows (open_of chat_ops s) ts = map root ts"
proof -
  have "visible_in (open_of chat_ops s) t = [root t]" if "t \<in> set ts" for t
    using assms that by (cases t) (auto simp: closed_forest_def)
  then have "map (visible_in (open_of chat_ops s)) ts = map (\<lambda>t. [root t]) ts" by simp
  then have "forest_rows (open_of chat_ops s) ts = concat (map (\<lambda>t. [root t]) ts)"
    unfolding forest_rows_def by (rule arg_cong)
  then show ?thesis by simp
qed

lemma slot_logs_mset:
  "slot_logs s x ls \<Longrightarrow> mset (logs_of s (case x of Some r \<Rightarrow> [r] | None \<Rightarrow> [])) + mset (butlast ls) = mset ls"
  by (cases x) (auto simp: slot_logs_def, metis add_mset_add_single append_butlast_last_id mset.simps(1,2) mset_append union_commute)

lemma built_mset:
  assumes "built e logs b"
  shows "mset (logs_of (b_store b) (top_refs b)) + mset (logs_of (b_store b) (entry_refs b)) +
           mset (superseded e logs) = mset logs"
proof -
  let ?T = "filter (\<lambda>l. place_of e l = TodayLog) logs" and ?Y = "filter (\<lambda>l. place_of e l = YesterdayLog) logs"
    and ?N = "filter (\<lambda>l. place_of e l \<noteq> TodayLog \<and> place_of e l \<noteq> YesterdayLog) logs"
  have "mset logs = mset ?T + mset ?Y + mset ?N" by (induction logs) auto
  then show ?thesis
    using assms slot_logs_mset[of "b_store b" "b_today b" ?T] slot_logs_mset[of "b_store b" "b_yesterday b" ?Y]
    by (simp add: built_def top_refs_def superseded_def)
       (smt (verit, ccfv_threshold) add.assoc add.commute)
qed

lemma rebuild_shows:
  assumes iso: "iso_ids e"
  shows "\<exists>v ts. chat_log_tree_view e logs = Inr v \<and> displays chat_ops ts v \<and> closed_forest (store v) ts \<and>
           row_map v = map root ts \<and> has_tree v \<and> persist_open_map v = [] \<and>
           tree_calls v = [RowCountChanged 0 0, RowCountChanged 0 (int (row_count v))] \<and>
           mset (forest_logs (store v) ts) + mset (superseded e logs) = mset logs"
proof -
  define b where "b = fold (add_log e) logs (start_build empty_store)"
  have b: "built e logs b" unfolding b_def by (rule built_all[OF iso])
  obtain ids m where ag: "all_groups e b = (ids, m)" by force
  obtain gs where gs: "mapE (group_lookup m) ids = Inr gs" "mset (concat (map snd gs)) = mset (entry_refs b)"
    "\<forall>g\<in>set gs. snd g \<noteq> []"
    using all_groups_entries[OF b] ag by auto
  have top: "\<forall>r\<in>set (top_refs b). new_log_at (b_store b) 0 r" "distinct (top_refs b)"
    using b by (auto simp: built_def)
  have set_gs: "set (concat (map snd gs)) = set (entry_refs b)" by (rule mset_eq_setD[OF gs(2)])
  obtain s rows where pg: "push_groups gs (b_store b, top_refs b) = (s, rows)" by force
  obtain us where us: "closed_forest s us" "rows = map root us"
    "mset (forest_logs s us) = mset (logs_of (b_store b) (top_refs b)) + mset (logs_of (b_store b) (concat (map snd gs)))"
  proof -
    have "\<exists>us. closed_forest s us \<and> rows = map root us \<and> mset (forest_logs s us) =
        mset (forest_logs (b_store b) (map leaf (top_refs b))) + mset (logs_of (b_store b) (concat (map snd gs)))"
    proof (rule push_groups_forest[OF closed_leaves(1)[OF top]])
      show "\<forall>c\<in>set (concat (map snd gs)). new_log_at (b_store b) 1 c"
        unfolding set_gs using b by (simp add: built_def)
      show "distinct (concat (map snd gs))"
        using b mset_eq_imp_distinct_iff[OF gs(2)] by (simp add: built_def)
      show "set (concat (map snd gs)) \<inter> set (concat (map nodes (map leaf (top_refs b)))) = {}"
        unfolding set_gs using b by (auto simp: built_def)
      show "\<forall>g\<in>set gs. snd g \<noteq> []" by (rule gs(3))
      show "push_groups gs (b_store b, map root (map leaf (top_refs b))) = (s, rows)"
        using pg by (simp add: comp_def)
    qed
    then show ?thesis using that closed_leaves(2)[OF top] by auto
  qed
  define v where "v = \<lparr>store = s, row_map = rows, persist_open_map = [], has_tree = True,
    tree_calls = [RowCountChanged 0 0, RowCountChanged 0 (int (length rows))]\<rparr>"
  have "chat_log_tree_view e logs = Inr v"
    using gs(1) pg ag
    by (simp add: chat_log_tree_view_def rebuild_def set_tree_def proto_tree_view_def notify_def
        row_count_def b_def[symmetric] top_refs_def[symmetric] v_def)
  moreover have "displays chat_ops us v"
    using us(1,2) closed_forest_rows[OF us(1)] by (simp add: displays_def v_def closed_forest_def)
  moreover have "mset (forest_logs s us) + mset (superseded e logs) = mset logs"
    using us(3) mset_logs_of[OF gs(2), of "b_store b"] built_mset[OF b] by simp
  ultimately show ?thesis using us by (intro exI[of _ v] exI[of _ us]) (simp add: v_def row_count_def)
qed

section \<open>Selecting a log\<close>

text \<open>
  \<open>aShouldSelect\<close> of \<open>_showLogList\<close>: a false value, \<open>true\<close>, or a log.  The result is the value
  returned, the row that was selected, and the view.
\<close>

datatype log_choice = NoSelection | FirstLog | ThisLog chat_log

type_synonym shown = "bool \<times> nat option \<times> (chat_store, nat) tree_view"

definition row_time :: "chat_store \<Rightarrow> nat \<Rightarrow> js_error + int" where
  "row_time s r = (case objs s r of LogItem l t d p \<Rightarrow> Inr (log_time l) | GroupItem t c b \<Rightarrow> Inl TypeError)"

text \<open>\<open>children.some(i => i.log.time == logTime)\<close>\<close>

fun some_time :: "chat_store \<Rightarrow> int \<Rightarrow> nat list \<Rightarrow> js_error + bool" where
  "some_time s t [] = Inr False"
| "some_time s t (r # rs) = bindE (row_time s r) (\<lambda>t'. if t' = t then Inr True else some_time s t rs)"

text \<open>The inner \<open>while\<close> loop: the first row with the time, or the number of rows.\<close>

fun find_time :: "chat_store \<Rightarrow> int \<Rightarrow> nat \<Rightarrow> nat list \<Rightarrow> js_error + nat" where
  "find_time s t i [] = Inr i"
| "find_time s t i (r # rs) = bindE (row_time s r) (\<lambda>t'. if t' = t then Inr i else find_time s t (i + 1) rs)"

definition select_below :: "int \<Rightarrow> nat \<Rightarrow> (chat_store, nat) tree_view \<Rightarrow> js_error + shown" where
  "select_below t i v =
     bindE (find_time (store v) t (i + 1) (drop (i + 1) (row_map v))) (\<lambda>j.
       bindE (row v j) (\<lambda>r.
         bindE (row_time (store v) r) (\<lambda>t'.
           Inr (True, if t' = t then Some j else None, v))))"

function select_log :: "int \<Rightarrow> nat \<Rightarrow> (chat_store, nat) tree_view \<Rightarrow> (js_error + shown) option" where
  "select_log t i v =
     (if i < length (row_map v)
      then let r = row_map v ! i; kids = chat_children (store v) r
           in case (if kids = [] then bindE (row_time (store v) r) (\<lambda>t'. Inr (t' = t)) else Inr False) of
                Inl e \<Rightarrow> Some (Inl e)
              | Inr True \<Rightarrow> Some (Inr (True, Some i, v))
              | Inr False \<Rightarrow>
                  (case some_time (store v) t kids of
                     Inl e \<Rightarrow> Some (Inl e)
                   | Inr False \<Rightarrow> select_log t (i + 1) v
                   | Inr True \<Rightarrow>
                       map_option (\<lambda>x. bindE x (select_below t i)) (toggle_open_state chat_ops i v))
      else Some (Inl NotFound))"
  by pat_completeness auto
termination by (relation "measure (\<lambda>(t, i, v). length (row_map v) - i)") auto

definition show_log_list :: "log_env \<Rightarrow> chat_log list \<Rightarrow> log_choice \<Rightarrow> (js_error + shown) option" where
  "show_log_list e logs choice =
     (case chat_log_tree_view e logs of
        Inl err \<Rightarrow> Some (Inl err)
      | Inr v \<Rightarrow>
          if row_map v = [] then Some (Inr (False, None, v))
          else case choice of
                 NoSelection \<Rightarrow> Some (Inr (True, None, v))
               | FirstLog \<Rightarrow>
                   (case is_container chat_ops v 0 of
                      Inl err \<Rightarrow> Some (Inl err)
                    | Inr (True, v1) \<Rightarrow>
                        map_option (\<lambda>x. bindE x (\<lambda>v2. Inr (True, Some 1, v2))) (toggle_open_state chat_ops 0 v1)
                    | Inr (False, v1) \<Rightarrow> Some (Inr (True, Some 0, v1)))
               | ThisLog l \<Rightarrow> select_log (log_time l) 0 v)"

declare select_log.simps [simp del]

text \<open>A log row is one that a log is the object of; its time is what the code reads as \<open>log.time\<close>.\<close>

lemma row_time_log: "log_of s r = [l] \<Longrightarrow> row_time s r = Inr (log_time l)"
  by (auto simp: log_of_def row_time_def split: chat_item.splits)

lemma some_time_logs:
  "\<forall>r\<in>set rs. log_of s r \<noteq> [] \<Longrightarrow> some_time s t rs = Inr (\<exists>l\<in>set (logs_of s rs). log_time l = t)"
proof (induction rs)
  case (Cons r rs)
  then obtain l where "log_of s r = [l]" by (auto simp: log_of_def split: chat_item.splits)
  then show ?case using Cons by (simp add: row_time_log)
qed simp

lemma find_time_logs:
  "\<forall>r\<in>set rs. log_of s r \<noteq> [] \<Longrightarrow> \<exists>l\<in>set (logs_of s rs). log_time l = t \<Longrightarrow>
   \<exists>k l. find_time s t i (rs @ rs') = Inr (i + k) \<and> k < length rs \<and> log_of s (rs ! k) = [l] \<and> log_time l = t"
proof (induction rs arbitrary: i)
  case (Cons r rs)
  then obtain l where l: "log_of s r = [l]" by (auto simp: log_of_def split: chat_item.splits)
  show ?case
  proof (cases "log_time l = t")
    case True
    then show ?thesis using l by (intro exI[of _ 0] exI[of _ l]) (simp add: row_time_log)
  next
    case False
    then have "\<exists>l\<in>set (logs_of s rs). log_time l = t" using Cons.prems(2) l by simp
    moreover have "\<forall>r\<in>set rs. log_of s r \<noteq> []" using Cons.prems(1) by simp
    ultimately obtain k l' where "find_time s t (Suc i) (rs @ rs') = Inr (Suc i + k)" "k < length rs"
      "log_of s (rs ! k) = [l']" "log_time l' = t"
      using Cons.IH[of "Suc i"] by blast
    then show ?thesis using l False
      by (intro exI[of _ "Suc k"] exI[of _ l']) (simp add: row_time_log)
  qed
qed simp

text \<open>The nodes of a chat tree: a log, or a group with logs below it.\<close>

lemma chat_node_cases:
  assumes "closed_forest s ts" and t: "t \<in> set ts"
  shows "(\<exists>r l. t = leaf r \<and> log_of s r = [l]) \<or>
         (\<exists>g cs. t = Node g (map leaf cs) \<and> cs \<noteq> [] \<and> log_of s g = [] \<and> (\<forall>c\<in>set cs. log_of s c \<noteq> []))"
proof -
  obtain r us where n: "t = Node r us" by (cases t)
  have sh: "shaped chat_ops s t" and full: "log_of s r = [] \<longrightarrow> us \<noteq> []"
    using assms n by (auto simp: closed_forest_def forest_of_def)
  have kid: "u = leaf (root u) \<and> log_of s (root u) \<noteq> []" if u: "u \<in> set us" for u
  proof -
    have "level_of chat_ops s (root u) \<noteq> 0" and su: "shaped chat_ops s u" using sh u by (auto simp: n)
    then obtain l t d p where "objs s (root u) = LogItem l t d p"
      by (cases "objs s (root u)") (auto simp: chat_ops_def)
    then show ?thesis using su
      by (cases u) (auto simp: leaf_def log_of_def chat_ops_def chat_children_def)
  qed
  have "map (\<lambda>u. leaf (root u)) us = us" by (rule map_idI) (metis kid)
  then have us: "us = map leaf (map root us)" by (simp add: comp_def)
  show ?thesis
  proof (cases "log_of s r")
    case Nil
    have "t = Node r (map leaf (map root us))" using n us by metis
    moreover have "map root us \<noteq> []" "\<forall>c\<in>set (map root us). log_of s c \<noteq> []"
      using Nil full kid by auto
    ultimately show ?thesis using Nil by blast
  next
    case (Cons l ls)
    then have "us = []" using sh n by (auto simp: log_of_def chat_ops_def chat_children_def split: chat_item.splits)
    moreover have "ls = []" using Cons by (auto simp: log_of_def split: chat_item.splits)
    ultimately show ?thesis using Cons n by (auto simp: leaf_def)
  qed
qed

text \<open>The getter \<open>children\<close> of a chat item builds nothing, so that a toggle assigns \<open>_open\<close> and nothing else.\<close>

lemma add_children_same_store:
  assumes "add_children ops cs i new s rows = Some y" and "\<And>s r. snd (children_of ops s r) = s"
  shows "fst y = s"
proof -
  let ?P = "\<lambda>ops cs i new s rows y. (\<forall>s r. snd (children_of ops s r) = s) \<longrightarrow> fst y = s"
  have "?P ops cs i new s rows y"
  proof (rule add_children.raw_induct[of ?P, OF _ assms(1)])
    fix f and ops :: "('a, 'b) item_ops" and cs i new s rows y
    assume IH: "\<And>ops cs i new s rows y. f ops cs i new s rows = Some y \<Longrightarrow> ?P ops cs i new s rows y"
      and body: "(case cs of [] \<Rightarrow> Some (s, rows)
        | child # cs' \<Rightarrow>
          let index = new + i + 1; rows1 = splice_in index child rows; (kids, s1) = children_of ops s child
          in if kids \<noteq> [] \<and> open_of ops s1 child
             then let (kids2, s2) = children_of ops s1 (rows1 ! index)
                  in Option.bind (f ops kids2 0 index s2 rows1) (\<lambda>(s3, rows3).
                       f ops cs' (i + 1) (new + (length rows3 - length rows1)) s3 rows3)
             else f ops cs' (i + 1) new s1 rows1) = Some y"
    show "?P ops cs i new s rows y"
    proof
      assume same: "\<forall>s r. snd (children_of ops s r) = s"
      then have s1: "children_of ops s' r = (k, s1) \<Longrightarrow> s1 = s'" for s' r k s1 by (metis snd_conv)
      have f: "f ops cs i new s rows = Some (s1, rows1) \<Longrightarrow> s1 = s" for cs i new s rows s1 rows1
        using IH same by fastforce
      show "fst y = s"
        using body by (cases y) (auto simp: Let_def split: list.splits prod.splits if_splits bind_splits dest!: f s1)
    qed
  qed
  then show ?thesis using assms(2) by blast
qed

lemma toggle_chat_store:
  assumes "toggle_open_state chat_ops i v = Some (Inr v')"
  shows "log_of (store v') = log_of (store v)"
proof
  fix r
  have kids: "snd (children_of chat_ops s r) = s" for s r by (simp add: chat_ops_def)
  have "store v' = set_open chat_ops (row_map v ! i) (\<not> open_of chat_ops (store v) (row_map v ! i)) (store v)"
    using assms add_children_same_store[where ops = chat_ops] kids
    by (auto simp: toggle_open_state_def open_row_def close_row_def recursively_add_to_map_def Let_def
        split: if_splits bind_splits prod.splits) (metis snd_conv fst_conv)+
  then show "log_of (store v') r = log_of (store v) r"
    by (auto simp: chat_ops_def chat_set_open_def log_of_def split: chat_item.split)
qed

text \<open>The rows after one group of an otherwise closed forest has been opened.\<close>

lemma open_group_rows:
  assumes "closed_forest s ts" and "i < length ts" and "ts ! i = Node g (map leaf cs)"
    and "\<And>x. x \<noteq> g \<Longrightarrow> op x = open_of chat_ops s x" and "op g"
  shows "forest_rows op ts = map root (take i ts) @ g # cs @ map root (drop (Suc i) ts)"
proof -
  have ts: "ts = take i ts @ Node g (map leaf cs) # drop (Suc i) ts"
    using assms(2,3) by (metis id_take_nth_drop)
  have d: "distinct (concat (map nodes ts))" and cl: "\<forall>r\<in>set (concat (map nodes ts)). \<not> open_of chat_ops s r"
    using assms(1) by (auto simp: closed_forest_def forest_of_def)
  have part: "forest_rows op us = map root us"
    if us: "g \<notin> set (concat (map nodes us))" "set us \<subseteq> set ts" for us
  proof -
    have "visible_in op t = [root t]" if t: "t \<in> set us" for t
    proof -
      have "root t \<in> set (nodes t)" by simp
      then have "root t \<noteq> g" "root t \<in> set (concat (map nodes ts))"
        using us t by (auto intro!: bexI[of _ t])
      then show ?thesis using assms(4) cl by (cases t) auto
    qed
    then have "map (visible_in op) us = map (\<lambda>t. [root t]) us" by simp
    then show ?thesis unfolding forest_rows_def by (simp only: concat_map_singleton)
  qed
  have "g \<notin> set (concat (map nodes (take i ts)))" "g \<notin> set (concat (map nodes (drop (Suc i) ts)))"
    using d by (subst (asm) ts, auto)+
  then have "forest_rows op (take i ts) = map root (take i ts)"
    "forest_rows op (drop (Suc i) ts) = map root (drop (Suc i) ts)"
    by (intro part; auto dest: in_set_takeD in_set_dropD)+
  moreover have "visible_in op (Node g (map leaf cs)) = g # cs"
    using assms(5) by simp
  ultimately show ?thesis
    by (subst ts) (simp add: forest_rows_def)
qed

definition selection_of ::
    "nat node list \<Rightarrow> int \<Rightarrow> chat_log list \<Rightarrow> (js_error + shown) option \<Rightarrow> bool" where
  "selection_of ts t logs x \<longleftrightarrow>
     (if \<exists>l\<in>set logs. log_time l = t
      then \<exists>j v' l. x = Some (Inr (True, Some j, v')) \<and> j < row_count v' \<and> displays chat_ops ts v' \<and>
             log_of (store v') (row_map v' ! j) = [l] \<and> log_time l = t
      else x = Some (Inl NotFound))"

lemma selection_of_skip:
  "\<forall>l\<in>set A. log_time l \<noteq> t \<Longrightarrow> selection_of ts t (A @ B) x = selection_of ts t B x"
  by (simp add: selection_of_def bex_Un)

lemma select_log_leaf:
  assumes "i < length (row_map v)" and "log_of (store v) (row_map v ! i) = [l]"
  shows "select_log t i v = (if log_time l = t then Some (Inr (True, Some i, v)) else select_log t (Suc i) v)"
proof -
  have "chat_children (store v) (row_map v ! i) = []"
    using assms(2) by (auto simp: log_of_def chat_children_def split: chat_item.splits)
  then show ?thesis
    using assms(1) row_time_log[OF assms(2)] by (simp add: select_log.simps[of t i v])
qed

lemma select_log_group:
  assumes "i < length (row_map v)" and "chat_children (store v) (row_map v ! i) = cs" and "cs \<noteq> []"
    and "\<forall>c\<in>set cs. log_of (store v) c \<noteq> []"
  shows "select_log t i v =
    (if \<exists>l\<in>set (logs_of (store v) cs). log_time l = t
     then map_option (\<lambda>x. bindE x (select_below t i)) (toggle_open_state chat_ops i v)
     else select_log t (Suc i) v)"
  using assms(1-3) some_time_logs[OF assms(4)] by (simp add: select_log.simps[of t i v])

lemma select_log_hit:
  assumes cf: "closed_forest (store v) ts" and d: "displays chat_ops ts v" and i: "i < length ts"
    and t: "ts ! i = Node g (map leaf cs)" "cs \<noteq> []" "\<forall>c\<in>set cs. log_of (store v) c \<noteq> []"
    and hit: "\<exists>l\<in>set (logs_of (store v) cs). log_time l = tm"
  shows "\<exists>j v' l. map_option (\<lambda>x. bindE x (select_below tm i)) (toggle_open_state chat_ops i v) =
             Some (Inr (True, Some j, v')) \<and> j < row_count v' \<and> displays chat_ops ts v' \<and>
           log_of (store v') (row_map v' ! j) = [l] \<and> log_time l = tm"
proof -
  let ?s = "store v"
  have rows: "row_map v = map root ts" using cf d closed_forest_rows by (simp add: displays_def)
  have ri: "row_map v ! i = g" using rows i t(1) by simp
  have ti: "ts ! i \<in> set ts" using i by simp
  then have "shaped chat_ops ?s (ts ! i)" using cf by (simp add: closed_forest_def forest_of_def)
  then have k: "fst (children_of chat_ops ?s g) \<noteq> []" using t(1,2) by simp
  obtain v' where v': "toggle_open_state chat_ops i v = Some (Inr v')" "toggled chat_ops ts i v v'"
    using chat.toggle_displays[OF d] i rows by fastforce
  have lo: "log_of (store v') = log_of ?s" by (rule toggle_chat_store[OF v'(1)])
  have cl: "\<not> open_of chat_ops ?s g" using cf ti t(1) by (force simp: closed_forest_def)
  have op: "open_of chat_ops (store v') x = open_of chat_ops ?s x" if "x \<noteq> g" for x
    using v'(2) ri that by (simp add: toggled_def Let_def)
  have og: "open_of chat_ops (store v') g" using v'(2) ri k cl by (simp add: toggled_def Let_def)
  have d': "displays chat_ops ts v'" using v'(2) by (simp add: toggled_def Let_def)
  have rm: "row_map v' = map root (take i ts) @ g # cs @ map root (drop (Suc i) ts)"
    using open_group_rows[OF cf i t(1) op og] d' by (simp add: displays_def)
  have dr: "drop (Suc i) (row_map v') = cs @ map root (drop (Suc i) ts)" using i by (simp add: rm)
  obtain q l where q: "find_time (store v') tm (Suc i) (drop (Suc i) (row_map v')) = Inr (Suc i + q)"
    "q < length cs" "log_of (store v') (cs ! q) = [l]" "log_time l = tm"
    using find_time_logs[of cs "store v'" tm "Suc i" "map root (drop (Suc i) ts)"] t(3) hit
    unfolding dr by (auto simp: lo logs_of_def)
  have rq: "row_map v' ! (Suc i + q) = cs ! q" "Suc i + q < length (row_map v')"
    using q(2) i by (simp_all add: rm nth_append)
  have "select_below tm i v' = Inr (True, Some (Suc i + q), v')"
    using q rq by (simp add: select_below_def row_def row_time_log)
  then show ?thesis using v'(1) q(3,4) rq d' by (auto simp: row_count_def)
qed

lemma select_log_spec:
  assumes cf: "closed_forest (store v) ts" and d: "displays chat_ops ts v" and "i \<le> length ts"
  shows "selection_of ts t (forest_logs (store v) (drop i ts)) (select_log t i v)"
  using assms(3)
proof (induction "length ts - i" arbitrary: i)
  case 0
  have "row_map v = map root ts" using cf d closed_forest_rows by (simp add: displays_def)
  then show ?case using 0 by (simp add: selection_of_def select_log.simps[of t i v] forest_logs_def)
next
  case (Suc n)
  let ?s = "store v"
  have rows: "row_map v = map root ts" using cf d closed_forest_rows by (simp add: displays_def)
  have i: "i < length ts" using Suc.hyps(2) by simp
  then have ir: "i < length (row_map v)" by (simp add: rows)
  have "drop i ts = ts ! i # drop (Suc i) ts" using i by (simp add: Cons_nth_drop_Suc)
  then have logs: "forest_logs ?s (drop i ts) = logs_of ?s (nodes (ts ! i)) @ forest_logs ?s (drop (Suc i) ts)"
    by (simp add: forest_logs_def)
  have IH: "selection_of ts t (forest_logs ?s (drop (Suc i) ts)) (select_log t (Suc i) v)"
    by (rule Suc.hyps(1)) (use Suc i in auto)
  have ti: "ts ! i \<in> set ts" using i by simp
  from chat_node_cases[OF cf ti] show ?case
  proof (elim disjE exE conjE)
    fix r l assume t: "ts ! i = leaf r" "log_of ?s r = [l]"
    have ri: "row_map v ! i = r" using rows i t(1) by simp
    note step = select_log_leaf[OF ir t(2)[folded ri], of t]
    show ?thesis
    proof (cases "log_time l = t")
      case True
      then show ?thesis using d ir ri t by (auto simp: logs step selection_of_def row_count_def)
    next
      case False
      then show ?thesis using IH t by (simp add: logs step selection_of_skip[of "[l]", simplified])
    qed
  next
    fix g cs assume t: "ts ! i = Node g (map leaf cs)" "cs \<noteq> []" "log_of ?s g = []"
      "\<forall>c\<in>set cs. log_of ?s c \<noteq> []"
    have ri: "row_map v ! i = g" using rows i t(1) by simp
    have "shaped chat_ops ?s (ts ! i)" using cf ti by (simp add: closed_forest_def forest_of_def)
    then have k: "chat_children ?s (row_map v ! i) = cs" using t(1) ri by (simp add: chat_ops_def comp_def)
    have lg: "logs_of ?s (nodes (ts ! i)) = logs_of ?s cs"
      using t(1,3) by simp
    note step = select_log_group[OF ir k t(2,4), of t]
    show ?thesis
    proof (cases "\<exists>l\<in>set (logs_of ?s cs). log_time l = t")
      case True
      then show ?thesis
        using select_log_hit[OF cf d i t(1,2,4) True] by (simp add: logs lg step selection_of_def bex_Un)
    next
      case False
      then show ?thesis using IH by (simp add: logs lg step selection_of_skip)
    qed
  qed
qed

section \<open>Properties\<close>

definition demo_log_env :: log_env where
  "demo_log_env = \<lparr>today_ms = 1640995200000, format_date = (\<lambda>d. js ''1/1/22''),
     format_date_time = (\<lambda>d. js ''1/1/22, 9:00''), format_weekday = (\<lambda>d. js ''Monday''),
     month_start = (\<lambda>d. 0), iso_string = (\<lambda>d. js ''1970-01-01T00:00:00.000Z''),
     year_of = (\<lambda>d. 1970), month_of = (\<lambda>d. 0), now_ms = 1640995200000,
     format_month = (\<lambda>d. js ''January''), format_month_year = (\<lambda>d. js ''January 1970''),
     this_month_text = js ''This month'', log_text = (\<lambda>k. k)\<rparr>"

definition demo_log :: "int \<Rightarrow> bool \<Rightarrow> chat_log" where
  "demo_log t j = \<lparr>log_time = t, log_json = j, log_title = js ''log''\<rparr>"

lemma demo_iso_ids: "iso_ids demo_log_env"
  by (simp add: iso_ids_def demo_log_env_def first_group_ids_def)

text \<open>C36: \<open>_rebuild\<close> never throws, and it builds a tree that shows every log exactly once, apart
  from a JSON log of today or of yesterday that a later JSON log of the same day replaces.  The
  rows are the visible nodes of the tree.\<close>

theorem chat_logs_shown_once:
  assumes "iso_ids e"
  shows "\<exists>v ts. chat_log_tree_view e logs = Inr v \<and> displays chat_ops ts v \<and>
           mset (forest_logs (store v) ts) + mset (superseded e logs) = mset logs"
  using rebuild_shows[OF assms, of logs] by blast

theorem chat_logs_shown_once_witness:
  "\<exists>v ts. chat_log_tree_view demo_log_env [demo_log 1640995300 True, demo_log 5 False] = Inr v \<and>
     displays chat_ops ts v \<and>
     mset (forest_logs (store v) ts) + mset (superseded demo_log_env [demo_log 1640995300 True, demo_log 5 False]) =
       mset [demo_log 1640995300 True, demo_log 5 False]"
  by (rule chat_logs_shown_once[OF demo_iso_ids])

text \<open>C35: whatever rows of the log tree are toggled, in whatever order, every toggle returns, the
  rows stay the visible nodes of one and the same tree, and the row counts announced to the tree
  element add up to the number of rows.\<close>

theorem chat_tree_clicks:
  assumes "iso_ids e"
  shows "\<exists>v ts v'. chat_log_tree_view e logs = Inr v \<and> toggle_rows chat_ops is v = Some v' \<and>
           displays chat_ops ts v \<and> displays chat_ops ts v' \<and>
           count_changes (tree_calls v') = int (row_count v')"
proof -
  obtain v ts where v: "chat_log_tree_view e logs = Inr v" "displays chat_ops ts v" "has_tree v"
    "tree_calls v = [RowCountChanged 0 0, RowCountChanged 0 (int (row_count v))]"
    using rebuild_shows[OF assms, of logs] by blast
  show ?thesis using v chat.toggle_rows_displays[OF v(2), of "is"] by auto
qed

theorem chat_tree_clicks_witness:
  "\<exists>v ts v'. chat_log_tree_view demo_log_env [demo_log 5 False] = Inr v \<and>
     toggle_rows chat_ops [0, 1, 0, 7] v = Some v' \<and> displays chat_ops ts v \<and> displays chat_ops ts v' \<and>
     count_changes (tree_calls v') = int (row_count v')"
  by (rule chat_tree_clicks[OF demo_iso_ids])

definition demo_chat_view :: "(chat_store, nat) tree_view" where
  "demo_chat_view = \<lparr>store = \<lparr>objs = (\<lambda>r. GroupItem [] [] False)(
       0 := LogItem (demo_log 9 True) (js ''Today'') 0 None, 1 := GroupItem (js ''May'') [2, 3] True,
       2 := LogItem (demo_log 5 False) (js ''5'') 1 (Some 1),
       3 := LogItem (demo_log 4 False) (js ''4'') 1 (Some 1)), fresh = 4\<rparr>,
     row_map = [0, 1, 2, 3], persist_open_map = [js ''May''], has_tree = True, tree_calls = []\<rparr>"

lemma demo_chat_displays: "displays chat_ops [leaf 0, Node 1 [leaf 2, leaf 3]] demo_chat_view"
  by (simp add: displays_def forest_of_def demo_chat_view_def leaf_def chat_ops_def chat_children_def)

text \<open>C40: how the rows of the tree of chat logs are related: for every row of a view that displays a
  forest of items, as it does after the view is built and after any clicks, \<open>getParentIndex\<close> gives
  the row of the parent, which is above the row, or -1 for a root; and \<open>hasNextSibling\<close>, which
  compares levels only, tells whether a later row has the same parent.\<close>

theorem chat_tree_relations:
  assumes "displays chat_ops ts v" and "i < row_count v"
  shows "(\<exists>j. parent_row chat_ops v i j \<and>
            get_parent_index chat_ops v i = Inr (case j of None \<Rightarrow> - 1 | Some j \<Rightarrow> int j)) \<and>
         has_next_sibling chat_ops v i i =
           Inr (\<exists>k. i < k \<and> k < row_count v \<and>
                  parent_of chat_ops (store v) (row_map v ! k) = parent_of chat_ops (store v) (row_map v ! i))"
  using parent_row_exists[OF assms(1)] get_parent_index_row[OF assms(1)] has_next_sibling_iff[OF assms(1)] assms(2)
  by (simp add: row_count_def) blast

theorem chat_tree_relations_witness:
  "(\<exists>j. parent_row chat_ops demo_chat_view 2 j \<and>
      get_parent_index chat_ops demo_chat_view 2 = Inr (case j of None \<Rightarrow> - 1 | Some j \<Rightarrow> int j)) \<and>
   has_next_sibling chat_ops demo_chat_view 2 2 =
     Inr (\<exists>k. 2 < k \<and> k < row_count demo_chat_view \<and>
            parent_of chat_ops (store demo_chat_view) (row_map demo_chat_view ! k) =
            parent_of chat_ops (store demo_chat_view) (row_map demo_chat_view ! 2))"
  by (rule chat_tree_relations[OF demo_chat_displays]) (simp add: demo_chat_view_def row_count_def)

text \<open>toggling a row with children twice gives the rows back, with every item as open as it
  was: what was open below a closed group is still open when the group is opened again.\<close>

theorem chat_toggle_twice:
  assumes "displays chat_ops ts v" and "i < row_count v" and "chat_children (store v) (row_map v ! i) \<noteq> []"
  shows "\<exists>v'. toggle_rows chat_ops [i, i] v = Some v' \<and> row_map v' = row_map v \<and>
           open_of chat_ops (store v') = open_of chat_ops (store v)"
  by (rule chat.toggle_twice[OF assms(1)]) (use assms in \<open>simp_all add: row_count_def chat_ops_def\<close>)

theorem chat_toggle_twice_witness:
  "\<exists>v'. toggle_rows chat_ops [1, 1] demo_chat_view = Some v' \<and> row_map v' = row_map demo_chat_view \<and>
     open_of chat_ops (store v') = open_of chat_ops (store demo_chat_view)"
  by (rule chat_toggle_twice[OF demo_chat_displays])
     (simp_all add: demo_chat_view_def row_count_def chat_children_def)

text \<open>C37: \<open>_showLogList\<close> asked for a log that the tree shows opens its group if need be and
  selects a row with a log of that time; asked for a time that no log of the tree has, it
  throws.\<close>

theorem chat_log_selected:
  assumes "iso_ids e" and "logs \<noteq> []"
  shows "if \<exists>l'\<in>#mset logs - mset (superseded e logs). log_time l' = log_time l
         then \<exists>j v' l'. show_log_list e logs (ThisLog l) = Some (Inr (True, Some j, v')) \<and>
                j < row_count v' \<and> log_of (store v') (row_map v' ! j) = [l'] \<and> log_time l' = log_time l
         else show_log_list e logs (ThisLog l) = Some (Inl NotFound)"
proof -
  obtain v ts where v: "chat_log_tree_view e logs = Inr v" "displays chat_ops ts v"
    "closed_forest (store v) ts" "row_map v = map root ts"
    "mset (forest_logs (store v) ts) + mset (superseded e logs) = mset logs"
    using rebuild_shows[OF assms(1), of logs] by blast
  have shown: "mset logs - mset (superseded e logs) = mset (forest_logs (store v) ts)"
    by (simp add: v(5)[symmetric])
  have "logs \<noteq> [] \<Longrightarrow> length (superseded e logs) < length logs"
    by (rule superseded_shorter)
  then have "forest_logs (store v) ts \<noteq> []"
    using assms(2) arg_cong[OF v(5), of size] by auto
  then have "row_map v \<noteq> []" by (auto simp: v(4) forest_logs_def)
  then have "show_log_list e logs (ThisLog l) = select_log (log_time l) 0 v"
    using v(1) by (simp add: show_log_list_def)
  moreover have "selection_of ts (log_time l) (forest_logs (store v) ts) (select_log (log_time l) 0 v)"
    using select_log_spec[OF v(3,2), of 0 "log_time l"] by simp
  ultimately show ?thesis
    unfolding shown selection_of_def set_mset_mset by (simp split: if_splits) blast
qed

theorem chat_log_selected_witness:
  "if \<exists>l'\<in>#mset [demo_log 5 False] - mset (superseded demo_log_env [demo_log 5 False]).
        log_time l' = log_time (demo_log 5 False)
   then \<exists>j v' l'. show_log_list demo_log_env [demo_log 5 False] (ThisLog (demo_log 5 False)) =
            Some (Inr (True, Some j, v')) \<and> j < row_count v' \<and>
          log_of (store v') (row_map v' ! j) = [l'] \<and> log_time l' = log_time (demo_log 5 False)
   else show_log_list demo_log_env [demo_log 5 False] (ThisLog (demo_log 5 False)) = Some (Inl NotFound)"
  by (rule chat_log_selected[OF demo_iso_ids]) simp

end
