(* ===== verification/CalFilter.thy ===== *)
theory CalFilter
  imports Prelude
begin

unbundle bit_operations_syntax

text \<open>
  The filter of the task list and of the event finder: \<open>calFilterProperties\<close> and \<open>calFilter\<close> of
  \<open>calendar/base/src/calFilter.js\<close>, with the range test \<open>checkIfInRange\<close> of
  \<open>calItemUtils.jsm\<close> that it calls.

  Dates (\<open>'d\<close>), durations (\<open>'u\<close>) and items (\<open>'i\<close>) are objects of the calendar back end; what
  the filter asks of them are the records \<open>date_lib\<close>, \<open>clock\<close> and \<open>item_lib\<close>.  A date is a value
  here: the filter changes only dates that it has just created or cloned.  The clock stands
  still during one call.
\<close>

section \<open>The calendar back end\<close>

record ('d, 'u) date_lib =
  compare_dates :: "'d \<Rightarrow> 'd \<Rightarrow> int"       \<comment> \<open>\<open>compare\<close>\<close>
  is_date :: "'d \<Rightarrow> bool"
  as_date :: "'d \<Rightarrow> 'd"                    \<comment> \<open>\<open>isDate = true\<close>\<close>
  as_date_time :: "'d \<Rightarrow> 'd"               \<comment> \<open>\<open>isDate = false\<close>\<close>
  next_day :: "'d \<Rightarrow> 'd"                   \<comment> \<open>\<open>day++\<close>\<close>
  js_time :: "'d \<Rightarrow> int"                   \<comment> \<open>\<open>cal.dtz.dateTimeToJsDate\<close>\<close>
  start_of_week :: "'d \<Rightarrow> 'd"
  end_of_week :: "'d \<Rightarrow> 'd"
  start_of_month :: "'d \<Rightarrow> 'd"
  end_of_month :: "'d \<Rightarrow> 'd"
  start_of_year :: "'d \<Rightarrow> 'd"
  end_of_year :: "'d \<Rightarrow> 'd"
  add_duration :: "'d \<Rightarrow> 'u \<Rightarrow> 'd"
  in_seconds :: "'u \<Rightarrow> int"
  create_duration :: "jstr \<Rightarrow> js_error + 'u"
  create_date_time :: "'d"                  \<comment> \<open>\<open>cal.createDateTime()\<close>\<close>

record 'd clock =
  now :: 'd
  view_start :: 'd
  view_end :: 'd
  view_selected :: "'d option"

record ('i, 'd) item_lib =
  is_event :: "'i \<Rightarrow> bool"
  is_todo :: "'i \<Rightarrow> bool"
  start_of :: "'i \<Rightarrow> 'd option"
  end_of :: "'i \<Rightarrow> 'd option"
  entry_of :: "'i \<Rightarrow> 'd option"
  due_of :: "'i \<Rightarrow> 'd option"
  is_completed :: "'i \<Rightarrow> bool"
  completed_of :: "'i \<Rightarrow> 'd option"
  percent_of :: "'i \<Rightarrow> nat"                \<comment> \<open>\<open>percentComplete || 0\<close>, which RFC 5545 limits to 0 to 100\<close>
  categories_of :: "'i \<Rightarrow> jstr list"
  property_of :: "'i \<Rightarrow> jstr \<Rightarrow> jstr option"
  has_recurrence :: "'i \<Rightarrow> bool"
  next_occurrence :: "'i \<Rightarrow> 'd option \<Rightarrow> 'i option"
  exception_ids :: "'i \<Rightarrow> 'd list"
  exception_for :: "'i \<Rightarrow> 'd \<Rightarrow> 'i option"
  occurrences_between :: "'i \<Rightarrow> 'd \<Rightarrow> 'd \<Rightarrow> 'i list"

section \<open>Filter properties\<close>

text \<open>The values of \<open>start\<close> and \<open>end\<close>: null, a constant, or a duration string.\<close>

datatype date_prop = NullProp | NumProp int | StrProp jstr

text \<open>An array is a reference with its contents; \<open>==\<close> compares arrays by reference.\<close>

datatype category_prop = NoCategory | OneCategory jstr | ManyCategories nat "jstr list"

record filter_props =
  p_start :: date_prop
  p_end :: date_prop
  p_due :: "int option"
  p_status :: "int option"
  p_category :: category_prop
  p_occurrences :: "int option"
  p_onfilter :: "nat option"      \<comment> \<open>a reference to a callback\<close>

definition FILTER_DATE_ALL :: int where "FILTER_DATE_ALL = 0"
definition FILTER_DATE_VIEW :: int where "FILTER_DATE_VIEW = 1"
definition FILTER_DATE_SELECTED :: int where "FILTER_DATE_SELECTED = 2"
definition FILTER_DATE_SELECTED_OR_NOW :: int where "FILTER_DATE_SELECTED_OR_NOW = 3"
definition FILTER_DATE_NOW :: int where "FILTER_DATE_NOW = 4"
definition FILTER_DATE_TODAY :: int where "FILTER_DATE_TODAY = 5"
definition FILTER_DATE_CURRENT_WEEK :: int where "FILTER_DATE_CURRENT_WEEK = 6"
definition FILTER_DATE_CURRENT_MONTH :: int where "FILTER_DATE_CURRENT_MONTH = 7"
definition FILTER_DATE_CURRENT_YEAR :: int where "FILTER_DATE_CURRENT_YEAR = 8"

definition FILTER_STATUS_INCOMPLETE :: int where "FILTER_STATUS_INCOMPLETE = 1"
definition FILTER_STATUS_IN_PROGRESS :: int where "FILTER_STATUS_IN_PROGRESS = 2"
definition FILTER_STATUS_COMPLETED_TODAY :: int where "FILTER_STATUS_COMPLETED_TODAY = 4"
definition FILTER_STATUS_COMPLETED_BEFORE :: int where "FILTER_STATUS_COMPLETED_BEFORE = 8"
definition FILTER_STATUS_ALL :: int where "FILTER_STATUS_ALL = 15"

definition FILTER_DUE_PAST :: int where "FILTER_DUE_PAST = 1"
definition FILTER_DUE_TODAY :: int where "FILTER_DUE_TODAY = 2"
definition FILTER_DUE_FUTURE :: int where "FILTER_DUE_FUTURE = 4"
definition FILTER_DUE_NONE :: int where "FILTER_DUE_NONE = 8"
definition FILTER_DUE_ALL :: int where "FILTER_DUE_ALL = 15"

definition FILTER_OCCURRENCES_BOUND :: int where "FILTER_OCCURRENCES_BOUND = 0"
definition FILTER_OCCURRENCES_NONE :: int where "FILTER_OCCURRENCES_NONE = 1"
definition FILTER_OCCURRENCES_PAST_AND_NEXT :: int where "FILTER_OCCURRENCES_PAST_AND_NEXT = 2"

lemmas filter_constants = FILTER_DATE_ALL_def FILTER_DATE_VIEW_def FILTER_DATE_SELECTED_def
  FILTER_DATE_SELECTED_OR_NOW_def FILTER_DATE_NOW_def FILTER_DATE_TODAY_def
  FILTER_DATE_CURRENT_WEEK_def FILTER_DATE_CURRENT_MONTH_def FILTER_DATE_CURRENT_YEAR_def
  FILTER_STATUS_INCOMPLETE_def FILTER_STATUS_IN_PROGRESS_def FILTER_STATUS_COMPLETED_TODAY_def
  FILTER_STATUS_COMPLETED_BEFORE_def FILTER_STATUS_ALL_def FILTER_DUE_PAST_def FILTER_DUE_TODAY_def
  FILTER_DUE_FUTURE_def FILTER_DUE_NONE_def FILTER_DUE_ALL_def FILTER_OCCURRENCES_BOUND_def
  FILTER_OCCURRENCES_NONE_def FILTER_OCCURRENCES_PAST_AND_NEXT_def

definition new_filter_props :: filter_props where
  "new_filter_props = \<lparr>p_start = NullProp, p_end = NullProp, p_due = None, p_status = None,
     p_category = NoCategory, p_occurrences = None, p_onfilter = None\<rparr>"

text \<open>
  \<open>==\<close> of a string and a number converts the string.  The conversion is written out for
  optional signs and decimal digits; any other string is taken as not a number, which is so
  for the durations that \<open>start\<close> and \<open>end\<close> hold.
\<close>

definition to_number :: "jstr \<Rightarrow> int option" where
  "to_number s =
     (let t = trim s
      in if t = [] then Some 0
         else if list_all is_digit t then Some (int (digits_val 0 t))
         else if hd t = ord CHR ''-'' \<and> tl t \<noteq> [] \<and> list_all is_digit (tl t) then Some (- int (digits_val 0 (tl t)))
         else if hd t = ord CHR ''+'' \<and> tl t \<noteq> [] \<and> list_all is_digit (tl t) then Some (int (digits_val 0 (tl t)))
         else None)"

fun loose_eq :: "date_prop \<Rightarrow> date_prop \<Rightarrow> bool" where
  "loose_eq (NumProp n) (StrProp s) = (to_number s = Some n)"
| "loose_eq (StrProp s) (NumProp n) = (to_number s = Some n)"
| "loose_eq p q = (p = q)"

fun category_eq :: "category_prop \<Rightarrow> category_prop \<Rightarrow> bool" where
  "category_eq (ManyCategories r cs) (ManyCategories r' cs') = (r = r')"
| "category_eq (ManyCategories r cs) (OneCategory c) = (join [ord CHR '',''] cs = c)"
| "category_eq (OneCategory c) (ManyCategories r cs) = (join [ord CHR '',''] cs = c)"
| "category_eq p q = (p = q)"

definition props_equals :: "filter_props \<Rightarrow> filter_props \<Rightarrow> bool" where
  "props_equals p q \<longleftrightarrow>
     loose_eq (p_start p) (p_start q) \<and> loose_eq (p_end p) (p_end q) \<and> p_due p = p_due q \<and>
     p_status p = p_status q \<and> category_eq (p_category p) (p_category q) \<and>
     p_occurrences p = p_occurrences q \<and> p_onfilter p = p_onfilter q"

definition clone_props :: "filter_props \<Rightarrow> filter_props" where
  "clone_props p = new_filter_props\<lparr>p_start := p_start p, p_end := p_end p, p_due := p_due p,
     p_status := p_status p, p_category := p_category p, p_occurrences := p_occurrences p,
     p_onfilter := p_onfilter p\<rparr>"

section \<open>Predefined filters\<close>

definition predefined_names :: "jstr list" where
  "predefined_names = [js ''all'', js ''notstarted'', js ''overdue'', js ''open'', js ''completed'',
     js ''throughcurrent'', js ''throughtoday'', js ''throughsevendays'', js ''today'',
     js ''thisCalendarMonth'', js ''future'', js ''current'', js ''currentview'']"

definition task_props :: "int \<Rightarrow> int \<Rightarrow> date_prop \<Rightarrow> filter_props" where
  "task_props status due e = new_filter_props\<lparr>p_status := Some status, p_due := Some due,
     p_start := NumProp FILTER_DATE_ALL, p_end := e\<rparr>"

definition event_props :: "int \<Rightarrow> int \<Rightarrow> filter_props" where
  "event_props s e = new_filter_props\<lparr>p_start := NumProp s, p_end := NumProp e\<rparr>"

definition predefined_props :: "jstr \<Rightarrow> filter_props" where
  "predefined_props f =
     (if f = [] then new_filter_props
      else if f = js ''notstarted''
        then task_props FILTER_STATUS_INCOMPLETE FILTER_DUE_ALL (NumProp FILTER_DATE_SELECTED_OR_NOW)
      else if f = js ''overdue''
        then task_props (FILTER_STATUS_INCOMPLETE OR FILTER_STATUS_IN_PROGRESS) FILTER_DUE_PAST
               (NumProp FILTER_DATE_SELECTED_OR_NOW)
      else if f = js ''open''
        then (task_props (FILTER_STATUS_INCOMPLETE OR FILTER_STATUS_IN_PROGRESS) FILTER_DUE_ALL
               (NumProp FILTER_DATE_ALL))\<lparr>p_occurrences := Some FILTER_OCCURRENCES_PAST_AND_NEXT\<rparr>
      else if f = js ''completed''
        then task_props (FILTER_STATUS_COMPLETED_TODAY OR FILTER_STATUS_COMPLETED_BEFORE) FILTER_DUE_ALL
               (NumProp FILTER_DATE_SELECTED_OR_NOW)
      else if f = js ''throughcurrent''
        then task_props (FILTER_STATUS_INCOMPLETE OR FILTER_STATUS_IN_PROGRESS OR FILTER_STATUS_COMPLETED_TODAY)
               FILTER_DUE_ALL (NumProp FILTER_DATE_SELECTED_OR_NOW)
      else if f = js ''throughtoday''
        then task_props (FILTER_STATUS_INCOMPLETE OR FILTER_STATUS_IN_PROGRESS OR FILTER_STATUS_COMPLETED_TODAY)
               FILTER_DUE_ALL (NumProp FILTER_DATE_TODAY)
      else if f = js ''throughsevendays''
        then task_props (FILTER_STATUS_INCOMPLETE OR FILTER_STATUS_IN_PROGRESS OR FILTER_STATUS_COMPLETED_TODAY)
               FILTER_DUE_ALL (StrProp (js ''P7D''))
      else if f = js ''today'' then event_props FILTER_DATE_TODAY FILTER_DATE_TODAY
      else if f = js ''thisCalendarMonth'' then event_props FILTER_DATE_CURRENT_MONTH FILTER_DATE_CURRENT_MONTH
      else if f = js ''future'' then event_props FILTER_DATE_NOW FILTER_DATE_ALL
      else if f = js ''current'' then event_props FILTER_DATE_SELECTED FILTER_DATE_SELECTED
      else if f = js ''currentview'' then event_props FILTER_DATE_VIEW FILTER_DATE_VIEW
      else task_props FILTER_STATUS_ALL FILTER_DUE_ALL (NumProp FILTER_DATE_ALL))"

section \<open>The filter\<close>

record 'd cal_filter =
  m_start :: "'d option"
  m_end :: "'d option"
  m_selected :: "'d option"
  m_text :: jstr
  m_defined :: "filter_props jsmap"
  m_props :: "filter_props option"
  m_today :: "'d option"
  m_tomorrow :: "'d option"
  m_max_iterations :: int

text \<open>
  \<open>name in this.mDefinedFilters\<close> is also true of the properties that every object inherits from
  \<open>Object.prototype\<close>.
\<close>

definition object_property_names :: "jstr list" where
  "object_property_names = [js ''constructor'', js ''hasOwnProperty'', js ''isPrototypeOf'',
     js ''propertyIsEnumerable'', js ''toLocaleString'', js ''toString'', js ''valueOf'',
     js ''__defineGetter__'', js ''__defineSetter__'', js ''__lookupGetter__'',
     js ''__lookupSetter__'', js ''__proto__'']"

definition is_defined :: "jstr \<Rightarrow> 'd cal_filter \<Rightarrow> bool" where
  "is_defined n f \<longleftrightarrow> map_of (m_defined f) n \<noteq> None \<or> n \<in> set object_property_names"

definition define_filter :: "jstr \<Rightarrow> filter_props \<Rightarrow> 'd cal_filter \<Rightarrow> 'd cal_filter" where
  "define_filter n p f = f\<lparr>m_defined := AList.update n p (m_defined f)\<rparr>"

definition init_defined_filters :: "'d cal_filter \<Rightarrow> 'd cal_filter" where
  "init_defined_filters f =
     fold (\<lambda>n f. if is_defined n f then f else define_filter n (predefined_props n) f) predefined_names f"

text \<open>\<open>new calFilter()\<close>, given the filters defined so far: \<open>mDefinedFilters\<close> is shared.\<close>

definition new_cal_filter :: "filter_props jsmap \<Rightarrow> int \<Rightarrow> 'd cal_filter" where
  "new_cal_filter shared limit = (init_defined_filters
     \<lparr>m_start = None, m_end = None, m_selected = None, m_text = [], m_defined = shared,
       m_props = Some new_filter_props, m_today = None, m_tomorrow = None, m_max_iterations = 50\<rparr>)
     \<lparr>m_max_iterations := limit\<rparr>"

definition get_defined_filter_properties :: "jstr \<Rightarrow> 'd cal_filter \<Rightarrow> js_error + filter_props option" where
  "get_defined_filter_properties n f =
     (if is_defined n f
      then case map_of (m_defined f) n of
             Some p \<Rightarrow> Inr (Some (clone_props p))
           | None \<Rightarrow> Inl TypeError
      else Inr None)"

definition get_defined_filter_name :: "filter_props \<Rightarrow> 'd cal_filter \<Rightarrow> jstr option" where
  "get_defined_filter_name p f =
     map_option fst (find (\<lambda>(n, q). props_equals q p) (m_defined f))"

definition filter_properties :: "'d cal_filter \<Rightarrow> filter_props option" where
  "filter_properties f = map_option clone_props (m_props f)"

definition filter_name :: "'d cal_filter \<Rightarrow> jstr option" where
  "filter_name f = (case m_props f of None \<Rightarrow> None | Some p \<Rightarrow> get_defined_filter_name p f)"

text \<open>The setters; the getters of the same names read the fields.\<close>

definition set_start_date :: "'d option \<Rightarrow> 'd cal_filter \<Rightarrow> 'd cal_filter" where
  "set_start_date d f = f\<lparr>m_start := d\<rparr>"

definition set_end_date :: "'d option \<Rightarrow> 'd cal_filter \<Rightarrow> 'd cal_filter" where
  "set_end_date d f = f\<lparr>m_end := d\<rparr>"

definition set_filter_text :: "jstr \<Rightarrow> 'd cal_filter \<Rightarrow> 'd cal_filter" where
  "set_filter_text t f = f\<lparr>m_text := t\<rparr>"

definition set_selected_date :: "'d option \<Rightarrow> 'd cal_filter \<Rightarrow> 'd cal_filter" where
  "set_selected_date d f = f\<lparr>m_selected := d\<rparr>"

section \<open>Testing an item\<close>

subsection \<open>The date range\<close>

definition ensure_date_time :: "('d, 'u) date_lib \<Rightarrow> 'd option \<Rightarrow> 'd option" where
  "ensure_date_time D x =
     (case x of None \<Rightarrow> None | Some d \<Rightarrow> if is_date D d then Some (as_date_time D d) else Some d)"

definition or_else :: "'a option \<Rightarrow> 'a option \<Rightarrow> 'a option" where
  "or_else a b = (case a of None \<Rightarrow> b | Some x \<Rightarrow> Some x)"

text \<open>\<open>!bound || bound condition\<close>\<close>

definition unless :: "'d option \<Rightarrow> ('d \<Rightarrow> bool) \<Rightarrow> bool" where
  "unless b P = (case b of None \<Rightarrow> True | Some d \<Rightarrow> P d)"

text \<open>
  \<open>checkIfInRange\<close> without \<open>returnDtstartOrDue\<close>, as the filter calls it.  It returns the start
  date, a boolean or null; the filter uses the truth value.
\<close>

definition check_if_in_range ::
    "('d, 'u) date_lib \<Rightarrow> ('i, 'd) item_lib \<Rightarrow> 'i \<Rightarrow> 'd option \<Rightarrow> 'd option \<Rightarrow> bool" where
  "check_if_in_range D I item range_start range_end =
     (let query_start = ensure_date_time D range_start;
          in_range = (\<lambda>start_date end_date.
            let s = the (ensure_date_time D (Some start_date)); e = the (ensure_date_time D (Some end_date));
                query_end = ensure_date_time D range_end
            in if compare_dates D s e = 0
               then unless query_start (\<lambda>q. compare_dates D s q \<ge> 0) \<and> unless query_end (\<lambda>q. compare_dates D s q < 0)
               else unless query_end (\<lambda>q. compare_dates D s q < 0) \<and> unless query_start (\<lambda>q. compare_dates D e q > 0))
      in if is_event I item
         then (case start_of I item of
                 None \<Rightarrow> False
               | Some sd \<Rightarrow> in_range sd (case end_of I item of None \<Rightarrow> sd | Some ed \<Rightarrow> ed))
         else (case entry_of I item of
                 None \<Rightarrow>
                   (let completed = ensure_date_time D (completed_of I item);
                        due = ensure_date_time D (due_of I item)
                    in unless completed (\<lambda>c. unless query_start (\<lambda>q. compare_dates D c q > 0 \<or>
                         (case due of None \<Rightarrow> False | Some d \<Rightarrow> compare_dates D d q \<ge> 0))))
               | Some sd \<Rightarrow> in_range sd (case due_of I item of None \<Rightarrow> sd | Some d \<Rightarrow> d)))"

definition date_range_filter ::
    "('d, 'u) date_lib \<Rightarrow> ('i, 'd) item_lib \<Rightarrow> 'd cal_filter \<Rightarrow> 'i \<Rightarrow> bool" where
  "date_range_filter D I f item = check_if_in_range D I item (m_start f) (m_end f)"

subsection \<open>Text and properties\<close>

text \<open>\<open>toLowerCase\<close> needs the case tables of Unicode: it is the argument \<open>lower\<close>.\<close>

definition contains_str :: "jstr \<Rightarrow> jstr \<Rightarrow> bool" where
  "contains_str s p \<longleftrightarrow> index_of_str p s \<noteq> None"

definition text_fields :: "jstr list" where
  "text_fields = [js ''SUMMARY'', js ''DESCRIPTION'', js ''LOCATION'', js ''URL'']"

definition text_filter ::
    "('i, 'd) item_lib \<Rightarrow> (jstr \<Rightarrow> jstr) \<Rightarrow> 'd cal_filter \<Rightarrow> 'i \<Rightarrow> bool" where
  "text_filter I lower f item =
     (if m_text f = [] then True
      else let search = lower (m_text f)
           in if search = [] \<or> list_all js_ws search then True
              else list_ex (\<lambda>field. case property_of I item field of
                              None \<Rightarrow> False
                            | Some v \<Rightarrow> v \<noteq> [] \<and> contains_str (lower v) search) text_fields \<or>
                   list_ex (\<lambda>c. contains_str (lower c) search) (categories_of I item))"

definition today_of :: "('d, 'u) date_lib \<Rightarrow> 'd clock \<Rightarrow> 'd cal_filter \<Rightarrow> 'd" where
  "today_of D c f = (case m_today f of Some d \<Rightarrow> d | None \<Rightarrow> as_date D (now c))"

definition tomorrow_of :: "('d, 'u) date_lib \<Rightarrow> 'd clock \<Rightarrow> 'd cal_filter \<Rightarrow> 'd" where
  "tomorrow_of D c f = (case m_tomorrow f of Some d \<Rightarrow> d | None \<Rightarrow> next_day D (today_of D c f))"

definition category_test :: "('i, 'd) item_lib \<Rightarrow> category_prop \<Rightarrow> 'i \<Rightarrow> bool" where
  "category_test I p item =
     (case p of
        NoCategory \<Rightarrow> True
      | OneCategory c \<Rightarrow> c = [] \<or> list_ex (\<lambda>c. c \<in> set (categories_of I item)) [c]
      | ManyCategories r cs \<Rightarrow> list_ex (\<lambda>c. c \<in> set (categories_of I item)) cs)"

definition status_test ::
    "('d, 'u) date_lib \<Rightarrow> ('i, 'd) item_lib \<Rightarrow> 'd \<Rightarrow> int \<Rightarrow> 'i \<Rightarrow> bool" where
  "status_test D I today status item =
     (let completed = is_completed I item;
          current = (case completed_of I item of None \<Rightarrow> True | Some d \<Rightarrow> compare_dates D today d \<le> 0);
          percent = percent_of I item
      in (status AND FILTER_STATUS_INCOMPLETE \<noteq> 0 \<or> \<not> (\<not> completed \<and> percent = 0)) \<and>
         (status AND FILTER_STATUS_IN_PROGRESS \<noteq> 0 \<or> \<not> (\<not> completed \<and> percent > 0)) \<and>
         (status AND FILTER_STATUS_COMPLETED_TODAY \<noteq> 0 \<or> \<not> (completed \<and> current)) \<and>
         (status AND FILTER_STATUS_COMPLETED_BEFORE \<noteq> 0 \<or> \<not> (completed \<and> \<not> current)))"

definition due_test ::
    "('d, 'u) date_lib \<Rightarrow> ('i, 'd) item_lib \<Rightarrow> 'd \<Rightarrow> 'd \<Rightarrow> int \<Rightarrow> 'i \<Rightarrow> bool" where
  "due_test D I nw tomorrow due_mask item =
     (let due_is = (\<lambda>P. case due_of I item of None \<Rightarrow> False | Some d \<Rightarrow> P d)
      in (due_mask AND FILTER_DUE_PAST \<noteq> 0 \<or> \<not> due_is (\<lambda>d. compare_dates D d nw < 0)) \<and>
         (due_mask AND FILTER_DUE_TODAY \<noteq> 0 \<or>
            \<not> due_is (\<lambda>d. compare_dates D d nw \<ge> 0 \<and> compare_dates D d tomorrow < 0)) \<and>
         (due_mask AND FILTER_DUE_FUTURE \<noteq> 0 \<or> \<not> due_is (\<lambda>d. compare_dates D d tomorrow \<ge> 0)) \<and>
         (due_mask AND FILTER_DUE_NONE \<noteq> 0 \<or> \<not> (due_of I item = None)))"

text \<open>The callback \<open>onfilter\<close> gets the result so far and its own result counts.\<close>

definition property_filter ::
    "('d, 'u) date_lib \<Rightarrow> ('i, 'd) item_lib \<Rightarrow> (nat \<Rightarrow> 'i \<Rightarrow> bool \<Rightarrow> filter_props \<Rightarrow> bool) \<Rightarrow>
     'd clock \<Rightarrow> 'd cal_filter \<Rightarrow> 'i \<Rightarrow> bool" where
  "property_filter D I call c f item =
     (case m_props f of
        None \<Rightarrow> False
      | Some p \<Rightarrow>
          let today = today_of D c f;
              tomorrow = tomorrow_of D c f;
              r1 = date_range_filter D I f item;
              r2 = (r1 \<and> category_test I (p_category p) item);
              r3 = (case p_status p of
                      None \<Rightarrow> r2
                    | Some m \<Rightarrow> if r2 \<and> is_todo I item then status_test D I today m item else r2);
              r4 = (case p_due p of
                      None \<Rightarrow> r3
                    | Some m \<Rightarrow> if r3 \<and> is_todo I item then due_test D I (now c) tomorrow m item else r3)
          in case p_onfilter p of None \<Rightarrow> r4 | Some k \<Rightarrow> call k item r4 p)"

record ('i, 'd, 'u) filter_env =
  dates :: "('d, 'u) date_lib"
  items :: "('i, 'd) item_lib"
  lower_case :: "jstr \<Rightarrow> jstr"
  call_filter :: "nat \<Rightarrow> 'i \<Rightarrow> bool \<Rightarrow> filter_props \<Rightarrow> bool"
  the_clock :: "'d clock"

definition is_item_in_filters :: "('i, 'd, 'u) filter_env \<Rightarrow> 'd cal_filter \<Rightarrow> 'i \<Rightarrow> bool" where
  "is_item_in_filters E f item \<longleftrightarrow>
     property_filter (dates E) (items E) (call_filter E) (the_clock E) f item \<and>
     text_filter (items E) (lower_case E) f item"

text \<open>The second result lists the calls of \<open>aCallback\<close>, when there is one.\<close>

definition filter_items ::
    "('i, 'd, 'u) filter_env \<Rightarrow> bool \<Rightarrow> 'd cal_filter \<Rightarrow> 'i list \<Rightarrow> ('i list \<times> ('i \<times> bool) list) option" where
  "filter_items E callback f xs =
     (if m_props f = None then None
      else Some (filter (is_item_in_filters E f) xs,
                 if callback then map (\<lambda>x. (x, is_item_in_filters E f x)) xs else []))"

section \<open>The dates of the filter\<close>

definition selected_date :: "('i, 'd, 'u) filter_env \<Rightarrow> 'd cal_filter \<Rightarrow> 'd" where
  "selected_date E f =
     (case or_else (m_selected f) (view_selected (the_clock E)) of Some d \<Rightarrow> d | None \<Rightarrow> now (the_clock E))"

definition relative_date :: "('i, 'd, 'u) filter_env \<Rightarrow> 'd cal_filter \<Rightarrow> int \<Rightarrow> bool \<Rightarrow> 'd option" where
  "relative_date E f n start =
     (let D = dates E; nw = now (the_clock E)
      in if n = FILTER_DATE_ALL then None
         else if n = FILTER_DATE_VIEW then Some (if start then view_start (the_clock E) else view_end (the_clock E))
         else if n = FILTER_DATE_SELECTED then Some (as_date D (selected_date E f))
         else if n = FILTER_DATE_SELECTED_OR_NOW
           then (let r = selected_date E f; rt = js_time D r; nt = js_time D nw
                 in Some (as_date D (if (start \<and> rt > nt) \<or> (\<not> start \<and> rt < nt) then nw else r)))
         else if n = FILTER_DATE_NOW then Some nw
         else if n = FILTER_DATE_TODAY then Some (as_date D nw)
         else if n = FILTER_DATE_CURRENT_WEEK then Some (if start then start_of_week D nw else end_of_week D nw)
         else if n = FILTER_DATE_CURRENT_MONTH then Some (if start then start_of_month D nw else end_of_month D nw)
         else if n = FILTER_DATE_CURRENT_YEAR then Some (if start then start_of_year D nw else end_of_year D nw)
         else None)"

definition get_date_for_property ::
    "('i, 'd, 'u) filter_env \<Rightarrow> 'd cal_filter \<Rightarrow> date_prop \<Rightarrow> bool \<Rightarrow> js_error + 'd option" where
  "get_date_for_property E f prop start =
     (case prop of
        StrProp s \<Rightarrow>
          bindE (create_duration (dates E) s) (\<lambda>u. Inr (Some (add_duration (dates E) (now (the_clock E)) u)))
      | NumProp n \<Rightarrow>
          Inr (case relative_date E f n start of
                 None \<Rightarrow> None
               | Some d \<Rightarrow> Some (if \<not> start \<and> n \<noteq> FILTER_DATE_NOW then next_day (dates E) d else d))
      | NullProp \<Rightarrow> Inr None)"

text \<open>The exchange of the dates is written as the code has it: \<open>swap\<close> is the start date.\<close>

definition get_dates_for_filter ::
    "('i, 'd, 'u) filter_env \<Rightarrow> 'd cal_filter \<Rightarrow> js_error + ('d option \<times> 'd option)" where
  "get_dates_for_filter E f =
     (case m_props f of
        None \<Rightarrow> Inr (None, None)
      | Some p \<Rightarrow>
          bindE (get_date_for_property E f (p_start p) True) (\<lambda>start_date.
            bindE (get_date_for_property E f (p_end p) False) (\<lambda>end_date.
              Inr (case (start_date, end_date) of
                     (Some s, Some e) \<Rightarrow>
                       if compare_dates (dates E) s e > 0
                       then (let swap = start_date; end_date = start_date; start_date = swap
                             in (start_date, end_date))
                       else (start_date, end_date)
                   | _ \<Rightarrow> (start_date, end_date)))))"

definition update_filter_dates ::
    "('i, 'd, 'u) filter_env \<Rightarrow> 'd cal_filter \<Rightarrow> js_error + (('d option \<times> 'd option) \<times> 'd cal_filter)" where
  "update_filter_dates E f =
     bindE (get_dates_for_filter E f) (\<lambda>(s, e).
       let today = as_date (dates E) (now (the_clock E))
       in Inr ((s, e), f\<lparr>m_start := s, m_end := e, m_today := Some today,
                         m_tomorrow := Some (next_day (dates E) today)\<rparr>))"

text \<open>The argument of \<open>applyFilter\<close> by its type.\<close>

datatype filter_arg = ByName jstr | ByProps filter_props | ByCallback nat | OtherArg

text \<open>
  The result is the exception thrown, if any, with the filter as it is then: \<open>mFilterProperties\<close>
  has been reset before anything else happens.
\<close>

definition apply_filter ::
    "('i, 'd, 'u) filter_env \<Rightarrow> filter_arg \<Rightarrow> 'd cal_filter \<Rightarrow> js_error option \<times> 'd cal_filter" where
  "apply_filter E arg f =
     (let f0 = f\<lparr>m_props := None\<rparr>;
          props = (case arg of
              ByName n \<Rightarrow>
                if is_defined n f0 then get_defined_filter_properties n f0
                else bindE (create_duration (dates E) n) (\<lambda>u.
                       Inr (if in_seconds (dates E) u > 0
                            then Some (new_filter_props\<lparr>p_start := NumProp FILTER_DATE_NOW, p_end := StrProp n\<rparr>)
                            else None))
            | ByProps p \<Rightarrow> Inr (Some p)
            | ByCallback k \<Rightarrow> Inr (Some (new_filter_props\<lparr>p_onfilter := Some k\<rparr>))
            | OtherArg \<Rightarrow> Inr (Some new_filter_props))
      in case props of
           Inl e \<Rightarrow> (Some e, f0)
         | Inr None \<Rightarrow> (None, f0)
         | Inr (Some p) \<Rightarrow>
             (let f1 = f0\<lparr>m_props := Some p\<rparr>
              in case update_filter_dates E f1 of
                   Inl e \<Rightarrow> (Some e, f1)
                 | Inr (r, f2) \<Rightarrow> (None, f2)))"

section \<open>Occurrences\<close>

definition occurrence_date :: "('i, 'd) item_lib \<Rightarrow> 'i \<Rightarrow> 'd option" where
  "occurrence_date I x = or_else (start_of I x) (entry_of I x)"

text \<open>
  The loop of \<open>getNextOccurrence\<close>; \<open>n\<close> counts the iterations that \<open>mMaxIterations\<close> still allows.
\<close>

fun search_occurrence :: "('i, 'd, 'u) filter_env \<Rightarrow> 'd cal_filter \<Rightarrow> 'i \<Rightarrow> nat \<Rightarrow> 'd option \<Rightarrow> 'i option" where
  "search_occurrence E f item 0 start = None"
| "search_occurrence E f item (Suc n) start =
     (case next_occurrence (items E) item start of
        None \<Rightarrow> None
      | Some x \<Rightarrow>
          if is_item_in_filters E f x then Some x
          else search_occurrence E f item n (occurrence_date (items E) x))"

text \<open>An exception without a date makes \<open>compare\<close> throw.\<close>

definition future_match :: "('i, 'd, 'u) filter_env \<Rightarrow> 'd cal_filter \<Rightarrow> 'i \<Rightarrow> js_error + bool" where
  "future_match E f x =
     (case occurrence_date (items E) x of
        None \<Rightarrow> Inl TypeError
      | Some d \<Rightarrow> Inr (compare_dates (dates E) (now (the_clock E)) d < 0 \<and> is_item_in_filters E f x))"

fun search_exceptions ::
    "('i, 'd, 'u) filter_env \<Rightarrow> 'd cal_filter \<Rightarrow> 'i \<Rightarrow> 'd list \<Rightarrow> 'i option \<Rightarrow> js_error + 'i option" where
  "search_exceptions E f item [] ex_match = Inr ex_match"
| "search_exceptions E f item (r # rs) ex_match =
     (case exception_for (items E) item r of
        None \<Rightarrow> search_exceptions E f item rs ex_match
      | Some ex \<Rightarrow>
          bindE (future_match E f ex) (\<lambda>m.
            search_exceptions E f item rs (if m then Some ex else ex_match)))"

definition get_next_occurrence :: "('i, 'd, 'u) filter_env \<Rightarrow> 'd cal_filter \<Rightarrow> 'i \<Rightarrow> js_error + 'i option" where
  "get_next_occurrence E f item =
     (if \<not> has_recurrence (items E) item
      then Inr (if is_item_in_filters E f item then Some item else None)
      else if is_item_in_filters E f item
        then Inr (search_occurrence E f item (nat (m_max_iterations f)) (Some (now (the_clock E))))
      else search_exceptions E f item (exception_ids (items E) item) None)"

definition truthy :: "int option \<Rightarrow> bool" where
  "truthy x = (case x of None \<Rightarrow> False | Some n \<Rightarrow> n \<noteq> 0)"

definition get_occurrences ::
    "('i, 'd, 'u) filter_env \<Rightarrow> 'd cal_filter \<Rightarrow> 'i \<Rightarrow> js_error + 'i list option" where
  "get_occurrences E f item =
     (case m_props f of
        None \<Rightarrow> Inr None
      | Some p \<Rightarrow>
          bindE
            (if \<not> has_recurrence (items E) item \<or> (\<not> truthy (p_occurrences p) \<and> m_end f = None) \<or>
                p_occurrences p = Some FILTER_OCCURRENCES_NONE
             then Inr [item]
             else let occs = occurrences_between (items E) item
                               (case m_start f of Some d \<Rightarrow> d | None \<Rightarrow> create_date_time (dates E))
                               (case m_end f of Some d \<Rightarrow> d | None \<Rightarrow> now (the_clock E))
                  in if p_occurrences p = Some FILTER_OCCURRENCES_PAST_AND_NEXT \<and> m_end f = None
                     then bindE (get_next_occurrence E f item) (\<lambda>x.
                            Inr (case x of None \<Rightarrow> occs | Some y \<Rightarrow> occs @ [y]))
                     else Inr occs)
            (\<lambda>occs. Inr (map_option fst (filter_items E False f occs))))"

section \<open>Asking a calendar\<close>

text \<open>The constants of \<open>calICalendar\<close>; it has no \<open>FILTER_TYPE_ALL\<close>, so that reading that gives undefined.\<close>

definition ITEM_FILTER_COMPLETED_YES :: int where "ITEM_FILTER_COMPLETED_YES = 1"
definition ITEM_FILTER_COMPLETED_NO :: int where "ITEM_FILTER_COMPLETED_NO = 2"
definition ITEM_FILTER_TYPE_TODO :: int where "ITEM_FILTER_TYPE_TODO = 4"
definition ITEM_FILTER_TYPE_EVENT :: int where "ITEM_FILTER_TYPE_EVENT = 8"
definition ITEM_FILTER_TYPE_ALL :: int where "ITEM_FILTER_TYPE_ALL = 28"
definition ITEM_FILTER_CLASS_OCCURRENCES :: int where "ITEM_FILTER_CLASS_OCCURRENCES = 65536"

lemmas query_constants = ITEM_FILTER_COMPLETED_YES_def ITEM_FILTER_COMPLETED_NO_def
  ITEM_FILTER_TYPE_TODO_def ITEM_FILTER_TYPE_EVENT_def ITEM_FILTER_TYPE_ALL_def
  ITEM_FILTER_CLASS_OCCURRENCES_def

definition FILTER_TYPE_ALL :: "int option" where
  "FILTER_TYPE_ALL = None"

text \<open>\<open>a | b\<close>, where an undefined operand counts as 0.\<close>

definition bit_or :: "int option \<Rightarrow> int \<Rightarrow> int option" where
  "bit_or a b = Some ((case a of None \<Rightarrow> 0 | Some n \<Rightarrow> n) OR b)"

text \<open>The arguments of \<open>aCalendar.getItems\<close>: the flags, and the range.\<close>

definition calendar_query ::
    "('i, 'd, 'u) filter_env \<Rightarrow> 'd cal_filter \<Rightarrow> filter_props \<Rightarrow> int option \<Rightarrow>
     int option \<times> 'd option \<times> 'd option" where
  "calendar_query E f p item_type =
     (let f0 = (if truthy item_type then item_type else FILTER_TYPE_ALL);
          wants = (\<lambda>m. \<not> truthy (p_status p) \<or> the (p_status p) AND m \<noteq> 0);
          f1 = (if wants (FILTER_STATUS_COMPLETED_TODAY OR FILTER_STATUS_COMPLETED_BEFORE)
                then bit_or f0 ITEM_FILTER_COMPLETED_YES else f0);
          f2 = (if wants (FILTER_STATUS_INCOMPLETE OR FILTER_STATUS_IN_PROGRESS)
                then bit_or f1 ITEM_FILTER_COMPLETED_NO else f1)
      in if \<not> truthy (p_occurrences p) \<and> m_end f \<noteq> None
         then (bit_or f2 ITEM_FILTER_CLASS_OCCURRENCES,
               Some (case m_start f of Some d \<Rightarrow> d | None \<Rightarrow> create_date_time (dates E)), m_end f)
         else (f2, m_start f, m_end f))"

text \<open>
  \<open>getItems\<close>: what the calendar is asked, or null.  \<open>forward_results\<close> is \<open>onGetResult\<close> of the local
  listener: what is passed on to \<open>aListener\<close> of the items that the calendar returns; null is
  what \<open>concat\<close> adds for a filter that is not initialised.
\<close>

definition get_items ::
    "('i, 'd, 'u) filter_env \<Rightarrow> 'd cal_filter \<Rightarrow> int option \<Rightarrow> (int option \<times> 'd option \<times> 'd option) option" where
  "get_items E f item_type = map_option (\<lambda>p. calendar_query E f p item_type) (m_props f)"

fun expand_all :: "('i, 'd, 'u) filter_env \<Rightarrow> 'd cal_filter \<Rightarrow> 'i list \<Rightarrow> js_error + 'i option list" where
  "expand_all E f [] = Inr []"
| "expand_all E f (x # xs) =
     bindE (get_occurrences E f x) (\<lambda>occs.
       bindE (expand_all E f xs) (\<lambda>rest.
         Inr ((case occs of None \<Rightarrow> [None] | Some ys \<Rightarrow> map Some ys) @ rest)))"

definition forward_results ::
    "('i, 'd, 'u) filter_env \<Rightarrow> 'd cal_filter \<Rightarrow> filter_props \<Rightarrow> 'i list \<Rightarrow> js_error + 'i option list option" where
  "forward_results E f p xs =
     (if p_occurrences p = Some FILTER_OCCURRENCES_PAST_AND_NEXT
      then bindE (expand_all E f xs) (\<lambda>ys. Inr (Some ys))
      else Inr (map_option (\<lambda>r. map Some (fst r)) (filter_items E False f xs)))"

section \<open>What the filter accepts\<close>

text \<open>
  A task is in exactly one state of completion and has exactly one kind of due date; each has a
  flag of its own.
\<close>

datatype task_state = Incomplete | InProgress | CompletedToday | CompletedBefore

datatype due_state = DuePast | DueToday | DueFuture | DueNone

definition task_state_of :: "('d, 'u) date_lib \<Rightarrow> ('i, 'd) item_lib \<Rightarrow> 'd \<Rightarrow> 'i \<Rightarrow> task_state" where
  "task_state_of D I today item =
     (if is_completed I item
      then if unless (completed_of I item) (\<lambda>d. compare_dates D today d \<le> 0) then CompletedToday
           else CompletedBefore
      else if percent_of I item = 0 then Incomplete else InProgress)"

definition due_state_of :: "('d, 'u) date_lib \<Rightarrow> ('i, 'd) item_lib \<Rightarrow> 'd \<Rightarrow> 'd \<Rightarrow> 'i \<Rightarrow> due_state" where
  "due_state_of D I nw tomorrow item =
     (case due_of I item of
        None \<Rightarrow> DueNone
      | Some d \<Rightarrow> if compare_dates D d nw < 0 then DuePast
                  else if compare_dates D d tomorrow < 0 then DueToday else DueFuture)"

fun status_flag :: "task_state \<Rightarrow> int" where
  "status_flag Incomplete = FILTER_STATUS_INCOMPLETE"
| "status_flag InProgress = FILTER_STATUS_IN_PROGRESS"
| "status_flag CompletedToday = FILTER_STATUS_COMPLETED_TODAY"
| "status_flag CompletedBefore = FILTER_STATUS_COMPLETED_BEFORE"

fun due_flag :: "due_state \<Rightarrow> int" where
  "due_flag DuePast = FILTER_DUE_PAST"
| "due_flag DueToday = FILTER_DUE_TODAY"
| "due_flag DueFuture = FILTER_DUE_FUTURE"
| "due_flag DueNone = FILTER_DUE_NONE"

definition mask_allows :: "int option \<Rightarrow> int \<Rightarrow> bool" where
  "mask_allows m flag \<longleftrightarrow> (case m of None \<Rightarrow> True | Some n \<Rightarrow> n AND flag \<noteq> 0)"

text \<open>\<open>compare\<close> orders the dates.\<close>

definition date_order :: "('d, 'u) date_lib \<Rightarrow> bool" where
  "date_order D \<longleftrightarrow> (\<forall>a b c. compare_dates D a b < 0 \<longrightarrow> compare_dates D b c < 0 \<longrightarrow> compare_dates D a c < 0)"

lemma status_test_iff:
  "status_test D I today m item \<longleftrightarrow> m AND status_flag (task_state_of D I today item) \<noteq> 0"
  by (auto simp: status_test_def task_state_of_def unless_def Let_def split: option.splits)

lemma due_test_iff:
  assumes "date_order D" and "compare_dates D nw tomorrow < 0"
  shows "due_test D I nw tomorrow m item \<longleftrightarrow> m AND due_flag (due_state_of D I nw tomorrow item) \<noteq> 0"
proof (cases "due_of I item")
  case (Some d)
  have "compare_dates D d nw < 0 \<Longrightarrow> compare_dates D d tomorrow < 0"
    using assms unfolding date_order_def by blast
  then show ?thesis using Some by (auto simp: due_test_def due_state_of_def Let_def)
qed (simp add: due_test_def due_state_of_def)

definition has_flag :: "int option \<Rightarrow> int \<Rightarrow> bool" where
  "has_flag q m \<longleftrightarrow> (case q of None \<Rightarrow> False | Some n \<Rightarrow> n AND m \<noteq> 0)"

lemma and_or_ne: "(a OR b) AND m \<noteq> 0 \<longleftrightarrow> a AND m \<noteq> 0 \<or> b AND m \<noteq> (0::int)"
  by (simp add: bit.conj_disj_distrib2 or_eq_0_iff)

lemma or_and_ne: "n AND (a OR b) \<noteq> 0 \<longleftrightarrow> n AND a \<noteq> 0 \<or> n AND b \<noteq> (0::int)"
  by (simp add: bit.conj_disj_distrib or_eq_0_iff)

lemma has_flag_bit_or: "has_flag (bit_or q b) m \<longleftrightarrow> has_flag q m \<or> b AND m \<noteq> 0"
  by (cases q) (simp_all add: has_flag_def bit_or_def and_or_ne)

lemma flag_values [simp]:
  "(1::int) AND 2 = 0" "(2::int) AND 1 = 0" "(1::int) AND 28 = 0" "(2::int) AND 28 = 0"
  "(65536::int) AND 1 = 0" "(65536::int) AND 2 = 0" "(65536::int) AND 28 = 0"
  by simp_all

text \<open>The flags of a query.\<close>

lemma query_flags:
  fixes f :: "'d cal_filter" and E :: "('i, 'd, 'u) filter_env"
  defines "base \<equiv> \<lambda>t :: int option. if truthy t then t else FILTER_TYPE_ALL"
  shows "has_flag (fst (calendar_query E f p t)) ITEM_FILTER_COMPLETED_YES \<longleftrightarrow>
           has_flag (base t) ITEM_FILTER_COMPLETED_YES \<or>
           \<not> truthy (p_status p) \<or> the (p_status p) AND (FILTER_STATUS_COMPLETED_TODAY OR FILTER_STATUS_COMPLETED_BEFORE) \<noteq> 0"
    and "has_flag (fst (calendar_query E f p t)) ITEM_FILTER_COMPLETED_NO \<longleftrightarrow>
           has_flag (base t) ITEM_FILTER_COMPLETED_NO \<or>
           \<not> truthy (p_status p) \<or> the (p_status p) AND (FILTER_STATUS_INCOMPLETE OR FILTER_STATUS_IN_PROGRESS) \<noteq> 0"
    and "m = ITEM_FILTER_TYPE_TODO \<or> m = ITEM_FILTER_TYPE_EVENT \<or> m = ITEM_FILTER_TYPE_ALL \<Longrightarrow>
         has_flag (fst (calendar_query E f p t)) m \<longleftrightarrow> has_flag (base t) m"
  by (auto simp: calendar_query_def base_def has_flag_bit_or query_constants Let_def)

text \<open>\<open>n\<close> successive occurrences from a date on, as the service enumerates them.\<close>

fun occurrence_chain :: "('i, 'd, 'u) filter_env \<Rightarrow> 'i \<Rightarrow> nat \<Rightarrow> 'd option \<Rightarrow> 'i list" where
  "occurrence_chain E item 0 start = []"
| "occurrence_chain E item (Suc n) start =
     (case next_occurrence (items E) item start of
        None \<Rightarrow> []
      | Some x \<Rightarrow> x # occurrence_chain E item n (occurrence_date (items E) x))"

lemma search_occurrence_find:
  "search_occurrence E f item n start = find (is_item_in_filters E f) (occurrence_chain E item n start)"
  by (induction n arbitrary: start) (auto split: option.split)

lemma length_occurrence_chain: "length (occurrence_chain E item n start) \<le> n"
  by (induction n arbitrary: start) (auto split: option.split)

text \<open>The exceptions of a recurring item that the filter may show.\<close>

definition exceptions_of :: "('i, 'd, 'u) filter_env \<Rightarrow> 'i \<Rightarrow> 'i list" where
  "exceptions_of E item = List.map_filter (exception_for (items E) item) (exception_ids (items E) item)"

definition future_exception :: "('i, 'd, 'u) filter_env \<Rightarrow> 'd cal_filter \<Rightarrow> 'i \<Rightarrow> bool" where
  "future_exception E f x \<longleftrightarrow> future_match E f x = Inr True"

lemma search_exceptions_last:
  assumes "\<forall>x\<in>set (List.map_filter (exception_for (items E) item) rs). occurrence_date (items E) x \<noteq> None"
  shows "search_exceptions E f item rs m =
     Inr (case filter (future_exception E f) (List.map_filter (exception_for (items E) item) rs) of
            [] \<Rightarrow> m | ms \<Rightarrow> Some (last ms))"
  using assms
proof (induction rs arbitrary: m)
  case (Cons r rs)
  then show ?case
    by (auto simp: map_filter_simps future_exception_def future_match_def split: option.splits list.splits)
qed (simp add: map_filter_simps)

text \<open>The predefined filters.\<close>

lemma clone_props_id: "clone_props p = p"
  by (cases p) (simp add: clone_props_def new_filter_props_def)

lemma new_cal_filter_defined:
  "m_defined (new_cal_filter [] k) = map (\<lambda>n. (n, predefined_props n)) predefined_names"
  by (simp add: new_cal_filter_def init_defined_filters_def predefined_names_def is_defined_def
      define_filter_def object_property_names_def)

lemma predefined_distinct:
  "list_all (\<lambda>n. map_option fst (find (\<lambda>(m, q). props_equals q (predefined_props n))
     (map (\<lambda>n. (n, predefined_props n)) predefined_names)) = Some n) predefined_names"
  by code_simp

lemma map_of_map_keys: "map_of (map (\<lambda>n. (n, g n)) ns) n = (if n \<in> set ns then Some (g n) else None)"
  by (induction ns) auto

section \<open>Properties\<close>

text \<open>A small back end for the examples: dates are seconds, items are tasks with a due date.\<close>

record sample_task =
  t_due :: "int option"
  t_done :: bool
  t_percent :: nat
  t_next :: "int list"      \<comment> \<open>the dates of the occurrences\<close>

definition sample_dates :: "(int, int) date_lib" where
  "sample_dates = \<lparr>compare_dates = (-), is_date = (\<lambda>d. False), as_date = (\<lambda>d. d - d mod 86400),
     as_date_time = (\<lambda>d. d), next_day = (\<lambda>d. d + 86400), js_time = (\<lambda>d. d * 1000),
     start_of_week = (\<lambda>d. d), end_of_week = (\<lambda>d. d), start_of_month = (\<lambda>d. d), end_of_month = (\<lambda>d. d),
     start_of_year = (\<lambda>d. d), end_of_year = (\<lambda>d. d), add_duration = (+), in_seconds = (\<lambda>u. u),
     create_duration = (\<lambda>s. Inr 604800), create_date_time = 0\<rparr>"

definition sample_clock :: "int clock" where
  "sample_clock = \<lparr>now = 100000, view_start = 0, view_end = 604800, view_selected = Some 50000\<rparr>"

definition sample_items :: "(sample_task, int) item_lib" where
  "sample_items = \<lparr>is_event = (\<lambda>i. False), is_todo = (\<lambda>i. True), start_of = (\<lambda>i. None), end_of = (\<lambda>i. None),
     entry_of = t_due, due_of = t_due, is_completed = t_done, completed_of = (\<lambda>i. None),
     percent_of = t_percent, categories_of = (\<lambda>i. []), property_of = (\<lambda>i p. None),
     has_recurrence = (\<lambda>i. t_next i \<noteq> []),
     next_occurrence = (\<lambda>i d. case d of None \<Rightarrow> None | Some d \<Rightarrow>
       map_option (\<lambda>n. i\<lparr>t_due := Some n\<rparr>) (find (\<lambda>n. d < n) (t_next i))),
     exception_ids = t_next, exception_for = (\<lambda>i d. Some (i\<lparr>t_due := Some d, t_percent := 0\<rparr>)),
     occurrences_between = (\<lambda>i a b. [])\<rparr>"

definition sample_env :: "(sample_task, int, int) filter_env" where
  "sample_env = \<lparr>dates = sample_dates, items = sample_items, lower_case = to_lower,
     call_filter = (\<lambda>k i r p. r), the_clock = sample_clock\<rparr>"

definition sample_task :: sample_task where
  "sample_task = \<lparr>t_due = Some 110000, t_done = False, t_percent = 0, t_next = []\<rparr>"

definition sample_filter :: "filter_props \<Rightarrow> int cal_filter" where
  "sample_filter p = \<lparr>m_start = None, m_end = None, m_selected = None, m_text = [], m_defined = [],
     m_props = Some p, m_today = None, m_tomorrow = None, m_max_iterations = 50\<rparr>"

lemmas sample_defs = sample_dates_def sample_clock_def sample_items_def sample_env_def sample_task_def
  sample_filter_def

text \<open>C38: the masks of a filter select the tasks by their state: without a callback, a task is
  accepted exactly when it is in the date range, passes the category test, and the flag of its
  state of completion and the flag of its due date are in the masks (or the mask is null).\<close>

theorem task_filter_by_state:
  assumes "m_props f = Some p" and "p_onfilter p = None" and "is_todo (items E) item"
    and "date_order (dates E)"
    and "compare_dates (dates E) (now (the_clock E)) (tomorrow_of (dates E) (the_clock E) f) < 0"
  shows "property_filter (dates E) (items E) (call_filter E) (the_clock E) f item \<longleftrightarrow>
           date_range_filter (dates E) (items E) f item \<and> category_test (items E) (p_category p) item \<and>
           mask_allows (p_status p)
             (status_flag (task_state_of (dates E) (items E) (today_of (dates E) (the_clock E) f) item)) \<and>
           mask_allows (p_due p)
             (due_flag (due_state_of (dates E) (items E) (now (the_clock E))
                (tomorrow_of (dates E) (the_clock E) f) item))"
  using assms(1-3)
  by (auto simp: property_filter_def mask_allows_def status_test_iff due_test_iff[OF assms(4,5)] Let_def
      split: option.splits)

theorem task_filter_by_state_witness:
  "property_filter (dates sample_env) (items sample_env) (call_filter sample_env) (the_clock sample_env)
      (sample_filter (predefined_props (js ''overdue''))) sample_task \<longleftrightarrow>
     date_range_filter (dates sample_env) (items sample_env)
       (sample_filter (predefined_props (js ''overdue''))) sample_task \<and>
     category_test (items sample_env) (p_category (predefined_props (js ''overdue''))) sample_task \<and>
     mask_allows (p_status (predefined_props (js ''overdue'')))
       (status_flag (task_state_of (dates sample_env) (items sample_env)
          (today_of (dates sample_env) (the_clock sample_env) (sample_filter (predefined_props (js ''overdue'')))) sample_task)) \<and>
     mask_allows (p_due (predefined_props (js ''overdue'')))
       (due_flag (due_state_of (dates sample_env) (items sample_env) (now (the_clock sample_env))
          (tomorrow_of (dates sample_env) (the_clock sample_env) (sample_filter (predefined_props (js ''overdue'')))) sample_task))"
  by (rule task_filter_by_state)
     (simp_all add: sample_defs predefined_props_def task_props_def new_filter_props_def date_order_def
        tomorrow_of_def today_of_def)

text \<open>C39: what \<open>getItems\<close> asks of the calendar covers what the filter accepts: if a task passes the
  filter (without a callback), the query asks for completed tasks when it is completed and for
  incomplete ones when it is not.\<close>

theorem query_covers_filter:
  assumes "m_props f = Some p" and "p_onfilter p = None" and "is_todo (items E) item"
    and "property_filter (dates E) (items E) (call_filter E) (the_clock E) f item"
    and "get_items E f item_type = Some (q, range_start, range_end)"
  shows "has_flag q (if is_completed (items E) item then ITEM_FILTER_COMPLETED_YES else ITEM_FILTER_COMPLETED_NO)"
proof -
  have q: "q = fst (calendar_query E f p item_type)" using assms(1,5) by (auto simp: get_items_def)
  have st: "status_test (dates E) (items E) (today_of (dates E) (the_clock E) f) m item" if "p_status p = Some m" for m
    using assms(1-4) that by (auto simp: property_filter_def Let_def split: option.splits if_splits)
  show ?thesis
  proof (cases "p_status p")
    case None
    then show ?thesis by (simp add: q query_flags truthy_def)
  next
    case (Some m)
    have "m AND status_flag (task_state_of (dates E) (items E) (today_of (dates E) (the_clock E) f) item) \<noteq> 0"
      using st[OF Some] by (simp add: status_test_iff)
    then show ?thesis
      using Some by (simp add: q query_flags or_and_ne task_state_of_def split: if_splits)
  qed
qed

theorem query_covers_filter_witness:
  "has_flag (Some 6)
     (if is_completed (items sample_env) sample_task then ITEM_FILTER_COMPLETED_YES else ITEM_FILTER_COMPLETED_NO)"
  by (rule query_covers_filter[of "sample_filter (predefined_props (js ''open''))" "predefined_props (js ''open'')"
        sample_env sample_task "Some 4" "Some 6" None None])
     (simp_all add: sample_defs predefined_props_def task_props_def new_filter_props_def property_filter_def
        date_range_filter_def check_if_in_range_def ensure_date_time_def unless_def category_test_def
        status_test_def due_test_def filter_constants today_of_def tomorrow_of_def get_items_def
        calendar_query_def truthy_def bit_or_def query_constants)

text \<open>a query for items of a given type asks for that type, but without a type it asks for no
  type at all: \<open>FILTER_TYPE_ALL\<close>, the default that the code names, does not exist.\<close>

theorem query_item_types:
  assumes "m_props f = Some p" and "t \<in> {ITEM_FILTER_TYPE_TODO, ITEM_FILTER_TYPE_EVENT, ITEM_FILTER_TYPE_ALL}"
  shows "(\<exists>q r. get_items E f (Some t) = Some (q, r) \<and> has_flag q t) \<and>
         (\<exists>q r. get_items E f None = Some (q, r) \<and> \<not> has_flag q ITEM_FILTER_TYPE_ALL)"
proof -
  have "has_flag (fst (calendar_query E f p (Some t))) t"
    using assms(2) by (subst query_flags(3)) (auto simp: truthy_def has_flag_def query_constants)
  moreover have "\<not> has_flag (fst (calendar_query E f p None)) ITEM_FILTER_TYPE_ALL"
    by (subst query_flags(3)) (simp_all add: truthy_def has_flag_def FILTER_TYPE_ALL_def)
  ultimately show ?thesis
    using assms(1) by (simp add: get_items_def) (metis prod.collapse)
qed

theorem query_item_types_witness:
  "(\<exists>q r. get_items sample_env (sample_filter new_filter_props) (Some 4) = Some (q, r) \<and> has_flag q 4) \<and>
   (\<exists>q r. get_items sample_env (sample_filter new_filter_props) None = Some (q, r) \<and>
      \<not> has_flag q ITEM_FILTER_TYPE_ALL)"
  by (rule query_item_types[of _ new_filter_props]) (simp_all add: sample_filter_def ITEM_FILTER_TYPE_TODO_def)

text \<open>the exchange of a start date after the end date loses the end date: the filter gets an
  empty range that starts and ends at the start date.\<close>

theorem dates_not_swapped:
  assumes "m_props f = Some p" and "get_date_for_property E f (p_start p) True = Inr (Some s)"
    and "get_date_for_property E f (p_end p) False = Inr (Some e)" and "compare_dates (dates E) s e > 0"
  shows "\<exists>f'. update_filter_dates E f = Inr ((Some s, Some s), f') \<and> m_start f' = Some s \<and> m_end f' = Some s"
  using assms by (simp add: update_filter_dates_def get_dates_for_filter_def Let_def)

theorem dates_not_swapped_witness:
  "\<exists>f'. update_filter_dates sample_env (sample_filter (event_props FILTER_DATE_VIEW FILTER_DATE_SELECTED)
            \<lparr>m_selected := Some (- 900000)\<rparr>) = Inr ((Some 0, Some 0), f') \<and>
        m_start f' = Some 0 \<and> m_end f' = Some 0"
  by (rule dates_not_swapped[of _ "event_props FILTER_DATE_VIEW FILTER_DATE_SELECTED" sample_env 0 "- 864000"])
     (simp_all add: sample_defs event_props_def new_filter_props_def get_date_for_property_def relative_date_def
        selected_date_def or_else_def filter_constants)

text \<open>for a recurring item that passes the filter, \<open>getNextOccurrence\<close> returns the first of the
  next \<open>mMaxIterations\<close> occurrences that passes it, and null when none of them does; it never
  asks for more occurrences than that.\<close>

theorem next_occurrence_first_match:
  assumes "has_recurrence (items E) item" and "is_item_in_filters E f item"
  shows "get_next_occurrence E f item = Inr (find (is_item_in_filters E f)
           (occurrence_chain E item (nat (m_max_iterations f)) (Some (now (the_clock E))))) \<and>
         length (occurrence_chain E item (nat (m_max_iterations f)) (Some (now (the_clock E)))) \<le>
           nat (m_max_iterations f)"
  using assms by (simp add: get_next_occurrence_def search_occurrence_find length_occurrence_chain)

theorem next_occurrence_first_match_witness:
  "get_next_occurrence sample_env (sample_filter new_filter_props) (sample_task\<lparr>t_next := [150000, 160000]\<rparr>) =
     Inr (find (is_item_in_filters sample_env (sample_filter new_filter_props))
       (occurrence_chain sample_env (sample_task\<lparr>t_next := [150000, 160000]\<rparr>)
          (nat (m_max_iterations (sample_filter new_filter_props))) (Some (now (the_clock sample_env))))) \<and>
   length (occurrence_chain sample_env (sample_task\<lparr>t_next := [150000, 160000]\<rparr>)
      (nat (m_max_iterations (sample_filter new_filter_props))) (Some (now (the_clock sample_env)))) \<le>
     nat (m_max_iterations (sample_filter new_filter_props))"
  by (rule next_occurrence_first_match)
     (simp_all add: sample_defs is_item_in_filters_def property_filter_def new_filter_props_def
        date_range_filter_def check_if_in_range_def ensure_date_time_def unless_def category_test_def text_filter_def)

text \<open>for a recurring item that does not pass the filter itself, \<open>getNextOccurrence\<close> returns the
  last of the future exceptions that pass it, in the order of their recurrence ids; the comment
  in the code says the first.\<close>

theorem next_exception_is_last:
  assumes "has_recurrence (items E) item" and "\<not> is_item_in_filters E f item"
    and "\<forall>x\<in>set (exceptions_of E item). occurrence_date (items E) x \<noteq> None"
  shows "get_next_occurrence E f item =
           Inr (case filter (future_exception E f) (exceptions_of E item) of [] \<Rightarrow> None | ms \<Rightarrow> Some (last ms))"
  using assms search_exceptions_last[of E item "exception_ids (items E) item" f None]
  by (simp add: get_next_occurrence_def exceptions_of_def)

theorem next_exception_is_last_witness:
  "get_next_occurrence sample_env (sample_filter (predefined_props (js ''notstarted'')))
      (sample_task\<lparr>t_percent := 50, t_next := [150000, 160000]\<rparr>) =
     Inr (case filter (future_exception sample_env (sample_filter (predefined_props (js ''notstarted''))))
               (exceptions_of sample_env (sample_task\<lparr>t_percent := 50, t_next := [150000, 160000]\<rparr>)) of
            [] \<Rightarrow> None | ms \<Rightarrow> Some (last ms))"
  by (rule next_exception_is_last)
     (simp_all add: sample_defs is_item_in_filters_def property_filter_def predefined_props_def task_props_def
        new_filter_props_def date_range_filter_def check_if_in_range_def ensure_date_time_def unless_def
        category_test_def status_test_def due_test_def filter_constants exceptions_of_def map_filter_simps
        occurrence_date_def or_else_def today_of_def tomorrow_of_def)

text \<open>every predefined filter can be applied by its name, whatever its dates turn out to be, and
  is then recognised: the filter has the predefined properties, and \<open>filterName\<close> gives the name
  back, since no two predefined filters are equal.\<close>

theorem predefined_filters_named:
  fixes E :: "('i, 'd, 'u) filter_env"
  assumes "n \<in> set predefined_names"
  shows "m_props (snd (apply_filter E (ByName n) (new_cal_filter [] k))) = Some (predefined_props n) \<and>
         filter_name (snd (apply_filter E (ByName n) (new_cal_filter [] k))) = Some n"
proof -
  let ?f = "new_cal_filter [] k :: 'd cal_filter"
  have "map_of (m_defined ?f) n = Some (predefined_props n)"
    using assms by (auto simp: new_cal_filter_defined map_of_map_keys)
  then have g: "is_defined n (?f\<lparr>m_props := None\<rparr>)"
    "get_defined_filter_properties n (?f\<lparr>m_props := None\<rparr>) = Inr (Some (predefined_props n))"
    by (simp_all add: is_defined_def get_defined_filter_properties_def clone_props_id)
  have named: "get_defined_filter_name (predefined_props n) (x :: 'd cal_filter) = Some n"
    if "m_defined x = m_defined ?f" for x
    using assms predefined_distinct that by (simp add: get_defined_filter_name_def new_cal_filter_defined list_all_iff)
  have keep: "m_props f' = m_props f \<and> m_defined f' = m_defined f" if "update_filter_dates E f = Inr (r, f')" for f f' r
    using that by (auto simp: update_filter_dates_def bindE_Inr_iff Let_def)
  show ?thesis
    by (auto simp: apply_filter_def g filter_name_def named Let_def dest!: keep split: sum.split)
qed

theorem predefined_filters_named_witness:
  "m_props (snd (apply_filter sample_env (ByName (js ''overdue'')) (new_cal_filter [] 50))) =
     Some (predefined_props (js ''overdue'')) \<and>
   filter_name (snd (apply_filter sample_env (ByName (js ''overdue'')) (new_cal_filter [] 50))) =
     Some (js ''overdue'')"
  by (rule predefined_filters_named) (simp add: predefined_names_def)

end
