(* ===== verification/AbCard.thy ===== *)
theory AbCard
  imports Prelude
begin

text \<open>
  The cards of the address book: \<open>AddrBookCard\<close> of
  \<open>mailnews/addrbook/modules/AddrBookCard.jsm\<close>, the contacts, and the object that
  \<open>asCard\<close> of \<open>mailnews/addrbook/modules/AddrBookMailingList.jsm\<close> returns, which shows a
  mailing list as a card.  What the program asks of either, the part of \<open>nsIAbCard\<close> that the
  list of cards uses, is the record \<open>card_ops\<close>.

  The lemmas give the round trips of the typed properties (a flag or a number that is set is
  read back) and the names that \<open>generateName\<close> makes.
\<close>

section \<open>Values\<close>

text \<open>A value of a property.  The only numbers are integers, none of them negative.\<close>

datatype js_value = JUndefined | JNull | JBool bool | JString jstr | JNumber nat

text \<open>\<open>"" + v\<close>.\<close>

fun to_str :: "js_value \<Rightarrow> jstr" where
  "to_str JUndefined = js ''undefined''"
| "to_str JNull = js ''null''"
| "to_str (JBool b) = (if b then js ''true'' else js ''false'')"
| "to_str (JString s) = s"
| "to_str (JNumber n) = nat_str n"

text \<open>
  \<open>parseInt(s, 10)\<close>: the digits that follow the white space and the sign; \<open>None\<close> is \<open>NaN\<close>.
\<close>

definition parse_int10 :: "jstr \<Rightarrow> int option" where
  "parse_int10 s =
     (let t = trim_left s;
          neg = (t \<noteq> [] \<and> hd t = ord CHR ''-'');
          u = (if t \<noteq> [] \<and> (hd t = ord CHR ''-'' \<or> hd t = ord CHR ''+'') then tl t else t);
          ds = takeWhile is_digit u
      in if ds = [] then None
         else Some (if neg then - int (digits_val 0 ds) else int (digits_val 0 ds)))"

lemma parse_int10_nat_str [simp]: "parse_int10 (nat_str n) = Some (int n)"
proof -
  have d: "\<forall>x\<in>set (nat_str n). is_digit x" by (rule nat_str_digits)
  obtain x xs where n: "nat_str n = x # xs" by (cases "nat_str n") auto
  with d have x: "is_digit x" by simp
  have tl: "trim_left (nat_str n) = nat_str n"
    using n x by (intro trim_left_id) (auto simp: is_digit_def js_ws_def)
  have tw: "takeWhile is_digit (nat_str n) = nat_str n" using d by simp
  have "hd (nat_str n) \<noteq> 45" "hd (nat_str n) \<noteq> 43" using n x by (auto simp: is_digit_def)
  then show ?thesis by (simp add: parse_int10_def tl tw digits_val_nat_str Let_def)
qed

text \<open>
  \<open>s.replace(pat, rep)\<close> for a string \<open>pat\<close>: the first occurrence is replaced, and \<open>$$\<close>, \<open>$&\<close>,
  \<open>$`\<close> and \<open>$'\<close> in the replacement stand for a dollar, the matched text, what is before it
  and what is after it.
\<close>

fun get_substitution :: "jstr \<Rightarrow> jstr \<Rightarrow> jstr \<Rightarrow> jstr \<Rightarrow> jstr" where
  "get_substitution b m a (x # y # r) =
     (if x = 36 \<and> y = 36 then 36 # get_substitution b m a r
      else if x = 36 \<and> y = 38 then m @ get_substitution b m a r
      else if x = 36 \<and> y = 96 then b @ get_substitution b m a r
      else if x = 36 \<and> y = 39 then a @ get_substitution b m a r
      else x # get_substitution b m a (y # r))"
| "get_substitution b m a r = r"

definition replace_first :: "jstr \<Rightarrow> jstr \<Rightarrow> jstr \<Rightarrow> jstr" where
  "replace_first pat rep s =
     (case index_of_str pat s of
        None \<Rightarrow> s
      | Some i \<Rightarrow>
          take i s @ get_substitution (take i s) pat (drop (i + length pat) s) rep
            @ drop (i + length pat) s)"

lemma get_substitution_plain: "36 \<notin> set r \<Longrightarrow> get_substitution b m a r = r"
  by (induction b m a r rule: get_substitution.induct) auto

section \<open>Contacts\<close>

record ab_card =
  uid :: "jstr option"                 \<comment> \<open>\<open>_uid\<close>, not there until it is first asked for\<close>
  directory_uid :: jstr                \<comment> \<open>\<open>_directoryUID\<close>\<close>
  properties :: "js_value jsmap"       \<comment> \<open>\<open>_properties\<close>\<close>

definition addr_book_card :: ab_card where
  "addr_book_card =
     \<lparr>uid = None, directory_uid = [],
      properties =
        [(js ''PreferMailFormat'', JNumber 0),
         (js ''PopularityIndex'', JNumber 0),
         (js ''LastModifiedDate'', JNumber 0)]\<rparr>"

text \<open>The getter \<open>UID\<close> makes one with \<open>newUID()\<close>, the argument \<open>new\<close>, when there is none.\<close>

definition get_UID :: "jstr \<Rightarrow> ab_card \<Rightarrow> jstr \<times> ab_card" where
  "get_UID new c =
     (case uid c of
        Some (x # xs) \<Rightarrow> (x # xs, c)
      | _ \<Rightarrow> (new, c\<lparr>uid := Some new\<rparr>))"

definition set_UID :: "jstr \<Rightarrow> ab_card \<Rightarrow> js_error + ab_card" where
  "set_UID v c = (if uid c = Some v then Inr c else Inl Failure)"

definition set_directory_UID :: "jstr \<Rightarrow> ab_card \<Rightarrow> ab_card" where
  "set_directory_UID v c = c\<lparr>directory_uid := v\<rparr>"

subsection \<open>Properties\<close>

definition get_property :: "ab_card \<Rightarrow> jstr \<Rightarrow> js_value \<Rightarrow> js_value" where
  "get_property c name dflt =
     (case map_of (properties c) name of Some v \<Rightarrow> v | None \<Rightarrow> dflt)"

definition get_property_as_a_string :: "ab_card \<Rightarrow> jstr \<Rightarrow> js_value" where
  "get_property_as_a_string c name =
     (if map_of (properties c) name = None then JString []
      else get_property c name JUndefined)"

definition get_property_as_utf8_string :: "ab_card \<Rightarrow> jstr \<Rightarrow> js_error + js_value" where
  "get_property_as_utf8_string c name =
     (if map_of (properties c) name = None then Inl NotAvailable
      else Inr (get_property c name JUndefined))"

definition get_property_as_uint32 :: "ab_card \<Rightarrow> jstr \<Rightarrow> js_error + js_value" where
  "get_property_as_uint32 c name =
     (let v = get_property c name JUndefined in
      if parse_int10 (to_str v) = None then Inl NotAvailable else Inr v)"

definition get_property_as_bool :: "ab_card \<Rightarrow> jstr \<Rightarrow> js_error + bool" where
  "get_property_as_bool c name =
     (let v = get_property c name JUndefined in
      if v = JBool False \<or> v = JNumber 0 \<or> v = JString (js ''0'') then Inr False
      else if v = JBool True \<or> v = JNumber 1 \<or> v = JString (js ''1'') then Inr True
      else Inl NotAvailable)"

definition delete_property :: "jstr \<Rightarrow> ab_card \<Rightarrow> ab_card" where
  "delete_property name c = c\<lparr>properties := AList.delete name (properties c)\<rparr>"

definition set_property :: "jstr \<Rightarrow> js_value \<Rightarrow> ab_card \<Rightarrow> ab_card" where
  "set_property name v c =
     (if v = JNull \<or> v = JUndefined \<or> v = JString [] then delete_property name c
      else
        let v = (case v of JBool b \<Rightarrow> JString (if b then js ''1'' else js ''0'') | _ \<Rightarrow> v)
        in c\<lparr>properties := AList.update name (JString (to_str v)) (properties c)\<rparr>)"

definition set_property_as_a_string :: "jstr \<Rightarrow> jstr \<Rightarrow> ab_card \<Rightarrow> js_error + ab_card" where
  "set_property_as_a_string name v c = Inl NotImplemented"

definition set_property_as_utf8_string :: "jstr \<Rightarrow> jstr \<Rightarrow> ab_card \<Rightarrow> ab_card" where
  "set_property_as_utf8_string name v c = set_property name (JString v) c"

definition set_property_as_uint32 :: "jstr \<Rightarrow> nat \<Rightarrow> ab_card \<Rightarrow> ab_card" where
  "set_property_as_uint32 name v c = set_property name (JNumber v) c"

definition set_property_as_bool :: "jstr \<Rightarrow> bool \<Rightarrow> ab_card \<Rightarrow> ab_card" where
  "set_property_as_bool name v c =
     set_property name (JString (if v then js ''1'' else js ''0'')) c"

text \<open>
  A property read for its text, \<open>getProperty(name, "")\<close>.  The values the program stores are
  strings, apart from the three counters of \<open>addr_book_card\<close>, which are never read so.
\<close>

definition text_property :: "ab_card \<Rightarrow> jstr \<Rightarrow> jstr" where
  "text_property c name = to_str (get_property c name (JString []))"

definition first_name :: "ab_card \<Rightarrow> jstr" where
  "first_name c = text_property c (js ''FirstName'')"

definition last_name :: "ab_card \<Rightarrow> jstr" where
  "last_name c = text_property c (js ''LastName'')"

definition display_name :: "ab_card \<Rightarrow> jstr" where
  "display_name c = text_property c (js ''DisplayName'')"

definition primary_email :: "ab_card \<Rightarrow> jstr" where
  "primary_email c = text_property c (js ''PrimaryEmail'')"

definition has_email_address :: "jstr \<Rightarrow> ab_card \<Rightarrow> bool" where
  "has_email_address e c =
     (let e = to_lower e in
      to_lower (text_property c (js ''PrimaryEmail'')) = e
      \<or> to_lower (text_property c (js ''SecondEmail'')) = e)"

subsection \<open>Names\<close>

text \<open>The constants of \<open>nsIAbCard\<close>, which are the values of the preference.\<close>

abbreviation (input) GENERATE_DISPLAY_NAME :: nat where "GENERATE_DISPLAY_NAME \<equiv> 0"
abbreviation (input) GENERATE_LAST_FIRST_ORDER :: nat where "GENERATE_LAST_FIRST_ORDER \<equiv> 1"

text \<open>The bundle, when there is one, is a map from names of strings to strings.\<close>

definition generate_name :: "nat \<Rightarrow> (jstr \<Rightarrow> jstr) option \<Rightarrow> ab_card \<Rightarrow> jstr" where
  "generate_name fmt bundle c =
     (let result =
        (if fmt = GENERATE_DISPLAY_NAME then display_name c
         else if last_name c = [] then first_name c
         else if first_name c = [] then last_name c
         else if fmt = GENERATE_LAST_FIRST_ORDER then
           let f = (case bundle of Some b \<Rightarrow> b (js ''lastFirstFormat'') | None \<Rightarrow> js ''%S, %S'')
           in replace_first (js ''%S'') (first_name c)
                (replace_first (js ''%S'') (last_name c) f)
         else
           let f = (case bundle of Some b \<Rightarrow> b (js ''firstLastFormat'') | None \<Rightarrow> js ''%S %S'')
           in replace_first (js ''%S'') (last_name c)
                (replace_first (js ''%S'') (first_name c) f));
        result = (if result = [] then text_property c (js ''Company'') else result)
      in if result = [] then hd (split_on (ord CHR ''@'') (primary_email c)) else result)"

definition generate_phonetic_name :: "bool \<Rightarrow> ab_card \<Rightarrow> jstr" where
  "generate_phonetic_name last_first c =
     (if last_first then
        text_property c (js ''PhoneticLastName'') @ text_property c (js ''PhoneticFirstName'')
      else
        text_property c (js ''PhoneticFirstName'') @ text_property c (js ''PhoneticLastName''))"

definition chat_names :: "jstr list" where
  "chat_names =
     [js ''_GoogleTalk'', js ''_AimScreenName'', js ''_Yahoo'', js ''_Skype'', js ''_QQ'',
      js ''_MSN'', js ''_ICQ'', js ''_JabberId'', js ''_IRC'']"

fun first_property :: "ab_card \<Rightarrow> jstr list \<Rightarrow> js_value" where
  "first_property c [] = JString []"
| "first_property c (n # ns) =
     (case map_of (properties c) n of Some v \<Rightarrow> v | None \<Rightarrow> first_property c ns)"

definition generate_chat_name :: "ab_card \<Rightarrow> js_value" where
  "generate_chat_name c = first_property c chat_names"

section \<open>Mailing lists as cards\<close>

record mail_list =
  list_uid :: jstr
  list_name :: jstr
  list_nick_name :: jstr
  list_description :: jstr
  parent_uid :: jstr                   \<comment> \<open>\<open>_parent.UID\<close>\<close>
  parent_uri :: jstr                   \<comment> \<open>\<open>_parent.URI\<close>\<close>

definition list_get_property :: "mail_list \<Rightarrow> jstr \<Rightarrow> js_value \<Rightarrow> js_value" where
  "list_get_property l name dflt =
     (if name = js ''NickName'' then JString (list_nick_name l)
      else if name = js ''Notes'' then JString (list_description l)
      else dflt)"

definition list_set_property :: "jstr \<Rightarrow> jstr \<Rightarrow> mail_list \<Rightarrow> mail_list" where
  "list_set_property name v l =
     (if name = js ''NickName'' then l\<lparr>list_nick_name := v\<rparr>
      else if name = js ''Notes'' then l\<lparr>list_description := v\<rparr>
      else l)"

definition list_uri :: "mail_list \<Rightarrow> jstr" where
  "list_uri l = parent_uri l @ js ''/'' @ list_uid l"

section \<open>The interface the list of cards uses\<close>

text \<open>A method the card does not have, or that throws, gives \<open>Inl\<close>.\<close>

record 'c card_ops =
  uid_of :: "'c \<Rightarrow> jstr"
  directory_uid_of :: "'c \<Rightarrow> jstr"
  is_list_of :: "'c \<Rightarrow> bool"
  list_uri_of :: "'c \<Rightarrow> jstr"
  equals_of :: "'c \<Rightarrow> 'c \<Rightarrow> bool"
  name_of :: "nat \<Rightarrow> 'c \<Rightarrow> js_error + jstr"
  phonetic_of :: "bool \<Rightarrow> 'c \<Rightarrow> js_error + jstr"
  chat_of :: "'c \<Rightarrow> js_error + jstr"
  property_of :: "'c \<Rightarrow> jstr \<Rightarrow> js_error + jstr"

datatype book_card = Contact ab_card | ListCard mail_list

text \<open>
  The cards of a book that is kept in a database.  \<open>new\<close> gives the identifier that the first
  reading of \<open>UID\<close> makes for a contact that has none.
\<close>

definition book_uid :: "(ab_card \<Rightarrow> jstr) \<Rightarrow> book_card \<Rightarrow> jstr" where
  "book_uid new b = (case b of Contact c \<Rightarrow> fst (get_UID (new c) c) | ListCard l \<Rightarrow> list_uid l)"

definition book_card_ops :: "(ab_card \<Rightarrow> jstr) \<Rightarrow> book_card card_ops" where
  "book_card_ops new =
     \<lparr>uid_of = book_uid new,
      directory_uid_of = (\<lambda>b. case b of Contact c \<Rightarrow> directory_uid c | ListCard l \<Rightarrow> parent_uid l),
      is_list_of = (\<lambda>b. case b of Contact c \<Rightarrow> False | ListCard l \<Rightarrow> True),
      list_uri_of = (\<lambda>b. case b of Contact c \<Rightarrow> [] | ListCard l \<Rightarrow> list_uri l),
      equals_of = (\<lambda>a b. book_uid new a = book_uid new b),
      name_of = (\<lambda>f b. case b of Contact c \<Rightarrow> Inr (generate_name f None c)
                               | ListCard l \<Rightarrow> Inr (list_name l)),
      phonetic_of = (\<lambda>lf b. case b of Contact c \<Rightarrow> Inr (generate_phonetic_name lf c)
                                    | ListCard l \<Rightarrow> Inl TypeError),
      chat_of = (\<lambda>b. case b of Contact c \<Rightarrow> Inr (to_str (generate_chat_name c))
                             | ListCard l \<Rightarrow> Inl TypeError),
      property_of = (\<lambda>b n. case b of Contact c \<Rightarrow> Inr (to_str (get_property_as_a_string c n))
                                   | ListCard l \<Rightarrow> Inl TypeError)\<rparr>"

section \<open>Lemmas\<close>

lemma get_delete_property:
  "get_property (delete_property name c) n d = (if n = name then d else get_property c n d)"
  by (simp add: get_property_def delete_property_def delete_conv')

lemma get_set_property:
  assumes "v \<noteq> JNull" and "v \<noteq> JUndefined" and "v \<noteq> JString []"
  shows "get_property (set_property name v c) n d =
           (if n = name
            then JString (case v of JBool b \<Rightarrow> if b then js ''1'' else js ''0'' | _ \<Rightarrow> to_str v)
            else get_property c n d)"
  using assms by (auto simp: get_property_def set_property_def update_conv' split: js_value.splits)

lemma uint32_roundtrip:
  "get_property_as_uint32 (set_property_as_uint32 name n c) name = Inr (JString (nat_str n))"
  by (simp add: get_property_as_uint32_def set_property_as_uint32_def get_set_property)

lemma bool_roundtrip:
  "get_property_as_bool (set_property_as_bool name b c) name = Inr b"
  by (simp add: get_property_as_bool_def set_property_as_bool_def get_set_property)

text \<open>The names of a card, when neither name has a dollar or a percent sign.\<close>

lemma index_of_str_percent: "37 \<notin> set a \<Longrightarrow> index_of_str [37, 83] (a @ 37 # 83 # b) = Some (length a)"
  by (induction a) auto

lemma replace_first_percent:
  assumes "37 \<notin> set a" and "36 \<notin> set r"
  shows "replace_first (js ''%S'') r (a @ 37 # 83 # b) = a @ r @ b"
  using assms by (simp add: replace_first_def index_of_str_percent get_substitution_plain)

lemma generate_name_last_first:
  assumes "first_name c \<noteq> []" and "last_name c \<noteq> []"
    and "36 \<notin> set (first_name c)" and "36 \<notin> set (last_name c)" and "37 \<notin> set (last_name c)"
  shows "generate_name GENERATE_LAST_FIRST_ORDER None c = last_name c @ js '', '' @ first_name c"
  using assms replace_first_percent [of "[]" "last_name c" "44 # 32 # 37 # 83 # []"]
    replace_first_percent [of "last_name c @ [44, 32]" "first_name c" "[]"]
  by (simp add: generate_name_def)

text \<open>A name with a replacement pattern is not shown as it is.\<close>

lemma generate_name_dollar:
  "generate_name GENERATE_LAST_FIRST_ORDER None
     (set_property (js ''FirstName'') (JString (js ''Ann''))
       (set_property (js ''LastName'') (JString (js ''US$&Co'')) addr_book_card)) = js ''USAnnCo, %S''"
  by code_simp

lemma book_equals_uid: "equals_of (book_card_ops new) a b \<longleftrightarrow> uid_of (book_card_ops new) a = uid_of (book_card_ops new) b"
  by (simp add: book_card_ops_def)

end
