(* ===== verification/ArraySort.thy ===== *)
theory ArraySort
  imports Prelude "HOL-Library.Multiset"
begin

text \<open>
  \<open>Array.prototype.sort\<close> with a comparison function, for the lists of cards and of files that the
  program sorts, and what holds of it when the comparison is consistent.  Nothing in this theory
  models a file of the repository.
\<close>

text \<open>\<open>Array.prototype.sort\<close>, which is stable.\<close>

fun sort_insert :: "('a \<Rightarrow> 'a \<Rightarrow> int) \<Rightarrow> 'a \<Rightarrow> 'a list \<Rightarrow> 'a list" where
  "sort_insert cmp x [] = [x]"
| "sort_insert cmp x (y # ys) = (if cmp x y \<le> 0 then x # y # ys else y # sort_insert cmp x ys)"

definition array_sort :: "('a \<Rightarrow> 'a \<Rightarrow> int) \<Rightarrow> 'a list \<Rightarrow> 'a list" where
  "array_sort cmp xs = foldr (sort_insert cmp) xs []"

section \<open>Lemmas\<close>

text \<open>
  What the program relies on in a collator: it compares consistently in both directions and is
  transitive.
\<close>

definition collation :: "('a \<Rightarrow> 'a \<Rightarrow> int) \<Rightarrow> bool" where
  "collation cmp \<longleftrightarrow>
     (\<forall>a b. cmp a b > 0 \<longleftrightarrow> cmp b a < 0) \<and>
     (\<forall>a b c. cmp a b \<le> 0 \<longrightarrow> cmp b c \<le> 0 \<longrightarrow> cmp a c \<le> 0)"

lemma collation_flip: "collation cmp \<Longrightarrow> collation (\<lambda>a b. cmp b a)"
  unfolding collation_def by blast

lemma collation_on: "collation cmp \<Longrightarrow> collation (\<lambda>a b. cmp (f a) (f b))"
  unfolding collation_def by blast

lemma collation_trans: "collation cmp \<Longrightarrow> cmp a b \<le> 0 \<Longrightarrow> cmp b c \<le> 0 \<Longrightarrow> cmp a c \<le> 0"
  unfolding collation_def by blast

lemma collation_total: "collation cmp \<Longrightarrow> \<not> cmp a b \<le> 0 \<Longrightarrow> cmp b a \<le> 0"
  unfolding collation_def by (meson linorder_not_le order_less_imp_le)

lemma collation_flip_le: "collation cmp \<Longrightarrow> 0 \<le> cmp a b \<longleftrightarrow> cmp b a \<le> 0"
  unfolding collation_def by (meson linorder_not_le)

definition ordered_by :: "('a \<Rightarrow> 'a \<Rightarrow> int) \<Rightarrow> 'a list \<Rightarrow> bool" where
  "ordered_by cmp xs \<longleftrightarrow> sorted_wrt (\<lambda>a b. cmp a b \<le> 0) xs"

lemma ordered_by_simps [simp]:
  "ordered_by cmp []"
  "ordered_by cmp (x # xs) \<longleftrightarrow> (\<forall>y\<in>set xs. cmp x y \<le> 0) \<and> ordered_by cmp xs"
  by (auto simp: ordered_by_def)

lemma ordered_by_rev: "ordered_by cmp (rev xs) \<longleftrightarrow> ordered_by (\<lambda>a b. cmp b a) xs"
  by (simp add: ordered_by_def sorted_wrt_rev)

lemma ordered_by_map: "ordered_by cmp (map f xs) \<longleftrightarrow> ordered_by (\<lambda>a b. cmp (f a) (f b)) xs"
  by (simp add: ordered_by_def sorted_wrt_map)

lemma ordered_by_filter: "ordered_by cmp xs \<Longrightarrow> ordered_by cmp (filter P xs)"
  by (simp add: ordered_by_def sorted_wrt_filter)

lemma mset_sort_insert [simp]: "mset (sort_insert cmp x xs) = add_mset x (mset xs)"
  by (induction xs) auto

lemma mset_array_sort [simp]: "mset (array_sort cmp xs) = mset xs"
  by (induction xs) (auto simp: array_sort_def)

lemma set_array_sort [simp]: "set (array_sort cmp xs) = set xs"
  using mset_array_sort [of cmp xs] by (metis set_mset_mset)

lemma length_array_sort [simp]: "length (array_sort cmp xs) = length xs"
  using mset_array_sort [of cmp xs] by (metis size_mset)

lemma ordered_sort_insert:
  assumes "collation cmp"
  shows "ordered_by cmp xs \<Longrightarrow> ordered_by cmp (sort_insert cmp x xs)"
proof (induction xs)
  case (Cons y ys)
  have set_ins: "set (sort_insert cmp x ys) = insert x (set ys)"
    by (metis mset_sort_insert set_mset_add_mset_insert set_mset_mset)
  show ?case
  proof (cases "cmp x y \<le> 0")
    case True
    then have "\<forall>z\<in>set ys. cmp x z \<le> 0"
      using Cons.prems collation_trans [OF assms, of x y] by simp
    with True Cons.prems show ?thesis by simp
  next
    case False
    then have "cmp y x \<le> 0" by (rule collation_total [OF assms])
    with False Cons show ?thesis by (simp add: set_ins)
  qed
qed simp

lemma ordered_array_sort: "collation cmp \<Longrightarrow> ordered_by cmp (array_sort cmp xs)"
  by (induction xs) (auto simp: array_sort_def ordered_sort_insert)

lemma sort_insert_cong:
  "(\<And>y. y \<in> set xs \<Longrightarrow> cmp x y = cmp' x y) \<Longrightarrow> sort_insert cmp x xs = sort_insert cmp' x xs"
  by (induction xs) auto

lemma array_sort_cong:
  "(\<And>x y. x \<in> set xs \<Longrightarrow> y \<in> set xs \<Longrightarrow> cmp x y = cmp' x y) \<Longrightarrow> array_sort cmp xs = array_sort cmp' xs"
proof (induction xs)
  case (Cons x xs)
  have IH: "array_sort cmp xs = array_sort cmp' xs" using Cons by simp
  have "sort_insert cmp x (array_sort cmp' xs) = sort_insert cmp' x (array_sort cmp' xs)"
    by (rule sort_insert_cong) (use Cons.prems in simp)
  with IH show ?case by (simp add: array_sort_def)
qed (simp add: array_sort_def)

text \<open>Rows that compare as equal keep their order.\<close>

lemma sort_insert_stable:
  assumes "collation cmp" and "ordered_by cmp xs"
  shows "filter (\<lambda>y. cmp k y = 0) (sort_insert cmp x xs) = filter (\<lambda>y. cmp k y = 0) (x # xs)"
  using assms(2)
proof (induction xs)
  case (Cons y ys)
  show ?case
  proof (cases "cmp x y \<le> 0")
    case False
    have "\<not> (cmp k x = 0 \<and> cmp k y = 0)"
    proof
      assume k: "cmp k x = 0 \<and> cmp k y = 0"
      then have "cmp x k \<le> 0" using assms(1) unfolding collation_def
        by (metis linorder_not_le order.irrefl)
      with k have "cmp x y \<le> 0" using collation_trans [OF assms(1)] by fastforce
      with False show False by simp
    qed
    with False Cons show ?thesis by auto
  qed simp
qed simp

lemma array_sort_stable:
  "collation cmp \<Longrightarrow> filter (\<lambda>y. cmp k y = 0) (array_sort cmp xs) = filter (\<lambda>y. cmp k y = 0) xs"
  by (induction xs) (simp_all add: array_sort_def sort_insert_stable [unfolded array_sort_def]
      ordered_array_sort [unfolded array_sort_def])

lemma ordered_by_append:
  "ordered_by cmp (xs @ ys) \<longleftrightarrow>
     ordered_by cmp xs \<and> ordered_by cmp ys \<and> (\<forall>x\<in>set xs. \<forall>y\<in>set ys. cmp x y \<le> 0)"
  by (auto simp: ordered_by_def sorted_wrt_append)

lemma ordered_at_boundary:
  assumes "collation cmp" and "ordered_by cmp ks"
    and before: "\<And>u. N u \<Longrightarrow> cmp u t \<le> 0" and after: "\<And>u. \<not> N u \<Longrightarrow> cmp t u \<le> 0"
  shows "ordered_by cmp (takeWhile N ks @ t # dropWhile N ks)"
proof -
  have ks: "ordered_by cmp (takeWhile N ks @ dropWhile N ks)" using assms(2) by simp
  have "\<forall>u\<in>set (takeWhile N ks). cmp u t \<le> 0" using before set_takeWhileD by fast
  moreover have "\<forall>u\<in>set (dropWhile N ks). cmp t u \<le> 0"
  proof (cases "dropWhile N ks")
    case (Cons u us)
    then have "\<not> N u" by (metis hd_dropWhile list.distinct(1) list.sel(1))
    then have "cmp t u \<le> 0" by (rule after)
    moreover have "\<forall>x\<in>set us. cmp u x \<le> 0"
      using ks by (simp add: ordered_by_append Cons)
    ultimately show ?thesis using collation_trans [OF assms(1), of t u] by (simp add: Cons)
  qed (metis empty_iff empty_set)
  ultimately show ?thesis using ks [unfolded ordered_by_append] by (simp add: ordered_by_append)
qed

end
