(* ===== verification/AbView.thy ===== *)
theory AbView
  imports AbCard TreeView ArraySort
begin

text \<open>
  The list of cards of the address book: \<open>ABView\<close> and \<open>abViewCard\<close> of
  \<open>mailnews/addrbook/content/abView.js\<close>.  A view keeps one row per card, sorted by the text
  of a column, and follows the notifications of the address books.

  What the view does not keep itself is the record \<open>world\<close>, and every operation gets the
  world of the moment it is called: the cards and the directories, which are objects named by
  references of type \<open>'c\<close> and \<open>'d\<close>; \<open>MailServices.ab\<close>; the collator of the language's
  library; and the selection and the tree element, which belong to the toolkit.

  The theorems: the cards and the marks of selection that a view shows are at every
  notification those of an abstract multiset (\<open>view_follows_books\<close>); the rows stay sorted and
  the cached texts true (\<open>view_stays_sorted\<close>); what \<open>deleteSelectedCards\<close> deletes.
\<close>

section \<open>The world around a view\<close>

text \<open>The calls that delete: cards of a directory, and a mailing list that is given by its URI.\<close>

datatype ('c, 'd) deletion = DeleteCards 'd "'c list" | DeleteAddressBook jstr

text \<open>
  Calls that are made one after the other until one throws: the calls that were made, the one that
  threw included, and the exception.  What a call throws may depend on the calls made before it.
\<close>

fun make_calls ::
    "('k list \<Rightarrow> 'k \<Rightarrow> js_error option) \<Rightarrow> 'k list \<Rightarrow> 'k list \<Rightarrow> 'k list \<times> js_error option" where
  "make_calls err made [] = (made, None)"
| "make_calls err made (k # ks) =
     (case err made k of
        Some e \<Rightarrow> (made @ [k], Some e)
      | None \<Rightarrow> make_calls err (made @ [k]) ks)"

record ('c, 'd, 's) world =
  cards :: "'c card_ops"
  dir_uid :: "'d \<Rightarrow> jstr"
  dir_name :: "'d \<Rightarrow> jstr"
  dir_is_list :: "'d \<Rightarrow> bool"
  child_cards :: "'d \<Rightarrow> 'c list"
  search_results :: "'d \<Rightarrow> jstr \<Rightarrow> 'c list"   \<comment> \<open>the cards that \<open>search\<close> reports before it returns\<close>
  directories :: "'d list"                   \<comment> \<open>\<open>MailServices.ab.directories\<close>\<close>
  last_name_first_pref :: nat                \<comment> \<open>\<open>mail.addr_book.lastnamefirst\<close>\<close>
  compare_text :: "jstr \<Rightarrow> jstr \<Rightarrow> int"       \<comment> \<open>\<open>Intl.Collator.compare\<close>\<close>
  is_selected :: "'s \<Rightarrow> nat \<Rightarrow> bool"          \<comment> \<open>\<open>nsITreeSelection\<close>\<close>
  toggle_select :: "nat \<Rightarrow> 's \<Rightarrow> 's"
  current_index :: "'s \<Rightarrow> int"
  set_current_index :: "nat \<Rightarrow> 's \<Rightarrow> 's"
  selected_ranges :: "'s \<Rightarrow> (nat \<times> nat) list"
  adjust_selection :: "nat \<Rightarrow> int \<Rightarrow> 's \<Rightarrow> 's"  \<comment> \<open>what the tree does to it when rows come or go\<close>
  first_visible_row :: nat                   \<comment> \<open>\<open>tree.getFirstVisibleRow()\<close>\<close>
  deletion_error :: "('c, 'd) deletion list \<Rightarrow> ('c, 'd) deletion \<Rightarrow> js_error option"
    \<comment> \<open>what a deletion throws, after others: of a read-only book, a URI that is not known, \<dots>\<close>

definition get_directory_from_uid :: "('c, 'd, 's) world \<Rightarrow> jstr \<Rightarrow> 'd option" where
  "get_directory_from_uid w u = find (\<lambda>d. dir_uid w d = u) (directories w)"

section \<open>Rows\<close>

record ('c, 'd) view_card =
  card :: 'c
  card_dir :: "'d option"                    \<comment> \<open>\<open>_directory\<close>\<close>
  text_cache :: "jstr jsmap"                 \<comment> \<open>\<open>_getTextCache\<close>\<close>
  was_selected :: bool
  was_current :: bool

definition ab_view_card :: "('c, 'd, 's) world \<Rightarrow> 'c \<Rightarrow> 'd option \<Rightarrow> ('c, 'd) view_card" where
  "ab_view_card w c hint =
     \<lparr>card = c,
      card_dir = (case hint of
                    Some d \<Rightarrow> Some d
                  | None \<Rightarrow> get_directory_from_uid w (directory_uid_of (cards w) c)),
      text_cache = [], was_selected = False, was_current = False\<rparr>"

text \<open>\<open>_getText\<close>: whatever is thrown, the text is empty.\<close>

definition cell_text :: "('c, 'd, 's) world \<Rightarrow> nat \<Rightarrow> ('c, 'd) view_card \<Rightarrow> jstr \<Rightarrow> jstr" where
  "cell_text w fmt r col =
     (let ops = cards w; c = card r;
          t = (if col = js ''addrbook'' then
                 (case card_dir r of None \<Rightarrow> Inl TypeError | Some d \<Rightarrow> Inr (dir_name w d))
               else if col = js ''GeneratedName'' then name_of ops fmt c
               else if col = js ''_PhoneticName'' then phonetic_of ops True c
               else if col = js ''ChatName'' then
                 (if is_list_of ops c then Inr [] else chat_of ops c)
               else if is_list_of ops c then Inr [] else property_of ops c col)
      in case t of Inl e \<Rightarrow> [] | Inr s \<Rightarrow> s)"

definition get_text ::
    "('c, 'd, 's) world \<Rightarrow> nat \<Rightarrow> jstr \<Rightarrow> ('c, 'd) view_card \<Rightarrow> jstr \<times> ('c, 'd) view_card" where
  "get_text w fmt col r =
     (case map_of (text_cache r) col of
        Some t \<Rightarrow> (t, r)
      | None \<Rightarrow> let t = cell_text w fmt r col
                in (t, r\<lparr>text_cache := AList.update col t (text_cache r)\<rparr>))"

definition row_id :: "('c, 'd, 's) world \<Rightarrow> ('c, 'd) view_card \<Rightarrow> jstr" where
  "row_id w r = uid_of (cards w) (card r)"

definition row_properties :: "('c, 'd, 's) world \<Rightarrow> ('c, 'd) view_card \<Rightarrow> jstr" where
  "row_properties w r = (if is_list_of (cards w) (card r) then js ''MailList'' else [])"

section \<open>Views\<close>

text \<open>The calls a view makes on the tree element and on its listener.\<close>

datatype view_call =
    TreeRowCountChanged nat int
  | TreeInvalidate
  | TreeInvalidateColumn jstr
  | TreeScrollToRow nat
  | SelectEventsSuppressed bool
  | ListenerCountChanged nat
  | ListenerSelectionChanged

record ('c, 'd, 's) ab_view =
  directory :: "'d option"
  listener :: bool
  rows :: "('c, 'd) view_card list"          \<comment> \<open>\<open>_rowMap\<close>\<close>
  selection :: "'s option"
  tree :: bool
  sort_column :: jstr
  sort_direction :: jstr
  name_format :: nat                         \<comment> \<open>\<open>ABView.nameFormat\<close>\<close>
  calls :: "view_call list"

definition call_tree :: "view_call \<Rightarrow> ('c, 'd, 's) ab_view \<Rightarrow> ('c, 'd, 's) ab_view" where
  "call_tree k v = (if tree v then v\<lparr>calls := calls v @ [k]\<rparr> else v)"

definition call_listener :: "view_call \<Rightarrow> ('c, 'd, 's) ab_view \<Rightarrow> ('c, 'd, 's) ab_view" where
  "call_listener k v = (if listener v then v\<lparr>calls := calls v @ [k]\<rparr> else v)"

text \<open>\<open>tree.rowCountChanged(i, n)\<close>, upon which the tree adjusts the selection.\<close>

definition row_count_changed ::
    "('c, 'd, 's) world \<Rightarrow> nat \<Rightarrow> int \<Rightarrow> ('c, 'd, 's) ab_view \<Rightarrow> ('c, 'd, 's) ab_view" where
  "row_count_changed w i n v =
     (if tree v
      then call_tree (TreeRowCountChanged i n)
             (v\<lparr>selection := map_option (adjust_selection w i n) (selection v)\<rparr>)
      else v)"

definition on_count_changed :: "('c, 'd, 's) ab_view \<Rightarrow> ('c, 'd, 's) ab_view" where
  "on_count_changed v = call_listener (ListenerCountChanged (length (rows v))) v"

definition selection_changed :: "('c, 'd, 's) ab_view \<Rightarrow> ('c, 'd, 's) ab_view" where
  "selection_changed v = call_listener ListenerSelectionChanged v"

definition get_card_from_row :: "('c, 'd, 's) ab_view \<Rightarrow> nat \<Rightarrow> 'c option" where
  "get_card_from_row v i = (if i < length (rows v) then Some (card (rows v ! i)) else None)"

definition get_directory_from_row :: "('c, 'd, 's) ab_view \<Rightarrow> nat \<Rightarrow> 'd option" where
  "get_directory_from_row v i = (if i < length (rows v) then card_dir (rows v ! i) else None)"

text \<open>
  \<open>setTree\<close>: the view observes the notifications from the moment it has a tree, which is why
  \<open>observe\<close> below is only called on such a view.
\<close>

definition view_set_tree :: "bool \<Rightarrow> ('c, 'd, 's) ab_view \<Rightarrow> ('c, 'd, 's) ab_view" where
  "view_set_tree t v = v\<lparr>tree := t\<rparr>"

section \<open>Sorting\<close>

text \<open>The comparison of two rows, which have their texts in the cache when it is made.\<close>

definition compare_rows ::
    "('c, 'd, 's) world \<Rightarrow> nat \<Rightarrow> jstr \<Rightarrow> jstr \<Rightarrow> ('c, 'd) view_card \<Rightarrow> ('c, 'd) view_card \<Rightarrow> int" where
  "compare_rows w fmt col d a b =
     (let a_text = fst (get_text w fmt col a); b_text = fst (get_text w fmt col b)
      in if d = js ''descending'' then compare_text w b_text a_text
         else compare_text w a_text b_text)"

text \<open>Every row is compared with another one, unless there is only one.\<close>

definition sort_rows ::
    "('c, 'd, 's) world \<Rightarrow> nat \<Rightarrow> jstr \<Rightarrow> jstr \<Rightarrow> ('c, 'd) view_card list \<Rightarrow> ('c, 'd) view_card list" where
  "sort_rows w fmt col d rs =
     (if length rs < 2 then rs
      else array_sort (compare_rows w fmt col d) (map (\<lambda>r. snd (get_text w fmt col r)) rs))"

fun remember_from ::
    "('c, 'd, 's) world \<Rightarrow> 's \<Rightarrow> nat \<Rightarrow> ('c, 'd) view_card list \<Rightarrow> ('c, 'd) view_card list" where
  "remember_from w s i [] = []"
| "remember_from w s i (r # rs) =
     r\<lparr>was_selected := is_selected w s i, was_current := (current_index w s = int i)\<rparr>
       # remember_from w s (i + 1) rs"

definition remember_selection :: "('c, 'd, 's) world \<Rightarrow> ('c, 'd, 's) ab_view \<Rightarrow> ('c, 'd, 's) ab_view" where
  "remember_selection w v =
     (case selection v of None \<Rightarrow> v | Some s \<Rightarrow> v\<lparr>rows := remember_from w s 0 (rows v)\<rparr>)"

fun reselect_from :: "('c, 'd, 's) world \<Rightarrow> nat \<Rightarrow> ('c, 'd) view_card list \<Rightarrow> 's \<Rightarrow> 's" where
  "reselect_from w i [] s = s"
| "reselect_from w i (r # rs) s =
     reselect_from w (i + 1) rs
       (if was_selected r \<noteq> is_selected w s i then toggle_select w i s else s)"

fun recurrent_from :: "('c, 'd, 's) world \<Rightarrow> nat \<Rightarrow> ('c, 'd) view_card list \<Rightarrow> 's \<Rightarrow> 's" where
  "recurrent_from w i [] s = s"
| "recurrent_from w i (r # rs) s =
     (if was_current r then set_current_index w i s else recurrent_from w (i + 1) rs s)"

definition restore_selection :: "('c, 'd, 's) world \<Rightarrow> ('c, 'd, 's) ab_view \<Rightarrow> ('c, 'd, 's) ab_view" where
  "restore_selection w v =
     (case selection v of
        None \<Rightarrow> v
      | Some s \<Rightarrow>
          let v1 = v\<lparr>calls := calls v @ [SelectEventsSuppressed True],
                     selection := Some (recurrent_from w 0 (rows v) (reselect_from w 0 (rows v) s))\<rparr>;
              v2 = selection_changed v1
          in v2\<lparr>calls := calls v2 @ [SelectEventsSuppressed False]\<rparr>)"

definition sort_by ::
    "('c, 'd, 's) world \<Rightarrow> jstr \<Rightarrow> jstr \<Rightarrow> bool \<Rightarrow> ('c, 'd, 's) ab_view \<Rightarrow> ('c, 'd, 's) ab_view" where
  "sort_by w col d resort v =
     (let v1 = remember_selection w v in
      if col = sort_column v1 \<and> \<not> resort \<and> d = sort_direction v1 then v1
      else
        let v2 = v1\<lparr>rows := (if col = sort_column v1 \<and> \<not> resort then rev (rows v1)
                              else sort_rows w (name_format v1) col d (rows v1))\<rparr>;
            v3 = call_tree TreeInvalidate (restore_selection w v2)
        in v3\<lparr>sort_column := col, sort_direction := d\<rparr>)"

section \<open>Notifications\<close>

text \<open>The topics, and what a notification is about.\<close>

datatype topic =
    PrefChanged                        \<comment> \<open>\<open>nsPref:changed\<close>\<close>
  | DirectoryInvalidated
  | ContactCreated
  | ContactUpdated
  | ContactDeleted
  | ListCreated
  | ListUpdated
  | ListDeleted
  | ListMemberAdded
  | ListMemberRemoved

datatype ('c, 'd) subject = SubjectCard 'c | SubjectDirectory 'd

text \<open>\<open>QueryInterface\<close>, which throws for an object of the other kind.\<close>

fun as_card :: "('c, 'd) subject \<Rightarrow> js_error + 'c" where
  "as_card (SubjectCard c) = Inr c"
| "as_card (SubjectDirectory d) = Inl NoInterface"

fun as_directory :: "('c, 'd) subject \<Rightarrow> js_error + 'd" where
  "as_directory (SubjectCard c) = Inl NoInterface"
| "as_directory (SubjectDirectory d) = Inr d"

text \<open>
  A notification about a list comes with the list itself; the card that stands for it is
  looked for in the parent directory.
\<close>

definition list_card ::
    "('c, 'd, 's) world \<Rightarrow> 'd option \<Rightarrow> ('c, 'd) subject \<Rightarrow> js_error + 'c" where
  "list_card w parent subj =
     bindE (as_directory subj) (\<lambda>l.
       case parent of
         None \<Rightarrow> Inl TypeError
       | Some p \<Rightarrow>
           (case find (\<lambda>c. uid_of (cards w) c = dir_uid w l) (child_cards w p) of
              Some c \<Rightarrow> Inr c
            | None \<Rightarrow> as_card subj))"

text \<open>The search for the place of a new row; it leaves the texts it asks for in the caches.\<close>

fun add_index ::
    "('c, 'd, 's) world \<Rightarrow> nat \<Rightarrow> jstr \<Rightarrow> jstr \<Rightarrow> jstr \<Rightarrow> ('c, 'd) view_card list
     \<Rightarrow> nat option \<times> ('c, 'd) view_card list" where
  "add_index w fmt col d t [] = (None, [])"
| "add_index w fmt col d t (r # rs) =
     (let (u, r') = get_text w fmt col r; comparison = compare_text w t u
      in if comparison < 0 \<and> d = js ''ascending'' \<or> comparison \<ge> 0 \<and> d = js ''descending''
         then (Some 0, r' # rs)
         else let (k, rs') = add_index w fmt col d t rs in (map_option Suc k, r' # rs'))"

definition insert_card ::
    "('c, 'd, 's) world \<Rightarrow> 'c \<Rightarrow> ('c, 'd, 's) ab_view \<Rightarrow> ('c, 'd, 's) ab_view" where
  "insert_card w c v =
     (let (t, r) = get_text w (name_format v) (sort_column v) (ab_view_card w c None);
          (k, rs) = add_index w (name_format v) (sort_column v) (sort_direction v) t (rows v);
          i = (case k of Some i \<Rightarrow> i | None \<Rightarrow> length (rows v))
      in on_count_changed (row_count_changed w i 1 (v\<lparr>rows := splice_in i r rs\<rparr>)))"

text \<open>The loops over the rows from the last to the first.\<close>

fun delete_rows ::
    "('c, 'd, 's) world \<Rightarrow> ('c \<Rightarrow> bool) \<Rightarrow> nat \<Rightarrow> ('c, 'd, 's) ab_view \<Rightarrow> ('c, 'd, 's) ab_view" where
  "delete_rows w P 0 v = v"
| "delete_rows w P (Suc i) v =
     delete_rows w P i
       (if P (card (rows v ! i))
        then row_count_changed w i (- 1) (v\<lparr>rows := splice_out i 1 (rows v)\<rparr>)
        else v)"

definition remove_cards ::
    "('c, 'd, 's) world \<Rightarrow> ('c \<Rightarrow> bool) \<Rightarrow> ('c, 'd, 's) ab_view \<Rightarrow> ('c, 'd, 's) ab_view" where
  "remove_cards w P v =
     call_tree (TreeScrollToRow (first_visible_row w))
       (on_count_changed (delete_rows w P (length (rows v)) v))"

definition update_cards ::
    "('c, 'd, 's) world \<Rightarrow> ('c \<Rightarrow> bool) \<Rightarrow> 'c \<Rightarrow> ('c, 'd, 's) ab_view \<Rightarrow> ('c, 'd, 's) ab_view" where
  "update_cards w P c v =
     (let needs_sort = (\<exists>r\<in>set (rows v). P (card r));
          v1 = v\<lparr>rows := map (\<lambda>r. if P (card r) then ab_view_card w c None else r) (rows v)\<rparr>
      in if needs_sort then sort_by w (sort_column v1) (sort_direction v1) True v1 else v1)"

definition reload_cards ::
    "('c, 'd, 's) world \<Rightarrow> 'd \<Rightarrow> ('c, 'd, 's) ab_view \<Rightarrow> ('c, 'd, 's) ab_view" where
  "reload_cards w d v =
     (let v1 = v\<lparr>rows := map (\<lambda>c. ab_view_card w c (Some d)) (child_cards w d)\<rparr>
      in on_count_changed (sort_by w (sort_column v1) (sort_direction v1) True v1))"

definition name_format_changed :: "('c, 'd, 's) world \<Rightarrow> ('c, 'd, 's) ab_view \<Rightarrow> ('c, 'd, 's) ab_view" where
  "name_format_changed w v =
     (let gn = js ''GeneratedName'';
          v1 = v\<lparr>name_format := last_name_first_pref w,
                 rows := map (\<lambda>r. r\<lparr>text_cache := AList.delete gn (text_cache r)\<rparr>) (rows v)\<rparr>
      in if tree v1
         then if sort_column v1 = gn then sort_by w (sort_column v1) (sort_direction v1) True v1
              else call_tree (TreeInvalidateColumn gn) v1
         else v1)"

definition same_card :: "('c, 'd, 's) world \<Rightarrow> 'c \<Rightarrow> 'c \<Rightarrow> bool" where
  "same_card w c x \<longleftrightarrow>
     equals_of (cards w) x c \<and> directory_uid_of (cards w) x = directory_uid_of (cards w) c"

definition observe ::
    "('c, 'd, 's) world \<Rightarrow> ('c, 'd) subject \<Rightarrow> topic \<Rightarrow> jstr option \<Rightarrow> ('c, 'd, 's) ab_view
     \<Rightarrow> js_error + ('c, 'd, 's) ab_view" where
  "observe w subj t data v =
     (if t = PrefChanged then Inr (name_format_changed w v)
      else if (\<exists>d x xs. directory v = Some d \<and> data = Some (x # xs) \<and> dir_uid w d \<noteq> x # xs)
      then Inr v
      else
        let named = Option.bind data (get_directory_from_uid w) in
        case t of
          PrefChanged \<Rightarrow> Inr v
        | DirectoryInvalidated \<Rightarrow>
            bindE (as_directory subj) (\<lambda>d.
              Inr (if directory v = Some d then reload_cards w d v else v))
        | ListCreated \<Rightarrow> bindE (list_card w named subj) (\<lambda>c. Inr (insert_card w c v))
        | ListMemberAdded \<Rightarrow>
            if directory v = None then Inr v
            else bindE (as_card subj) (\<lambda>c. Inr (insert_card w c v))
        | ContactCreated \<Rightarrow> bindE (as_card subj) (\<lambda>c. Inr (insert_card w c v))
        | ListUpdated \<Rightarrow>
            bindE (list_card w (case directory v of None \<Rightarrow> named | Some d \<Rightarrow> Some d) subj) (\<lambda>c.
              Inr (update_cards w (same_card w c) c v))
        | ContactUpdated \<Rightarrow>
            bindE (as_card subj) (\<lambda>c. Inr (update_cards w (same_card w c) c v))
        | ListDeleted \<Rightarrow>
            bindE (as_directory subj) (\<lambda>l.
              Inr (remove_cards w (\<lambda>x. uid_of (cards w) x = dir_uid w l) v))
        | ListMemberRemoved \<Rightarrow>
            if directory v = None then Inr v
            else bindE (as_card subj) (\<lambda>c. Inr (remove_cards w (same_card w c) v))
        | ContactDeleted \<Rightarrow>
            bindE (as_card subj) (\<lambda>c. Inr (remove_cards w (same_card w c) v)))"

section \<open>Opening a view\<close>

definition on_search_found_card ::
    "('c, 'd, 's) world \<Rightarrow> 'c \<Rightarrow> ('c, 'd, 's) ab_view \<Rightarrow> js_error + ('c, 'd, 's) ab_view" where
  "on_search_found_card w c v =
     observe w (SubjectCard c) ContactCreated (map_option (dir_uid w) (directory v)) v"

fun on_search_found_cards ::
    "('c, 'd, 's) world \<Rightarrow> 'c list \<Rightarrow> ('c, 'd, 's) ab_view \<Rightarrow> js_error + ('c, 'd, 's) ab_view" where
  "on_search_found_cards w [] v = Inr v"
| "on_search_found_cards w (c # cs) v =
     bindE (on_search_found_card w c v) (on_search_found_cards w cs)"

text \<open>
  \<open>new ABView\<close>.  A directory that searches asynchronously reports its cards later, through
  \<open>on_search_found_card\<close>; \<open>fmt\<close> is the preference at the time the script was loaded.
\<close>

definition new_ab_view ::
    "('c, 'd, 's) world \<Rightarrow> nat \<Rightarrow> 'd option \<Rightarrow> jstr \<Rightarrow> bool \<Rightarrow> jstr \<Rightarrow> jstr
     \<Rightarrow> js_error + ('c, 'd, 's) ab_view" where
  "new_ab_view w fmt dir query lis col d =
     (let v = \<lparr>directory = dir, listener = lis, rows = [], selection = None, tree = False,
               sort_column = [], sort_direction = [], name_format = fmt, calls = []\<rparr>;
          dirs = (case dir of Some x \<Rightarrow> [x] | None \<Rightarrow> directories w);
          filled =
            (if query \<noteq> [] then
               let q = dropWhile (\<lambda>c. c = ord CHR ''?'') query
               in on_search_found_cards w (concat (map (\<lambda>x. search_results w x q) dirs)) v
             else
               Inr (on_count_changed
                 (v\<lparr>rows := concat (map (\<lambda>x. map (\<lambda>c. ab_view_card w c (Some x)) (child_cards w x)) dirs)\<rparr>)))
      in bindE filled (\<lambda>v. Inr (sort_by w col d False v)))"

section \<open>Deleting what is selected\<close>

text \<open>The cards in the ranges of the selection, and their sets by the directory they are in.\<close>

definition selected_rows :: "('c, 'd, 's) world \<Rightarrow> 's \<Rightarrow> nat list" where
  "selected_rows w s = concat (map (\<lambda>(a, b). [a..<b + 1]) (selected_ranges w s))"

fun cards_in_rows :: "('c, 'd, 's) ab_view \<Rightarrow> nat list \<Rightarrow> js_error + 'c list" where
  "cards_in_rows v [] = Inr []"
| "cards_in_rows v (i # is) =
     (case get_card_from_row v i of
        None \<Rightarrow> Inl TypeError
      | Some c \<Rightarrow> bindE (cards_in_rows v is) (\<lambda>cs. Inr (c # cs)))"

definition add_to_set :: "'c \<Rightarrow> 'c list \<Rightarrow> 'c list" where
  "add_to_set c cs = (if c \<in> set cs then cs else cs @ [c])"

definition add_to_directory :: "('c, 'd, 's) world \<Rightarrow> 'c \<Rightarrow> 'c list jsmap \<Rightarrow> 'c list jsmap" where
  "add_to_directory w c m =
     (let u = directory_uid_of (cards w) c;
          cs = (case map_of m u of None \<Rightarrow> [] | Some cs \<Rightarrow> cs)
      in AList.update u (add_to_set c cs) m)"

text \<open>Cards are removed from a list that is shown, but deleted from their own book otherwise.\<close>

definition target_directory :: "('c, 'd, 's) world \<Rightarrow> 'd option \<Rightarrow> jstr \<Rightarrow> 'd option" where
  "target_directory w shown u =
     (case shown of
        Some d \<Rightarrow> if dir_is_list w d then Some d else get_directory_from_uid w u
      | None \<Rightarrow> get_directory_from_uid w u)"

text \<open>
  The second loop.  An exception ends it: a directory that is not known, or what one of the
  deletions throws.
\<close>

fun delete_groups ::
    "('c, 'd, 's) world \<Rightarrow> 'd option \<Rightarrow> ('c, 'd) deletion list \<Rightarrow> 'c list jsmap
     \<Rightarrow> ('c, 'd) deletion list \<times> js_error option" where
  "delete_groups w shown made [] = (made, None)"
| "delete_groups w shown made ((u, cs) # m) =
     (case target_directory w shown u of
        None \<Rightarrow> (made, Some TypeError)
      | Some d \<Rightarrow>
          (case make_calls (deletion_error w) made
                  (DeleteCards d (filter (\<lambda>c. \<not> is_list_of (cards w) c) cs)
                    # map (\<lambda>c. DeleteAddressBook (list_uri_of (cards w) c))
                        (filter (is_list_of (cards w)) cs)) of
             (made', Some e) \<Rightarrow> (made', Some e)
           | (made', None) \<Rightarrow> delete_groups w shown made' m))"

definition delete_selected_cards ::
    "('c, 'd, 's) world \<Rightarrow> ('c, 'd, 's) ab_view \<Rightarrow> ('c, 'd) deletion list \<times> js_error option" where
  "delete_selected_cards w v =
     (case selection v of
        None \<Rightarrow> ([], Some TypeError)
      | Some s \<Rightarrow>
          (case cards_in_rows v (selected_rows w s) of
             Inl e \<Rightarrow> ([], Some e)
           | Inr cs \<Rightarrow> delete_groups w (directory v) [] (fold (add_to_directory w) cs [])))"

section \<open>The life of a view\<close>

text \<open>
  What happens to a view that is shown, each event in the world of its moment.  A notification
  that throws changes nothing: every exception comes before the first change.
\<close>

datatype ('c, 'd) view_event =
    Notified "('c, 'd) subject" topic "jstr option"
  | Sorted jstr jstr bool

definition view_event ::
    "('c, 'd, 's) world \<times> ('c, 'd) view_event \<Rightarrow> ('c, 'd, 's) ab_view \<Rightarrow> ('c, 'd, 's) ab_view" where
  "view_event x v =
     (case x of
        (w, Notified subj t data) \<Rightarrow> (case observe w subj t data v of Inl e \<Rightarrow> v | Inr v' \<Rightarrow> v')
      | (w, Sorted col d resort) \<Rightarrow> sort_by w col d resort v)"

definition run_view ::
    "(('c, 'd, 's) world \<times> ('c, 'd) view_event) list \<Rightarrow> ('c, 'd, 's) ab_view \<Rightarrow> ('c, 'd, 's) ab_view" where
  "run_view evs v = fold view_event evs v"

section \<open>Lemmas: texts\<close>

lemma cell_text_row [simp]:
  "cell_text w fmt (r\<lparr>text_cache := x\<rparr>) col = cell_text w fmt r col"
  "cell_text w fmt (r\<lparr>was_selected := a, was_current := b\<rparr>) col = cell_text w fmt r col"
  by (simp_all add: cell_text_def Let_def)

lemma get_text_row [simp]:
  "card (snd (get_text w fmt col r)) = card r"
  "card_dir (snd (get_text w fmt col r)) = card_dir r"
  "was_selected (snd (get_text w fmt col r)) = was_selected r"
  "was_current (snd (get_text w fmt col r)) = was_current r"
  "cell_text w fmt' (snd (get_text w fmt col r)) col' = cell_text w fmt' r col'"
  by (auto simp: get_text_def Let_def cell_text_def split: option.splits)

text \<open>A cached text is the text that would be made now.\<close>

definition true_cache :: "('c, 'd, 's) world \<Rightarrow> nat \<Rightarrow> ('c, 'd) view_card \<Rightarrow> bool" where
  "true_cache w fmt r \<longleftrightarrow> (\<forall>(col, t)\<in>set (text_cache r). t = cell_text w fmt r col)"

lemma true_cache_new [simp]: "true_cache w fmt (ab_view_card w' c h)"
  by (simp add: true_cache_def ab_view_card_def)

lemma true_cache_flags [simp]:
  "true_cache w fmt (r\<lparr>was_selected := a, was_current := b\<rparr>) = true_cache w fmt r"
  by (simp add: true_cache_def)

lemma true_cache_update:
  assumes "true_cache w fmt r" and "t = cell_text w fmt r col"
  shows "true_cache w fmt (r\<lparr>text_cache := AList.update col t (text_cache r)\<rparr>)"
proof -
  have "set (AList.update col t xs) \<subseteq> insert (col, t) (set xs)" for xs
    by (induction xs) auto
  then show ?thesis using assms unfolding true_cache_def by fastforce
qed

lemma fst_get_text: "true_cache w fmt r \<Longrightarrow> fst (get_text w fmt col r) = cell_text w fmt r col"
  by (auto simp: get_text_def true_cache_def Let_def dest: map_of_SomeD split: option.splits)

lemma true_cache_get_text [simp]: "true_cache w fmt r \<Longrightarrow> true_cache w fmt (snd (get_text w fmt col r))"
  by (auto simp: get_text_def Let_def true_cache_update split: option.splits)

lemma true_cache_delete:
  assumes "true_cache w fmt r" and "\<And>col. col \<noteq> js ''GeneratedName'' \<Longrightarrow> cell_text w fmt' r col = cell_text w fmt r col"
  shows "true_cache w fmt' (r\<lparr>text_cache := AList.delete (js ''GeneratedName'') (text_cache r)\<rparr>)"
  using assms unfolding true_cache_def by (force simp: AList.delete_eq)

lemma cell_text_format: "col \<noteq> js ''GeneratedName'' \<Longrightarrow> cell_text w fmt' r col = cell_text w fmt r col"
  by (simp add: cell_text_def Let_def)

text \<open>The order of the texts in the direction of a view.\<close>

definition text_order :: "('c, 'd, 's) world \<Rightarrow> jstr \<Rightarrow> jstr \<Rightarrow> jstr \<Rightarrow> int" where
  "text_order w d a b = (if d = js ''descending'' then compare_text w b a else compare_text w a b)"

definition row_order ::
    "('c, 'd, 's) world \<Rightarrow> nat \<Rightarrow> jstr \<Rightarrow> jstr \<Rightarrow> ('c, 'd) view_card \<Rightarrow> ('c, 'd) view_card \<Rightarrow> int" where
  "row_order w fmt col d a b = text_order w d (cell_text w fmt a col) (cell_text w fmt b col)"

lemma collation_text_order: "collation (compare_text w) \<Longrightarrow> collation (text_order w d)"
  by (cases "d = js ''descending''") (simp_all add: text_order_def [abs_def] collation_flip)

lemma collation_row_order: "collation (compare_text w) \<Longrightarrow> collation (row_order w fmt col d)"
  using collation_on [of "compare_text w" "\<lambda>r. cell_text w fmt r col"]
    collation_flip [OF collation_on, of "compare_text w" "\<lambda>r. cell_text w fmt r col"]
  by (cases "d = js ''descending''") (simp_all add: row_order_def [abs_def] text_order_def)

lemma compare_rows_eq:
  "true_cache w fmt a \<Longrightarrow> true_cache w fmt b \<Longrightarrow> compare_rows w fmt col d a b = row_order w fmt col d a b"
  by (simp add: compare_rows_def row_order_def text_order_def fst_get_text Let_def)

lemma sort_rows_eq:
  assumes "\<forall>r\<in>set rs. true_cache w fmt r"
  shows "sort_rows w fmt col d rs =
     (if length rs < 2 then rs
      else array_sort (row_order w fmt col d) (map (\<lambda>r. snd (get_text w fmt col r)) rs))"
  unfolding sort_rows_def using assms
  by (auto intro!: array_sort_cong compare_rows_eq)

section \<open>Lemmas: selection\<close>

text \<open>
  What the program relies on in \<open>nsITreeSelection\<close> and in the tree: \<open>toggleSelect\<close> changes
  the row it is given and no other, the current row is no part of the selection, and when a row
  comes or goes the marks of the rows below move with them.
\<close>

definition selection_laws :: "('c, 'd, 's) world \<Rightarrow> bool" where
  "selection_laws w \<longleftrightarrow>
     (\<forall>s i j. is_selected w (toggle_select w i s) j =
        (if j = i then \<not> is_selected w s i else is_selected w s j)) \<and>
     (\<forall>s i j. is_selected w (set_current_index w i s) j = is_selected w s j) \<and>
     (\<forall>s i. current_index w (set_current_index w i s) = int i) \<and>
     (\<forall>s i j. is_selected w (adjust_selection w i 1 s) j =
        (if j < i then is_selected w s j else j \<noteq> i \<and> is_selected w s (j - 1))) \<and>
     (\<forall>s i j. is_selected w (adjust_selection w i (- 1) s) j =
        (if j < i then is_selected w s j else is_selected w s (j + 1)))"

lemma selection_lawsD:
  assumes "selection_laws w"
  shows "is_selected w (toggle_select w i s) j =
           (if j = i then \<not> is_selected w s i else is_selected w s j)"
    and "is_selected w (set_current_index w i s) j = is_selected w s j"
    and "current_index w (set_current_index w i s) = int i"
    and "is_selected w (adjust_selection w i 1 s) j =
           (if j < i then is_selected w s j else j \<noteq> i \<and> is_selected w s (j - 1))"
    and "is_selected w (adjust_selection w i (- 1) s) j =
           (if j < i then is_selected w s j else is_selected w s (j + 1))"
  using assms unfolding selection_laws_def by blast+

text \<open>The cards of a view from the first row to the last, each with its mark of selection.\<close>

definition selected_at :: "('c, 'd, 's) world \<Rightarrow> ('c, 'd, 's) ab_view \<Rightarrow> nat \<Rightarrow> bool" where
  "selected_at w v i = (case selection v of None \<Rightarrow> False | Some s \<Rightarrow> is_selected w s i)"

fun marks_from :: "(nat \<Rightarrow> bool) \<Rightarrow> nat \<Rightarrow> 'c list \<Rightarrow> ('c \<times> bool) list" where
  "marks_from f i [] = []"
| "marks_from f i (c # cs) = (c, f i) # marks_from f (i + 1) cs"

definition marks :: "('c, 'd, 's) world \<Rightarrow> ('c, 'd, 's) ab_view \<Rightarrow> ('c \<times> bool) list" where
  "marks w v = marks_from (selected_at w v) 0 (map card (rows v))"

lemma marks_from_append:
  "marks_from f i (a @ b) = marks_from f i a @ marks_from f (i + length a) b"
  by (induction a arbitrary: i) auto

lemma marks_from_cong:
  "(\<And>j. i \<le> j \<Longrightarrow> j < i + length cs \<Longrightarrow> f j = g j) \<Longrightarrow> marks_from f i cs = marks_from g i cs"
  by (induction cs arbitrary: i) auto

lemma marks_from_Suc: "marks_from f (Suc i) cs = marks_from (\<lambda>j. f (Suc j)) i cs"
  by (induction cs arbitrary: i) auto

lemma marks_from_pred:
  "0 < i \<Longrightarrow> marks_from (\<lambda>j. f (j - 1)) i cs = marks_from f (i - 1) cs"
  by (induction cs arbitrary: i) auto

lemma fst_marks_from [simp]: "map fst (marks_from f i cs) = cs"
  by (induction cs arbitrary: i) auto

lemma remember_from_marks:
  "map (\<lambda>r. (card r, was_selected r)) (remember_from w s i rs) = marks_from (is_selected w s) i (map card rs)"
  by (induction rs arbitrary: i) auto

lemma length_remember_from [simp]: "length (remember_from w s i rs) = length rs"
  by (induction rs arbitrary: i) auto

lemma is_selected_reselect:
  assumes "selection_laws w"
  shows "is_selected w (reselect_from w i rs s) j =
           (if i \<le> j \<and> j < i + length rs then was_selected (rs ! (j - i)) else is_selected w s j)"
proof (induction rs arbitrary: i j s)
  case (Cons r rs)
  consider "j < i" | "j = i" | "i < j" by linarith
  then show ?case
    by cases (auto simp: Cons.IH selection_lawsD(1) [OF assms] nth_Cons' Suc_diff_Suc)
qed auto

lemma is_selected_recurrent:
  "selection_laws w \<Longrightarrow> is_selected w (recurrent_from w i rs s) j = is_selected w s j"
  by (induction rs arbitrary: i) (auto simp: selection_lawsD(2))

lemma marks_from_was:
  assumes "\<And>j. j < length rs \<Longrightarrow> f (i + j) = was_selected (rs ! j)"
  shows "marks_from f i (map card rs) = map (\<lambda>r. (card r, was_selected r)) rs"
  using assms
proof (induction rs arbitrary: i)
  case (Cons r rs)
  have "f i = was_selected r" using Cons.prems [of 0] by simp
  moreover have "f (i + 1 + j) = was_selected (rs ! j)" if "j < length rs" for j
    using Cons.prems [of "Suc j"] that by simp
  ultimately show ?case using Cons.IH [of "i + 1"] by simp
qed simp

text \<open>Sorting moves whole rows.\<close>

lemma mset_sort_rows:
  assumes "\<And>r. h (snd (get_text w fmt col r)) = h r"
  shows "mset (map h (sort_rows w fmt col d rs)) = mset (map h rs)"
proof -
  have "image_mset h (image_mset (\<lambda>r. snd (get_text w fmt col r)) (mset rs)) = image_mset h (mset rs)"
    unfolding image_mset.compositionality comp_def assms ..
  then show ?thesis by (simp add: sort_rows_def)
qed

lemma selection_call [simp]:
  "selection (call_tree k v) = selection v" "selection (call_listener k v) = selection v"
  "rows (call_tree k v) = rows v" "rows (call_listener k v) = rows v"
  "tree (call_tree k v) = tree v" "tree (call_listener k v) = tree v"
  "directory (call_tree k v) = directory v" "directory (call_listener k v) = directory v"
  "sort_column (call_tree k v) = sort_column v" "sort_column (call_listener k v) = sort_column v"
  "sort_direction (call_tree k v) = sort_direction v" "sort_direction (call_listener k v) = sort_direction v"
  "name_format (call_tree k v) = name_format v" "name_format (call_listener k v) = name_format v"
  by (simp_all add: call_tree_def call_listener_def)

lemma view_simps [simp]:
  "rows (selection_changed v) = rows v" "selection (selection_changed v) = selection v"
  "rows (on_count_changed v) = rows v" "selection (on_count_changed v) = selection v"
  "tree (selection_changed v) = tree v" "tree (on_count_changed v) = tree v"
  "directory (selection_changed v) = directory v" "directory (on_count_changed v) = directory v"
  "sort_column (selection_changed v) = sort_column v" "sort_column (on_count_changed v) = sort_column v"
  "sort_direction (selection_changed v) = sort_direction v"
  "sort_direction (on_count_changed v) = sort_direction v"
  "name_format (selection_changed v) = name_format v" "name_format (on_count_changed v) = name_format v"
  by (simp_all add: selection_changed_def on_count_changed_def)

lemma restore_selection_simps [simp]:
  "rows (restore_selection w v) = rows v" "tree (restore_selection w v) = tree v"
  "directory (restore_selection w v) = directory v"
  "sort_column (restore_selection w v) = sort_column v"
  "sort_direction (restore_selection w v) = sort_direction v"
  "name_format (restore_selection w v) = name_format v"
  "selection (restore_selection w v) =
     map_option (\<lambda>s. recurrent_from w 0 (rows v) (reselect_from w 0 (rows v) s)) (selection v)"
  by (simp_all add: restore_selection_def Let_def split: option.splits)

lemma remember_selection_simps [simp]:
  "tree (remember_selection w v) = tree v" "directory (remember_selection w v) = directory v"
  "sort_column (remember_selection w v) = sort_column v"
  "sort_direction (remember_selection w v) = sort_direction v"
  "name_format (remember_selection w v) = name_format v"
  "selection (remember_selection w v) = selection v"
  "map card (rows (remember_selection w v)) = map card (rows v)"
proof -
  have "map card (remember_from w s i rs) = map card rs" for s i rs
    by (induction rs arbitrary: i) auto
  then show "map card (rows (remember_selection w v)) = map card (rows v)"
    by (simp add: remember_selection_def split: option.splits)
qed (simp_all add: remember_selection_def split: option.splits)

lemma sort_by_simps [simp]:
  "tree (sort_by w col d rs v) = tree v" "directory (sort_by w col d rs v) = directory v"
  "name_format (sort_by w col d rs v) = name_format v"
  "sort_column (sort_by w col d rs v) = col" "sort_direction (sort_by w col d rs v) = d"
  by (simp_all add: sort_by_def Let_def)

lemma marks_from_False: "marks_from (\<lambda>_. False) i cs = map (\<lambda>c. (c, False)) cs"
  by (induction cs arbitrary: i) auto

lemma marks_None: "selection v = None \<Longrightarrow> marks w v = map (\<lambda>c. (c, False)) (map card (rows v))"
proof -
  assume "selection v = None"
  then have "selected_at w v = (\<lambda>_. False)" by (simp add: selected_at_def [abs_def])
  then show ?thesis by (simp only: marks_def marks_from_False)
qed

lemma marks_Some: "selection v = Some s \<Longrightarrow> marks w v = marks_from (is_selected w s) 0 (map card (rows v))"
  by (simp add: marks_def selected_at_def [abs_def])

lemma marks_sort_by:
  assumes "selection_laws w"
  shows "mset (marks w (sort_by w col d resort v)) = mset (marks w v)"
proof -
  let ?v1 = "remember_selection w v"
  let ?rs = "if col = sort_column v \<and> \<not> resort then rev (rows ?v1)
             else sort_rows w (name_format v) col d (rows ?v1)"
  have perm: "mset (map h ?rs) = mset (map h (rows ?v1))"
    if "\<And>fmt r. h (snd (get_text w fmt col r)) = h r" for h :: "('a, 'b) view_card \<Rightarrow> 'a \<times> bool"
    using mset_sort_rows [of h w "name_format v" col d, OF that]
    by (cases "col = sort_column v \<and> \<not> resort") (simp_all only: rev_map [symmetric] mset_rev simp_thms if_True if_False)
  show ?thesis
  proof (cases "col = sort_column v \<and> \<not> resort \<and> d = sort_direction v")
    case True
    then show ?thesis by (simp add: sort_by_def Let_def marks_def selected_at_def [abs_def])
  next
    case False
    have rows: "rows (sort_by w col d resort v) = ?rs"
      using False by (auto simp: sort_by_def Let_def)
    show ?thesis
    proof (cases "selection v")
      case None
      then have "selection (sort_by w col d resort v) = None"
        using False by (auto simp: sort_by_def Let_def)
      then have "marks w (sort_by w col d resort v) = map (\<lambda>r. (card r, False)) ?rs"
        by (simp only: marks_None rows map_map comp_def)
      moreover have "marks w v = map (\<lambda>r. (card r, False)) (rows ?v1)"
        using None by (simp add: marks_None remember_selection_def comp_def)
      ultimately show ?thesis by (simp only: perm get_text_row)
    next
      case (Some s)
      let ?s = "recurrent_from w 0 ?rs (reselect_from w 0 ?rs s)"
      have sel: "selection (sort_by w col d resort v) = Some ?s"
        using False Some by (auto simp: sort_by_def Let_def)
      have "marks w (sort_by w col d resort v) = map (\<lambda>r. (card r, was_selected r)) ?rs"
        unfolding marks_Some [OF sel] rows
        by (rule marks_from_was) (simp add: is_selected_recurrent [OF assms] is_selected_reselect [OF assms])
      moreover have "marks w v = map (\<lambda>r. (card r, was_selected r)) (rows ?v1)"
        using Some by (simp add: marks_Some remember_selection_def remember_from_marks)
      ultimately show ?thesis by (simp only: perm get_text_row)
    qed
  qed
qed

section \<open>Lemmas: rows that come and go\<close>

lemma take_marks_from: "take n (marks_from f i cs) = marks_from f i (take n cs)"
  by (induction cs arbitrary: n i) (auto simp: take_Cons' split: nat.splits)

lemma drop_marks_from: "drop n (marks_from f i cs) = marks_from f (i + n) (drop n cs)"
proof (induction cs arbitrary: n i)
  case (Cons c cs)
  then show ?case by (cases n) auto
qed simp

lemma length_marks_from [simp]: "length (marks_from f i cs) = length cs"
  by (induction cs arbitrary: i) auto

lemma length_marks [simp]: "length (marks w v) = length (rows v)"
  by (simp add: marks_def)

lemma fst_marks [simp]: "map fst (marks w v) = map card (rows v)"
  by (simp add: marks_def)

lemma row_count_changed_simps [simp]:
  "rows (row_count_changed w i n v) = rows v" "tree (row_count_changed w i n v) = tree v"
  "directory (row_count_changed w i n v) = directory v"
  "sort_column (row_count_changed w i n v) = sort_column v"
  "sort_direction (row_count_changed w i n v) = sort_direction v"
  "name_format (row_count_changed w i n v) = name_format v"
  "tree v \<Longrightarrow> selection (row_count_changed w i n v) = map_option (adjust_selection w i n) (selection v)"
  by (simp_all add: row_count_changed_def)

lemma marks_insert:
  assumes "selection_laws w" and "tree v" and "i \<le> length (rows v)"
    and "map card rs = map card (rows v)"
  shows "marks w (row_count_changed w i 1 (v\<lparr>rows := splice_in i r rs\<rparr>))
           = take i (marks w v) @ (card r, False) # drop i (marks w v)"
proof -
  let ?f = "selected_at w v"
  let ?v = "row_count_changed w i 1 (v\<lparr>rows := splice_in i r rs\<rparr>)"
  let ?cs = "map card (rows v)"
  have sel: "selected_at w ?v j = (if j < i then ?f j else j \<noteq> i \<and> ?f (j - 1))" for j
    using assms(2) by (simp add: selected_at_def selection_lawsD(4) [OF assms(1)] split: option.splits)
  have cards: "map card (splice_in i r rs) = take i ?cs @ card r # drop i ?cs"
    by (simp add: splice_in_def take_map [symmetric] drop_map [symmetric] assms(4))
  have "marks_from (selected_at w ?v) 0 (take i ?cs) = marks_from ?f 0 (take i ?cs)"
    by (rule marks_from_cong) (simp add: sel)
  moreover have "marks_from (selected_at w ?v) (Suc i) (drop i ?cs) = marks_from ?f i (drop i ?cs)"
    unfolding marks_from_Suc by (rule marks_from_cong) (simp add: sel)
  ultimately show ?thesis
    using assms(3) by (simp add: marks_def cards marks_from_append sel take_marks_from drop_marks_from min_def)
qed

lemma marks_delete:
  assumes "selection_laws w" and "tree v" and "i < length (rows v)"
  shows "marks w (row_count_changed w i (- 1) (v\<lparr>rows := splice_out i 1 (rows v)\<rparr>))
           = take i (marks w v) @ drop (Suc i) (marks w v)"
proof -
  let ?f = "selected_at w v"
  let ?v = "row_count_changed w i (- 1) (v\<lparr>rows := splice_out i 1 (rows v)\<rparr>)"
  let ?cs = "map card (rows v)"
  have sel: "selected_at w ?v j = (if j < i then ?f j else ?f (j + 1))" for j
    using assms(2) by (simp add: selected_at_def selection_lawsD(5) [OF assms(1)] split: option.splits)
  have cards: "map card (splice_out i 1 (rows v)) = take i ?cs @ drop (Suc i) ?cs"
    by (simp add: splice_out_def take_map drop_map)
  have "marks_from (selected_at w ?v) 0 (take i ?cs) = marks_from ?f 0 (take i ?cs)"
    by (rule marks_from_cong) (simp add: sel del: One_nat_def)
  moreover have "marks_from (selected_at w ?v) i (drop (Suc i) ?cs) = marks_from ?f (Suc i) (drop (Suc i) ?cs)"
    unfolding marks_from_Suc by (rule marks_from_cong) (simp add: sel Suc_eq_plus1 del: One_nat_def)
  ultimately show ?thesis
    using assms(3) by (simp add: marks_def cards marks_from_append take_marks_from drop_marks_from min_def
        del: One_nat_def)
qed

lemma delete_rows_simps [simp]:
  "tree (delete_rows w P n v) = tree v" "directory (delete_rows w P n v) = directory v"
  "sort_column (delete_rows w P n v) = sort_column v"
  "sort_direction (delete_rows w P n v) = sort_direction v"
  "name_format (delete_rows w P n v) = name_format v"
  by (induction n arbitrary: v) auto

lemma marks_delete_rows:
  assumes "selection_laws w" and "tree v" and "n \<le> length (rows v)"
  shows "marks w (delete_rows w P n v) =
           filter (\<lambda>m. \<not> P (fst m)) (take n (marks w v)) @ drop n (marks w v)"
  using assms(2,3)
proof (induction n arbitrary: v)
  case (Suc i)
  have i: "i < length (marks w v)" using Suc.prems by simp
  have fst: "fst (marks w v ! i) = card (rows v ! i)"
    using i by (metis fst_marks length_marks nth_map)
  show ?case
  proof (cases "P (card (rows v ! i))")
    case True
    let ?v = "row_count_changed w i (- 1) (v\<lparr>rows := splice_out i 1 (rows v)\<rparr>)"
    have m: "marks w ?v = take i (marks w v) @ drop (Suc i) (marks w v)"
      using marks_delete [OF assms(1)] Suc.prems by simp
    have "i \<le> length (rows ?v)" using Suc.prems by (simp add: splice_out_def)
    from Suc.IH [OF _ this] Suc.prems m i True fst show ?thesis
      by (simp add: take_Suc_conv_app_nth)
  next
    case False
    from Suc.IH [of v] Suc.prems i False fst show ?thesis
      by (simp add: take_Suc_conv_app_nth Cons_nth_drop_Suc)
  qed
qed simp

lemma rows_delete_rows:
  "n \<le> length (rows v) \<Longrightarrow>
     rows (delete_rows w P n v) = filter (\<lambda>r. \<not> P (card r)) (take n (rows v)) @ drop n (rows v)"
proof (induction n arbitrary: v)
  case (Suc i)
  have "take i (splice_out i 1 (rows v)) = take i (rows v)"
    "drop i (splice_out i 1 (rows v)) = drop (Suc i) (rows v)"
    "i \<le> length (splice_out i 1 (rows v))"
    using Suc.prems by (simp_all add: splice_out_def)
  with Suc show ?case by (simp add: take_Suc_conv_app_nth Cons_nth_drop_Suc)
qed simp

lemma add_index_cards:
  "add_index w fmt col d t rs = (k, rs') \<Longrightarrow>
     map card rs' = map card rs \<and> (\<forall>i. k = Some i \<longrightarrow> i < length rs)"
proof (induction rs arbitrary: k rs')
  case (Cons r rs)
  obtain k1 rs1 where a: "add_index w fmt col d t rs = (k1, rs1)" by fastforce
  from Cons.prems Cons.IH [OF a] show ?case
    by (auto simp: a Let_def split: prod.splits if_splits dest: arg_cong [where f = "\<lambda>x. card (snd x)"])
qed simp

section \<open>Lemmas: what a notification does to the cards\<close>

text \<open>
  The abstract view: the multiset of the cards with their marks, and what a notification asks
  for, which depends on the directory that is shown but on none of its rows.
\<close>

datatype 'c change =
    Keep
  | Add 'c
  | Drop "'c \<Rightarrow> bool"
  | Replace "'c \<Rightarrow> bool" 'c
  | Reload "'c list"

fun apply_change :: "(nat \<Rightarrow> bool) \<Rightarrow> 'c change \<Rightarrow> ('c \<times> bool) multiset \<Rightarrow> ('c \<times> bool) multiset" where
  "apply_change sel Keep m = m"
| "apply_change sel (Add c) m = add_mset (c, False) m"
| "apply_change sel (Drop P) m = filter_mset (\<lambda>x. \<not> P (fst x)) m"
| "apply_change sel (Replace P c) m = image_mset (\<lambda>x. (if P (fst x) then c else fst x, snd x)) m"
| "apply_change sel (Reload cs) m = mset (marks_from sel 0 cs)"

definition concerns :: "('c, 'd, 's) world \<Rightarrow> 'd option \<Rightarrow> jstr option \<Rightarrow> bool" where
  "concerns w shown data \<longleftrightarrow>
     (\<forall>d\<in>set_option shown. \<forall>u\<in>set_option data. u = [] \<or> dir_uid w d = u)"

definition change_of ::
    "('c, 'd, 's) world \<Rightarrow> 'd option \<Rightarrow> ('c, 'd) subject \<Rightarrow> topic \<Rightarrow> jstr option \<Rightarrow> js_error + 'c change" where
  "change_of w shown subj t data =
     (if t = PrefChanged \<or> \<not> concerns w shown data then Inr Keep
      else
        let named = Option.bind data (get_directory_from_uid w);
            replace = (\<lambda>c. Inr (Replace (same_card w c) c));
            add = (\<lambda>c. Inr (Add c));
            drp = (\<lambda>c. Inr (Drop (same_card w c)))
        in if t = DirectoryInvalidated then
             bindE (as_directory subj) (\<lambda>d. Inr (if shown = Some d then Reload (child_cards w d) else Keep))
           else if t = ContactCreated then bindE (as_card subj) add
           else if t = ContactUpdated then bindE (as_card subj) replace
           else if t = ContactDeleted then bindE (as_card subj) drp
           else if t = ListCreated then bindE (list_card w named subj) add
           else if t = ListUpdated then
             bindE (list_card w (if shown = None then named else shown) subj) replace
           else if t = ListDeleted then
             bindE (as_directory subj) (\<lambda>l. Inr (Drop (\<lambda>x. uid_of (cards w) x = dir_uid w l)))
           else if shown = None then Inr Keep
           else if t = ListMemberAdded then bindE (as_card subj) add
           else bindE (as_card subj) drp)"

text \<open>Every operation on the rows is the change it stands for.\<close>

lemma marks_insert_card:
  assumes "selection_laws w" and "tree v"
  shows "mset (marks w (insert_card w c v)) = apply_change (selected_at w v) (Add c) (mset (marks w v))"
proof -
  obtain t r where t: "get_text w (name_format v) (sort_column v) (ab_view_card w c None) = (t, r)"
    by fastforce
  obtain k rs where k: "add_index w (name_format v) (sort_column v) (sort_direction v) t (rows v) = (k, rs)"
    by fastforce
  define i where "i = (case k of Some i \<Rightarrow> i | None \<Rightarrow> length (rows v))"
  have i: "i \<le> length (rows v)" and cards: "map card rs = map card (rows v)"
    using add_index_cards [OF k] by (auto simp: i_def split: option.splits)
  have "card r = card (ab_view_card w c None)"
    using get_text_row(1) t by (metis snd_conv)
  then have r: "card r = c"
    by (simp add: ab_view_card_def)
  let ?v = "row_count_changed w i 1 (v\<lparr>rows := splice_in i r rs\<rparr>)"
  have "marks w (insert_card w c v) = marks w ?v"
    by (simp add: insert_card_def t k i_def [symmetric] Let_def marks_def selected_at_def [abs_def])
  also have "\<dots> = take i (marks w v) @ (c, False) # drop i (marks w v)"
    using marks_insert [OF assms i cards, of r] by (simp add: r)
  finally have m: "marks w (insert_card w c v) = take i (marks w v) @ (c, False) # drop i (marks w v)" .
  have "mset (take i xs @ x # drop i xs) = add_mset x (mset xs)" for x and xs :: "('a \<times> bool) list"
    by (metis append_take_drop_id mset_append mset.simps(2) union_mset_add_mset_right)
  then show ?thesis by (simp only: m apply_change.simps)
qed

lemma marks_remove_cards:
  assumes "selection_laws w" and "tree v"
  shows "mset (marks w (remove_cards w P v)) = apply_change (selected_at w v) (Drop P) (mset (marks w v))"
proof -
  have "marks w (remove_cards w P v) = marks w (delete_rows w P (length (rows v)) v)"
    by (simp add: remove_cards_def marks_def selected_at_def [abs_def])
  also have "\<dots> = filter (\<lambda>m. \<not> P (fst m)) (marks w v)"
    using marks_delete_rows [OF assms, of "length (rows v)" P] by simp
  finally show ?thesis by (simp add: mset_filter)
qed

lemma marks_map_cards:
  "marks_from f i (map g cs) = map (\<lambda>x. (g (fst x), snd x)) (marks_from f i cs)"
  by (induction cs arbitrary: i) auto

lemma marks_update_cards:
  assumes "selection_laws w"
  shows "mset (marks w (update_cards w P c v)) =
           apply_change (selected_at w v) (Replace P c) (mset (marks w v))"
proof -
  let ?new = "\<lambda>r. if P (card r) then ab_view_card w c None else r"
  let ?v = "v\<lparr>rows := map ?new (rows v)\<rparr>"
  have "card (?new r) = (if P (card r) then c else card r)" for r
    by (simp add: ab_view_card_def)
  then have cards: "map card (rows ?v) = map (\<lambda>x. if P x then c else x) (map card (rows v))"
    by (simp add: comp_def)
  have sel: "selected_at w ?v = selected_at w v"
    by (simp add: selected_at_def [abs_def])
  have "marks w ?v = map (\<lambda>x. (if P (fst x) then c else fst x, snd x)) (marks w v)"
    unfolding marks_def cards sel by (rule marks_map_cards)
  then have m: "mset (marks w ?v) = apply_change (selected_at w v) (Replace P c) (mset (marks w v))"
    by simp
  show ?thesis
    by (simp only: update_cards_def Let_def marks_sort_by [OF assms] m split: if_split) simp
qed

lemma marks_reload_cards:
  assumes "selection_laws w"
  shows "mset (marks w (reload_cards w d v)) =
           apply_change (selected_at w v) (Reload (child_cards w d)) (mset (marks w v))"
proof -
  let ?v = "v\<lparr>rows := map (\<lambda>c. ab_view_card w c (Some d)) (child_cards w d)\<rparr>"
  have "marks w (reload_cards w d v) = marks w (sort_by w (sort_column v) (sort_direction v) True ?v)"
    by (simp add: reload_cards_def marks_def selected_at_def [abs_def] Let_def)
  moreover have "marks w ?v = marks_from (selected_at w v) 0 (child_cards w d)"
    by (simp add: marks_def selected_at_def [abs_def] comp_def ab_view_card_def)
  ultimately show ?thesis by (simp add: marks_sort_by [OF assms])
qed

lemma marks_name_format_changed:
  assumes "selection_laws w"
  shows "mset (marks w (name_format_changed w v)) = mset (marks w v)"
proof -
  have "marks w (v\<lparr>name_format := n, rows := map (\<lambda>r. r\<lparr>text_cache := f r\<rparr>) (rows v)\<rparr>) = marks w v" for n f
    by (simp add: marks_def selected_at_def [abs_def] comp_def)
  moreover have "marks w (call_tree k v) = marks w v" for k and v :: "('a, 'b, 'c) ab_view"
    by (simp add: marks_def selected_at_def [abs_def])
  ultimately show ?thesis
    by (simp add: name_format_changed_def Let_def marks_sort_by [OF assms])
qed

lemma concerns_iff:
  "concerns w (directory v) data \<longleftrightarrow>
     \<not> (\<exists>d x xs. directory v = Some d \<and> data = Some (x # xs) \<and> dir_uid w d \<noteq> x # xs)"
  unfolding concerns_def by (cases "directory v"; cases data; cases "the data") auto

lemma marks_observe:
  assumes "selection_laws w" and "tree v"
  shows "map_sum id (\<lambda>v'. mset (marks w v')) (observe w subj t data v) =
         map_sum id (\<lambda>ch. apply_change (selected_at w v) ch (mset (marks w v)))
           (change_of w (directory v) subj t data)"
proof -
  have bind: "map_sum id f (bindE m (\<lambda>x. Inr (g x))) = map_sum id h (bindE m (\<lambda>x. Inr (k x)))"
    if "\<And>x. f (g x) = h (k x)" for f g h k and m :: "js_error + 'x"
    using that by (cases m) auto
  note ops = marks_insert_card [OF assms] marks_remove_cards [OF assms]
    marks_update_cards [OF assms(1)] marks_reload_cards [OF assms(1)]
    marks_name_format_changed [OF assms(1)]
  have shown: "(case directory v of None \<Rightarrow> n | Some d \<Rightarrow> Some d) = (if directory v = None then n else directory v)" for n
    by (cases "directory v") auto
  show ?thesis
    unfolding observe_def change_of_def Let_def concerns_iff
    by (cases t) (auto simp: ops shown intro!: bind split: if_split)
qed

section \<open>Lemmas: order\<close>

abbreviation directions :: "jstr set" where
  "directions \<equiv> {js ''ascending'', js ''descending''}"

definition view_ok :: "('c, 'd, 's) world \<Rightarrow> ('c, 'd, 's) ab_view \<Rightarrow> bool" where
  "view_ok w v \<longleftrightarrow>
     (\<forall>r\<in>set (rows v). true_cache w (name_format v) r) \<and>
     ordered_by (row_order w (name_format v) (sort_column v) (sort_direction v)) (rows v) \<and>
     sort_direction v \<in> directions"

lemma row_order_get_text [simp]:
  "row_order w fmt col d (snd (get_text w fmt c a)) (snd (get_text w fmt c b)) = row_order w fmt col d a b"
  by (simp add: row_order_def)

lemma row_order_flags [simp]:
  "row_order w fmt col d (a\<lparr>was_selected := x, was_current := y\<rparr>) b = row_order w fmt col d a b"
  "row_order w fmt col d b (a\<lparr>was_selected := x, was_current := y\<rparr>) = row_order w fmt col d b a"
  by (simp_all add: row_order_def)

lemma ordered_sort_rows:
  assumes "collation (compare_text w)" and "\<forall>r\<in>set rs. true_cache w fmt r"
  shows "ordered_by (row_order w fmt col d) (sort_rows w fmt col d rs)"
proof (cases "length rs < 2")
  case True
  then have "rs = [] \<or> (\<exists>r. rs = [r])" by (cases rs) (auto simp: less_Suc_eq)
  with True show ?thesis by (auto simp: sort_rows_def)
next
  case False
  then show ?thesis
    using ordered_array_sort [OF collation_row_order [OF assms(1)]] by (simp add: sort_rows_eq [OF assms(2)])
qed

lemma true_cache_sort_rows:
  assumes "\<forall>r\<in>set rs. true_cache w fmt r"
  shows "\<forall>r\<in>set (sort_rows w fmt col d rs). true_cache w fmt r"
  using assms by (simp add: sort_rows_def)

lemma remember_from_ok:
  "(\<forall>r\<in>set rs. true_cache w' fmt r) \<Longrightarrow> \<forall>r\<in>set (remember_from w s i rs). true_cache w' fmt r"
  by (induction rs arbitrary: i) auto

lemma cell_text_remember:
  "map (\<lambda>r. cell_text w' fmt r col) (remember_from w s i rs) = map (\<lambda>r. cell_text w' fmt r col) rs"
  by (induction rs arbitrary: i) auto

lemma ordered_rows_iff:
  "ordered_by (row_order w fmt col d) rs \<longleftrightarrow>
     ordered_by (text_order w d) (map (\<lambda>r. cell_text w fmt r col) rs)"
  by (simp add: ordered_by_map row_order_def [abs_def])

lemma remember_selection_ok:
  assumes "\<forall>r\<in>set (rows v). true_cache w' fmt r"
  shows "\<forall>r\<in>set (rows (remember_selection w v)). true_cache w' fmt r"
  using remember_from_ok [OF assms] assms by (cases "selection v") (simp_all add: remember_selection_def)

lemma ordered_remember [simp]:
  "ordered_by (row_order w' fmt col d) (rows (remember_selection w v)) =
     ordered_by (row_order w' fmt col d) (rows v)"
  by (simp add: ordered_rows_iff remember_selection_def cell_text_remember split: option.splits)

lemma row_order_other_direction:
  "d \<in> directions \<Longrightarrow> d' \<in> directions \<Longrightarrow> d \<noteq> d' \<Longrightarrow>
     row_order w fmt col d' = (\<lambda>a b. row_order w fmt col d b a)"
  by (intro ext) (auto simp: row_order_def text_order_def)

lemma sort_by_ok:
  assumes "collation (compare_text w)" and "\<forall>r\<in>set (rows v). true_cache w (name_format v) r"
    and "d \<in> directions"
    and "col = sort_column v \<Longrightarrow> \<not> resort \<Longrightarrow> view_ok w v"
  shows "view_ok w (sort_by w col d resort v)"
proof -
  let ?v1 = "remember_selection w v"
  have cache: "\<forall>r\<in>set (rows ?v1). true_cache w (name_format v) r"
    by (rule remember_selection_ok [OF assms(2)])
  consider "col = sort_column v" "\<not> resort" "d = sort_direction v"
    | "col = sort_column v" "\<not> resort" "d \<noteq> sort_direction v"
    | "col \<noteq> sort_column v \<or> resort" by blast
  then show ?thesis
  proof cases
    case 1
    with assms(4) cache show ?thesis by (simp add: view_ok_def sort_by_def Let_def)
  next
    case 2
    then have ok: "view_ok w v" using assms(4) by simp
    then have "row_order w fmt col d = (\<lambda>a b. row_order w fmt col (sort_direction v) b a)" for fmt
      using 2 assms(3) by (intro row_order_other_direction) (auto simp: view_ok_def)
    with 2 ok cache assms(3) show ?thesis
      by (simp add: view_ok_def sort_by_def Let_def ordered_by_rev)
  next
    case 3
    then have "rows (sort_by w col d resort v) = sort_rows w (name_format v) col d (rows ?v1)"
      by (auto simp: sort_by_def Let_def)
    with assms(3) cache show ?thesis
      by (simp add: view_ok_def ordered_sort_rows [OF assms(1)] true_cache_sort_rows)
  qed
qed

text \<open>Insertion at the place that the loop finds.\<close>

definition goes_before :: "('c, 'd, 's) world \<Rightarrow> jstr \<Rightarrow> jstr \<Rightarrow> jstr \<Rightarrow> bool" where
  "goes_before w d t u \<longleftrightarrow>
     compare_text w t u < 0 \<and> d = js ''ascending'' \<or> compare_text w t u \<ge> 0 \<and> d = js ''descending''"

lemma add_index_place:
  assumes "\<forall>r\<in>set rs. true_cache w fmt r" and "add_index w fmt col d t rs = (k, rs')"
  shows "(case k of Some i \<Rightarrow> i | None \<Rightarrow> length rs) =
           length (takeWhile (\<lambda>r. \<not> goes_before w d t (cell_text w fmt r col)) rs) \<and>
         map (\<lambda>r. cell_text w fmt r col) rs' = map (\<lambda>r. cell_text w fmt r col) rs \<and>
         (\<forall>r\<in>set rs'. true_cache w fmt r)"
  using assms
proof (induction rs arbitrary: k rs')
  case (Cons r rs)
  obtain k1 rs1 where a: "add_index w fmt col d t rs = (k1, rs1)" by fastforce
  have u: "fst (get_text w fmt col r) = cell_text w fmt r col" using Cons.prems by (simp add: fst_get_text)
  have step: "add_index w fmt col d t (r # rs) =
      (if goes_before w d t (cell_text w fmt r col)
       then (Some 0, snd (get_text w fmt col r) # rs)
       else (map_option Suc k1, snd (get_text w fmt col r) # rs1))"
    by (simp add: a goes_before_def case_prod_beta Let_def u)
  show ?case
    using Cons.IH [OF _ a] Cons.prems(1) Cons.prems(2) [unfolded step]
    by (auto split: if_splits option.splits)
qed auto

lemma goes_before_order:
  assumes "collation (compare_text w)" and "d \<in> directions"
  shows "\<not> goes_before w d t u \<Longrightarrow> text_order w d u t \<le> 0"
    and "goes_before w d t u \<Longrightarrow> text_order w d t u \<le> 0"
  using assms(2) collation_flip_le [OF assms(1), of t u]
  by (cases "d = js ''descending''"; simp add: goes_before_def text_order_def)+

lemma insert_card_ok:
  assumes "collation (compare_text w)" and "view_ok w v"
  shows "view_ok w (insert_card w c v)"
proof -
  let ?fmt = "name_format v" and ?col = "sort_column v" and ?d = "sort_direction v"
  let ?text = "\<lambda>r. cell_text w ?fmt r ?col"
  obtain t r where t: "get_text w ?fmt ?col (ab_view_card w c None) = (t, r)" by fastforce
  obtain k rs where k: "add_index w ?fmt ?col ?d t (rows v) = (k, rs)" by fastforce
  define i where "i = (case k of Some i \<Rightarrow> i | None \<Rightarrow> length (rows v))"
  have d: "?d \<in> directions" and caches: "\<forall>r\<in>set (rows v). true_cache w ?fmt r"
    and ord: "ordered_by (text_order w ?d) (map ?text (rows v))"
    using assms(2) by (simp_all add: view_ok_def ordered_rows_iff)
  have "true_cache w ?fmt (snd (get_text w ?fmt ?col (ab_view_card w c None)))"
    by (simp add: true_cache_get_text)
  then have r: "true_cache w ?fmt r" and tr: "?text r = t"
    using fst_get_text [of w ?fmt "ab_view_card w c None" ?col]
      get_text_row(5) [of w ?fmt ?fmt ?col "ab_view_card w c None" ?col] by (simp_all add: t)
  let ?N = "\<lambda>u. \<not> goes_before w ?d t u"
  have i: "i = length (takeWhile ?N (map ?text (rows v)))"
    and texts: "map ?text rs = map ?text (rows v)" and rs: "\<forall>r\<in>set rs. true_cache w ?fmt r"
    using add_index_place [OF caches k] by (simp_all add: i_def takeWhile_map comp_def)
  have "map ?text (splice_in i r rs) = take i (map ?text (rows v)) @ t # drop i (map ?text (rows v))"
    by (simp add: splice_in_def tr texts flip: take_map drop_map)
  also have "\<dots> = takeWhile ?N (map ?text (rows v)) @ t # dropWhile ?N (map ?text (rows v))"
    by (simp only: i takeWhile_eq_take [symmetric] dropWhile_eq_drop [symmetric])
  finally have "ordered_by (text_order w ?d) (map ?text (splice_in i r rs))"
    using ordered_at_boundary [OF collation_text_order [OF assms(1)] ord, of ?N t]
      goes_before_order [OF assms(1) d] by simp
  moreover have "\<forall>x\<in>set (splice_in i r rs). true_cache w ?fmt x"
    using rs r by (auto simp: splice_in_def dest: in_set_takeD in_set_dropD)
  ultimately show ?thesis
    using d by (simp add: view_ok_def insert_card_def t k i_def [symmetric] ordered_rows_iff Let_def)
qed

lemma remove_cards_ok:
  assumes "view_ok w v"
  shows "view_ok w (remove_cards w P v)"
proof -
  have "rows (remove_cards w P v) = filter (\<lambda>r. \<not> P (card r)) (rows v)"
    using rows_delete_rows [of "length (rows v)" v w P] by (simp add: remove_cards_def)
  then show ?thesis
    using assms by (simp add: view_ok_def remove_cards_def ordered_by_filter)
qed

lemma update_cards_ok:
  assumes "collation (compare_text w)" and "view_ok w v"
  shows "view_ok w (update_cards w P c v)"
proof (cases "\<exists>r\<in>set (rows v). P (card r)")
  case True
  let ?v = "v\<lparr>rows := map (\<lambda>r. if P (card r) then ab_view_card w c None else r) (rows v)\<rparr>"
  have "\<forall>r\<in>set (rows ?v). true_cache w (name_format ?v) r" and "sort_direction v \<in> directions"
    using assms(2) by (auto simp: view_ok_def)
  then have "view_ok w (sort_by w (sort_column v) (sort_direction v) True ?v)"
    by (intro sort_by_ok [OF assms(1)]) simp_all
  with True show ?thesis by (simp add: update_cards_def)
next
  case False
  then have "map (\<lambda>r. if P (card r) then ab_view_card w c None else r) (rows v) = rows v"
    by (intro map_idI) auto
  with False assms(2) show ?thesis by (auto simp: update_cards_def Let_def)
qed

lemma reload_cards_ok:
  assumes "collation (compare_text w)" and "sort_direction v \<in> directions"
  shows "view_ok w (reload_cards w d v)"
proof -
  let ?v = "v\<lparr>rows := map (\<lambda>c. ab_view_card w c (Some d)) (child_cards w d)\<rparr>"
  have "view_ok w (sort_by w (sort_column v) (sort_direction v) True ?v)"
    using assms by (intro sort_by_ok) simp_all
  then show ?thesis by (simp add: reload_cards_def view_ok_def)
qed

lemma name_format_changed_ok:
  assumes "collation (compare_text w)" and "view_ok w v" and "tree v"
  shows "view_ok w (name_format_changed w v)"
proof -
  let ?gn = "js ''GeneratedName''"
  let ?rs = "map (\<lambda>r. r\<lparr>text_cache := AList.delete ?gn (text_cache r)\<rparr>) (rows v)"
  let ?v = "v\<lparr>name_format := last_name_first_pref w, rows := ?rs\<rparr>"
  have "true_cache w (last_name_first_pref w) (r\<lparr>text_cache := AList.delete ?gn (text_cache r)\<rparr>)"
    if "r \<in> set (rows v)" for r
    using that assms(2) by (intro true_cache_delete [of w "name_format v"] cell_text_format)
      (simp_all add: view_ok_def)
  then have caches: "\<forall>r\<in>set (rows ?v). true_cache w (name_format ?v) r"
    by simp
  show ?thesis
  proof (cases "sort_column v = ?gn")
    case True
    have "view_ok w (sort_by w (sort_column ?v) (sort_direction ?v) True ?v)"
      using assms(2) caches by (intro sort_by_ok [OF assms(1)]) (auto simp: view_ok_def)
    with True assms(3) show ?thesis by (simp add: name_format_changed_def Let_def)
  next
    case False
    have texts: "map (\<lambda>r. cell_text w (last_name_first_pref w) r (sort_column v)) ?rs
        = map (\<lambda>r. cell_text w (name_format v) r (sort_column v)) (rows v)"
      using cell_text_format [OF False, of w "last_name_first_pref w" _ "name_format v"]
      by (simp add: comp_def)
    have "ordered_by (text_order w (sort_direction v))
        (map (\<lambda>r. cell_text w (last_name_first_pref w) r (sort_column v)) ?rs)"
      unfolding texts using assms(2) by (simp add: view_ok_def ordered_rows_iff)
    with False assms caches show ?thesis
      by (simp add: name_format_changed_def Let_def view_ok_def ordered_rows_iff)
  qed
qed

lemma observe_ok:
  assumes "collation (compare_text w)" and "view_ok w v" and "tree v"
    and "observe w subj t data v = Inr v'"
  shows "view_ok w v'"
proof -
  have dir: "sort_direction v \<in> directions" using assms(2) by (simp add: view_ok_def)
  have ok: "view_ok w v'" if "bindE m (\<lambda>x. Inr (f x)) = Inr v'" "\<And>x. view_ok w (f x)"
    for m :: "js_error + 'x" and f
    using that by (auto simp: bindE_Inr_iff)
  note ops = insert_card_ok [OF assms(1,2)] remove_cards_ok [OF assms(2)]
    update_cards_ok [OF assms(1,2)] reload_cards_ok [OF assms(1) dir]
    name_format_changed_ok [OF assms(1-3)]
  show ?thesis
    using assms(2,4) unfolding observe_def Let_def
    by (cases t) (auto simp: ops split: if_splits elim!: ok)
qed

lemma tree_operations [simp]:
  "tree (insert_card w c v) = tree v" "tree (remove_cards w P v) = tree v"
  "tree (update_cards w P c v) = tree v" "tree (reload_cards w d v) = tree v"
  "tree (name_format_changed w v) = tree v"
  by (simp_all add: insert_card_def remove_cards_def update_cards_def reload_cards_def
      name_format_changed_def Let_def split: prod.splits)

lemma directory_operations [simp]:
  "directory (insert_card w c v) = directory v" "directory (remove_cards w P v) = directory v"
  "directory (update_cards w P c v) = directory v" "directory (reload_cards w d v) = directory v"
  "directory (name_format_changed w v) = directory v"
  by (simp_all add: insert_card_def remove_cards_def update_cards_def reload_cards_def
      name_format_changed_def Let_def split: prod.splits)

lemma observe_keeps:
  assumes "observe w subj t data v = Inr v'"
  shows "tree v' = tree v \<and> directory v' = directory v"
proof -
  have keep: "tree v' = tree v \<and> directory v' = directory v"
    if "bindE m (\<lambda>x. Inr (f x)) = Inr v'" "\<And>x. tree (f x) = tree v \<and> directory (f x) = directory v"
    for m :: "js_error + 'x" and f
    using that by (auto simp: bindE_Inr_iff)
  show ?thesis
    using assms unfolding observe_def Let_def
    by (cases t) (auto split: if_splits elim!: keep)
qed

section \<open>Properties\<close>

definition same_texts :: "('c, 'd, 's) world \<Rightarrow> ('c, 'd, 's) world \<Rightarrow> bool" where
  "same_texts w w' \<longleftrightarrow>
     compare_text w' = compare_text w \<and>
     (\<forall>fmt r col. cell_text w' fmt r col = cell_text w fmt r col)"

lemma same_texts_refl [simp]: "same_texts w w"
  by (simp add: same_texts_def)

lemma view_ok_same_texts: "same_texts w w' \<Longrightarrow> view_ok w' v = view_ok w v"
proof -
  assume "same_texts w w'"
  then have c: "compare_text w' = compare_text w" and t: "cell_text w' = cell_text w"
    by (auto simp: same_texts_def intro!: ext)
  have "row_order w' = row_order w"
    by (intro ext) (simp add: row_order_def text_order_def c t)
  moreover have "true_cache w' = true_cache w"
    by (intro ext) (simp add: true_cache_def t)
  ultimately show ?thesis by (simp add: view_ok_def)
qed

definition sorts_properly :: "('c, 'd) view_event \<Rightarrow> bool" where
  "sorts_properly e = (case e of Notified subj t data \<Rightarrow> True | Sorted col d resort \<Rightarrow> d \<in> directions)"

lemma view_event_ok:
  assumes "collation (compare_text w)" and "view_ok w v" and "tree v" and "sorts_properly e"
  shows "view_ok w (view_event (w, e) v) \<and> tree (view_event (w, e) v)"
proof (cases e)
  case (Notified subj t data)
  then show ?thesis
    using assms observe_ok [OF assms(1-3)]
    by (cases "observe w subj t data v") (auto simp: view_event_def dest: observe_keeps)
next
  case (Sorted col d resort)
  have "view_ok w (sort_by w col d resort v)"
    using assms Sorted by (intro sort_by_ok) (simp_all add: sorts_properly_def view_ok_def)
  with Sorted assms(3) show ?thesis by (simp add: view_event_def)
qed

lemma insert_card_caches:
  assumes "\<forall>r\<in>set (rows v). true_cache w (name_format v) r"
  shows "\<forall>r\<in>set (rows (insert_card w c v)). true_cache w (name_format v) r"
proof -
  obtain t r where t: "get_text w (name_format v) (sort_column v) (ab_view_card w c None) = (t, r)"
    by fastforce
  obtain k rs where k: "add_index w (name_format v) (sort_column v) (sort_direction v) t (rows v) = (k, rs)"
    by fastforce
  have "true_cache w (name_format v) (snd (get_text w (name_format v) (sort_column v) (ab_view_card w c None)))"
    by (simp add: true_cache_get_text)
  with add_index_place [OF assms k] show ?thesis
    by (auto simp: insert_card_def t k splice_in_def Let_def dest: in_set_takeD in_set_dropD)
qed

lemma insert_card_keeps [simp]:
  "name_format (insert_card w c v) = name_format v" "sort_column (insert_card w c v) = sort_column v"
  by (simp_all add: insert_card_def Let_def split: prod.splits)

lemma on_search_found_card_eq: "on_search_found_card w c v = Inr (insert_card w c v)"
proof -
  have "\<not> (\<exists>d x xs. directory v = Some d \<and> map_option (dir_uid w) (directory v) = Some (x # xs) \<and> dir_uid w d \<noteq> x # xs)"
    by auto
  then show ?thesis by (auto simp: on_search_found_card_def observe_def)
qed

lemma on_search_found_cards_ok:
  assumes "\<forall>r\<in>set (rows v). true_cache w (name_format v) r"
  shows "\<exists>v'. on_search_found_cards w cs v = Inr v' \<and> name_format v' = name_format v \<and>
           sort_column v' = sort_column v \<and> (\<forall>r\<in>set (rows v'). true_cache w (name_format v) r)"
  using assms
proof (induction cs arbitrary: v)
  case (Cons c cs)
  show ?case
    using Cons.IH [of "insert_card w c v"] insert_card_caches [OF Cons.prems, of c]
    by (simp add: on_search_found_card_eq)
qed simp

lemma new_ab_view_ok:
  assumes "collation (compare_text w)" and "col \<noteq> []" and "d \<in> directions"
  shows "\<exists>v. new_ab_view w fmt dir query lis col d = Inr v \<and> view_ok w v"
proof -
  let ?v = "\<lparr>directory = dir, listener = lis, rows = [], selection = None, tree = False,
      sort_column = [], sort_direction = [], name_format = fmt, calls = []\<rparr>"
  have search: "\<exists>v'. on_search_found_cards w cs ?v = Inr v' \<and> name_format v' = fmt \<and> sort_column v' = [] \<and>
      (\<forall>r\<in>set (rows v'). true_cache w fmt r)" for cs
    using on_search_found_cards_ok [of ?v w cs] by simp
  have sorted: "view_ok w (sort_by w col d False v')"
    if "sort_column v' = []" "\<forall>r\<in>set (rows v'). true_cache w (name_format v') r" for v'
    using that assms by (intro sort_by_ok) simp_all
  show ?thesis
  proof (cases "query = []")
    case True
    then show ?thesis by (simp add: new_ab_view_def Let_def sorted)
  next
    case False
    let ?dirs = "case dir of None \<Rightarrow> directories w | Some x \<Rightarrow> [x]"
    obtain v' where "on_search_found_cards w (concat (map (\<lambda>x. search_results w x
          (dropWhile (\<lambda>c. c = ord CHR ''?'') query)) ?dirs)) ?v = Inr v'"
        "name_format v' = fmt" "sort_column v' = []" "\<forall>r\<in>set (rows v'). true_cache w fmt r"
      using search by blast
    with False show ?thesis by (simp add: new_ab_view_def Let_def sorted)
  qed
qed

lemma view_ok_shown: "view_ok w ((view_set_tree t v)\<lparr>selection := s\<rparr>) = view_ok w v"
  by (simp add: view_ok_def view_set_tree_def)

lemma run_view_ok:
  assumes "collation (compare_text w)" and "view_ok w v" and "tree v"
    and "\<forall>(w', e)\<in>set evs. same_texts w w' \<and> sorts_properly e"
  shows "view_ok w (run_view evs v)"
proof -
  have "view_ok w (run_view evs v) \<and> tree (run_view evs v)"
    using assms(2-)
  proof (induction evs arbitrary: v)
    case (Cons x evs)
    obtain w' e where x: "x = (w', e)" by fastforce
    with Cons.prems(3) have same: "same_texts w w'" and e: "sorts_properly e" by auto
    from same assms(1) have coll: "collation (compare_text w')" by (simp add: same_texts_def)
    have "view_ok w (view_event x v) \<and> tree (view_event x v)"
      using view_event_ok [OF coll _ Cons.prems(2) e] Cons.prems(1)
      by (simp add: x view_ok_same_texts [OF same])
    with Cons show ?case by (simp add: run_view_def)
  qed (simp add: run_view_def)
  then show ?thesis by blast
qed

text \<open>C29: the list of cards is always sorted: a view can always be opened, with a search or
  without, and then, whatever notifications come, in whatever order, and however the user sorts,
  the rows are in the order of the texts of the sort column, in the sort direction, and every
  text that is cached is the text that would be made now; in particular a new row is put at its
  place.  The collator is assumed to be consistent and transitive, and the texts of the cards
  not to change other than by a notification of the name format.\<close>

theorem view_stays_sorted:
  assumes "collation (compare_text w)" and "col \<noteq> []" and "d \<in> directions"
    and "\<forall>(w', e)\<in>set evs. same_texts w w' \<and> sorts_properly e"
  shows "\<exists>v. new_ab_view w fmt dir query lis col d = Inr v \<and>
           view_ok w (run_view evs ((view_set_tree True v)\<lparr>selection := s\<rparr>))"
proof -
  obtain v where v: "new_ab_view w fmt dir query lis col d = Inr v" "view_ok w v"
    using new_ab_view_ok [OF assms(1-3)] by blast
  have "view_ok w (run_view evs ((view_set_tree True v)\<lparr>selection := s\<rparr>))"
    by (rule run_view_ok [OF assms(1) _ _ assms(4)])
      (use v(2) in \<open>simp_all only: view_ok_shown, simp add: view_set_tree_def\<close>)
  with v(1) show ?thesis by blast
qed


lemma view_event_marks:
  assumes "selection_laws w" and "tree v"
  shows "mset (marks w (view_event (w, e) v)) =
    (case e of
       Sorted col d resort \<Rightarrow> mset (marks w v)
     | Notified subj t data \<Rightarrow>
         (case change_of w (directory v) subj t data of
            Inl x \<Rightarrow> mset (marks w v)
          | Inr ch \<Rightarrow> apply_change (selected_at w v) ch (mset (marks w v))))"
proof (cases e)
  case (Notified subj t data)
  have "map_sum id (\<lambda>v'. mset (marks w v')) (observe w subj t data v) =
         map_sum id (\<lambda>ch. apply_change (selected_at w v) ch (mset (marks w v)))
           (change_of w (directory v) subj t data)"
    by (rule marks_observe [OF assms])
  with Notified show ?thesis
    by (cases "observe w subj t data v"; cases "change_of w (directory v) subj t data")
      (simp_all add: view_event_def)
next
  case (Sorted col d resort)
  then show ?thesis by (simp add: view_event_def marks_sort_by [OF assms(1)])
qed

text \<open>C30: the list of cards does what the notification says and nothing else, and the selection
  stays on the cards it was on: taken as a multiset of cards with their marks of selection, the
  view after an event is the view before it, with the new card added, not selected, or the
  deleted cards taken out, or the card put in the place of its old version, with the mark that
  had; sorting and a change of the name format change nothing.  After a reload of the directory
  the marks stay on the numbers of the rows, whatever cards come there.\<close>

theorem view_follows_notifications:
  assumes "selection_laws w" and "tree v"
  shows "mset (marks w (view_event (w, e) v)) =
    (case e of
       Sorted col d resort \<Rightarrow> mset (marks w v)
     | Notified subj t data \<Rightarrow>
         (case change_of w (directory v) subj t data of
            Inl x \<Rightarrow> mset (marks w v)
          | Inr ch \<Rightarrow> apply_change (selected_at w v) ch (mset (marks w v))))"
  by (rule view_event_marks [OF assms])

subsection \<open>A view and the directory it shows\<close>

text \<open>
  What can happen to the cards \<open>B\<close> of the directory \<open>d\<close>, with the notification that tells of
  it, and what happens elsewhere or in the view alone.  The world \<open>w\<close> is the one after the
  change.
\<close>

inductive book_step ::
    "('c, 'd, 's) world \<Rightarrow> 'd \<Rightarrow> 'c list \<Rightarrow> ('c, 'd) view_event \<Rightarrow> 'c list \<Rightarrow> bool"
  for w :: "('c, 'd, 's) world" and d :: 'd
where
  Contact_created:
    "mset B' = add_mset c (mset B) \<Longrightarrow>
     book_step w d B (Notified (SubjectCard c) ContactCreated (Some (dir_uid w d))) B'"
| Contact_updated:
    "mset B' = mset (map (\<lambda>x. if same_card w c x then c else x) B) \<Longrightarrow>
     book_step w d B (Notified (SubjectCard c) ContactUpdated (Some (dir_uid w d))) B'"
| Contact_deleted:
    "mset B' = mset (filter (\<lambda>x. \<not> same_card w c x) B) \<Longrightarrow>
     book_step w d B (Notified (SubjectCard c) ContactDeleted (Some (dir_uid w d))) B'"
| List_created:
    "mset B' = add_mset c (mset B) \<Longrightarrow> uid_of (cards w) c = dir_uid w l \<Longrightarrow>
     \<forall>x\<in>set B. uid_of (cards w) x \<noteq> dir_uid w l \<Longrightarrow>
     get_directory_from_uid w (dir_uid w d) = Some d \<Longrightarrow>
     book_step w d B (Notified (SubjectDirectory l) ListCreated (Some (dir_uid w d))) B'"
| List_updated:
    "mset B' = mset (map (\<lambda>x. if same_card w c x then c else x) B) \<Longrightarrow>
     c \<in> set B' \<Longrightarrow> uid_of (cards w) c = dir_uid w l \<Longrightarrow>
     \<forall>x\<in>set B'. uid_of (cards w) x = dir_uid w l \<longrightarrow> x = c \<Longrightarrow>
     book_step w d B (Notified (SubjectDirectory l) ListUpdated (Some (dir_uid w d))) B'"
| List_deleted:
    "mset B' = mset (filter (\<lambda>x. uid_of (cards w) x \<noteq> dir_uid w l) B) \<Longrightarrow>
     book_step w d B (Notified (SubjectDirectory l) ListDeleted (Some (dir_uid w d))) B'"
| Invalidated:
    "book_step w d B (Notified (SubjectDirectory d) DirectoryInvalidated None) B'"
| Elsewhere:
    "u \<noteq> [] \<Longrightarrow> u \<noteq> dir_uid w d \<Longrightarrow> book_step w d B (Notified subj t (Some u)) B"
| Name_format:
    "book_step w d B (Notified subj PrefChanged data) B"
| User_sorts:
    "book_step w d B (Sorted col dir resort) B"

fun book_run ::
    "'d \<Rightarrow> 'c list \<Rightarrow> (('c, 'd, 's) world \<times> ('c, 'd) view_event) list \<Rightarrow> 'c list \<Rightarrow> bool" where
  "book_run d B [] B' \<longleftrightarrow> B' = B"
| "book_run d B ((w, e) # evs) B' \<longleftrightarrow>
     selection_laws w \<and> book_step w d B e (child_cards w d) \<and> book_run d (child_cards w d) evs B'"

lemma find_unique:
  "x \<in> set xs \<Longrightarrow> P x \<Longrightarrow> (\<And>y. y \<in> set xs \<Longrightarrow> P y \<Longrightarrow> y = x) \<Longrightarrow> find P xs = Some x"
proof (cases "find P xs")
  case None
  assume "x \<in> set xs" and "P x"
  with None show ?thesis by (simp add: find_None_iff)
next
  case (Some z)
  assume only: "\<And>y. y \<in> set xs \<Longrightarrow> P y \<Longrightarrow> y = x"
  from Some have "z \<in> set xs" and "P z" by (auto simp: find_Some_iff)
  then have "z = x" by (rule only)
  with Some show ?thesis by simp
qed

lemma fst_apply_change:
  "image_mset fst (apply_change sel ch m) =
     (case ch of
        Keep \<Rightarrow> image_mset fst m
      | Add c \<Rightarrow> add_mset c (image_mset fst m)
      | Drop P \<Rightarrow> filter_mset (\<lambda>x. \<not> P x) (image_mset fst m)
      | Replace P c \<Rightarrow> image_mset (\<lambda>x. if P x then c else x) (image_mset fst m)
      | Reload cs \<Rightarrow> mset cs)"
  by (cases ch) (simp_all add: filter_mset_image_mset image_mset.compositionality comp_def
      flip: mset_map)

lemma view_event_cards:
  assumes "selection_laws w" and "tree v"
  shows "mset (map card (rows (view_event (w, e) v))) =
    (case e of
       Sorted col d resort \<Rightarrow> mset (map card (rows v))
     | Notified subj t data \<Rightarrow>
         (case change_of w (directory v) subj t data of
            Inl x \<Rightarrow> mset (map card (rows v))
          | Inr ch \<Rightarrow> image_mset fst (apply_change (selected_at w v) ch (mset (marks w v)))))"
  using arg_cong [OF view_event_marks [OF assms, of e], of "image_mset fst"]
  by (simp flip: mset_map split: view_event.split sum.split) 


text \<open>What each notification of the directory asks of the view that shows it.\<close>

lemma change_of_own:
  "change_of w (Some d) (SubjectCard c) ContactCreated (Some (dir_uid w d)) = Inr (Add c)"
  "change_of w (Some d) (SubjectCard c) ContactUpdated (Some (dir_uid w d)) = Inr (Replace (same_card w c) c)"
  "change_of w (Some d) (SubjectCard c) ContactDeleted (Some (dir_uid w d)) = Inr (Drop (same_card w c))"
  "change_of w (Some d) (SubjectDirectory l) ListDeleted (Some (dir_uid w d)) =
     Inr (Drop (\<lambda>x. uid_of (cards w) x = dir_uid w l))"
  "change_of w (Some d) (SubjectDirectory d) DirectoryInvalidated None = Inr (Reload (child_cards w d))"
  "u \<noteq> [] \<Longrightarrow> u \<noteq> dir_uid w d \<Longrightarrow> change_of w (Some d) subj t (Some u) = Inr Keep"
  "change_of w (Some d) subj PrefChanged data = Inr Keep"
  by (auto simp: change_of_def concerns_def)

lemma list_card_found:
  assumes "c \<in> set (child_cards w d)" and "uid_of (cards w) c = dir_uid w l"
    and "\<forall>x\<in>set (child_cards w d). uid_of (cards w) x = dir_uid w l \<longrightarrow> x = c"
  shows "list_card w (Some d) (SubjectDirectory l) = Inr c"
proof -
  have "find (\<lambda>x. uid_of (cards w) x = dir_uid w l) (child_cards w d) = Some c"
    by (rule find_unique [OF assms(1)]) (use assms(2,3) in auto)
  then show ?thesis by (simp add: list_card_def)
qed

lemma change_of_list:
  assumes "list_card w (Some d) (SubjectDirectory l) = Inr c"
  shows "get_directory_from_uid w (dir_uid w d) = Some d \<Longrightarrow>
      change_of w (Some d) (SubjectDirectory l) ListCreated (Some (dir_uid w d)) = Inr (Add c)"
    and "change_of w (Some d) (SubjectDirectory l) ListUpdated (Some (dir_uid w d)) =
      Inr (Replace (same_card w c) c)"
  using assms by (simp_all add: change_of_def concerns_def)

lemma book_step_change:
  assumes "book_step w d B (Notified subj t data) (child_cards w d)"
  shows "\<exists>ch. change_of w (Some d) subj t data = Inr ch \<and>
    (\<forall>m sel. image_mset fst m = mset B \<longrightarrow>
      image_mset fst (apply_change sel ch m) = mset (child_cards w d))"
  using assms
proof (cases rule: book_step.cases)
  case (List_created c l)
  have c: "list_card w (Some d) (SubjectDirectory l) = Inr c"
  proof (rule list_card_found)
    have set: "set (child_cards w d) = insert c (set B)"
      using arg_cong [OF List_created(4), of set_mset] by simp
    then show "c \<in> set (child_cards w d)" by simp
    show "\<forall>x\<in>set (child_cards w d). uid_of (cards w) x = dir_uid w l \<longrightarrow> x = c"
      using List_created set by auto
  qed (use List_created in simp)
  from change_of_list(1) [OF c] List_created show ?thesis by (simp add: fst_apply_change)
next
  case (List_updated c l)
  have "list_card w (Some d) (SubjectDirectory l) = Inr c"
    by (rule list_card_found [OF List_updated(5,6,7)])
  from change_of_list(2) [OF this] List_updated(1-4) show ?thesis
    by (simp add: fst_apply_change)
qed (simp_all add: change_of_own fst_apply_change mset_filter)

lemma view_event_keeps: "tree (view_event (w, e) v) = tree v \<and> directory (view_event (w, e) v) = directory v"
  by (auto simp: view_event_def split: view_event.split sum.split dest: observe_keeps)

lemma book_step_cards:
  assumes "selection_laws w" and "tree v" and "directory v = Some d"
    and "mset (map card (rows v)) = mset B" and "book_step w d B e (child_cards w d)"
  shows "mset (map card (rows (view_event (w, e) v))) = mset (child_cards w d)"
proof (cases e)
  case (Notified subj t data)
  have "image_mset fst (mset (marks w v)) = mset B"
    using assms(4) by (metis fst_marks mset_map)
  moreover obtain ch where "change_of w (Some d) subj t data = Inr ch"
    "\<forall>m sel. image_mset fst m = mset B \<longrightarrow> image_mset fst (apply_change sel ch m) = mset (child_cards w d)"
    using book_step_change [OF assms(5) [unfolded Notified]] by blast
  ultimately show ?thesis
    using Notified assms(3) by (simp add: view_event_cards [OF assms(1,2)] del: mset_map)
next
  case (Sorted col dir resort)
  with assms(5) have "child_cards w d = B" by (auto elim: book_step.cases)
  with Sorted assms(4) show ?thesis by (simp add: view_event_cards [OF assms(1,2)] del: mset_map)
qed

text \<open>C28: a view shows its directory: as long as every change of the cards of the directory is
  told to the view, a contact or a list that is created, changed or deleted, or the directory as
  a whole, the rows are at every moment the cards of the directory, each as often as it is
  there, whatever else is notified or sorted in between.\<close>

theorem view_shows_directory:
  assumes "directory v = Some d" and "tree v" and "mset (map card (rows v)) = mset B"
    and "book_run d B evs B'"
  shows "mset (map card (rows (run_view evs v))) = mset B'"
  using assms
proof (induction evs arbitrary: v B)
  case (Cons x evs)
  obtain w e where x: "x = (w, e)" by fastforce
  with Cons.prems(4) have laws: "selection_laws w" and step: "book_step w d B e (child_cards w d)"
    and run: "book_run d (child_cards w d) evs B'" by auto
  have "mset (map card (rows (view_event x v))) = mset (child_cards w d)"
    unfolding x by (rule book_step_cards [OF laws Cons.prems(2,1,3) step])
  with Cons.IH [of "view_event x v", OF _ _ _ run] Cons.prems view_event_keeps [of w e v]
  show ?case by (simp add: run_view_def x)
qed (simp add: run_view_def)


subsection \<open>What is deleted\<close>

definition selected_cards :: "('c, 'd, 's) world \<Rightarrow> ('c, 'd, 's) ab_view \<Rightarrow> 'c list" where
  "selected_cards w v = map fst (filter snd (marks w v))"

text \<open>The ranges are the selected rows, which is what \<open>getRangeAt\<close> promises.\<close>

definition ranges_of_selection :: "('c, 'd, 's) world \<Rightarrow> ('c, 'd, 's) ab_view \<Rightarrow> 's \<Rightarrow> bool" where
  "ranges_of_selection w v s \<longleftrightarrow>
     list_all (\<lambda>(a, b). b < length (rows v)) (selected_ranges w s) \<and>
     list_all (\<lambda>i. is_selected w s i \<longleftrightarrow> list_ex (\<lambda>(a, b). a \<le> i \<and> i \<le> b) (selected_ranges w s))
       [0..<length (rows v)]"

lemma cards_in_rows_eq:
  "\<forall>i\<in>set is. i < length (rows v) \<Longrightarrow> cards_in_rows v is = Inr (map (\<lambda>i. card (rows v ! i)) is)"
  by (induction "is") (auto simp: get_card_from_row_def)

lemma set_marks_from: "set (marks_from f i cs) = {(cs ! j, f (i + j)) |j. j < length cs}"
proof (induction cs arbitrary: i)
  case (Cons c cs)
  have "{((c # cs) ! j, f (i + j)) |j. j < length (c # cs)}
      = insert (c, f i) {(cs ! j, f (Suc i + j)) |j. j < length cs}" (is "?l = ?r")
  proof (intro set_eqI iffI)
    fix x assume "x \<in> ?l"
    then obtain j where "x = ((c # cs) ! j, f (i + j))" "j < length (c # cs)" by blast
    then show "x \<in> ?r" by (cases j) auto
  next
    fix x assume "x \<in> ?r"
    then consider "x = (c, f i)" | j where "x = (cs ! j, f (Suc i + j))" "j < length cs" by blast
    then show "x \<in> ?l"
    proof cases
      case 1
      then show ?thesis by (intro CollectI exI [of _ 0]) simp
    next
      case (2 j)
      then show ?thesis by (intro CollectI exI [of _ "Suc j"]) simp
    qed
  qed
  then show ?case using Cons by simp
qed simp

lemma set_selected_cards:
  assumes "selection v = Some s"
  shows "set (selected_cards w v) = {card (rows v ! i) |i. i < length (rows v) \<and> is_selected w s i}"
proof -
  have "set (marks w v) = {(card (rows v ! i), is_selected w s i) |i. i < length (rows v)}"
    unfolding marks_Some [OF assms] set_marks_from by (intro Collect_cong ex_cong1) auto
  then have "set (selected_cards w v)
      = fst ` {x \<in> {(card (rows v ! i), is_selected w s i) |i. i < length (rows v)}. snd x}"
    by (simp add: selected_cards_def)
  also have "\<dots> = {card (rows v ! i) |i. i < length (rows v) \<and> is_selected w s i}"
    by (rule set_eqI, rule iffI) (auto intro!: image_eqI [of _ fst "(_, True)"])
  finally show ?thesis .
qed

lemma in_ranges:
  fixes i :: nat
  shows "i \<in> set (concat (map (\<lambda>(a, b). [a..<b + 1]) rs)) \<longleftrightarrow> list_ex (\<lambda>(a, b). a \<le> i \<and> i \<le> b) rs"
  by (induction rs) auto

lemma mem_selected_rows:
  "i \<in> set (selected_rows w s) \<longleftrightarrow> list_ex (\<lambda>(a, b). a \<le> i \<and> i \<le> b) (selected_ranges w s)"
  unfolding selected_rows_def by (rule in_ranges)

lemma selected_rows_exist:
  assumes "ranges_of_selection w v s" and "i \<in> set (selected_rows w s)"
  shows "i < length (rows v)"
  using assms unfolding ranges_of_selection_def mem_selected_rows list_all_iff list_ex_iff by fastforce

lemma cards_of_selected_rows:
  assumes "selection v = Some s" and "ranges_of_selection w v s"
  shows "set (map (\<lambda>i. card (rows v ! i)) (selected_rows w s)) = set (selected_cards w v)"
proof -
  have "i \<in> set (selected_rows w s) \<longleftrightarrow> is_selected w s i" if "i < length (rows v)" for i
    using assms(2) that by (simp add: mem_selected_rows ranges_of_selection_def list_all_iff)
  with selected_rows_exist [OF assms(2)] show ?thesis
    unfolding set_selected_cards [OF assms(1)] by auto
qed

text \<open>The map that the first loop builds.\<close>

definition grouped :: "('c, 'd, 's) world \<Rightarrow> 'c set \<Rightarrow> 'c list jsmap \<Rightarrow> bool" where
  "grouped w C m \<longleftrightarrow>
     distinct (map fst m) \<and>
     (\<forall>(u, cs)\<in>set m. cs \<noteq> [] \<and> set cs = {c \<in> C. directory_uid_of (cards w) c = u}) \<and>
     (\<forall>c\<in>C. directory_uid_of (cards w) c \<in> fst ` set m)"

lemma set_add_to_set [simp]: "set (add_to_set c cs) = insert c (set cs)" "add_to_set c cs \<noteq> []"
  by (auto simp: add_to_set_def)

lemma grouped_add:
  assumes "grouped w C m"
  shows "grouped w (insert c C) (add_to_directory w c m)"
proof -
  let ?u = "directory_uid_of (cards w) c"
  let ?cs = "case map_of m ?u of None \<Rightarrow> [] | Some cs \<Rightarrow> cs"
  have dist: "distinct (map fst m)" using assms by (simp add: grouped_def)
  have old: "set ?cs = {x \<in> C. directory_uid_of (cards w) x = ?u}"
  proof (cases "map_of m ?u")
    case None
    then have "?u \<notin> fst ` set m" by (simp add: map_of_eq_None_iff)
    with assms None show ?thesis by (auto simp: grouped_def)
  next
    case (Some cs)
    then have "(?u, cs) \<in> set m" by (rule map_of_SomeD)
    with assms Some show ?thesis by (auto simp: grouped_def)
  qed
  have mem: "(u, cs) \<in> set (AList.update k x m) \<longleftrightarrow> (if u = k then cs = x else (u, cs) \<in> set m)" for u cs k x
  proof -
    have "distinct (map fst (AList.update k x m))" using dist by (simp add: distinct_update)
    then have "(u, cs) \<in> set (AList.update k x m) \<longleftrightarrow> map_of (AList.update k x m) u = Some cs"
      by (simp add: map_of_eq_Some_iff)
    with dist show ?thesis by (auto simp: update_conv' map_of_eq_Some_iff)
  qed
  have "distinct (map fst (AList.update k x m))" for k x using dist by (simp add: distinct_update)
  moreover have "cs \<noteq> [] \<and> set cs = {x \<in> insert c C. directory_uid_of (cards w) x = u}"
    if "(u, cs) \<in> set (AList.update ?u (add_to_set c ?cs) m)" for u cs
    using that old assms by (auto simp: mem grouped_def split: if_splits)
  moreover have "fst ` set (AList.update k x m) = insert k (fst ` set m)" for k x
    using keys_alist_update [of k x m] by (metis (no_types) image_set insert_absorb list.simps(15) rotate1.simps(2) set_rotate1)
  ultimately show ?thesis
    using assms by (auto simp: grouped_def add_to_directory_def Let_def)
qed

lemma grouped_fold: "grouped w C m \<Longrightarrow> grouped w (C \<union> set cs) (fold (add_to_directory w) cs m)"
proof (induction cs arbitrary: C m)
  case (Cons c cs)
  from Cons.IH [OF grouped_add [OF Cons.prems, of c]] show ?case by simp
qed simp

lemma grouped_all:
  assumes "grouped w C m" and "\<And>c. c \<in> C \<Longrightarrow> P (directory_uid_of (cards w) c)"
  shows "\<forall>(u, cs)\<in>set m. P u"
proof (intro ballI, clarify)
  fix u cs assume "(u, cs) \<in> set m"
  with assms(1) have "cs \<noteq> []" and cs: "set cs = {c \<in> C. directory_uid_of (cards w) c = u}"
    by (auto simp: grouped_def)
  then obtain c where "c \<in> set cs" by (meson list.set_sel(1))
  with cs have "c \<in> C" and "directory_uid_of (cards w) c = u" by auto
  with assms(2) show "P u" by blast
qed

lemma grouped_ex:
  assumes "grouped w C m"
  shows "(\<exists>(u, cs)\<in>set m. \<exists>c\<in>set cs. P u c) \<longleftrightarrow> (\<exists>c\<in>C. P (directory_uid_of (cards w) c) c)"
proof
  assume "\<exists>(u, cs)\<in>set m. \<exists>c\<in>set cs. P u c"
  then obtain u cs c where "(u, cs) \<in> set m" "c \<in> set cs" "P u c" by blast
  moreover from this assms have "c \<in> C" "directory_uid_of (cards w) c = u"
    by (auto simp: grouped_def)
  ultimately show "\<exists>c\<in>C. P (directory_uid_of (cards w) c) c" by blast
next
  assume "\<exists>c\<in>C. P (directory_uid_of (cards w) c) c"
  then obtain c where c: "c \<in> C" "P (directory_uid_of (cards w) c) c" by blast
  with assms obtain cs where m: "(directory_uid_of (cards w) c, cs) \<in> set m"
    by (fastforce simp: grouped_def)
  with assms c have "c \<in> set cs" by (auto simp: grouped_def)
  with m c show "\<exists>(u, cs)\<in>set m. \<exists>c\<in>set cs. P u c" by blast
qed

text \<open>What the second loop asks for.\<close>

definition removes :: "('c, 'd) deletion list \<Rightarrow> 'd \<Rightarrow> 'c \<Rightarrow> bool" where
  "removes ds d c \<longleftrightarrow> (\<exists>cs. DeleteCards d cs \<in> set ds \<and> c \<in> set cs)"

lemma removes_simps [simp]:
  "\<not> removes [] d c"
  "removes (DeleteCards d' cs # ds) d c \<longleftrightarrow> d' = d \<and> c \<in> set cs \<or> removes ds d c"
  "removes (map (\<lambda>c. DeleteAddressBook (f c)) xs @ ds) d c \<longleftrightarrow> removes ds d c"
  by (auto simp: removes_def)

text \<open>The calls of a sequence, when none of them throws or the first that does is the last.\<close>

lemma make_calls_append:
  "make_calls err made (ks @ ls) =
     (case make_calls err made ks of (m, Some e) \<Rightarrow> (m, Some e) | (m, None) \<Rightarrow> make_calls err m ls)"
  by (induction ks arbitrary: made) (auto split: option.splits)

lemma make_calls_cases:
  "(\<forall>n<length ks. err (made @ take n ks) (ks ! n) = None) \<and> make_calls err made ks = (made @ ks, None)
   \<or> (\<exists>n<length ks. \<exists>e. (\<forall>i<n. err (made @ take i ks) (ks ! i) = None)
        \<and> err (made @ take n ks) (ks ! n) = Some e \<and> make_calls err made ks = (made @ take (Suc n) ks, Some e))"
proof (induction ks arbitrary: made)
  case (Cons k ks)
  show ?case
  proof (cases "err made k")
    case None
    from Cons.IH [of "made @ [k]"] show ?thesis
    proof
      assume "(\<forall>n<length ks. err ((made @ [k]) @ take n ks) (ks ! n) = None)
        \<and> make_calls err (made @ [k]) ks = ((made @ [k]) @ ks, None)"
      with None show ?thesis by (auto simp: less_Suc_eq_0_disj)
    next
      assume "\<exists>n<length ks. \<exists>e. (\<forall>i<n. err ((made @ [k]) @ take i ks) (ks ! i) = None)
        \<and> err ((made @ [k]) @ take n ks) (ks ! n) = Some e
        \<and> make_calls err (made @ [k]) ks = ((made @ [k]) @ take (Suc n) ks, Some e)"
      then obtain n e where "n < length ks" "\<forall>i<n. err ((made @ [k]) @ take i ks) (ks ! i) = None"
        "err ((made @ [k]) @ take n ks) (ks ! n) = Some e"
        "make_calls err (made @ [k]) ks = ((made @ [k]) @ take (Suc n) ks, Some e)" by blast
      with None show ?thesis
        by (intro disjI2 exI [of _ "Suc n"] conjI exI [of _ e]) (auto simp: less_Suc_eq_0_disj)
    qed
  qed auto
qed simp

lemma make_calls_prefix:
  "\<exists>rest. made @ ks = fst (make_calls err made ks) @ rest \<and> (snd (make_calls err made ks) = None \<longrightarrow> rest = [])"
  by (induction ks arbitrary: made) (auto split: option.splits, metis append.assoc append_Cons append_Nil)

text \<open>The deletions that are asked for.\<close>

definition group_calls :: "('c, 'd, 's) world \<Rightarrow> 'd option \<Rightarrow> jstr \<times> 'c list \<Rightarrow> ('c, 'd) deletion list" where
  "group_calls w shown g =
     DeleteCards (the (target_directory w shown (fst g))) (filter (\<lambda>c. \<not> is_list_of (cards w) c) (snd g))
       # map (\<lambda>c. DeleteAddressBook (list_uri_of (cards w) c)) (filter (is_list_of (cards w)) (snd g))"

lemma delete_groups_eq:
  assumes "\<forall>(u, cs)\<in>set m. target_directory w shown u \<noteq> None"
  shows "delete_groups w shown made m
    = make_calls (deletion_error w) made (concat (map (group_calls w shown) m))"
  using assms
proof (induction m arbitrary: made)
  case (Cons g m)
  obtain u cs d where g: "g = (u, cs)" "target_directory w shown u = Some d"
    using Cons.prems by (cases g) auto
  with Cons show ?case
    by (simp only: concat.simps list.simps(9) make_calls_append delete_groups.simps group_calls_def
        fst_conv snd_conv option.sel option.case(2)) (auto split: prod.splits option.splits)
qed simp

lemma group_calls_mem:
  assumes "\<forall>(u, cs)\<in>set m. target_directory w shown u \<noteq> None"
  shows "removes (concat (map (group_calls w shown) m)) d c \<longleftrightarrow>
      (\<exists>(u, cs)\<in>set m. \<exists>x\<in>set cs. target_directory w shown u = Some d \<and> x = c \<and> \<not> is_list_of (cards w) c)"
    and "DeleteAddressBook x \<in> set (concat (map (group_calls w shown) m)) \<longleftrightarrow>
      (\<exists>(u, cs)\<in>set m. \<exists>c\<in>set cs. is_list_of (cards w) c \<and> x = list_uri_of (cards w) c)"
  using assms by (induction m) (auto simp: group_calls_def)

lemma delete_selected_spec:
  assumes "selection v = Some s" and "ranges_of_selection w v s"
    and "\<forall>c\<in>set (selected_cards w v). target_directory w (directory v) (directory_uid_of (cards w) c) \<noteq> None"
  shows "\<exists>ks. delete_selected_cards w v = make_calls (deletion_error w) [] ks \<and>
    (\<forall>d c. removes ks d c \<longleftrightarrow>
       c \<in> set (selected_cards w v) \<and> \<not> is_list_of (cards w) c \<and>
       target_directory w (directory v) (directory_uid_of (cards w) c) = Some d) \<and>
    (\<forall>u. DeleteAddressBook u \<in> set ks \<longleftrightarrow>
       (\<exists>c\<in>set (selected_cards w v). is_list_of (cards w) c \<and> u = list_uri_of (cards w) c))"
proof -
  let ?cs = "map (\<lambda>i. card (rows v ! i)) (selected_rows w s)"
  let ?m = "fold (add_to_directory w) ?cs []"
  let ?ks = "concat (map (group_calls w (directory v)) ?m)"
  have range: "\<forall>i\<in>set (selected_rows w s). i < length (rows v)"
    using selected_rows_exist [OF assms(2)] by blast
  have cs: "set ?cs = set (selected_cards w v)"
    by (rule cards_of_selected_rows [OF assms(1,2)])
  have g: "grouped w (set (selected_cards w v)) ?m"
    using grouped_fold [of w "{}" "[]" ?cs] by (simp only: cs Un_empty_left) (simp add: grouped_def)
  then have target: "\<forall>(u, cs)\<in>set ?m. target_directory w (directory v) u \<noteq> None"
    by (rule grouped_all) (use assms(3) in blast)
  have "delete_selected_cards w v = make_calls (deletion_error w) [] ?ks"
    using assms(1) cards_in_rows_eq [OF range] delete_groups_eq [OF target]
    by (simp add: delete_selected_cards_def)
  moreover note mem = grouped_ex [OF g]
  have "removes ?ks d c \<longleftrightarrow>
      (\<exists>x\<in>set (selected_cards w v). target_directory w (directory v) (directory_uid_of (cards w) x) = Some d
         \<and> x = c \<and> \<not> is_list_of (cards w) c)" for d c
    by (rule trans [OF group_calls_mem(1) [OF target] mem])
  moreover have "DeleteAddressBook u \<in> set ?ks \<longleftrightarrow>
      (\<exists>c\<in>set (selected_cards w v). is_list_of (cards w) c \<and> u = list_uri_of (cards w) c)" for u
    by (rule trans [OF group_calls_mem(2) [OF target] mem])
  ultimately show ?thesis by blast
qed

text \<open>C31: \<open>deleteSelectedCards\<close> asks for the deletion of what is selected and nothing else, when the
  directory of every selected card is known: there is a sequence of deletions by which a contact
  is deleted from a directory exactly when it is selected and that directory is its own, or the
  list that is shown, and a mailing list is deleted exactly when it is selected.  When none of
  these throws, all are made and no exception comes out; otherwise, as when a book is read-only,
  those up to the first that throws are made, that one included, and its exception comes out.\<close>

theorem delete_selected_exact:
  assumes "selection v = Some s" and "ranges_of_selection w v s"
    and "\<forall>c\<in>set (selected_cards w v). target_directory w (directory v) (directory_uid_of (cards w) c) \<noteq> None"
  shows "\<exists>ks.
    (\<forall>d c. removes ks d c \<longleftrightarrow>
       c \<in> set (selected_cards w v) \<and> \<not> is_list_of (cards w) c \<and>
       target_directory w (directory v) (directory_uid_of (cards w) c) = Some d) \<and>
    (\<forall>u. DeleteAddressBook u \<in> set ks \<longleftrightarrow>
       (\<exists>c\<in>set (selected_cards w v). is_list_of (cards w) c \<and> u = list_uri_of (cards w) c)) \<and>
    ((\<forall>n<length ks. deletion_error w (take n ks) (ks ! n) = None) \<and> delete_selected_cards w v = (ks, None)
     \<or> (\<exists>n<length ks. \<exists>e. (\<forall>i<n. deletion_error w (take i ks) (ks ! i) = None)
          \<and> deletion_error w (take n ks) (ks ! n) = Some e
          \<and> delete_selected_cards w v = (take (Suc n) ks, Some e)))"
proof -
  obtain ks where "delete_selected_cards w v = make_calls (deletion_error w) [] ks"
    "\<forall>d c. removes ks d c \<longleftrightarrow> c \<in> set (selected_cards w v) \<and> \<not> is_list_of (cards w) c \<and>
       target_directory w (directory v) (directory_uid_of (cards w) c) = Some d"
    "\<forall>u. DeleteAddressBook u \<in> set ks \<longleftrightarrow>
       (\<exists>c\<in>set (selected_cards w v). is_list_of (cards w) c \<and> u = list_uri_of (cards w) c)"
    using delete_selected_spec [OF assms] by blast
  with make_calls_cases [of ks "deletion_error w" "[]"] show ?thesis
    by (intro exI [of _ ks]) simp
qed

section \<open>A concrete world\<close>

text \<open>
  The witnesses use books of stored contacts, with directories that are numbers, a collator
  that compares code units, and a selection that is a predicate on the rows.
\<close>

fun compare_units :: "jstr \<Rightarrow> jstr \<Rightarrow> int" where
  "compare_units [] [] = 0"
| "compare_units [] (y # ys) = - 1"
| "compare_units (x # xs) [] = 1"
| "compare_units (x # xs) (y # ys) =
     (if x < y then - 1 else if y < x then 1 else compare_units xs ys)"

lemma collation_compare_units: "collation compare_units"
proof -
  have "compare_units a b > 0 \<longleftrightarrow> compare_units b a < 0" for a b
    by (induction a b rule: compare_units.induct) auto
  moreover have "compare_units a b \<le> 0 \<Longrightarrow> compare_units b c \<le> 0 \<Longrightarrow> compare_units a c \<le> 0" for a b c
  proof (induction a b arbitrary: c rule: compare_units.induct)
    case (2 y ys)
    then show ?case by (cases c) auto
  next
    case (4 x xs y ys)
    show ?case
    proof (cases c)
      case (Cons z zs)
      consider "x < y" | "y < x" | "x = y" by linarith
      then show ?thesis
      proof cases
        case 1
        then show ?thesis using "4.prems"(2) by (simp add: Cons split: if_splits)
      next
        case 2
        then show ?thesis using "4.prems"(1) by simp
      next
        case 3
        then show ?thesis using "4.IH" [of zs] "4.prems" by (simp add: Cons split: if_splits)
      qed
    qed (use "4.prems"(2) in simp)
  qed auto
  ultimately show ?thesis by (auto simp: collation_def)
qed

definition sample_world :: "book_card list \<Rightarrow> (book_card, nat, (nat \<Rightarrow> bool) \<times> int) world" where
  "sample_world kids =
     \<lparr>cards = book_card_ops (\<lambda>c. js ''new''),
      dir_uid = (\<lambda>d. js ''book'' @ nat_str d), dir_name = nat_str, dir_is_list = (\<lambda>d. False),
      child_cards = (\<lambda>d. if d = 1 then kids else []), search_results = (\<lambda>d q. []),
      directories = [1, 2], last_name_first_pref = 0, compare_text = compare_units,
      is_selected = (\<lambda>s i. fst s i),
      toggle_select = (\<lambda>i s. ((fst s)(i := \<not> fst s i), snd s)),
      current_index = snd, set_current_index = (\<lambda>i s. (fst s, int i)),
      selected_ranges = (\<lambda>s. map (\<lambda>i. (i, i)) (filter (fst s) [0..<10])),
      adjust_selection =
        (\<lambda>i n s. ((\<lambda>j. if n = 1 then if j < i then fst s j else j \<noteq> i \<and> fst s (j - 1)
                       else if j < i then fst s j else fst s (j + 1)), snd s)),
      first_visible_row = 0, deletion_error = (\<lambda>made k. None)\<rparr>"

lemma sample_world_laws: "selection_laws (sample_world kids)"
  by (auto simp: selection_laws_def sample_world_def)

lemma sample_world_collation: "collation (compare_text (sample_world kids))"
  by (simp add: sample_world_def collation_compare_units)

definition sample_contact :: "string \<Rightarrow> book_card" where
  "sample_contact name =
     Contact (set_directory_UID (js ''book1'')
       (set_property (js ''DisplayName'') (JString (js name)) (addr_book_card\<lparr>uid := Some (js name)\<rparr>)))"


definition sample_view ::
    "book_card list \<Rightarrow> nat \<Rightarrow> (book_card, nat, (nat \<Rightarrow> bool) \<times> int) ab_view" where
  "sample_view kids i =
     \<lparr>directory = Some 1, listener = True,
      rows = map (\<lambda>c. ab_view_card (sample_world []) c (Some 1)) kids,
      selection = Some (\<lambda>j. j = i, int i), tree = True, sort_column = js ''GeneratedName'',
      sort_direction = js ''ascending'', name_format = 0, calls = []\<rparr>"

lemma sample_simps:
  "cards (sample_world kids) = book_card_ops (\<lambda>c. js ''new'')"
  "dir_uid (sample_world kids) 1 = js ''book1''" "dir_uid (sample_world kids) (Suc 0) = js ''book1''"
  "child_cards (sample_world kids) 1 = kids" "child_cards (sample_world kids) (Suc 0) = kids"
  "directories (sample_world kids) = [1, 2]" "\<not> dir_is_list (sample_world kids) d"
  "uid_of (book_card_ops n) (sample_contact (x # xs)) = js (x # xs)"
  "directory_uid_of (book_card_ops n) (sample_contact s) = js ''book1''"
  "\<not> is_list_of (book_card_ops n) (sample_contact s)"
  "card (ab_view_card w c h) = c"
  by (simp_all add: sample_world_def book_card_ops_def sample_contact_def book_uid_def get_UID_def
      set_property_def set_directory_UID_def delete_property_def nat_str.simps ab_view_card_def Let_def)

lemma same_sample:
  "same_card (sample_world kids) (sample_contact (x # xs)) (sample_contact (y # ys)) \<longleftrightarrow>
     js (y # ys) = js (x # xs)"
  by (simp add: same_card_def sample_simps book_equals_uid)

theorem view_stays_sorted_witness:
  "\<exists>v. new_ab_view (sample_world [sample_contact ''b'', sample_contact ''a'']) 0 (Some 1) [] True
         (js ''GeneratedName'') (js ''ascending'') = Inr v \<and>
       view_ok (sample_world [sample_contact ''b'', sample_contact ''a''])
         (run_view
           [(sample_world [sample_contact ''b'', sample_contact ''a''],
             Notified (SubjectCard (sample_contact ''c'')) ContactCreated None),
            (sample_world [sample_contact ''b'', sample_contact ''a''],
             Sorted (js ''GeneratedName'') (js ''descending'') False)]
           ((view_set_tree True v)\<lparr>selection := Some (\<lambda>i. i = 0, 0)\<rparr>))"
  by (rule view_stays_sorted [OF sample_world_collation]) (simp_all add: sorts_properly_def)

theorem view_follows_notifications_witness:
  "mset (marks (sample_world [])
     (view_event (sample_world [],
        Notified (SubjectCard (sample_contact ''c'')) ContactCreated (Some (dir_uid (sample_world []) 1)))
        (sample_view [sample_contact ''a'', sample_contact ''d''] 1))) =
   {#(sample_contact ''c'', False), (sample_contact ''a'', False), (sample_contact ''d'', True)#}"
proof -
  have "directory (sample_view kids i) = Some 1" "tree (sample_view kids i)" for kids i
    by (simp_all add: sample_view_def)
  moreover have "marks (sample_world []) (sample_view [sample_contact ''a'', sample_contact ''d''] 1)
      = [(sample_contact ''a'', False), (sample_contact ''d'', True)]"
    by (simp add: marks_def selected_at_def sample_view_def ab_view_card_def sample_world_def)
  ultimately show ?thesis
    using view_follows_notifications [OF sample_world_laws, of "sample_view [sample_contact ''a'', sample_contact ''d''] 1" "[]"
      "Notified (SubjectCard (sample_contact ''c'')) ContactCreated (Some (dir_uid (sample_world []) 1))"]
    by (simp only: view_event.case change_of_own sum.case apply_change.simps mset.simps)
qed

theorem view_shows_directory_witness:
  "mset (map card (rows (run_view
     [(sample_world [sample_contact ''a'', sample_contact ''b''],
       Notified (SubjectCard (sample_contact ''b'')) ContactCreated (Some (js ''book1''))),
      (sample_world [sample_contact ''b''],
       Notified (SubjectCard (sample_contact ''a'')) ContactDeleted (Some (js ''book1'')))]
     (sample_view [sample_contact ''a''] 0)))) = mset [sample_contact ''b'']"
proof (rule view_shows_directory [where d = 1 and B = "[sample_contact ''a'']"])
  have created: "book_step (sample_world [sample_contact ''a'', sample_contact ''b'']) 1 [sample_contact ''a'']
      (Notified (SubjectCard (sample_contact ''b'')) ContactCreated (Some (js ''book1'')))
      [sample_contact ''a'', sample_contact ''b'']"
    unfolding sample_simps(2) [symmetric, of "[sample_contact ''a'', sample_contact ''b'']"]
    by (rule Contact_created) simp
  have deleted: "book_step (sample_world [sample_contact ''b'']) 1 [sample_contact ''a'', sample_contact ''b'']
      (Notified (SubjectCard (sample_contact ''a'')) ContactDeleted (Some (js ''book1'')))
      [sample_contact ''b'']"
    unfolding sample_simps(2) [symmetric, of "[sample_contact ''b'']"]
    by (rule Contact_deleted) (simp add: same_sample)
  show "book_run 1 [sample_contact ''a'']
     [(sample_world [sample_contact ''a'', sample_contact ''b''],
       Notified (SubjectCard (sample_contact ''b'')) ContactCreated (Some (js ''book1''))),
      (sample_world [sample_contact ''b''],
       Notified (SubjectCard (sample_contact ''a'')) ContactDeleted (Some (js ''book1'')))]
     [sample_contact ''b'']"
    unfolding book_run.simps sample_simps(4) using created deleted sample_world_laws by blast
qed (simp_all add: sample_view_def ab_view_card_def)

lemma sample_selection:
  "selection (sample_view [sample_contact ''a'', sample_contact ''b''] 1) = Some (\<lambda>j. j = 1, 1)"
  "ranges_of_selection (sample_world []) (sample_view [sample_contact ''a'', sample_contact ''b''] 1) (\<lambda>j. j = 1, 1)"
  by (simp_all add: sample_view_def ranges_of_selection_def sample_world_def upt_rec numeral_eq_Suc)

lemma sample_selected_cards:
  "selected_cards (sample_world []) (sample_view [sample_contact ''a'', sample_contact ''b''] 1)
     = [sample_contact ''b'']"
  by (simp add: selected_cards_def marks_def selected_at_def sample_view_def ab_view_card_def sample_world_def)

lemma sample_target:
  "\<forall>c\<in>set (selected_cards (sample_world []) (sample_view [sample_contact ''a'', sample_contact ''b''] 1)).
     target_directory (sample_world []) (directory (sample_view [sample_contact ''a'', sample_contact ''b''] 1))
       (directory_uid_of (cards (sample_world [])) c) = Some 1"
  unfolding sample_selected_cards
  by (simp add: target_directory_def sample_view_def sample_simps get_directory_from_uid_def)

theorem delete_selected_exact_witness:
  "snd (delete_selected_cards (sample_world []) (sample_view [sample_contact ''a'', sample_contact ''b''] 1)) = None \<and>
   removes (fst (delete_selected_cards (sample_world []) (sample_view [sample_contact ''a'', sample_contact ''b''] 1)))
     1 (sample_contact ''b'')"
proof -
  let ?w = "sample_world []" and ?v = "sample_view [sample_contact ''a'', sample_contact ''b''] 1"
  have "\<forall>c\<in>set (selected_cards ?w ?v).
      target_directory ?w (directory ?v) (directory_uid_of (cards ?w) c) \<noteq> None"
    using sample_target by fastforce
  note exact = delete_selected_exact [OF sample_selection this]
  have no: "deletion_error ?w ks k = None" for ks k by (simp add: sample_world_def)
  have "sample_contact ''b'' \<in> set (selected_cards ?w ?v) \<and> \<not> is_list_of (cards ?w) (sample_contact ''b'')"
    unfolding sample_selected_cards by (simp add: sample_simps)
  moreover obtain ks where "delete_selected_cards ?w ?v = (ks, None)"
    "\<And>d c. removes ks d c \<longleftrightarrow> c \<in> set (selected_cards ?w ?v) \<and> \<not> is_list_of (cards ?w) c \<and>
       target_directory ?w (directory ?v) (directory_uid_of (cards ?w) c) = Some d"
    using exact unfolding no by fastforce
  ultimately show ?thesis using sample_target by auto
qed

text \<open>
  After the directory is reloaded, the mark is on the card that happens to come second in the
  directory, although that card was never selected.
\<close>

lemma reload_selects_other_card:
  "mset (marks (sample_world [sample_contact ''x'', sample_contact ''y''])
     (view_event (sample_world [sample_contact ''x'', sample_contact ''y''],
        Notified (SubjectDirectory 1) DirectoryInvalidated None)
        (sample_view [sample_contact ''a'', sample_contact ''d''] 1))) =
   {#(sample_contact ''x'', False), (sample_contact ''y'', True)#}"
proof -
  let ?w = "sample_world [sample_contact ''x'', sample_contact ''y'']"
  let ?v = "sample_view [sample_contact ''a'', sample_contact ''d''] 1"
  have v: "directory ?v = Some 1" "tree ?v" and sel: "selected_at ?w ?v = (\<lambda>j. j = 1)"
    by (auto simp: sample_view_def selected_at_def sample_world_def)
  have change: "change_of ?w (Some 1) (SubjectDirectory 1) DirectoryInvalidated None
      = Inr (Reload [sample_contact ''x'', sample_contact ''y''])"
    by (simp only: change_of_own sample_simps)
  show ?thesis
    unfolding view_event_marks [OF sample_world_laws v(2)] view_event.case v(1) change sum.case sel
      apply_change.simps by simp
qed

end
