(* ===== verification/AbDragDrop.thy ===== *)
theory AbDragDrop
  imports AbView
begin

text \<open>
  Dragging cards from the list of cards onto the tree of address books: \<open>GetSelectedRows\<close> of
  \<open>mailnews/addrbook/content/abResultsPane.js\<close> and \<open>abDirTreeObserver\<close> of
  \<open>mailnews/addrbook/content/abDragDrop.js\<close>, with the helpers of
  \<open>mail/components/addrbook/content/abCommon.js\<close>; and the methods of a mailing list that take a
  card, from \<open>mailnews/addrbook/modules/AddrBookMailingList.jsm\<close>.

  The target is given by its URI, the source by the URI of the directory that is shown; the
  result of a drop is the list of the calls made on the directories.
\<close>

section \<open>Directories and their URIs\<close>

text \<open>The calls that a drop makes on the directories.\<close>

datatype ('c, 'd) drop_call =
    AddMailList 'd jstr                 \<comment> \<open>the list is given by its URI\<close>
  | DropCard 'd 'c bool
  | DeleteCard 'd 'c
  | Deletion "('c, 'd) deletion"

record ('c, 'd, 's) drop_world = "('c, 'd, 's) world" +
  dir_of_uri :: "jstr \<Rightarrow> js_error + 'd"      \<comment> \<open>\<open>MailServices.ab.getDirectory\<close>\<close>
  read_only :: "'d \<Rightarrow> bool"
  call_error :: "('c, 'd) drop_call list \<Rightarrow> ('c, 'd) drop_call \<Rightarrow> js_error option"
    \<comment> \<open>what \<open>addMailList\<close> (with the look-up of the list), \<open>dropCard\<close> or \<open>deleteCards\<close> throws, after other calls\<close>

definition all_directory_root :: jstr where
  "all_directory_root = js ''moz-abdirectory://''"

definition all_directories_uri :: jstr where
  "all_directories_uri = all_directory_root @ js ''?''"

definition get_directory_from_uri :: "('c, 'd, 's) drop_world \<Rightarrow> jstr \<Rightarrow> js_error + 'd option" where
  "get_directory_from_uri w u =
     (if starts_with all_directory_root u then Inr None
      else bindE (dir_of_uri w u) (\<lambda>d. Inr (Some d)))"

definition parent_from_list_uri :: "jstr \<Rightarrow> jstr option" where
  "parent_from_list_uri u =
     (let a = split_on (ord CHR ''/'') u in
      if length a = 4 \<and> (a ! 0 = js ''jsaddrbook:'' \<or> a ! 0 = js ''moz-abmdbdirectory:'') \<and> a ! 3 \<noteq> []
      then Some (a ! 0 @ js ''//'' @ a ! 2)
      else if length a = 5 \<and> a ! 0 = js ''moz-aboutlookdirectory:'' \<and> a ! 4 \<noteq> []
      then Some (a ! 0 @ js ''///'' @ a ! 3)
      else None)"

section \<open>The rows that are dragged\<close>

definition get_selected_rows :: "('c, 'd, 's) world \<Rightarrow> 's \<Rightarrow> jstr" where
  "get_selected_rows w s =
     join (js '','') (map nat_str (selected_rows w s))"

text \<open>The numbers in the data of the drag; what is no number is no row.\<close>

definition dragged_rows :: "jstr \<Rightarrow> int option list" where
  "dragged_rows data = map parse_int10 (split_on (ord CHR '','') data)"

definition card_at :: "('c, 'd, 's) ab_view \<Rightarrow> int option \<Rightarrow> 'c option" where
  "card_at v r = (case r of Some i \<Rightarrow> if 0 \<le> i then get_card_from_row v (nat i) else None | None \<Rightarrow> None)"


section \<open>May it be dropped\<close>

abbreviation (input) ACTION_MOVE :: nat where "ACTION_MOVE \<equiv> 2"

record drag_session =
  drag_action :: nat
  session_can_drop :: bool



section \<open>The drop\<close>

text \<open>\<open>s.split(t)[0] != s\<close> for a \<open>t\<close> that is not empty.\<close>

definition occurs_in :: "jstr \<Rightarrow> jstr \<Rightarrow> bool" where
  "occurs_in t s \<longleftrightarrow> index_of_str t s \<noteq> None"

definition need_to_copy :: "jstr \<Rightarrow> jstr \<Rightarrow> bool" where
  "need_to_copy src target =
     (if length src > length target \<and> occurs_in target src then False
      else if length src \<le> length target \<and> occurs_in src target then False
      else
        let p = parent_from_list_uri target
        in \<not> (p \<noteq> None \<and> p \<noteq> Some [] \<and> p = parent_from_list_uri src))"

definition drop_card_calls ::
    "('c, 'd, 's) drop_world \<Rightarrow> 'd \<Rightarrow> jstr \<Rightarrow> bool \<Rightarrow> bool \<Rightarrow> 'c \<Rightarrow> ('c, 'd) drop_call list" where
  "drop_card_calls w d src copy moving c =
     (if is_list_of (cards w) c then
        if copy \<and> moving then [AddMailList d (list_uri_of (cards w) c)] else []
      else
        let src_directory =
          (if src = all_directories_uri \<and> moving
           then get_directory_from_uid (world.truncate w) (directory_uid_of (cards w) c) else None)
        in DropCard d c copy # (case src_directory of None \<Rightarrow> [] | Some s \<Rightarrow> [DeleteCard s c]))"

text \<open>
  The loop over the cards: the calls that are made and the exception that ends it, of a card that is
  not there or of one of the calls.
\<close>

fun drop_cards ::
    "('c, 'd, 's) drop_world \<Rightarrow> 'd \<Rightarrow> jstr \<Rightarrow> bool \<Rightarrow> bool \<Rightarrow> ('c, 'd) drop_call list \<Rightarrow> 'c option list
     \<Rightarrow> ('c, 'd) drop_call list \<times> js_error option" where
  "drop_cards w d src copy moving made [] = (made, None)"
| "drop_cards w d src copy moving made (None # cs) = (made, Some TypeError)"
| "drop_cards w d src copy moving made (Some c # cs) =
     (case make_calls (call_error w) made (drop_card_calls w d src copy moving c) of
        (made', Some e) \<Rightarrow> (made', Some e)
      | (made', None) \<Rightarrow> drop_cards w d src copy moving made' cs)"

text \<open>
  \<open>onDrop\<close>; \<open>w'\<close> and \<open>v'\<close> are the world and the view after the calls of the loop, when
  \<open>deleteSelectedCards\<close> is called.  The text of the status bar is left out.
\<close>

definition on_drop ::
    "('c, 'd, 's) drop_world \<Rightarrow> ('c, 'd, 's) ab_view \<Rightarrow> ('c, 'd, 's) world \<Rightarrow> ('c, 'd, 's) ab_view
     \<Rightarrow> bool \<Rightarrow> jstr \<Rightarrow> jstr \<Rightarrow> jstr \<Rightarrow> drag_session option \<Rightarrow> ('c, 'd) drop_call list \<times> js_error option" where
  "on_drop w v w' v' has_cards data target src session =
     (case session of
        None \<Rightarrow> ([], None)
      | Some s \<Rightarrow>
          if \<not> has_cards then ([], None)
          else
            (case get_directory_from_uri w target of
               Inl e \<Rightarrow> ([], Some e)
             | Inr None \<Rightarrow> ([], Some TypeError)
             | Inr (Some d) \<Rightarrow>
                 let copy = need_to_copy src target;
                     moving = (odd (drag_action s div ACTION_MOVE) \<and> \<not> dir_is_list w d);
                     dropped = drop_cards w d src copy moving [] (map (card_at v) (dragged_rows data))
                 in case dropped of
                      (ks, Some e) \<Rightarrow> (ks, Some e)
                    | (ks, None) \<Rightarrow>
                        if moving \<and> src \<noteq> all_directories_uri
                        then let (ds, e) = delete_selected_cards w' v' in (ks @ map Deletion ds, e)
                        else (ks, None)))"

section \<open>A mailing list that takes a card\<close>

text \<open>
  \<open>addCard\<close> and \<open>dropCard\<close> of a mailing list over the table of its members.  \<open>has_card\<close>,
  \<open>add_card\<close> and \<open>copy_card\<close> are what the parent directory does; the last component is the cards
  of the notifications \<open>addrbook-list-member-added\<close> that are sent, in order.
\<close>

type_synonym list_cards = "(jstr \<times> jstr) list"

definition replace_into :: "jstr \<times> jstr \<Rightarrow> list_cards \<Rightarrow> list_cards" where
  "replace_into x t = filter (\<lambda>y. y \<noteq> x) t @ [x]"

definition list_add_card ::
    "'c card_ops \<Rightarrow> ('c \<Rightarrow> jstr) \<Rightarrow> ('c \<Rightarrow> bool) \<Rightarrow> ('c \<Rightarrow> 'c) \<Rightarrow> jstr \<Rightarrow> 'c \<Rightarrow> list_cards
     \<Rightarrow> 'c \<times> list_cards \<times> 'c list" where
  "list_add_card ops email has_card add_card l c t =
     (if email c = [] then (c, t, [])
      else let c = (if has_card c then c else add_card c)
           in (c, replace_into (l, uid_of ops c) t, [c]))"

definition list_drop_card ::
    "'c card_ops \<Rightarrow> ('c \<Rightarrow> jstr) \<Rightarrow> ('c \<Rightarrow> bool) \<Rightarrow> ('c \<Rightarrow> 'c) \<Rightarrow> ('c \<Rightarrow> 'c) \<Rightarrow> jstr \<Rightarrow> 'c \<Rightarrow> bool
     \<Rightarrow> list_cards \<Rightarrow> list_cards \<times> 'c list" where
  "list_drop_card ops email has_card add_card copy_card l c copy t =
     (let c = (if copy then copy_card c else c);
          (x, t, ns) = list_add_card ops email has_card add_card l c t
      in (t, ns @ [c]))"

section \<open>Lemmas\<close>

lemma split_on_join:
  "ws \<noteq> [] \<Longrightarrow> \<forall>x\<in>set ws. c \<notin> set x \<Longrightarrow> split_on c (join [c] ws) = ws"
  by (induction ws rule: induct_list012) (simp_all add: split_on_notin split_on_append)

text \<open>The data of a drag gives back the selected rows.\<close>

lemma dragged_selected_rows:
  assumes "selected_rows w s \<noteq> []"
  shows "dragged_rows (get_selected_rows w s) = map (\<lambda>i. Some (int i)) (selected_rows w s)"
proof -
  have "44 \<notin> set (nat_str n)" for n
    using nat_str_digits [of n] by (auto simp: is_digit_def)
  then have "split_on 44 (join [44] (map nat_str (selected_rows w s))) = map nat_str (selected_rows w s)"
    using assms by (intro split_on_join) auto
  then show ?thesis
    by (simp add: dragged_rows_def get_selected_rows_def)
qed


text \<open>The calls of the loop over the cards.\<close>

lemma drop_cards_eq:
  "drop_cards w d src copy moving made (map Some cs)
    = make_calls (call_error w) made (concat (map (drop_card_calls w d src copy moving) cs))"
  by (induction cs arbitrary: made) (auto simp: make_calls_append split: prod.splits option.splits)

lemma drop_card_calls_mem:
  "DropCard d c copy \<in> set (drop_card_calls w d src copy moving x) \<longleftrightarrow> c = x \<and> \<not> is_list_of (cards w) x"
  "AddMailList d u \<in> set (drop_card_calls w d src copy moving x) \<longleftrightarrow>
     copy \<and> moving \<and> is_list_of (cards w) x \<and> u = list_uri_of (cards w) x"
  "DeleteCard s c \<in> set (drop_card_calls w d src copy moving x) \<Longrightarrow> c = x \<and> \<not> is_list_of (cards w) x"
  "Deletion y \<notin> set (drop_card_calls w d src copy moving x)"
  by (auto simp: drop_card_calls_def Let_def split: option.splits if_splits)

section \<open>Properties\<close>


lemma truncate_world [simp]:
  "cards (world.truncate w) = cards w" "dir_is_list (world.truncate w) = dir_is_list w"
  by (simp_all add: world.truncate_def)

text \<open>The cards that are dropped are the selected ones.\<close>

lemma dropped_cards:
  assumes "selection v = Some s" and "ranges_of_selection w v s" and "selected_cards w v \<noteq> []"
  shows "\<exists>cs. map (card_at v) (dragged_rows (get_selected_rows w s)) = map Some cs \<and>
           set cs = set (selected_cards w v)"
proof -
  let ?cs = "map (\<lambda>i. card (rows v ! i)) (selected_rows w s)"
  have cs: "set ?cs = set (selected_cards w v)"
    by (rule cards_of_selected_rows [OF assms(1,2)])
  with assms(3) have "selected_rows w s \<noteq> []" by auto
  then have "map (card_at v) (dragged_rows (get_selected_rows w s)) = map Some ?cs"
    using selected_rows_exist [OF assms(2)]
    by (auto simp: dragged_selected_rows card_at_def get_card_from_row_def)
  with cs show ?thesis by blast
qed

text \<open>Calls that take something away only after it has been put somewhere.\<close>

fun covered :: "('k \<Rightarrow> 'x set) \<Rightarrow> ('k \<Rightarrow> 'x set) \<Rightarrow> 'x set \<Rightarrow> 'k list \<Rightarrow> bool" where
  "covered takes puts X [] = True"
| "covered takes puts X (k # ks) \<longleftrightarrow> takes k \<subseteq> X \<and> covered takes puts (X \<union> puts k) ks"

lemma covered_append:
  "covered takes puts X (ks @ ls) \<longleftrightarrow>
     covered takes puts X ks \<and> covered takes puts (X \<union> (\<Union>k\<in>set ks. puts k)) ls"
  by (induction ks arbitrary: X) (auto simp: Un_assoc)

lemma covered_mono: "covered takes puts X ks \<Longrightarrow> X \<subseteq> Y \<Longrightarrow> covered takes puts Y ks"
proof (induction ks arbitrary: X Y)
  case (Cons k ks)
  have "covered takes puts (X \<union> puts k) ks" and k: "takes k \<subseteq> X" using Cons.prems(1) by simp_all
  have "X \<union> puts k \<subseteq> Y \<union> puts k" using Cons.prems(2) by blast
  with Cons.IH \<open>covered takes puts (X \<union> puts k) ks\<close> have "covered takes puts (Y \<union> puts k) ks" by metis
  moreover have "takes k \<subseteq> Y" using k Cons.prems(2) by blast
  ultimately show ?case by simp
qed simp

lemma covered_concat:
  "(\<And>x. x \<in> set xs \<Longrightarrow> covered takes puts {} (f x)) \<Longrightarrow> covered takes puts X (concat (map f xs))"
proof (induction xs arbitrary: X)
  case (Cons x xs)
  have "covered takes puts X (f x)" using Cons.prems [of x] by (auto intro: covered_mono)
  moreover have "covered takes puts (X \<union> (\<Union>k\<in>set (f x). puts k)) (concat (map f xs))"
    using Cons by (intro Cons.IH) auto
  ultimately show ?case by (simp add: covered_append)
qed simp

lemma covered_all: "\<forall>k\<in>set ks. takes k \<subseteq> X \<Longrightarrow> covered takes puts X ks"
proof (induction ks arbitrary: X)
  case (Cons k ks)
  then have "covered takes puts (X \<union> puts k) ks" by (intro Cons.IH) auto
  with Cons.prems show ?case by simp
qed simp

lemma covered_split: "covered takes puts {} (as @ k # bs) \<Longrightarrow> takes k \<subseteq> (\<Union>k\<in>set as. puts k)"
  by (simp add: covered_append)

text \<open>The contacts and the mailing lists that a call deletes, and those that it gives to the target.\<close>

fun deleted_contacts :: "('c, 'd) drop_call \<Rightarrow> 'c set" where
  "deleted_contacts (DeleteCard b c) = {c}"
| "deleted_contacts (Deletion (DeleteCards b cs)) = set cs"
| "deleted_contacts k = {}"

fun deleted_lists :: "('c, 'd) drop_call \<Rightarrow> jstr set" where
  "deleted_lists (Deletion (DeleteAddressBook u)) = {u}"
| "deleted_lists k = {}"

definition dropped_contacts :: "'d \<Rightarrow> bool \<Rightarrow> ('c, 'd) drop_call \<Rightarrow> 'c set" where
  "dropped_contacts d copy k = {c. k = DropCard d c copy}"

definition added_lists :: "'d \<Rightarrow> ('c, 'd) drop_call \<Rightarrow> jstr set" where
  "added_lists d k = {u. k = AddMailList d u}"

lemma drop_card_covered:
  "covered deleted_contacts (dropped_contacts d copy) {} (drop_card_calls w d src copy moving c)"
  "covered deleted_lists (added_lists d) {} (drop_card_calls w d src copy moving c)"
  by (auto simp: drop_card_calls_def dropped_contacts_def split: option.split)

text \<open>The calls of a drop: a prefix of those of the loop and the deletions after them.\<close>

lemma on_drop_calls:
  assumes "selection v = Some sel" and "ranges_of_selection (world.truncate w) v sel"
    and "selected_cards (world.truncate w) v \<noteq> []"
    and "\<forall>c\<in>set (selected_cards (world.truncate w) v).
           target_directory (world.truncate w) (directory v) (directory_uid_of (cards w) c) \<noteq> None"
    and "dir_of_uri w target = Inr d" and "\<not> starts_with all_directory_root target"
    and "on_drop w v (world.truncate w) v True (get_selected_rows (world.truncate w) sel)
           target src (Some s) = (ks, e)"
  defines "copy \<equiv> need_to_copy src target"
    and "moving \<equiv> odd (drag_action s div ACTION_MOVE) \<and> \<not> dir_is_list w d"
  shows "\<exists>cs ds rest. set cs = set (selected_cards (world.truncate w) v)
    \<and> concat (map (drop_card_calls w d src copy moving) cs) @ map Deletion ds = ks @ rest
    \<and> (e = None \<longrightarrow> rest = []) \<and> (ds \<noteq> [] \<longrightarrow> moving)
    \<and> (\<forall>b c. removes ds b c \<longrightarrow> c \<in> set cs \<and> \<not> is_list_of (cards w) c)
    \<and> (\<forall>u. DeleteAddressBook u \<in> set ds \<longrightarrow> (\<exists>c\<in>set cs. is_list_of (cards w) c \<and> u = list_uri_of (cards w) c))
    \<and> ((\<forall>ks k. call_error w ks k = None) \<and> (\<forall>ks k. deletion_error w ks k = None) \<longrightarrow> e = None)"
proof -
  let ?w = "world.truncate w"
  obtain cs where rows: "map (card_at v) (dragged_rows (get_selected_rows ?w sel)) = map Some cs"
    and cs: "set cs = set (selected_cards ?w v)"
    using dropped_cards [OF assms(1-3)] by blast
  let ?A = "concat (map (drop_card_calls w d src copy moving) cs)"
  have err: "deletion_error ?w = deletion_error w" by (simp add: world.truncate_def)
  obtain D where D: "delete_selected_cards ?w v = make_calls (deletion_error w) [] D"
    "\<forall>b c. removes D b c \<longleftrightarrow> c \<in> set cs \<and> \<not> is_list_of (cards w) c \<and>
       target_directory ?w (directory v) (directory_uid_of (cards w) c) = Some b"
    "\<forall>u. DeleteAddressBook u \<in> set D \<longleftrightarrow> (\<exists>c\<in>set cs. is_list_of (cards w) c \<and> u = list_uri_of (cards w) c)"
    using delete_selected_spec [OF assms(1,2)] assms(4) unfolding truncate_world err cs by blast
  obtain ms f where A: "make_calls (call_error w) [] ?A = (ms, f)" by fastforce
  obtain rest where rest: "?A = ms @ rest" "f = None \<longrightarrow> rest = []"
    using make_calls_prefix [of "[]" ?A "call_error w"] A by auto
  have fine: "make_calls err made xs = (made @ xs, None)" if "\<forall>ks k. err ks k = None"
    for err :: "'z list \<Rightarrow> 'z \<Rightarrow> js_error option" and made xs
    using that by (induction xs arbitrary: made) auto
  have fine_loop: "(\<forall>ks k. call_error w ks k = None) \<longrightarrow> f = None"
    using A fine [of "call_error w" "[]" ?A] by simp
  have "get_directory_from_uri w target = Inr (Some d)"
    using assms(5,6) by (simp add: get_directory_from_uri_def)
  with assms(7) A have run: "(ks, e) = (case f of Some e \<Rightarrow> (ms, Some e) | None \<Rightarrow>
      if moving \<and> src \<noteq> all_directories_uri
      then let (ds, e) = delete_selected_cards ?w v in (ms @ map Deletion ds, e) else (ms, None))"
    by (cases f; cases "delete_selected_cards ?w v")
      (auto simp: on_drop_def rows drop_cards_eq Let_def copy_def moving_def split: if_splits)
  show ?thesis
  proof (cases "f = None \<and> moving \<and> src \<noteq> all_directories_uri")
    case False
    then have "ks = ms" "e = f" using run by (auto split: option.splits if_splits)
    then show ?thesis using rest cs fine_loop
      by - (rule exI [of _ cs], rule exI [of _ "[]"], rule exI [of _ rest], auto)
  next
    case True
    obtain ds where ds: "make_calls (deletion_error w) [] D = (ds, e)" "ks = ms @ map Deletion ds"
      using run True D(1) by (auto split: prod.splits)
    obtain ds' where ds': "D = ds @ ds'" "e = None \<longrightarrow> ds' = []"
      using make_calls_prefix [of "[]" D "deletion_error w"] ds(1) by auto
    have fine_del: "(\<forall>ks k. deletion_error w ks k = None) \<longrightarrow> e = None"
      using ds(1) fine [of "deletion_error w" "[]" D] by simp
    have "?A @ map Deletion D = ks @ map Deletion ds'" using rest True ds(2) ds'(1) by simp
    then show ?thesis using cs D(2,3) True ds'(2) fine_del
      by - (rule exI [of _ cs], rule exI [of _ D], rule exI [of _ "map Deletion ds'"], auto)
  qed
qed

text \<open>C32: moving loses no contact: of the calls that a drop makes on the directories, whatever exceptions they
  throw (a read-only target, a card without identifier, a bad name of a list, a book that
  refuses a deletion, \<dots>), every one that deletes a contact, from the directory that is shown or, with all
  address books shown, from its own, comes after the call that has dropped this contact into the
  target, which has returned, because an exception ends the drop with the call that throws it.  When the drop ends
  without an exception every selected contact has been dropped, and it does when no call
  throws.  In the same way a mailing list is deleted only after it was added to the
  target, unless the URIs say that source and target are a list and its book; but adding a list makes an
  empty one (added_list_is_empty), so a moved list does lose its members.  The selection is the
  rows that are dragged, every selected card is in a known directory, and the calls on the
  target do not change the view.\<close>

theorem move_loses_nothing:
  assumes "selection v = Some sel" and "ranges_of_selection (world.truncate w) v sel"
    and "selected_cards (world.truncate w) v \<noteq> []"
    and "\<forall>c\<in>set (selected_cards (world.truncate w) v).
           target_directory (world.truncate w) (directory v) (directory_uid_of (cards w) c) \<noteq> None"
    and "dir_of_uri w target = Inr d" and "\<not> starts_with all_directory_root target"
    and "on_drop w v (world.truncate w) v True (get_selected_rows (world.truncate w) sel)
           target src (Some s) = (ks, e)"
  shows "(\<forall>as k bs c. ks = as @ k # bs \<longrightarrow> c \<in> deleted_contacts k \<longrightarrow>
       DropCard d c (need_to_copy src target) \<in> set as) \<and>
    (\<forall>as k bs u. ks = as @ k # bs \<longrightarrow> u \<in> deleted_lists k \<longrightarrow> need_to_copy src target \<longrightarrow>
       AddMailList d u \<in> set as) \<and>
    (e = None \<longrightarrow> (\<forall>c\<in>set (selected_cards (world.truncate w) v). \<not> is_list_of (cards w) c \<longrightarrow>
       DropCard d c (need_to_copy src target) \<in> set ks)) \<and>
    ((\<forall>ks k. call_error w ks k = None) \<and> (\<forall>ks k. deletion_error w ks k = None) \<longrightarrow> e = None)"
proof -
  let ?copy = "need_to_copy src target"
  let ?moving = "odd (drag_action s div ACTION_MOVE) \<and> \<not> dir_is_list w d"
  obtain cs ds rest where cs: "set cs = set (selected_cards (world.truncate w) v)"
    and all: "concat (map (drop_card_calls w d src ?copy ?moving) cs) @ map Deletion ds = ks @ rest"
    and e: "e = None \<longrightarrow> rest = []" "ds \<noteq> [] \<longrightarrow> ?moving"
    and ds: "\<forall>b c. removes ds b c \<longrightarrow> c \<in> set cs \<and> \<not> is_list_of (cards w) c"
      "\<forall>u. DeleteAddressBook u \<in> set ds \<longrightarrow> (\<exists>c\<in>set cs. is_list_of (cards w) c \<and> u = list_uri_of (cards w) c)"
    and fine: "(\<forall>ks k. call_error w ks k = None) \<and> (\<forall>ks k. deletion_error w ks k = None) \<longrightarrow> e = None"
    using on_drop_calls [OF assms] by blast
  let ?A = "concat (map (drop_card_calls w d src ?copy ?moving) cs)"
  have drops: "DropCard d c ?copy \<in> set ?A" if "c \<in> set cs" "\<not> is_list_of (cards w) c" for c
    using that by (force simp: drop_card_calls_mem)
  have adds: "AddMailList d u \<in> set ?A" if u: "DeleteAddressBook u \<in> set ds" and copy: "?copy" for u
  proof -
    obtain c where "c \<in> set cs" "is_list_of (cards w) c" "u = list_uri_of (cards w) c" using ds(2) u by blast
    moreover have "?moving" using e(2) u by fastforce
    ultimately show ?thesis using copy by (force simp: drop_card_calls_mem(2))
  qed
  have contacts: "covered deleted_contacts (dropped_contacts d ?copy) {} (ks @ rest)"
    unfolding all [symmetric] covered_append
  proof (intro conjI covered_concat drop_card_covered covered_all ballI)
    fix k assume "k \<in> set (map Deletion ds)"
    then obtain x where x: "x \<in> set ds" "k = Deletion x" by auto
    show "deleted_contacts k \<subseteq> {} \<union> (\<Union>k\<in>set ?A. dropped_contacts d ?copy k)"
    proof
      fix c assume "c \<in> deleted_contacts k"
      then obtain b xs where "x = DeleteCards b xs" "c \<in> set xs" by (cases x) (auto simp: x(2))
      then have "removes ds b c" using x(1) by (auto simp: removes_def)
      with ds(1) drops show "c \<in> {} \<union> (\<Union>k\<in>set ?A. dropped_contacts d ?copy k)"
        by (force simp: dropped_contacts_def)
    qed
  qed
  have lists: "covered deleted_lists (added_lists d) {} (ks @ rest)" if "?copy"
    unfolding all [symmetric] covered_append
  proof (intro conjI covered_concat drop_card_covered covered_all ballI)
    fix k assume "k \<in> set (map Deletion ds)"
    then obtain x where x: "x \<in> set ds" "k = Deletion x" by auto
    show "deleted_lists k \<subseteq> {} \<union> (\<Union>k\<in>set ?A. added_lists d k)"
      using adds [OF _ that] x by (cases x) (force simp: added_lists_def)+
  qed
  have "DropCard d c ?copy \<in> set as" if "ks = as @ k # bs" "c \<in> deleted_contacts k" for as k bs c
    using covered_split [of _ _ as k "bs @ rest"] contacts that by (force simp: dropped_contacts_def)
  moreover have "AddMailList d u \<in> set as" if "ks = as @ k # bs" "u \<in> deleted_lists k" "?copy" for as k bs u
    using covered_split [of _ _ as k "bs @ rest"] lists that by (force simp: added_lists_def)
  moreover have "DropCard d c ?copy \<in> set ks"
    if "e = None" "c \<in> set (selected_cards (world.truncate w) v)" "\<not> is_list_of (cards w) c" for c
  proof -
    have "ks = ?A @ map Deletion ds" using all e(1) that(1) by simp
    with drops cs that(2,3) show ?thesis by simp
  qed
  ultimately show ?thesis using fine by blast
qed

subsection \<open>A card that is dropped onto a list\<close>

lemma change_of_member:
  "change_of w (Some l) (SubjectCard c) ListMemberAdded (Some (dir_uid w l)) = Inr (Add c)"
  by (simp add: change_of_def concerns_def)

lemma member_added_cards:
  assumes "selection_laws w" and "tree v" and "directory v = Some l"
  shows "mset (map card (rows (run_view
           (map (\<lambda>n. (w, Notified (SubjectCard n) ListMemberAdded (Some (dir_uid w l)))) ns) v)))
         = mset (map card (rows v)) + mset ns"
  using assms(2,3)
proof (induction ns arbitrary: v)
  case (Cons n ns)
  let ?e = "Notified (SubjectCard n) ListMemberAdded (Some (dir_uid w l)) :: ('a, 'b) view_event"
  have "image_mset fst (mset (marks w v)) = mset (map card (rows v))"
    by (metis fst_marks mset_map)
  then have "mset (map card (rows (view_event (w, ?e) v))) = add_mset n (mset (map card (rows v)))"
    using view_event_cards [OF assms(1) Cons.prems(1), of ?e] Cons.prems(2)
    by (simp add: change_of_member fst_apply_change del: mset_map)
  with Cons.IH [of "view_event (w, ?e) v"] Cons.prems view_event_keeps [of w ?e v]
  show ?case by (simp add: run_view_def del: mset_map)
qed (simp add: run_view_def)

lemma count_replace_into: "count_list (replace_into x t) x = 1"
proof -
  have "count_list (filter (\<lambda>y. y \<noteq> x) t) x = 0"
    by (simp add: count_list_0_iff)
  then show ?thesis by (simp add: replace_into_def)
qed

text \<open>a contact that is dropped onto a mailing list is shown once too often: \<open>addCard\<close> has
  told of it and \<open>dropCard\<close> tells again, so that a view of the list gets two rows for a card
  that is one member of the list; and a card without an address, which does not become a member,
  gets one row.\<close>

theorem dropped_card_shown_twice:
  assumes "selection_laws w" and "tree v" and "directory v = Some l"
    and "list_drop_card (cards w) email has_card add_card copy_card (dir_uid w l) c copy t = (t', ns)"
    and "c' = (if copy then copy_card c else c)"
    and "v' = run_view
           (map (\<lambda>n. (w, Notified (SubjectCard n) ListMemberAdded (Some (dir_uid w l)))) ns) v"
  shows "if email c' = []
     then t' = t \<and> mset (map card (rows v')) = add_mset c' (mset (map card (rows v)))
     else (let a = (if has_card c' then c' else add_card c') in
             count_list t' (dir_uid w l, uid_of (cards w) a) = 1 \<and>
             mset (map card (rows v')) = add_mset a (add_mset c' (mset (map card (rows v)))))"
  using assms(4) unfolding assms(6) member_added_cards [OF assms(1-3)]
  by (auto simp: list_drop_card_def list_add_card_def assms(5) Let_def count_replace_into
      simp del: mset_map split: if_splits)

section \<open>Witnesses\<close>

definition sample_drop_world :: "(book_card, nat, (nat \<Rightarrow> bool) \<times> int) drop_world" where
  "sample_drop_world =
     world.extend (sample_world [])
       \<lparr>dir_of_uri = (\<lambda>u. if u = js ''jsaddrbook://b2.sqlite'' then Inr 2 else Inl Failure),
        read_only = (\<lambda>d. False), call_error = (\<lambda>made k. None)\<rparr>"

lemma sample_drop_world_simps:
  "world.truncate sample_drop_world = sample_world []"
  "cards sample_drop_world = cards (sample_world [])"
  "dir_is_list sample_drop_world = dir_is_list (sample_world [])"
  "dir_of_uri sample_drop_world (js ''jsaddrbook://b2.sqlite'') = Inr 2"
  "\<not> read_only sample_drop_world d"
  by (simp_all add: sample_drop_world_def world.extend_def world.truncate_def)


theorem move_loses_nothing_witness:
  "DropCard 2 (sample_contact ''b'')
     (need_to_copy (js ''jsaddrbook://b1.sqlite'') (js ''jsaddrbook://b2.sqlite''))
   \<in> set (fst (on_drop sample_drop_world (sample_view [sample_contact ''a'', sample_contact ''b''] 1)
       (sample_world []) (sample_view [sample_contact ''a'', sample_contact ''b''] 1) True
       (get_selected_rows (sample_world []) (\<lambda>j. j = 1, 1))
       (js ''jsaddrbook://b2.sqlite'') (js ''jsaddrbook://b1.sqlite'')
       (Some \<lparr>drag_action = 2, session_can_drop = True\<rparr>)))"
proof -
  let ?v = "sample_view [sample_contact ''a'', sample_contact ''b''] 1"
  let ?drop = "on_drop sample_drop_world ?v (world.truncate sample_drop_world) ?v True
       (get_selected_rows (world.truncate sample_drop_world) (\<lambda>j. j = 1, 1))
       (js ''jsaddrbook://b2.sqlite'') (js ''jsaddrbook://b1.sqlite'')
       (Some \<lparr>drag_action = 2, session_can_drop = True\<rparr>)"
  have target: "\<forall>c\<in>set (selected_cards (world.truncate sample_drop_world) ?v).
      target_directory (world.truncate sample_drop_world) (directory ?v)
        (directory_uid_of (cards sample_drop_world) c) \<noteq> None"
    unfolding sample_drop_world_simps using sample_target by fastforce
  have ne: "selected_cards (world.truncate sample_drop_world) ?v \<noteq> []"
    by (simp only: sample_drop_world_simps sample_selected_cards) simp
  have root: "\<not> starts_with all_directory_root (js ''jsaddrbook://b2.sqlite'')"
    by (simp add: all_directory_root_def)
  have fine: "(\<forall>ks k. call_error sample_drop_world ks k = None) \<and> (\<forall>ks k. deletion_error sample_drop_world ks k = None)"
    by (simp add: sample_drop_world_def sample_world_def world.extend_def)
  note moved = move_loses_nothing [where w = sample_drop_world and v = ?v and ks = "fst ?drop" and e = "snd ?drop",
      OF sample_selection(1) sample_selection(2) [folded sample_drop_world_simps(1)] ne target
        sample_drop_world_simps(4) root surjective_pairing, THEN conjunct2, THEN conjunct2]
  have "snd ?drop = None" by (rule mp [OF conjunct2 [OF moved] fine])
  from mp [OF conjunct1 [OF moved] this]
  show ?thesis
    unfolding sample_drop_world_simps sample_selected_cards by (simp add: sample_simps)
qed

theorem dropped_card_shown_twice_witness:
  "mset (map card (rows (run_view
     (map (\<lambda>n. (sample_world [], Notified (SubjectCard n) ListMemberAdded (Some (dir_uid (sample_world []) 1))))
       [sample_contact ''c'', sample_contact ''c''])
     (sample_view [sample_contact ''a''] 0))))
   = {#sample_contact ''c'', sample_contact ''c'', sample_contact ''a''#}"
proof -
  let ?v = "sample_view [sample_contact ''a''] 0"
  have "list_drop_card (cards (sample_world [])) (\<lambda>c. js ''c@x'') (\<lambda>c. True) id id
      (dir_uid (sample_world []) 1) (sample_contact ''c'') False []
    = ([(dir_uid (sample_world []) 1, uid_of (cards (sample_world [])) (sample_contact ''c''))],
       [sample_contact ''c'', sample_contact ''c''])"
    by (simp add: list_drop_card_def list_add_card_def replace_into_def Let_def)
  from dropped_card_shown_twice [OF sample_world_laws _ _ this refl refl, of ?v]
  show ?thesis by (simp add: sample_view_def ab_view_card_def Let_def)
qed

subsection \<open>Moving out of all address books\<close>

text \<open>
  When all address books are shown, a card may be dropped on the book it is in: it is replaced
  by a copy, with a new identifier, and deleted.  A mailing list is added to the target, but not
  taken out of its own book.
\<close>

lemma drop_on_own_book:
  "drop_card_calls (sample_drop_world) 1 all_directories_uri True True (sample_contact ''b'')
     = [DropCard 1 (sample_contact ''b'') True, DeleteCard 1 (sample_contact ''b'')]"
  by (simp add: drop_card_calls_def sample_drop_world_simps sample_simps get_directory_from_uid_def)

lemma list_not_moved:
  "is_list_of (cards w) c \<Longrightarrow>
     drop_card_calls w d all_directories_uri True True c = [AddMailList d (list_uri_of (cards w) c)]"
  by (simp add: drop_card_calls_def)

end
