(* ===== verification/AbSearch.thy ===== *)
theory AbSearch
  imports AbCard Utf8
begin

text \<open>
  Searching an address book: the words of a search and the query that is made of them,
  \<open>mailnews/base/src/ABQueryUtils.jsm\<close>, and the query language that \<open>search\<close> of
  \<open>mailnews/addrbook/modules/AddrBookDirectory.jsm\<close> and of \<open>AddrBookMailingList.jsm\<close> reads.

  \<open>toLowerCase\<close> is an argument, \<open>lower\<close>: nothing is used of it but that it makes \<open>true\<close> of
  \<open>TRUE\<close>.  The lemmas show that a query that is printed is read back as the tree it was printed
  from, and the property that a search finds exactly the cards that have each word in one of the
  fields (\<open>quick_search_exact\<close>).
\<close>

section \<open>The words of a search\<close>

definition word_separator :: "jchar \<Rightarrow> bool" where
  "word_separator c \<longleftrightarrow> c = ord CHR '','' \<or> js_ws c"

lemma extract_quoted_shorter:
  assumes "index_of 34 s = Some i"
    and "(t, after) = (case index_of 34 (drop (Suc i) s) of
           None \<Rightarrow> (drop (Suc i) s, []) | Some j \<Rightarrow> (take j (drop (Suc i) s), drop (j + 1) (drop (Suc i) s)))"
  shows "length (trim (take i s @ after)) < length s"
proof -
  have "i < length s" using index_of_SomeD [OF assms(1)] by simp
  moreover have "length after \<le> length s - Suc i" using assms(2) by (auto split: option.splits)
  ultimately have "length (take i s @ after) < length s" by simp
  with length_trim [of "take i s @ after"] show ?thesis by simp
qed

text \<open>The quoted terms, and what is left of the string without them.\<close>

function extract_quoted :: "jstr \<Rightarrow> jstr list \<times> jstr" where
  "extract_quoted s =
     (case index_of 34 s of
        None \<Rightarrow> ([], s)
      | Some i \<Rightarrow>
          let rest = drop (i + 1) s;
              (t, after) = (case index_of 34 rest of
                              None \<Rightarrow> (rest, [])
                            | Some j \<Rightarrow> (take j rest, drop (j + 1) rest));
              (ts, r) = extract_quoted (trim (take i s @ after))
          in (t # ts, r))"
  by pat_completeness auto

termination
  by (relation "measure length") (auto intro: extract_quoted_shorter)

declare extract_quoted.simps [simp del]

lemma split_words_shorter:
  assumes "dropWhile (\<lambda>c. \<not> word_separator c) s \<noteq> []"
  shows "length (dropWhile word_separator (dropWhile (\<lambda>c. \<not> word_separator c) s)) < length s"
proof -
  obtain c r where r: "dropWhile (\<lambda>c. \<not> word_separator c) s = c # r"
    using assms by (cases "dropWhile (\<lambda>c. \<not> word_separator c) s") auto
  then have "word_separator c" using hd_dropWhile [of "\<lambda>c. \<not> word_separator c" s] by simp
  moreover have "length (c # r) \<le> length s" using r by (metis length_dropWhile_le)
  ultimately show ?thesis using r length_dropWhile_le [of word_separator r] by simp
qed

text \<open>\<open>s.split(/[,\s]+/)\<close>.\<close>

function split_words :: "jstr \<Rightarrow> jstr list" where
  "split_words s =
     (let w = takeWhile (\<lambda>c. \<not> word_separator c) s; r = dropWhile (\<lambda>c. \<not> word_separator c) s
      in if r = [] then [w] else w # split_words (dropWhile word_separator r))"
  by pat_completeness auto

termination
  by (relation "measure length") (simp_all add: split_words_shorter)

declare split_words.simps [simp del]

definition get_search_tokens :: "jstr \<Rightarrow> jstr list" where
  "get_search_tokens s =
     (let s = rev (dropWhile word_separator (rev (dropWhile word_separator s)))
      in if s = [] then []
         else let (ts, r) = extract_quoted s
              in if r \<noteq> [] then ts @ split_words r else ts)"

section \<open>The query\<close>

definition encode_ab_term_value :: "jstr \<Rightarrow> js_error + jstr" where
  "encode_ab_term_value s =
     bindE (encode_uri_component s) (\<lambda>t.
       Inr (concat (map (\<lambda>c. if c = 40 then js ''%28'' else if c = 41 then js ''%29'' else [c]) t)))"

text \<open>\<open>model.replace(/@V/g, e)\<close>, after the part \<open>b\<close> of the model.\<close>

fun replace_value :: "jstr \<Rightarrow> jstr \<Rightarrow> jstr \<Rightarrow> jstr" where
  "replace_value e b (c # d # s) =
     (if c = 64 \<and> d = 86 then get_substitution b [64, 86] s e @ replace_value e (b @ [c, d]) s
      else c # replace_value e (b @ [c]) (d # s))"
| "replace_value e b s = s"

definition generate_query_uri :: "jstr \<Rightarrow> jstr list \<Rightarrow> js_error + jstr" where
  "generate_query_uri model search_words =
     (if search_words = [] then Inr []
      else bindE (mapE (\<lambda>w. bindE (encode_ab_term_value w) (\<lambda>e. Inr (replace_value e [] model))) search_words)
             (\<lambda>qs. Inr (js ''?(and'' @ concat qs @ js '')'')))"

text \<open>The default of the preference \<open>mail.addr_book.quicksearchquery.format\<close>.\<close>

definition quicksearch_format :: jstr where
  "quicksearch_format =
     js ''(or(DisplayName,c,@V)(FirstName,c,@V)(LastName,c,@V)(NickName,c,@V)'' @
     js ''(PrimaryEmail,c,@V)(SecondEmail,c,@V)(and(IsMailList,=,TRUE)(Notes,c,@V))'' @
     js ''(Company,c,@V)(Department,c,@V)(JobTitle,c,@V)(WebPage1,c,@V)(WebPage2,c,@V))''"

section \<open>Reading a query\<close>

datatype query = Cond jstr "jstr option" jstr | Group jstr "query list"

text \<open>
  The groups from \<open>currentQuery\<close> to \<open>rootQuery\<close>, each with its operation and its children so far;
  \<open>Above\<close> is when \<open>currentQuery\<close> is \<open>undefined\<close>, above the root.
\<close>

datatype builder = At "(jstr \<times> query list) list" | Above query

fun add_child :: "query \<Rightarrow> builder \<Rightarrow> js_error + builder" where
  "add_child q (At ((op, qs) # fs)) = Inr (At ((op, qs @ [q]) # fs))"
| "add_child q b = Inl TypeError"

fun open_group :: "jstr \<Rightarrow> builder \<Rightarrow> js_error + builder" where
  "open_group op (At (f # fs)) = Inr (At ((op, []) # f # fs))"
| "open_group op b = Inl TypeError"

fun close_group :: "builder \<Rightarrow> js_error + builder" where
  "close_group (At ((op, qs) # (op', qs') # fs)) = Inr (At ((op', qs' @ [Group op qs]) # fs))"
| "close_group (At [(op, qs)]) = Inr (Above (Group op qs))"
| "close_group b = Inl TypeError"

fun close_groups :: "nat \<Rightarrow> builder \<Rightarrow> js_error + builder" where
  "close_groups 0 b = Inr b"
| "close_groups (Suc n) b = bindE (close_group b) (close_groups n)"

function root_query :: "builder \<Rightarrow> query" where
  "root_query (Above q) = q"
| "root_query (At []) = Group (js ''or'') []"
| "root_query (At [(op, qs)]) = Group op qs"
| "root_query (At ((op, qs) # (op', qs') # fs)) = root_query (At ((op', qs' @ [Group op qs]) # fs))"
  by pat_completeness auto

termination
  by (relation "measure (\<lambda>b. case b of At fs \<Rightarrow> length fs | Above q \<Rightarrow> 0)") auto

text \<open>The match of \<open>lispRegexp\<close> and its length.\<close>

datatype lisp_token = OpenGroup jstr | Condition jstr nat

definition lisp_match :: "jstr \<Rightarrow> (lisp_token \<times> nat) option" where
  "lisp_match s =
     (case s of
        [] \<Rightarrow> None
      | c # r \<Rightarrow>
          if c \<noteq> 40 then None
          else if starts_with (js ''and'') r then Some (OpenGroup (js ''and''), 4)
          else if starts_with (js ''or'') r then Some (OpenGroup (js ''or''), 3)
          else if starts_with (js ''not'') r then Some (OpenGroup (js ''not''), 4)
          else
            let m = takeWhile (\<lambda>c. c \<noteq> 41) r;
                n = length (takeWhile (\<lambda>c. c = 41) (drop (length m) r))
            in if n = 0 then None else Some (Condition m n, 1 + length m + n))"

definition read_condition :: "(jstr \<Rightarrow> jstr) \<Rightarrow> jstr \<Rightarrow> js_error + query" where
  "read_condition lower s =
     (let p = split_on 44 s
      in bindE (decode_uri_component (if 2 < length p then p ! 2 else js ''undefined'')) (\<lambda>v.
           Inr (Cond (p ! 0) (if 1 < length p then Some (p ! 1) else None) (lower v))))"

fun parse_step :: "(jstr \<Rightarrow> jstr) \<Rightarrow> lisp_token \<Rightarrow> builder \<Rightarrow> js_error + builder" where
  "parse_step lower (OpenGroup op) b = open_group op b"
| "parse_step lower (Condition s n) b =
     (case b of
        Above q \<Rightarrow> Inl TypeError
      | At fs \<Rightarrow> bindE (read_condition lower s) (\<lambda>q. bindE (add_child q b) (close_groups (n - 1))))"

lemma lisp_match_length: "lisp_match s = Some (t, n) \<Longrightarrow> 0 < n \<and> s \<noteq> []"
  by (auto simp: lisp_match_def Let_def split: list.splits if_splits)

function parse_query :: "(jstr \<Rightarrow> jstr) \<Rightarrow> jstr \<Rightarrow> builder \<Rightarrow> js_error + query" where
  "parse_query lower s b =
     (case lisp_match s of
        None \<Rightarrow> Inr (root_query b)
      | Some (t, n) \<Rightarrow> bindE (parse_step lower t b) (parse_query lower (drop n s)))"
  by pat_completeness auto

termination
  by (relation "measure (\<lambda>(lower, s, b). length s)") (auto dest!: lisp_match_length)

declare parse_query.simps [simp del]

section \<open>Matching\<close>

text \<open>\<open>a < b\<close> for strings.\<close>

fun str_less :: "jstr \<Rightarrow> jstr \<Rightarrow> bool" where
  "str_less s [] = False"
| "str_less [] (d # t) = True"
| "str_less (c # s) (d # t) = (c < d \<or> c = d \<and> str_less s t)"

definition compare_value :: "jstr option \<Rightarrow> jstr \<Rightarrow> jstr \<Rightarrow> bool" where
  "compare_value condition card_value v =
     (if condition = Some (js ''='') then card_value = v
      else if condition = Some (js ''!='') then card_value \<noteq> v
      else if condition = Some (js ''lt'') then str_less card_value v
      else if condition = Some (js ''gt'') then str_less v card_value
      else if condition = Some (js ''bw'') then starts_with v card_value
      else if condition = Some (js ''ew'') then ends_with v card_value
      else if condition = Some (js ''c'') then index_of_str v card_value \<noteq> None
      else if condition = Some (js ''!c'') then index_of_str v card_value = None
      else False)"

definition match_condition ::
    "(jstr \<Rightarrow> jstr) \<Rightarrow> (jstr \<Rightarrow> bool) \<Rightarrow> js_value jsmap \<Rightarrow> jstr \<Rightarrow> jstr option \<Rightarrow> jstr \<Rightarrow> js_error + bool" where
  "match_condition lower list_test props name condition v =
     (if name = js ''IsMailList'' \<and> condition = Some (js ''='') then Inr (list_test v)
      else
        (case map_of props name of
           None \<Rightarrow> Inr (condition = Some (js ''!ex''))
         | Some p \<Rightarrow>
             if condition = Some (js ''ex'') then Inr True
             else (case p of JString s \<Rightarrow> Inr (compare_value condition (lower s) v) | _ \<Rightarrow> Inl TypeError)))"

text \<open>\<open>some\<close> and \<open>every\<close> stop at the first child that decides; \<open>not\<close> looks at the first child.\<close>

fun matches :: "(jstr \<Rightarrow> jstr) \<Rightarrow> (jstr \<Rightarrow> bool) \<Rightarrow> js_value jsmap \<Rightarrow> query \<Rightarrow> js_error + bool"
  and matches_some :: "(jstr \<Rightarrow> jstr) \<Rightarrow> (jstr \<Rightarrow> bool) \<Rightarrow> js_value jsmap \<Rightarrow> query list \<Rightarrow> js_error + bool"
  and matches_every :: "(jstr \<Rightarrow> jstr) \<Rightarrow> (jstr \<Rightarrow> bool) \<Rightarrow> js_value jsmap \<Rightarrow> query list \<Rightarrow> js_error + bool"
where
  "matches lower lt props (Cond name condition v) = match_condition lower lt props name condition v"
| "matches lower lt props (Group op qs) =
     (if op = js ''or'' then matches_some lower lt props qs
      else if op = js ''and'' then matches_every lower lt props qs
      else if op = js ''not'' then
        (case qs of [] \<Rightarrow> Inl TypeError | q # qs' \<Rightarrow> bindE (matches lower lt props q) (\<lambda>x. Inr (\<not> x)))
      else Inr False)"
| "matches_some lower lt props [] = Inr False"
| "matches_some lower lt props (q # qs) =
     bindE (matches lower lt props q) (\<lambda>x. if x then Inr True else matches_some lower lt props qs)"
| "matches_every lower lt props [] = Inr True"
| "matches_every lower lt props (q # qs) =
     bindE (matches lower lt props q) (\<lambda>x. if x then matches_every lower lt props qs else Inr False)"

definition search_properties :: "book_card \<Rightarrow> js_value jsmap" where
  "search_properties b =
     (case b of
        Contact c \<Rightarrow> properties c
      | ListCard l \<Rightarrow>
          [(js ''DisplayName'', JString (list_name l)), (js ''NickName'', JString (list_nick_name l)),
           (js ''Notes'', JString (list_description l))])"

fun filterE :: "('a \<Rightarrow> js_error + bool) \<Rightarrow> 'a list \<Rightarrow> js_error + 'a list" where
  "filterE f [] = Inr []"
| "filterE f (x # xs) = bindE (f x) (\<lambda>b. bindE (filterE f xs) (\<lambda>ys. Inr (if b then x # ys else ys)))"

text \<open>
  \<open>search\<close>: the cards that are reported to the listener, and whether the search finished well.
  The test for a mailing list is that of the directory; a mailing list has its own.
\<close>

definition search_with ::
    "(jstr \<Rightarrow> jstr) \<Rightarrow> (book_card \<Rightarrow> jstr \<Rightarrow> bool) \<Rightarrow> book_card list \<Rightarrow> jstr \<Rightarrow> js_error + bool \<times> book_card list" where
  "search_with lower list_test cards q =
     (if q = [] then Inr (False, [])
      else
        let q = (if hd q = 63 then tl q else q)
        in bindE (parse_query lower q (At [(js ''or'', [])])) (\<lambda>root.
             bindE (filterE (\<lambda>c. matches lower (list_test c) (search_properties c) root) cards) (\<lambda>cs.
               Inr (True, cs))))"

definition is_list_card :: "book_card \<Rightarrow> bool" where
  "is_list_card b = (case b of ListCard l \<Rightarrow> True | Contact c \<Rightarrow> False)"

definition directory_list_test :: "book_card \<Rightarrow> jstr \<Rightarrow> bool" where
  "directory_list_test b v \<longleftrightarrow> is_list_card b = (v = js ''true'')"

definition directory_search :: "(jstr \<Rightarrow> jstr) \<Rightarrow> book_card list \<Rightarrow> jstr \<Rightarrow> js_error + bool \<times> book_card list" where
  "directory_search lower = search_with lower directory_list_test"

definition list_search :: "(jstr \<Rightarrow> jstr) \<Rightarrow> book_card list \<Rightarrow> jstr \<Rightarrow> js_error + bool \<times> book_card list" where
  "list_search lower = search_with lower (\<lambda>c v. v = js ''true'')"


section \<open>Queries are read back as they are written\<close>

text \<open>A query as it is written: the values are still encoded, or stand for the word, \<open>@V\<close>.\<close>

datatype template = TCond jstr jstr jstr | TGroup jstr "template list"

fun print_template :: "template \<Rightarrow> jstr" where
  "print_template (TCond n c v) = 40 # n @ 44 # c @ 44 # v @ [41]"
| "print_template (TGroup op ts) = 40 # op @ concat (map print_template ts) @ [41]"

definition decoded :: "jstr \<Rightarrow> jstr" where
  "decoded v = (case decode_uri_component v of Inl e \<Rightarrow> [] | Inr s \<Rightarrow> s)"

fun query_of :: "(jstr \<Rightarrow> jstr) \<Rightarrow> template \<Rightarrow> query" where
  "query_of lower (TCond n c v) = Cond n (Some c) (lower (decoded v))"
| "query_of lower (TGroup op ts) = Group op (map (query_of lower) ts)"

definition operators :: "jstr list" where
  "operators = [js ''and'', js ''or'', js ''not'']"

definition free_of :: "jchar list \<Rightarrow> jstr \<Rightarrow> bool" where
  "free_of cs s \<longleftrightarrow> list_all (\<lambda>c. c \<notin> set cs) s"

fun template_ok :: "template \<Rightarrow> bool" where
  "template_ok (TCond n c v) \<longleftrightarrow>
     free_of [41, 44] n \<and> free_of [41, 44] c \<and> free_of [41, 44] v
     \<and> list_all (\<lambda>op. \<not> starts_with op n) operators \<and> (\<exists>s. decode_uri_component v = Inr s)"
| "template_ok (TGroup op ts) \<longleftrightarrow> op \<in> set operators \<and> ts \<noteq> [] \<and> list_all template_ok ts"

lemma starts_with_break: "x \<notin> set p \<Longrightarrow> starts_with p (n @ x # r) \<Longrightarrow> starts_with p n"
  by (induction p n rule: starts_with.induct) auto

lemma lisp_match_group:
  "op \<in> set operators \<Longrightarrow> lisp_match (40 # op @ r) = Some (OpenGroup op, 1 + length op)"
  by (auto simp: operators_def lisp_match_def)

lemma lisp_match_cond:
  assumes "free_of [41, 44] n" "free_of [41, 44] c" "free_of [41, 44] v"
    and "list_all (\<lambda>op. \<not> starts_with op n) operators" and "r = [] \<or> hd r \<noteq> 41"
  shows "lisp_match (40 # (n @ 44 # c @ 44 # v) @ replicate (Suc k) 41 @ r)
    = Some (Condition (n @ 44 # c @ 44 # v) (Suc k), 2 + length (n @ 44 # c @ 44 # v) + k)"
proof -
  let ?m = "n @ 44 # c @ 44 # v"
  have no_op: "\<not> starts_with op (?m @ x)" if "op \<in> set operators" for op x
  proof
    assume "starts_with op (?m @ x)"
    moreover have "44 \<notin> set op" using that by (auto simp: operators_def)
    ultimately have "starts_with op n" using starts_with_break [of 44 op n "c @ 44 # v @ x"] by simp
    with assms(4) that show False by (simp add: list_all_iff)
  qed
  have "takeWhile (\<lambda>c. c \<noteq> 41) (?m @ 41 # replicate k 41 @ r) = ?m"
    using assms(1-3) by (simp add: takeWhile_append2 free_of_def list_all_iff takeWhile_append)
  moreover have "takeWhile (\<lambda>c. c = 41) (41 # replicate k 41 @ r) = replicate (Suc k) 41"
    using assms(5) by (cases r) (auto simp: takeWhile_append takeWhile_replicate)
  ultimately show ?thesis
    using no_op [of _ "41 # replicate k 41 @ r"] unfolding lisp_match_def
    by (simp add: operators_def Let_def)
qed

lemma read_condition_print:
  assumes "free_of [41, 44] n" "free_of [41, 44] c" "free_of [41, 44] v" "decode_uri_component v = Inr s"
  shows "read_condition lower (n @ 44 # c @ 44 # v) = Inr (Cond n (Some c) (lower (decoded v)))"
proof -
  have "split_on 44 (n @ 44 # c @ 44 # v) = [n, c, v]"
  proof -
    have "44 \<notin> set n" "44 \<notin> set c" "44 \<notin> set v" using assms(1-3) by (auto simp: free_of_def list_all_iff)
    then show ?thesis by (simp add: split_on_append split_on_notin)
  qed
  with assms(4) show ?thesis by (simp add: read_condition_def decoded_def)
qed

lemma print_template_hd: "\<exists>r. print_template t = 40 # r"
  by (cases t) auto

lemma parse_template:
  assumes "template_ok t" and "r = [] \<or> hd r \<noteq> 41"
  shows "parse_query lower (print_template t @ replicate k 41 @ r) (At ((op, qs) # fs))
    = bindE (close_groups k (At ((op, qs @ [query_of lower t]) # fs))) (parse_query lower r)"
  using assms
proof (induction t arbitrary: k r op qs fs)
  case (TCond n c v)
  let ?m = "n @ 44 # c @ 44 # v"
  have s: "print_template (TCond n c v) @ replicate k 41 @ r = 40 # ?m @ replicate (Suc k) 41 @ r" by simp
  have "drop (2 + length ?m + k) (40 # ?m @ replicate (Suc k) 41 @ r) = r"
  proof -
    have "40 # ?m @ replicate (Suc k) 41 @ r = (40 # ?m @ replicate (Suc k) 41) @ r" by simp
    moreover have "length (40 # ?m @ replicate (Suc k) 41) = 2 + length ?m + k" by simp
    ultimately show ?thesis by (metis append_eq_conv_conj)
  qed
  moreover obtain x where "decode_uri_component v = Inr x" using TCond(1) by auto
  ultimately show ?case
    using TCond lisp_match_cond [of n c v r k] read_condition_print [of n c v x lower]
    unfolding s by (subst parse_query.simps) (simp del: replicate_Suc)
next
  case (TGroup op' ts)
  have list: "parse_query lower (concat (map print_template us) @ replicate k 41 @ r) (At ((op, qs) # fs))
      = bindE (close_groups k (At ((op, qs @ map (query_of lower) us) # fs))) (parse_query lower r)"
    if "us \<noteq> []" "set us \<subseteq> set ts" "r = [] \<or> hd r \<noteq> 41" for us k r op qs fs
    using that
  proof (induction us arbitrary: qs)
    case (Cons t us)
    have t: "template_ok t" using Cons.prems(2) TGroup.prems(1) by (auto simp: list_all_iff)
    have IH: "parse_query lower (print_template t @ replicate k 41 @ r) (At ((op, qs) # fs))
        = bindE (close_groups k (At ((op, qs @ [query_of lower t]) # fs))) (parse_query lower r)"
      if "r = [] \<or> hd r \<noteq> 41" for k r qs
      using TGroup.IH [of t r k op qs fs] t Cons.prems(2) that by auto
    show ?case
    proof (cases "us = []")
      case True
      with IH [of r k qs] Cons.prems(3) show ?thesis by simp
    next
      case False
      then obtain u us' where us: "us = u # us'" by (cases us) auto
      let ?r = "concat (map print_template us) @ replicate k 41 @ r"
      have "?r = [] \<or> hd ?r \<noteq> 41" using us print_template_hd [of u] by auto
      from IH [OF this, of 0 qs] Cons.IH [of "qs @ [query_of lower t]"] False Cons.prems
      show ?thesis by simp
    qed
  qed simp
  have ok: "op' \<in> set operators" "ts \<noteq> []" using TGroup.prems(1) by auto
  have s: "print_template (TGroup op' ts) @ replicate k 41 @ r
      = 40 # op' @ (concat (map print_template ts) @ replicate (Suc k) 41 @ r)" by simp
  have "parse_query lower (print_template (TGroup op' ts) @ replicate k 41 @ r) (At ((op, qs) # fs))
      = parse_query lower (concat (map print_template ts) @ replicate (Suc k) 41 @ r)
          (At ((op', []) # (op, qs) # fs))"
    unfolding s by (subst parse_query.simps) (simp add: lisp_match_group [OF ok(1)] del: replicate_Suc)
  also have "\<dots> = bindE (close_groups (Suc k) (At ((op', map (query_of lower) ts) # (op, qs) # fs)))
      (parse_query lower r)"
    using list [of ts r "Suc k" op' "[]" "(op, qs) # fs"] ok(2) TGroup.prems(2) by (simp del: replicate_Suc)
  finally show ?case by simp
qed

lemma query_roundtrip:
  assumes "template_ok t"
  shows "parse_query lower (print_template t) (At [(js ''or'', [])]) = Inr (Group (js ''or'') [query_of lower t])"
  using parse_template [OF assms, of "[]" lower 0 "js ''or''" "[]" "[]"]
  by (simp add: parse_query.simps [of lower "[]"] lisp_match_def)

section \<open>What a query means\<close>

text \<open>The cards that hold strings in the fields that are asked for.\<close>

definition text_fields :: "jstr list \<Rightarrow> book_card \<Rightarrow> bool" where
  "text_fields ns b \<longleftrightarrow>
     list_all (\<lambda>n. case map_of (search_properties b) n of
       None \<Rightarrow> True | Some p \<Rightarrow> (case p of JString s \<Rightarrow> True | _ \<Rightarrow> False)) ns"

fun holds :: "(jstr \<Rightarrow> jstr) \<Rightarrow> book_card \<Rightarrow> query \<Rightarrow> bool" where
  "holds lower b (Cond name condition v) \<longleftrightarrow>
     (if name = js ''IsMailList'' \<and> condition = Some (js ''='') then is_list_card b = (v = js ''true'')
      else case map_of (search_properties b) name of
             None \<Rightarrow> condition = Some (js ''!ex'')
           | Some p \<Rightarrow> condition = Some (js ''ex'') \<or> compare_value condition (lower (to_str p)) v)"
| "holds lower b (Group op qs) \<longleftrightarrow>
     (if op = js ''or'' then \<exists>q\<in>set qs. holds lower b q
      else if op = js ''and'' then \<forall>q\<in>set qs. holds lower b q
      else if op = js ''not'' then (case qs of [] \<Rightarrow> False | q # qs' \<Rightarrow> \<not> holds lower b q)
      else False)"

fun query_ok :: "jstr list \<Rightarrow> query \<Rightarrow> bool" where
  "query_ok ns (Cond n c v) \<longleftrightarrow> n \<in> set ns \<or> n = js ''IsMailList'' \<and> c = Some (js ''='')"
| "query_ok ns (Group op qs) \<longleftrightarrow> qs \<noteq> [] \<and> list_all (query_ok ns) qs"

fun asks_about :: "jstr list \<Rightarrow> template \<Rightarrow> bool" where
  "asks_about ns (TCond n c v) \<longleftrightarrow> n \<in> set ns \<or> n = js ''IsMailList'' \<and> c = js ''=''"
| "asks_about ns (TGroup op ts) \<longleftrightarrow> list_all (asks_about ns) ts"

lemma query_of_ok: "template_ok t \<Longrightarrow> asks_about ns t \<Longrightarrow> query_ok ns (query_of lower t)"
  by (induction t) (auto simp: list_all_iff)

lemma matches_holds:
  assumes "text_fields ns b"
  shows "query_ok ns q \<Longrightarrow>
    matches lower (directory_list_test b) (search_properties b) q = Inr (holds lower b q)"
proof (induction q)
  case (Cond name condition v)
  show ?case
  proof (cases "map_of (search_properties b) name")
    case None
    then show ?thesis by (simp add: match_condition_def directory_list_test_def)
  next
    case (Some p)
    have "\<exists>s. p = JString s" if "name \<in> set ns"
      using that assms Some by (force simp: text_fields_def list_all_iff split: js_value.splits)
    with Some Cond show ?thesis by (auto simp: match_condition_def directory_list_test_def)
  qed
next
  case (Group op qs)
  let ?m = "matches lower (directory_list_test b) (search_properties b)"
  have each: "?m q = Inr (holds lower b q)" if "q \<in> set qs" for q
    using Group that by (auto simp: list_all_iff)
  have "matches_some lower (directory_list_test b) (search_properties b) us
      = Inr (\<exists>q\<in>set us. holds lower b q)" if "set us \<subseteq> set qs" for us
    using that by (induction us) (auto simp: each)
  moreover have "matches_every lower (directory_list_test b) (search_properties b) us
      = Inr (\<forall>q\<in>set us. holds lower b q)" if "set us \<subseteq> set qs" for us
    using that by (induction us) (auto simp: each)
  moreover have "qs \<noteq> []" using Group.prems by simp
  ultimately show ?case using each by (cases qs) auto
qed

lemma filterE_Inr: "(\<And>x. x \<in> set xs \<Longrightarrow> f x = Inr (P x)) \<Longrightarrow> filterE f xs = Inr (filter P xs)"
  by (induction xs) auto

lemma search_template:
  assumes "template_ok t" "asks_about ns t" and "\<forall>b\<in>set cards. text_fields ns b"
  shows "directory_search lower cards (63 # print_template t) = Inr (True, filter (\<lambda>b. holds lower b (query_of lower t)) cards)"
proof -
  let ?q = "Group (js ''or'') [query_of lower t]"
  have "filterE (\<lambda>b. matches lower (directory_list_test b) (search_properties b) ?q) cards
      = Inr (filter (\<lambda>b. holds lower b ?q) cards)"
    using assms(3) query_of_ok [OF assms(1,2)] by (intro filterE_Inr matches_holds) auto
  moreover have "filter (\<lambda>b. holds lower b ?q) cards = filter (\<lambda>b. holds lower b (query_of lower t)) cards"
    by simp
  ultimately show ?thesis
    using query_roundtrip [OF assms(1), of lower] by (simp add: directory_search_def search_with_def)
qed

section \<open>The words in the query\<close>

definition term_char :: "jchar \<Rightarrow> bool" where
  "term_char c \<longleftrightarrow> unreserved c \<and> c \<noteq> 40 \<and> c \<noteq> 41"

definition escape_parentheses :: "jstr \<Rightarrow> jstr" where
  "escape_parentheses t =
     concat (map (\<lambda>c. if c = 40 then js ''%28'' else if c = 41 then js ''%29'' else [c]) t)"

lemma escape_parentheses_simps:
  "escape_parentheses [] = []"
  "escape_parentheses (s @ t) = escape_parentheses s @ escape_parentheses t"
  "escape_parentheses (c # t) = (if c = 40 then js ''%28'' else if c = 41 then js ''%29'' else [c]) @ escape_parentheses t"
  by (simp_all add: escape_parentheses_def)

lemma escape_parentheses_id: "list_all escape_char t \<Longrightarrow> escape_parentheses t = t"
  by (induction t) (auto simp: escape_parentheses_simps escape_char_def is_digit_def)

lemma escaped_parentheses: "percent_bytes (utf8_bytes 40) = js ''%28''" "percent_bytes (utf8_bytes 41) = js ''%29''"
  by (simp_all add: utf8_bytes_def percent_bytes_def hex_digit_def)

lemma parentheses_not_surrogates:
  "\<not> high_surrogate 40" "\<not> low_surrogate 40" "\<not> high_surrogate 41" "\<not> low_surrogate 41"
  by (simp_all add: high_surrogate_def low_surrogate_def)

lemma term_encoding:
  "list_all (\<lambda>c. c < 65536) s \<Longrightarrow>
   bindE (encode_unless unreserved s) (\<lambda>t. Inr (escape_parentheses t)) = encode_unless term_char s"
proof (induction s rule: well_formed.induct)
  case (2 c)
  have "escape_parentheses (percent_bytes (utf8_bytes c)) = percent_bytes (utf8_bytes c)"
    using 2 by (intro escape_parentheses_id escaped_code_point) simp
  then show ?case
    by (auto simp: escape_parentheses_simps term_char_def escaped_parentheses parentheses_not_surrogates)
next
  case (3 c d s)
  have c: "escape_parentheses (percent_bytes (utf8_bytes c)) = percent_bytes (utf8_bytes c)"
    using 3 by (intro escape_parentheses_id escaped_code_point) simp
  have cd: "escape_parentheses (percent_bytes (utf8_bytes (65536 + (c - 55296) * 1024 + (d - 56320))))
      = percent_bytes (utf8_bytes (65536 + (c - 55296) * 1024 + (d - 56320)))"
    if "high_surrogate c" "low_surrogate d"
    using that by (intro escape_parentheses_id escaped_code_point surrogate_pair_bound)
  have surr: "high_surrogate c \<Longrightarrow> \<not> unreserved c" using surrogates_reserved by blast
  have pair: "high_surrogate c \<Longrightarrow>
      bindE (encode_unless unreserved s) (\<lambda>t. Inr (escape_parentheses t)) = encode_unless term_char s"
    using 3 by (cases "low_surrogate d") simp_all
  have next_: "bindE (encode_unless unreserved (d # s)) (\<lambda>t. Inr (escape_parentheses t)) = encode_unless term_char (d # s)"
    if "\<not> high_surrogate c" using 3 that by simp
  have t: "term_char c \<longleftrightarrow> unreserved c \<and> c \<noteq> 40 \<and> c \<noteq> 41" by (rule term_char_def)
  show ?case
    using pair [symmetric] next_ [symmetric] c cd surr
    by (cases "high_surrogate c") (auto simp: escape_parentheses_simps t escaped_parentheses parentheses_not_surrogates bindE_assoc)
qed (simp add: escape_parentheses_simps)

lemma encode_ab_term_value_alt:
  "list_all (\<lambda>c. c < 65536) w \<Longrightarrow> encode_ab_term_value w = encode_unless term_char w"
  using term_encoding [of w]
  by (simp add: encode_ab_term_value_def encode_uri_component_def escape_parentheses_def)

text \<open>The words that can be searched: the others make \<open>encodeURIComponent\<close> throw.\<close>

definition search_word :: "jstr \<Rightarrow> bool" where
  "search_word w \<longleftrightarrow> list_all (\<lambda>c. c < 65536) w \<and> well_formed w"

lemma encoded_word:
  assumes "search_word w"
  obtains e where "encode_ab_term_value w = Inr e" "decode_uri_component e = Inr w"
    "free_of [36, 41, 44, 64] e"
proof -
  have b: "list_all (\<lambda>c. c < 65536) w" using assms by (simp add: search_word_def)
  have "\<exists>e. encode_unless term_char w = Inr e"
    using assms surrogates_reserved by (intro encode_unless_total) (auto simp: search_word_def term_char_def)
  then obtain e where e: "encode_unless term_char w = Inr e" by blast
  have "\<not> term_char 37" using unreserved_not_percent by (simp add: term_char_def)
  then have "decode_uri_component e = Inr w" by (intro decode_encode_unless [OF _ b e])
  moreover have "free_of [36, 41, 44, 64] e"
    using encode_unless_chars [OF b e]
    by (auto simp: free_of_def list_all_iff term_char_def unreserved_def escape_char_def is_digit_def
        is_upper_def is_lower_def)
  ultimately show ?thesis using that e encode_ab_term_value_alt [OF b] by simp
qed

fun fill :: "jstr \<Rightarrow> template \<Rightarrow> template" where
  "fill e (TCond n c v) = TCond n c (if v = [64, 86] then e else v)"
| "fill e (TGroup op ts) = TGroup op (map (fill e) ts)"

text \<open>The values of a model are \<open>@V\<close>, or free of it.\<close>

fun model_ok :: "template \<Rightarrow> bool" where
  "model_ok (TCond n c v) \<longleftrightarrow> free_of [64] n \<and> free_of [64] c \<and> (v = [64, 86] \<or> free_of [64] v)"
| "model_ok (TGroup op ts) \<longleftrightarrow> free_of [64] op \<and> list_all model_ok ts"

lemma replace_value_other [simp]: "c \<noteq> 64 \<Longrightarrow> replace_value e b (c # s) = c # replace_value e (b @ [c]) s"
  by (cases s) auto

lemma replace_value_free: "free_of [64] p \<Longrightarrow> replace_value e b (p @ s) = p @ replace_value e (b @ p) s"
  by (induction p arbitrary: b) (auto simp: free_of_def)

lemma replace_value_model:
  assumes "free_of [36] e"
  shows "model_ok t \<Longrightarrow>
    replace_value e b (print_template t @ s) = print_template (fill e t) @ replace_value e (b @ print_template t) s"
proof (induction t arbitrary: b s)
  case (TCond n c v)
  have e: "get_substitution b [64, 86] a e = e" for b a
    using assms by (intro get_substitution_plain) (auto simp: free_of_def list_all_iff)
  from TCond show ?case
    by (auto simp: replace_value_free e)
next
  case (TGroup op ts)
  have list: "replace_value e b (concat (map print_template us) @ s)
      = concat (map (print_template \<circ> fill e) us) @ replace_value e (b @ concat (map print_template us)) s"
    if "set us \<subseteq> set ts" for us b s
    using that TGroup by (induction us arbitrary: b) (auto simp: list_all_iff)
  from TGroup.prems show ?case
    using list [of ts] by (simp add: replace_value_free)
qed

lemma replace_value_all:
  assumes "free_of [36] e" "model_ok t"
  shows "replace_value e [] (print_template t) = print_template (fill e t)"
  using replace_value_model [OF assms, of "[]" "[]"] by simp

lemma generated_query:
  assumes "model_ok t" "ws \<noteq> []" "list_all2 (\<lambda>w e. encode_ab_term_value w = Inr e \<and> free_of [36] e) ws es"
  shows "generate_query_uri (print_template t) ws = Inr (63 # print_template (TGroup (js ''and'') (map (\<lambda>e. fill e t) es)))"
proof -
  have "mapE (\<lambda>w. bindE (encode_ab_term_value w) (\<lambda>e. Inr (replace_value e [] (print_template t)))) ws
      = Inr (map (\<lambda>e. print_template (fill e t)) es)"
    using assms(3) by (induction rule: list_all2_induct) (simp_all add: replace_value_all [OF _ assms(1)])
  with assms(2) show ?thesis by (simp add: generate_query_uri_def comp_def)
qed

section \<open>The model of the quick search\<close>

definition quick_fields :: "jstr list" where
  "quick_fields =
     [js ''DisplayName'', js ''FirstName'', js ''LastName'', js ''NickName'', js ''PrimaryEmail'',
      js ''SecondEmail'', js ''Company'', js ''Department'', js ''JobTitle'', js ''WebPage1'', js ''WebPage2'']"

definition asks_for :: "jstr \<Rightarrow> template" where
  "asks_for f = TCond f (js ''c'') (js ''@V'')"

definition quick_template :: template where
  "quick_template = TGroup (js ''or'')
     (map asks_for (take 6 quick_fields)
      @ TGroup (js ''and'') [TCond (js ''IsMailList'') (js ''='') (js ''TRUE''), asks_for (js ''Notes'')]
      # map asks_for (drop 6 quick_fields))"

lemma quick_template_prints: "print_template quick_template = quicksearch_format"
  by (simp add: quick_template_def quicksearch_format_def asks_for_def quick_fields_def)

lemma quick_template_model: "model_ok quick_template"
  by (simp add: quick_template_def asks_for_def quick_fields_def free_of_def)

lemma quick_template_ok:
  assumes "free_of [36, 41, 44, 64] e" "decode_uri_component e = Inr w"
  shows "template_ok (fill e quick_template)"
  using assms by (simp add: quick_template_def asks_for_def quick_fields_def free_of_def operators_def list_all_iff)

definition searched_fields :: "jstr list" where
  "searched_fields = js ''Notes'' # quick_fields"

lemma quick_template_asks: "asks_about searched_fields (fill e quick_template)"
  by (simp add: quick_template_def asks_for_def quick_fields_def searched_fields_def)

text \<open>What a quick search for a word should find.\<close>

definition field_has :: "(jstr \<Rightarrow> jstr) \<Rightarrow> jstr \<Rightarrow> book_card \<Rightarrow> jstr \<Rightarrow> bool" where
  "field_has lower w b f =
     (case map_of (search_properties b) f of
        None \<Rightarrow> False
      | Some p \<Rightarrow> index_of_str (lower w) (lower (to_str p)) \<noteq> None)"

definition quick_match :: "(jstr \<Rightarrow> jstr) \<Rightarrow> jstr \<Rightarrow> book_card \<Rightarrow> bool" where
  "quick_match lower w b \<longleftrightarrow>
     list_ex (field_has lower w b) quick_fields \<or> is_list_card b \<and> field_has lower w b (js ''Notes'')"

lemma holds_contains:
  assumes "f \<noteq> js ''IsMailList''" "decode_uri_component e = Inr w"
  shows "holds lower b (query_of lower (fill e (asks_for f))) = field_has lower w b f"
  using assms by (auto simp: asks_for_def decoded_def field_has_def compare_value_def split: option.splits)

lemma quick_holds:
  assumes "decode_uri_component e = Inr w" "lower (js ''TRUE'') = js ''true''"
  shows "holds lower b (query_of lower (fill e quick_template)) = quick_match lower w b"
proof -
  have f: "holds lower b (query_of lower (fill e (asks_for f))) = field_has lower w b f"
    if "f \<in> set quick_fields \<or> f = js ''Notes''" for f
    using that assms(1) by (intro holds_contains) (auto simp: quick_fields_def)
  have l: "holds lower b (query_of lower (fill e (TCond (js ''IsMailList'') (js ''='') (js ''TRUE'')))) = is_list_card b"
    using assms(2) by (simp add: decoded_def)
  have t: "set (take 6 quick_fields) \<subseteq> set quick_fields" "set (drop 6 quick_fields) \<subseteq> set quick_fields"
    "set quick_fields = set (take 6 quick_fields) \<union> set (drop 6 quick_fields)"
    by (auto simp: quick_fields_def)
  let ?h = "\<lambda>t. holds lower b (query_of lower (fill e t))"
  have "?h quick_template \<longleftrightarrow> (\<exists>f\<in>set (take 6 quick_fields). ?h (asks_for f))
      \<or> ?h (TCond (js ''IsMailList'') (js ''='') (js ''TRUE'')) \<and> ?h (asks_for (js ''Notes''))
      \<or> (\<exists>f\<in>set (drop 6 quick_fields). ?h (asks_for f))"
    unfolding quick_template_def by auto
  also have "\<dots> \<longleftrightarrow> quick_match lower w b"
    using t f l by (auto simp: quick_match_def list_ex_iff)
  finally show ?thesis .
qed

lemma encoded_words:
  assumes "list_all search_word ws"
  shows "\<exists>es. list_all2 (\<lambda>w e. encode_ab_term_value w = Inr e \<and> decode_uri_component e = Inr w
    \<and> free_of [36, 41, 44, 64] e) ws es"
  using assms
proof (induction ws)
  case (Cons w ws)
  then obtain es where es: "list_all2 (\<lambda>w e. encode_ab_term_value w = Inr e \<and> decode_uri_component e = Inr w
    \<and> free_of [36, 41, 44, 64] e) ws es" by auto
  from Cons.prems have "search_word w" by simp
  then obtain e where "encode_ab_term_value w = Inr e" "decode_uri_component e = Inr w"
    "free_of [36, 41, 44, 64] e" by (rule encoded_word)
  with es show ?case by (intro exI [of _ "e # es"]) simp
qed (auto intro: exI [of _ "[]"])

lemma quick_search_finds:
  assumes "ws \<noteq> []" "list_all search_word ws" "list_all (text_fields searched_fields) cards" "lower (js ''TRUE'') = js ''true''"
  shows "\<exists>q. generate_query_uri quicksearch_format ws = Inr q
    \<and> directory_search lower cards q = Inr (True, filter (\<lambda>b. list_all (\<lambda>w. quick_match lower w b) ws) cards)"
proof -
  obtain es where es: "list_all2 (\<lambda>w e. encode_ab_term_value w = Inr e \<and> decode_uri_component e = Inr w
    \<and> free_of [36, 41, 44, 64] e) ws es" using encoded_words [OF assms(2)] by blast
  let ?t = "TGroup (js ''and'') (map (\<lambda>e. fill e quick_template) es)"
  have "list_all2 (\<lambda>w e. encode_ab_term_value w = Inr e \<and> free_of [36] e) ws es"
    using es by (rule list_all2_mono) (auto simp: free_of_def list_all_iff)
  from generated_query [OF quick_template_model assms(1) this]
  have q: "generate_query_uri quicksearch_format ws = Inr (63 # print_template ?t)"
    by (simp only: quick_template_prints)
  have "es \<noteq> []" using es assms(1) by auto
  moreover have "list_all (\<lambda>e. template_ok (fill e quick_template)) es"
    using es by (induction rule: list_all2_induct) (auto intro: quick_template_ok)
  ultimately have "template_ok ?t" by (simp add: operators_def list_all_iff)
  then have "directory_search lower cards (63 # print_template ?t)
      = Inr (True, filter (\<lambda>b. holds lower b (query_of lower ?t)) cards)"
    using assms(3) by (intro search_template [where ns = searched_fields])
      (auto simp: list_all_iff quick_template_asks)
  moreover have "holds lower b (query_of lower ?t) = list_all (\<lambda>w. quick_match lower w b) ws" for b
  proof -
    have "(\<forall>e\<in>set es. holds lower b (query_of lower (fill e quick_template))) = list_all (\<lambda>w. quick_match lower w b) ws"
      using es by (induction rule: list_all2_induct) (auto simp: quick_holds [where lower = lower, OF _ assms(4)])
    then show ?thesis by simp
  qed
  ultimately show ?thesis using q by simp
qed

section \<open>The quick search\<close>

text \<open>C34: the quick search finds exactly the cards it is meant to find.  The query that is made of
  the words and of the default model can be read and run, and a card is reported just when each
  word is in one of the eleven fields, or in the notes of a mailing list, whatever characters the
  word has (parentheses, commas, percent signs, at signs, letters outside ASCII).\<close>

theorem quick_search_exact:
  assumes "ws \<noteq> []" "list_all search_word ws" "list_all (text_fields searched_fields) cards"
    and "lower (js ''TRUE'') = js ''true''"
  shows "\<exists>q. generate_query_uri quicksearch_format ws = Inr q
    \<and> directory_search lower cards q = Inr (True, filter (\<lambda>b. list_all (\<lambda>w. quick_match lower w b) ws) cards)"
  using assms by (rule quick_search_finds)

definition ascii_lower :: "jstr \<Rightarrow> jstr" where
  "ascii_lower s = map (\<lambda>c. if is_upper c then c + 32 else c) s"

definition example_contact :: "jstr \<Rightarrow> jstr \<Rightarrow> book_card" where
  "example_contact name notes =
     Contact (addr_book_card\<lparr>properties := properties addr_book_card @
       [(js ''DisplayName'', JString name), (js ''Notes'', JString notes)]\<rparr>)"

lemma quick_search_exact_witness:
  "\<exists>q. generate_query_uri quicksearch_format [js ''(a)'', [233]] = Inr q
    \<and> directory_search ascii_lower [example_contact (js ''x(A)'' @ [233]) [], example_contact (js ''B'') (js ''(a)'')] q
      = Inr (True, [example_contact (js ''x(A)'' @ [233]) []])"
proof -
  let ?ws = "[js ''(a)'', [233]]"
  let ?cs = "[example_contact (js ''x(A)'' @ [233]) [], example_contact (js ''B'') (js ''(a)'')]"
  have "list_all search_word ?ws" "list_all (text_fields searched_fields) ?cs"
    "ascii_lower (js ''TRUE'') = js ''true''"
    "filter (\<lambda>b. list_all (\<lambda>w. quick_match ascii_lower w b) ?ws) ?cs = [example_contact (js ''x(A)'' @ [233]) []]"
    by code_simp+
  with quick_search_exact [of ?ws ?cs ascii_lower] show ?thesis by simp
qed

text \<open>
  A search in a mailing list takes the test for a list to hold of every contact: a contact is
  found by its notes there, and not in the book.
\<close>

lemma list_search_finds_notes:
  "bindE (generate_query_uri quicksearch_format [js ''secret''])
     (directory_search ascii_lower [example_contact (js ''B'') (js ''secret'')]) = Inr (True, [])"
  "bindE (generate_query_uri quicksearch_format [js ''secret''])
     (list_search ascii_lower [example_contact (js ''B'') (js ''secret'')])
   = Inr (True, [example_contact (js ''B'') (js ''secret'')])"
  by code_simp+

text \<open>A comma after a quoted term makes an empty word.\<close>

lemma empty_search_word:
  "get_search_tokens ([34] @ js ''foo'' @ [34] @ js '', bar'') = [js ''foo'', [], js ''bar'']"
  by code_simp

end
