(* ===== verification/AbDirectory.thy ===== *)
theory AbDirectory
  imports AbView AbSearch
begin

text \<open>
  An address book that is kept in a database: \<open>AddrBookDirectory\<close> of
  \<open>mailnews/addrbook/modules/AddrBookDirectory.jsm\<close>, with its tables and its caches, and the
  directory that \<open>asDirectory\<close> of \<open>AddrBookMailingList.jsm\<close> makes of a mailing list.

  A method is a function of the book that gives its result, or the exception, and the book after
  it; the notifications it sends are collected in the book.  What the methods keep and promise is
  in \<open>AbDirectoryLaws\<close>.
\<close>

section \<open>The book\<close>

text \<open>The object that a notification is about when it is a directory.\<close>

datatype dir_object = ThisBook | ListDirectory mail_list

text \<open>The notifications; the JSON text of the last is given as the object it is made of.\<close>

datatype notice =
    Notice "(book_card, dir_object) subject" topic "jstr option"
  | PropertiesUpdated ab_card "(js_value \<times> js_value) jsmap"

type_synonym list_row = "jstr \<times> jstr \<times> jstr"  \<comment> \<open>name, nickname, description\<close>

record book =
  this_uid :: jstr                             \<comment> \<open>\<open>this.UID\<close>\<close>
  this_uri :: jstr                             \<comment> \<open>\<open>this.URI\<close>\<close>
  is_read_only :: bool                         \<comment> \<open>\<open>_readOnly\<close>\<close>
  overrides_read_only :: bool                  \<comment> \<open>\<open>_overrideReadOnly\<close>\<close>
  properties_table :: "(jstr \<times> jstr \<times> js_value) list"  \<comment> \<open>card, name, value\<close>
  lists_table :: "list_row jsmap"              \<comment> \<open>the key is \<open>uid\<close>\<close>
  list_cards_table :: "(jstr \<times> jstr) list"     \<comment> \<open>list, card\<close>
  card_cache :: "js_value jsmap jsmap option"  \<comment> \<open>\<open>_cards\<close>, once it has been read\<close>
  list_cache :: "list_row jsmap option"        \<comment> \<open>\<open>_lists\<close>, once it has been read\<close>
  uids_made :: nat                             \<comment> \<open>how often \<open>newUID()\<close> was called\<close>
  sent :: "notice list"                        \<comment> \<open>the notifications, oldest first\<close>

text \<open>
  What the methods use of the platform: \<open>newUID()\<close>, \<open>Number(s)\<close> for a string that is compared
  with a number, and the collator of \<open>compareAddressBooks\<close>.
\<close>

record book_env =
  new_uid :: "nat \<Rightarrow> jstr"
  number_of :: "jstr \<Rightarrow> nat option"
  compare_names :: "jstr \<Rightarrow> jstr \<Rightarrow> int"

subsection \<open>Methods\<close>

type_synonym 'a act = "book \<Rightarrow> (js_error + 'a) \<times> book"

definition act_return :: "'a \<Rightarrow> 'a act" where
  "act_return x b = (Inr x, b)"

definition act_throw :: "js_error \<Rightarrow> 'a act" where
  "act_throw e b = (Inl e, b)"

definition act_bind :: "'a act \<Rightarrow> ('a \<Rightarrow> 'c act) \<Rightarrow> 'c act" where
  "act_bind m f b = (case m b of (Inl e, b') \<Rightarrow> (Inl e, b') | (Inr x, b') \<Rightarrow> f x b')"

definition act_get :: "(book \<Rightarrow> 'a) \<Rightarrow> 'a act" where
  "act_get f b = (Inr (f b), b)"

definition act_put :: "(book \<Rightarrow> book) \<Rightarrow> unit act" where
  "act_put f b = (Inr (), f b)"

fun act_each :: "('a \<Rightarrow> 'c act) \<Rightarrow> 'a list \<Rightarrow> 'c list act" where
  "act_each f [] = act_return []"
| "act_each f (x # xs) = act_bind (f x) (\<lambda>y. act_bind (act_each f xs) (\<lambda>ys. act_return (y # ys)))"

definition notify :: "notice \<Rightarrow> unit act" where
  "notify n = act_put (\<lambda>b. b\<lparr>sent := sent b @ [n]\<rparr>)"

definition notify_card :: "ab_card \<Rightarrow> topic \<Rightarrow> jstr \<Rightarrow> unit act" where
  "notify_card c t u = notify (Notice (SubjectCard (Contact c)) t (Some u))"

definition notify_list :: "mail_list \<Rightarrow> topic \<Rightarrow> jstr \<Rightarrow> unit act" where
  "notify_list l t u = notify (Notice (SubjectDirectory (ListDirectory l)) t (Some u))"

definition make_uid :: "book_env \<Rightarrow> jstr act" where
  "make_uid E b = (Inr (new_uid E (uids_made b)), b\<lparr>uids_made := Suc (uids_made b)\<rparr>)"

text \<open>Reading \<open>UID\<close> of a contact, which gives it one when it has none.\<close>

definition card_uid :: "ab_card \<Rightarrow> jstr" where
  "card_uid c = (case uid c of Some u \<Rightarrow> u | None \<Rightarrow> [])"

definition with_uid :: "book_env \<Rightarrow> ab_card \<Rightarrow> ab_card act" where
  "with_uid E c =
     (if card_uid c = [] then act_bind (make_uid E) (\<lambda>u. act_return (snd (get_UID u c)))
      else act_return c)"

section \<open>The caches\<close>

definition read_properties :: "(jstr \<times> jstr \<times> js_value) list \<Rightarrow> js_value jsmap jsmap" where
  "read_properties t =
     fold (\<lambda>(u, n, v) m. AList.update u (AList.update n v (case map_of m u of Some p \<Rightarrow> p | None \<Rightarrow> [])) m) t []"

definition lists_of :: "list_row jsmap act" where
  "lists_of b =
     (case list_cache b of
        Some m \<Rightarrow> (Inr m, b)
      | None \<Rightarrow>
          let m = fold (\<lambda>(u, r). AList.update u r) (lists_table b) []
          in (Inr m, b\<lparr>list_cache := Some m\<rparr>))"

definition cards_of :: "js_value jsmap jsmap act" where
  "cards_of b =
     (case card_cache b of
        Some m \<Rightarrow> (Inr m, b)
      | None \<Rightarrow>
          let m = read_properties (properties_table b)
          in (Inr m, b\<lparr>card_cache := Some m\<rparr>))"

definition table_properties :: "jstr \<Rightarrow> (jstr \<times> jstr \<times> js_value) list \<Rightarrow> js_value jsmap" where
  "table_properties u t = fold (\<lambda>(k, n, v) m. if k = u then AList.update n v m else m) t []"

definition load_card_properties :: "jstr \<Rightarrow> book \<Rightarrow> js_value jsmap" where
  "load_card_properties u b =
     (case Option.bind (card_cache b) (\<lambda>m. map_of m u) of
        Some p \<Rightarrow> p
      | None \<Rightarrow> table_properties u (properties_table b))"

definition get_card :: "jstr \<Rightarrow> book \<Rightarrow> ab_card" where
  "get_card u b = \<lparr>uid = Some u, directory_uid = this_uid b, properties = load_card_properties u b\<rparr>"

section \<open>Saving\<close>

text \<open>What a value becomes in a column of type \<open>TEXT\<close>.\<close>

fun sql_text :: "js_value \<Rightarrow> js_value" where
  "sql_text JUndefined = JNull"
| "sql_text JNull = JNull"
| "sql_text (JBool x) = JString (if x then js ''1'' else js ''0'')"
| "sql_text (JString s) = JString s"
| "sql_text (JNumber n) = JString (nat_str n)"

definition last_modified :: jstr where
  "last_modified = js ''LastModifiedDate''"

definition worth_saving :: "jstr \<times> js_value \<Rightarrow> bool" where
  "worth_saving x \<longleftrightarrow>
     fst x \<noteq> last_modified \<and> snd x \<noteq> JNull \<and> snd x \<noteq> JUndefined \<and> snd x \<noteq> JString []"

definition saved_entries :: "nat \<Rightarrow> js_value jsmap \<Rightarrow> js_value jsmap" where
  "saved_entries now ps = filter worth_saving ps @ [(last_modified, JString (nat_str now))]"

definition table_rows :: "jstr \<Rightarrow> js_value jsmap \<Rightarrow> (jstr \<times> jstr \<times> js_value) list" where
  "table_rows u ps = map (\<lambda>(n, v). (u, n, sql_text v)) ps"

definition map_of_entries :: "js_value jsmap \<Rightarrow> js_value jsmap" where
  "map_of_entries ps = fold (\<lambda>(n, v). AList.update n v) ps []"

text \<open>\<open>now\<close> is the time in seconds.  \<open>cachedCard.clear()\<close> throws when the cache has no such card.\<close>

definition save_card_properties :: "nat \<Rightarrow> ab_card \<Rightarrow> ab_card act" where
  "save_card_properties now c b =
     (let u = card_uid c;
          entries = saved_entries now (properties c);
          t = filter (\<lambda>(k, x). k \<noteq> u) (properties_table b) @ table_rows u entries;
          c' = set_property last_modified (JString (nat_str now)) c
      in case card_cache b of
           None \<Rightarrow> (Inr c', b\<lparr>properties_table := t\<rparr>)
         | Some m \<Rightarrow>
             if map_of m u = None then (Inl TypeError, b)
             else (Inr c', b\<lparr>properties_table := t,
                             card_cache := Some (AList.update u (map_of_entries entries) m)\<rparr>))"

definition save_list :: "mail_list \<Rightarrow> unit act" where
  "save_list l =
     (let u = list_uid l; r = (list_name l, list_nick_name l, list_description l)
      in act_bind lists_of (\<lambda>m. act_put (\<lambda>b.
           b\<lparr>lists_table := filter (\<lambda>(k, x). k \<noteq> u) (lists_table b) @ [(u, r)],
             list_cache := Some (AList.update u r m)\<rparr>)))"

text \<open>\<open>new AddrBookMailingList\<close>.\<close>

definition make_list :: "book \<Rightarrow> jstr \<times> list_row \<Rightarrow> mail_list" where
  "make_list b x =
     \<lparr>list_uid = fst x, list_name = fst (snd x), list_nick_name = fst (snd (snd x)),
      list_description = snd (snd (snd x)), parent_uid = this_uid b, parent_uri = this_uri b\<rparr>"

section \<open>Reading\<close>

definition child_nodes :: "book_env \<Rightarrow> mail_list list act" where
  "child_nodes E = act_bind lists_of (\<lambda>m. act_get (\<lambda>b.
     array_sort (\<lambda>x y. compare_names E (list_name x) (list_name y)) (map (make_list b) m)))"

definition book_child_cards :: "book_card list act" where
  "book_child_cards = act_bind lists_of (\<lambda>l. act_bind cards_of (\<lambda>m. act_get (\<lambda>b.
     map (\<lambda>x. ListCard (make_list b x)) l @ map (\<lambda>x. Contact (get_card (fst x) b)) m)))"

text \<open>\<open>search\<close>: the cards are those of \<open>childCards\<close>.\<close>

definition book_search :: "(jstr \<Rightarrow> jstr) \<Rightarrow> jstr \<Rightarrow> (bool \<times> book_card list) act" where
  "book_search lower q =
     (if q = [] then act_return (False, [])
      else act_bind book_child_cards (\<lambda>cs.
        case directory_search lower cs q of Inl e \<Rightarrow> act_throw e | Inr r \<Rightarrow> act_return r))"

definition has_card :: "book_env \<Rightarrow> ab_card \<Rightarrow> bool act" where
  "has_card E c = act_bind (with_uid E c) (\<lambda>c. act_bind lists_of (\<lambda>l.
     if map_of l (card_uid c) \<noteq> None then act_return True
     else act_bind cards_of (\<lambda>m. act_return (map_of m (card_uid c) \<noteq> None))))"

definition has_directory :: "jstr \<Rightarrow> bool act" where
  "has_directory u = act_bind lists_of (\<lambda>m. act_return (map_of m u \<noteq> None))"

definition has_mail_list_with_name :: "(jstr \<Rightarrow> jstr) \<Rightarrow> jstr \<Rightarrow> bool act" where
  "has_mail_list_with_name lower name =
     act_bind lists_of (\<lambda>m. act_return (list_ex (\<lambda>(u, n, x). lower n = lower name) m))"

text \<open>\<open>LOWER\<close> of SQLite changes the letters of ASCII only.\<close>

definition selects :: "jstr \<Rightarrow> jstr \<Rightarrow> bool \<Rightarrow> jstr \<times> jstr \<times> js_value \<Rightarrow> bool" where
  "selects p v case_sensitive r \<longleftrightarrow>
     fst (snd r) = p \<and>
     (case snd (snd r) of
        JString s \<Rightarrow> if case_sensitive then s = v else to_lower s = to_lower v
      | _ \<Rightarrow> False)"

definition get_card_from_property :: "jstr \<Rightarrow> jstr \<Rightarrow> bool \<Rightarrow> book \<Rightarrow> ab_card option" where
  "get_card_from_property p v cs b =
     map_option (\<lambda>r. get_card (fst r) b) (find (selects p v cs) (properties_table b))"

definition get_cards_from_property :: "jstr \<Rightarrow> jstr \<Rightarrow> bool \<Rightarrow> book \<Rightarrow> ab_card list" where
  "get_cards_from_property p v cs b =
     map (\<lambda>r. get_card (fst r) b) (filter (selects p v cs) (properties_table b))"

definition card_for_email_address :: "jstr \<Rightarrow> book \<Rightarrow> ab_card option" where
  "card_for_email_address a b =
     (case get_card_from_property (js ''PrimaryEmail'') a False b of
        Some c \<Rightarrow> Some c
      | None \<Rightarrow> get_card_from_property (js ''SecondEmail'') a False b)"

section \<open>Adding and changing contacts\<close>

definition not_stored :: "jstr list" where
  "not_stored =
     [js ''DbRowID'', js ''LowercasePrimaryEmail'', js ''LowercaseSecondEmail'', js ''RecordKey'', js ''UID'']"

definition copied_card :: "jstr \<Rightarrow> jstr \<Rightarrow> js_value jsmap \<Rightarrow> ab_card" where
  "copied_card d u ps =
     fold (\<lambda>(n, v) c. if n \<in> set not_stored then c else set_property n v c) ps
       (addr_book_card\<lparr>directory_uid := d, uid := Some u\<rparr>)"

definition check_read_only :: "unit act" where
  "check_read_only b =
     (if is_read_only b \<and> \<not> overrides_read_only b then (Inl Failure, b) else (Inr (), b))"

definition cache_empty_card :: "jstr \<Rightarrow> unit act" where
  "cache_empty_card u = act_put (\<lambda>b. b\<lparr>card_cache := map_option (AList.update u []) (card_cache b)\<rparr>)"

definition drop_card :: "book_env \<Rightarrow> nat \<Rightarrow> ab_card \<Rightarrow> bool \<Rightarrow> ab_card act" where
  "drop_card E now c copy =
     act_bind check_read_only (\<lambda>_.
     act_bind (with_uid E c) (\<lambda>c.
       if card_uid c = [] then act_throw NoIdentifier
       else
         act_bind (if copy then make_uid E else act_return (card_uid c)) (\<lambda>u.
         act_bind (cache_empty_card u) (\<lambda>_.
         act_bind (act_get this_uid) (\<lambda>d.
         act_bind (save_card_properties now (copied_card d u (properties c))) (\<lambda>n.
         act_bind (notify_card n ContactCreated d) (\<lambda>_.
           act_return n)))))))"

definition add_card :: "book_env \<Rightarrow> nat \<Rightarrow> ab_card \<Rightarrow> ab_card act" where
  "add_card E now c = drop_card E now c False"

text \<open>\<open>a == b\<close>.\<close>

fun loosely_equal :: "book_env \<Rightarrow> js_value \<Rightarrow> js_value \<Rightarrow> bool" where
  "loosely_equal E (JString s) (JString t) = (s = t)"
| "loosely_equal E (JString s) (JNumber n) = (number_of E s = Some n)"
| "loosely_equal E (JString s) (JBool x) = (number_of E s = Some (if x then 1 else 0))"
| "loosely_equal E (JNumber m) (JString t) = (number_of E t = Some m)"
| "loosely_equal E (JNumber m) (JNumber n) = (m = n)"
| "loosely_equal E (JNumber m) (JBool x) = (m = (if x then 1 else 0))"
| "loosely_equal E (JBool y) (JString t) = (number_of E t = Some (if y then 1 else 0))"
| "loosely_equal E (JBool y) (JNumber n) = (n = (if y then 1 else 0))"
| "loosely_equal E (JBool y) (JBool x) = (x = y)"
| "loosely_equal E a b \<longleftrightarrow> a \<in> {JNull, JUndefined} \<and> b \<in> {JNull, JUndefined}"

definition changed_step :: "book_env \<Rightarrow> js_value jsmap \<Rightarrow> jstr \<times> js_value \<Rightarrow> jstr list \<Rightarrow> jstr list" where
  "changed_step E old x ch =
     (let (n, v) = x; w0 = (case map_of old n of Some w \<Rightarrow> w | None \<Rightarrow> JUndefined)
      in if map_of old n = None \<and> v \<notin> {JNull, JUndefined, JString []}
         then (if n \<in> set ch then ch else ch @ [n])
         else if loosely_equal E w0 v then filter (\<lambda>k. k \<noteq> n) ch
         else ch)"

definition changed_properties :: "book_env \<Rightarrow> js_value jsmap \<Rightarrow> js_value jsmap \<Rightarrow> jstr list" where
  "changed_properties E old ps =
     filter (\<lambda>k. k \<noteq> last_modified) (fold (changed_step E old) ps (remdups (map fst old)))"

text \<open>\<open>v || null\<close>.\<close>

definition or_null :: "js_value \<Rightarrow> js_value" where
  "or_null v = (if v \<in> {JUndefined, JBool False, JString [], JNumber 0} then JNull else v)"

definition change_data :: "js_value jsmap \<Rightarrow> ab_card \<Rightarrow> jstr list \<Rightarrow> (js_value \<times> js_value) jsmap" where
  "change_data old c ch =
     map (\<lambda>n. (n, or_null (case map_of old n of Some v \<Rightarrow> v | None \<Rightarrow> JUndefined), get_property c n JNull)) ch"

definition modify_card :: "book_env \<Rightarrow> nat \<Rightarrow> ab_card \<Rightarrow> unit act" where
  "modify_card E now c =
     act_bind check_read_only (\<lambda>_.
     act_bind (with_uid E c) (\<lambda>c.
     act_bind (act_get (load_card_properties (card_uid c))) (\<lambda>old.
     let ch = changed_properties E old (properties c)
     in act_bind (save_card_properties now c) (\<lambda>c.
          if ch = [] then act_return ()
          else
            act_bind (act_get (get_card (card_uid c))) (\<lambda>c.
            act_bind (act_get this_uid) (\<lambda>d.
            act_bind (notify_card c ContactUpdated d) (\<lambda>_.
              notify (PropertiesUpdated c (change_data old c ch)))))))))"

section \<open>Deleting contacts\<close>

definition list_directory_delete_card :: "jstr \<Rightarrow> ab_card \<Rightarrow> unit act" where
  "list_directory_delete_card l c b =
     (if (l, card_uid c) \<in> set (list_cards_table b)
      then notify_card c ListMemberRemoved l
             (b\<lparr>list_cards_table := filter (\<lambda>x. x \<noteq> (l, card_uid c)) (list_cards_table b)\<rparr>)
      else (Inr (), b))"

definition list_directory_delete_cards :: "book_env \<Rightarrow> jstr \<Rightarrow> ab_card list \<Rightarrow> unit act" where
  "list_directory_delete_cards E l cs =
     act_bind (act_each (with_uid E) cs) (\<lambda>cs.
     act_bind (act_each (list_directory_delete_card l) cs) (\<lambda>_. act_return ()))"

definition forget_card :: "jstr \<Rightarrow> unit act" where
  "forget_card u = act_put (\<lambda>b.
     b\<lparr>properties_table := filter (\<lambda>(k, x). k \<noteq> u) (properties_table b),
       card_cache := map_option (AList.delete u) (card_cache b)\<rparr>)"

text \<open>The cards that are deleted lose their directory, \<open>card.directoryUID = null\<close>.\<close>

definition tell_deleted :: "ab_card \<Rightarrow> ab_card act" where
  "tell_deleted c =
     act_bind (act_get this_uid) (\<lambda>d.
     act_bind (notify_card c ContactDeleted d) (\<lambda>_. act_return (set_directory_UID [] c)))"

definition delete_cards :: "book_env \<Rightarrow> ab_card list \<Rightarrow> unit act" where
  "delete_cards E cs =
     act_bind check_read_only (\<lambda>_.
     act_bind (act_each (with_uid E) cs) (\<lambda>cs.
     act_bind (act_each (\<lambda>c. forget_card (card_uid c)) cs) (\<lambda>_.
     act_bind (act_each tell_deleted cs) (\<lambda>cs.
     act_bind (child_nodes E) (\<lambda>ls.
     act_bind (act_each (\<lambda>l. list_directory_delete_cards E (list_uid l) cs) ls) (\<lambda>_.
       act_return ()))))))"

section \<open>Mailing lists\<close>

definition valid_list_name :: "jstr \<Rightarrow> bool" where
  "valid_list_name n \<longleftrightarrow>
     n \<noteq> [] \<and> index_of_str [32, 32] n = None \<and> list_all (\<lambda>c. index_of c n = None) [44, 59, 34, 60, 62]"

definition check_writable :: "unit act" where
  "check_writable b = (if is_read_only b then (Inl Failure, b) else (Inr (), b))"

definition add_mail_list :: "book_env \<Rightarrow> bool \<Rightarrow> jstr \<Rightarrow> jstr \<Rightarrow> jstr \<Rightarrow> mail_list act" where
  "add_mail_list E is_list name nick desc =
     act_bind check_writable (\<lambda>_.
       if \<not> is_list then act_throw Unexpected
       else if \<not> valid_list_name name then act_throw IllegalValue
       else
         act_bind (make_uid E) (\<lambda>u.
         act_bind (act_get (\<lambda>b. make_list b (u, name, nick, desc))) (\<lambda>l.
         act_bind (save_list l) (\<lambda>_.
         act_bind (act_get this_uid) (\<lambda>d.
         act_bind (notify_list l ListCreated d) (\<lambda>_. act_return l))))))"

definition forget_list :: "jstr \<Rightarrow> unit act" where
  "forget_list u = act_put (\<lambda>b.
     let t = filter (\<lambda>(k, x). k \<noteq> u) (lists_table b)
     in b\<lparr>lists_table := t,
          list_cache := map_option (AList.delete u) (list_cache b),
          list_cards_table := filter (\<lambda>(l, c). l \<in> set (map fst t)) (list_cards_table b)\<rparr>)"

definition delete_directory :: "jstr \<Rightarrow> unit act" where
  "delete_directory u =
     act_bind check_writable (\<lambda>_.
     act_bind lists_of (\<lambda>m.
       case map_of m u of
         None \<Rightarrow> act_throw TypeError
       | Some r \<Rightarrow>
           act_bind (act_get (\<lambda>b. make_list b (u, r))) (\<lambda>l.
           act_bind (forget_list u) (\<lambda>_.
           act_bind (act_get this_uid) (\<lambda>d. notify_list l ListDeleted d)))))"

definition list_directory_child_cards :: "jstr \<Rightarrow> book \<Rightarrow> ab_card list" where
  "list_directory_child_cards l b =
     map (\<lambda>x. get_card (snd x) b) (filter (\<lambda>x. fst x = l) (list_cards_table b))"

definition add_member :: "jstr \<Rightarrow> jstr \<Rightarrow> unit act" where
  "add_member l u = act_put (\<lambda>b.
     b\<lparr>list_cards_table := filter (\<lambda>x. x \<noteq> (l, u)) (list_cards_table b) @ [(l, u)]\<rparr>)"

definition list_directory_add_card :: "book_env \<Rightarrow> nat \<Rightarrow> jstr \<Rightarrow> ab_card \<Rightarrow> ab_card act" where
  "list_directory_add_card E now l c =
     (if primary_email c = [] then act_return c
      else
        act_bind (with_uid E c) (\<lambda>c.
        act_bind (has_card E c) (\<lambda>h.
        act_bind (if h then act_return c else add_card E now c) (\<lambda>c.
        act_bind (add_member l (card_uid c)) (\<lambda>_.
        act_bind (notify_card c ListMemberAdded l) (\<lambda>_. act_return c))))))"

definition list_directory_drop_card :: "book_env \<Rightarrow> nat \<Rightarrow> jstr \<Rightarrow> ab_card \<Rightarrow> bool \<Rightarrow> unit act" where
  "list_directory_drop_card E now l c copy =
     act_bind (if copy then drop_card E now c True else act_return c) (\<lambda>c.
     act_bind (if primary_email c = [] then act_return c else with_uid E c) (\<lambda>c.
     act_bind (list_directory_add_card E now l c) (\<lambda>_.
       notify_card c ListMemberAdded l)))"

definition edit_mail_list_to_database :: "mail_list \<Rightarrow> unit act" where
  "edit_mail_list_to_database l =
     (if \<not> valid_list_name (list_name l) then act_throw IllegalValue
      else
        act_bind (save_list l) (\<lambda>_.
        act_bind (act_get this_uid) (\<lambda>d. notify_list l ListUpdated d)))"

section \<open>Adding many contacts\<close>

text \<open>
  The loop over the cards: the rows it binds and the identifiers it has used.  \<open>fails\<close> is whether
  the database refuses the rows; what other methods do while it works on them is left out.
\<close>

fun bulk_cards ::
    "book_env \<Rightarrow> jstr list \<Rightarrow> ab_card list \<Rightarrow> (jstr \<times> jstr \<times> js_value) list act" where
  "bulk_cards E used [] = act_return []"
| "bulk_cards E used (c # cs) =
     act_bind (with_uid E c) (\<lambda>c.
     act_bind (if card_uid c = [] \<or> card_uid c \<in> set used then make_uid E else act_return (card_uid c)) (\<lambda>u.
     let ps = filter (\<lambda>x. fst x \<notin> set not_stored) (properties c)
     in act_bind (act_put (\<lambda>b. b\<lparr>card_cache := map_option (AList.update u (map_of_entries ps)) (card_cache b)\<rparr>)) (\<lambda>_.
        act_bind (bulk_cards E (u # used) cs) (\<lambda>t. act_return (table_rows u ps @ t)))))"

definition bulk_add_cards :: "book_env \<Rightarrow> bool \<Rightarrow> ab_card list \<Rightarrow> unit act" where
  "bulk_add_cards E fails cs =
     (if cs = [] then act_return ()
      else
        act_bind (bulk_cards E [] cs) (\<lambda>t.
          if fails \<and> t \<noteq> [] then act_throw Failure
          else
            act_bind (act_put (\<lambda>b. b\<lparr>properties_table := properties_table b @ t\<rparr>)) (\<lambda>_.
              notify (Notice (SubjectDirectory ThisBook) DirectoryInvalidated None))))"

end
