(* ===== verification/AbDirectoryLaws.thy ===== *)
theory AbDirectoryLaws
  imports AbDirectory
begin

text \<open>
  What the methods of \<open>AbDirectory\<close> promise.  A method has a specification over the book before
  and after it, \<open>act_spec\<close>, which the rules put together along its calls; the tables are seen as
  the map \<open>contacts\<close> from identifiers to properties.
\<close>

section \<open>Specifications of methods\<close>

definition act_spec :: "(book \<Rightarrow> bool) \<Rightarrow> 'a act \<Rightarrow> ('a \<Rightarrow> book \<Rightarrow> bool) \<Rightarrow> (book \<Rightarrow> bool) \<Rightarrow> bool" where
  "act_spec P m Q X \<longleftrightarrow>
     (\<forall>b. P b \<longrightarrow> (case m b of (Inr x, b') \<Rightarrow> Q x b' | (Inl e, b') \<Rightarrow> X b'))"

abbreviation keeps :: "(book \<Rightarrow> bool) \<Rightarrow> 'a act \<Rightarrow> bool" where
  "keeps P m \<equiv> act_spec P m (\<lambda>_. P) P"

named_theorems keeps_rules \<open>what the methods keep\<close>

lemma spec_never: "(\<And>b. \<not> P b) \<Longrightarrow> act_spec P m Q X"
  by (simp add: act_spec_def)

lemma spec_return: "(\<And>b. P b \<Longrightarrow> Q x b) \<Longrightarrow> act_spec P (act_return x) Q X"
  by (simp add: act_spec_def act_return_def)

lemma spec_throw: "(\<And>b. P b \<Longrightarrow> X b) \<Longrightarrow> act_spec P (act_throw e) Q X"
  by (simp add: act_spec_def act_throw_def)

lemma spec_get: "(\<And>b. P b \<Longrightarrow> Q (f b) b) \<Longrightarrow> act_spec P (act_get f) Q X"
  by (simp add: act_spec_def act_get_def)

lemma spec_put: "(\<And>b. P b \<Longrightarrow> Q () (f b)) \<Longrightarrow> act_spec P (act_put f) Q X"
  by (simp add: act_spec_def act_put_def)

lemma spec_bind:
  assumes "act_spec P m R X" "\<And>x. act_spec (R x) (f x) Q X"
  shows "act_spec P (act_bind m f) Q X"
  unfolding act_spec_def
proof (intro allI impI)
  fix b assume "P b"
  with assms(1) have m: "case m b of (Inr x, b') \<Rightarrow> R x b' | (Inl e, b') \<Rightarrow> X b'" by (simp add: act_spec_def)
  show "case act_bind m f b of (Inr x, b') \<Rightarrow> Q x b' | (Inl e, b') \<Rightarrow> X b'"
  proof (cases "m b")
    case (Pair r b')
    with m assms(2) show ?thesis by (cases r) (auto simp: act_spec_def act_bind_def)
  qed
qed

lemma spec_conseq:
  assumes "act_spec P' m Q' X'" "\<And>b. P b \<Longrightarrow> P' b" "\<And>x b. Q' x b \<Longrightarrow> Q x b" "\<And>b. X' b \<Longrightarrow> X b"
  shows "act_spec P m Q X"
  unfolding act_spec_def
proof (intro allI impI)
  fix b assume "P b"
  with assms(1,2) have "case m b of (Inr x, b') \<Rightarrow> Q' x b' | (Inl e, b') \<Rightarrow> X' b'" by (simp add: act_spec_def)
  with assms(3,4) show "case m b of (Inr x, b') \<Rightarrow> Q x b' | (Inl e, b') \<Rightarrow> X b'"
    by (auto split: prod.splits sum.splits)
qed

lemma spec_each:
  assumes "\<And>ps ys x qs. xs = ps @ x # qs \<Longrightarrow> act_spec (I ps ys) (f x) (\<lambda>y. I (ps @ [x]) (ys @ [y])) X"
  shows "act_spec (I [] []) (act_each f xs) (\<lambda>ys. I xs ys) X"
proof -
  have "act_spec (I ps ys) (act_each f qs) (\<lambda>zs. I (ps @ qs) (ys @ zs)) X" if "xs = ps @ qs" for ps ys qs
    using that
  proof (induction qs arbitrary: ps ys)
    case (Cons x qs)
    have "act_spec (I (ps @ [x]) (ys @ [y])) (act_each f qs) (\<lambda>zs. I (ps @ x # qs) (ys @ y # zs)) X" for y
      using Cons.IH [of "ps @ [x]" "ys @ [y]"] Cons.prems by simp
    then show ?case
      unfolding act_each.simps
      by (intro spec_bind [OF assms [OF Cons.prems]]) (auto intro!: spec_bind spec_return)
  qed (auto intro: spec_return)
  from this [of "[]" xs "[]"] show ?thesis by simp
qed

lemma keeps_bind [keeps_rules]: "keeps P m \<Longrightarrow> (\<And>x. keeps P (f x)) \<Longrightarrow> keeps P (act_bind m f)"
  by (rule spec_bind)

lemma keeps_simple [keeps_rules]:
  "keeps P (act_return x)" "keeps P (act_throw e)" "keeps P (act_get g)"
  by (simp_all add: spec_return spec_throw spec_get)

lemma keeps_act_each [keeps_rules]: "(\<And>x. x \<in> set xs \<Longrightarrow> keeps P (f x)) \<Longrightarrow> keeps P (act_each f xs)"
  by (rule spec_each [where I = "\<lambda>_ _. P"]) simp

lemma keeps_if [keeps_rules]: "keeps P m \<Longrightarrow> keeps P m' \<Longrightarrow> keeps P (if c then m else m')"
  by simp

lemma keeps_conj: "keeps P m \<Longrightarrow> keeps Q m \<Longrightarrow> keeps (\<lambda>b. P b \<and> Q b) m"
  by (auto simp: act_spec_def split: prod.splits sum.splits)

lemma spec_and:
  assumes "act_spec P m Q X" and "keeps R m"
  shows "act_spec (\<lambda>b. P b \<and> R b) m (\<lambda>x b. Q x b \<and> R b) (\<lambda>b. X b \<and> R b)"
  unfolding act_spec_def
proof (intro allI impI)
  fix b assume "P b \<and> R b"
  then have "case m b of (Inr x, b') \<Rightarrow> Q x b' | (Inl e, b') \<Rightarrow> X b'"
    "case m b of (Inr x, b') \<Rightarrow> R b' | (Inl e, b') \<Rightarrow> R b'"
    using assms by (simp_all add: act_spec_def)
  then show "case m b of (Inr x, b') \<Rightarrow> Q x b' \<and> R b' | (Inl e, b') \<Rightarrow> X b' \<and> R b'"
    by (cases "m b"; cases "fst (m b)") auto
qed

lemma keeps_after: "keeps P m \<Longrightarrow> P b \<Longrightarrow> P (snd (m b))"
  by (cases "m b"; cases "fst (m b)") (auto simp: act_spec_def)

text \<open>What only counts identifiers and notifications.\<close>

definition steady :: "(book \<Rightarrow> bool) \<Rightarrow> bool" where
  "steady P \<longleftrightarrow> (\<forall>b k s. P (b\<lparr>uids_made := k\<rparr>) = P b \<and> P (b\<lparr>sent := s\<rparr>) = P b)"

lemma keeps_notify [keeps_rules]:
  "steady P \<Longrightarrow> keeps P (notify n)" "steady P \<Longrightarrow> keeps P (notify_card c t u)" "steady P \<Longrightarrow> keeps P (notify_list l t u)"
  by (simp_all add: notify_card_def notify_list_def notify_def steady_def spec_put)

lemma keeps_make_uid [keeps_rules]: "steady P \<Longrightarrow> keeps P (make_uid E)"
  by (simp add: act_spec_def make_uid_def steady_def)

lemma keeps_with_uid [keeps_rules]: "steady P \<Longrightarrow> keeps P (with_uid E c)"
  by (auto simp: with_uid_def intro!: keeps_rules)

lemma keeps_checks [keeps_rules]: "keeps P check_read_only" "keeps P check_writable"
  by (simp_all add: act_spec_def check_read_only_def check_writable_def)

section \<open>The contents of the tables\<close>

definition contacts :: "(jstr \<times> jstr \<times> js_value) list \<Rightarrow> jstr \<Rightarrow> (jstr \<Rightarrow> js_value option) option" where
  "contacts t u =
     (if u \<in> fst ` set t then Some (map_of (rev (map snd (filter (\<lambda>r. fst r = u) t)))) else None)"

definition texts :: "js_value jsmap \<Rightarrow> js_value jsmap" where
  "texts ps = map (\<lambda>(n, v). (n, sql_text v)) ps"

lemma sql_text_idem [simp]: "sql_text (sql_text v) = sql_text v"
  by (cases v) simp_all

lemma map_of_texts: "map_of (texts ps) n = map_option sql_text (map_of ps n)"
  by (simp add: texts_def map_of_map)

lemma map_of_fold_update: "map_of (fold (\<lambda>(n, v). AList.update n v) xs m) = map_of (rev xs @ m)"
  by (induction xs arbitrary: m) (auto simp: update_conv' fun_eq_iff map_add_def split: option.splits)

lemma map_of_entries_texts: "map_of (texts (map_of_entries ps)) = map_of (rev (texts ps))"
proof -
  have "map_of (texts (map_of_entries ps)) n = map_option sql_text (map_of (rev ps) n)" for n
    unfolding map_of_texts map_of_entries_def map_of_fold_update by simp
  moreover have "rev (texts ps) = texts (rev ps)" by (simp add: texts_def rev_map)
  ultimately show ?thesis by (simp add: fun_eq_iff map_of_texts)
qed

lemma table_properties_fold:
  "table_properties u t = fold (\<lambda>(n, v). AList.update n v) (map snd (filter (\<lambda>r. fst r = u) t)) []"
proof -
  have "fold (\<lambda>(k, n, v) m. if k = u then AList.update n v m else m) t m
      = fold (\<lambda>(n, v). AList.update n v) (map snd (filter (\<lambda>r. fst r = u) t)) m" for m
    by (induction t arbitrary: m) (auto split: prod.splits)
  then show ?thesis by (simp add: table_properties_def)
qed

lemma map_of_table_properties:
  "u \<in> fst ` set t \<Longrightarrow> contacts t u = Some (map_of (table_properties u t))"
  by (simp add: contacts_def table_properties_fold map_of_fold_update)

lemma table_properties_snoc:
  "table_properties u (t @ [(k, n, v)]) =
    (if k = u then AList.update n v (table_properties u t) else table_properties u t)"
  by (simp add: table_properties_def)

lemma table_properties_absent: "u \<notin> fst ` set t \<Longrightarrow> table_properties u t = []"
  by (induction t rule: rev_induct) (auto simp: table_properties_snoc table_properties_def)

lemma read_properties_snoc:
  "read_properties (t @ [(k, n, v)]) =
    AList.update k (AList.update n v (case map_of (read_properties t) k of Some p \<Rightarrow> p | None \<Rightarrow> [])) (read_properties t)"
  by (simp add: read_properties_def)

lemma map_of_read_properties:
  "map_of (read_properties t) u = (if u \<in> fst ` set t then Some (table_properties u t) else None)"
proof (induction t rule: rev_induct)
  case Nil
  show ?case by (simp add: read_properties_def)
next
  case (snoc r t)
  obtain k n v where "r = (k, n, v)" by (cases r)
  with snoc show ?case
    by (auto simp: read_properties_snoc update_conv' table_properties_snoc table_properties_absent)
qed

lemma contacts_filter:
  "contacts (filter (\<lambda>(k, x). k \<noteq> u) t) = (contacts t)(u := None)"
proof
  fix k
  have "filter (\<lambda>r. fst r = k \<and> (case r of (k, x) \<Rightarrow> k \<noteq> u)) t = filter (\<lambda>r. fst r = k) t" if "k \<noteq> u"
    using that by (intro filter_cong) auto
  then show "contacts (filter (\<lambda>(k, x). k \<noteq> u) t) k = ((contacts t)(u := None)) k"
    by (auto simp: contacts_def conj_commute)
qed

lemma contacts_append_rows:
  assumes "contacts t u = None"
  shows "contacts (t @ table_rows u ps) =
    (if ps = [] then contacts t else (contacts t)(u \<mapsto> map_of (rev (texts ps))))"
proof
  fix k
  have u: "u \<notin> fst ` set t" using assms by (auto simp: contacts_def split: if_splits)
  then have t: "filter (\<lambda>r. fst r = u) t = []" by (auto simp: filter_empty_conv)
  have r: "map snd (filter (\<lambda>r. fst r = u) (table_rows u ps)) = texts ps"
    by (induction ps) (auto simp: table_rows_def texts_def)
  have f: "fst ` set (table_rows u ps) = (if ps = [] then {} else {u})"
    by (cases ps) (auto simp: table_rows_def)
  show "contacts (t @ table_rows u ps) k =
    (if ps = [] then contacts t else (contacts t)(u \<mapsto> map_of (rev (texts ps)))) k"
  proof (cases "k = u")
    case True
    have "u \<in> fst ` set (t @ table_rows u ps) \<longleftrightarrow> ps \<noteq> []" using u f by (simp add: image_Un)
    with True t r assms show ?thesis by (simp add: contacts_def)
  next
    case False
    then have "filter (\<lambda>r. fst r = k) (table_rows u ps) = []"
      by (auto simp: table_rows_def filter_empty_conv)
    moreover have "k \<in> fst ` set (t @ table_rows u ps) \<longleftrightarrow> k \<in> fst ` set t"
      using False f by (simp add: image_Un)
    ultimately show ?thesis using False by (simp add: contacts_def)
  qed
qed

lemma contacts_replace:
  "contacts (filter (\<lambda>(k, x). k \<noteq> u) t @ table_rows u ps)
    = (contacts t)(u := if ps = [] then None else Some (map_of (rev (texts ps))))"
proof -
  have "contacts (filter (\<lambda>(k, x). k \<noteq> u) t) u = None" by (simp add: contacts_filter)
  from contacts_append_rows [OF this, of ps] show ?thesis by (simp add: contacts_filter)
qed

lemma contacts_None: "contacts t u = None \<longleftrightarrow> u \<notin> fst ` set t"
  by (simp add: contacts_def)

section \<open>A consistent book\<close>

text \<open>The tables hold texts, and the cache of the contacts shows what is in the table.\<close>

definition cards_agree :: "book \<Rightarrow> bool" where
  "cards_agree b \<longleftrightarrow>
     list_all (\<lambda>r. sql_text (snd (snd r)) = snd (snd r)) (properties_table b) \<and>
     (\<forall>m. card_cache b = Some m \<longrightarrow>
        (\<forall>u. map_option (\<lambda>p. map_of (texts p)) (map_of m u) = contacts (properties_table b) u))"

definition lists_agree :: "book \<Rightarrow> bool" where
  "lists_agree b \<longleftrightarrow>
     distinct (map fst (lists_table b)) \<and>
     (\<forall>m. list_cache b = Some m \<longrightarrow> distinct (map fst m) \<and> map_of m = map_of (lists_table b))"

text \<open>A member of a mailing list is a contact of the book, and the list is there.\<close>

definition members_known :: "book \<Rightarrow> bool" where
  "members_known b \<longleftrightarrow>
     distinct (list_cards_table b) \<and>
     (\<forall>(l, u)\<in>set (list_cards_table b). l \<in> fst ` set (lists_table b) \<and> u \<in> fst ` set (properties_table b))"

definition book_consistent :: "book \<Rightarrow> bool" where
  "book_consistent b \<longleftrightarrow> cards_agree b \<and> lists_agree b \<and> members_known b"

lemma steady_parts [keeps_rules]:
  "steady cards_agree" "steady lists_agree" "steady members_known" "steady book_consistent"
  by (simp_all add: steady_def cards_agree_def lists_agree_def members_known_def book_consistent_def)

subsection \<open>The caches\<close>

lemma map_of_table_properties_mem:
  "map_of (table_properties u t) n = Some v \<Longrightarrow> (u, n, v) \<in> set t"
proof -
  assume "map_of (table_properties u t) n = Some v"
  then have "(n, v) \<in> set (map snd (filter (\<lambda>r. fst r = u) t))"
    unfolding table_properties_fold map_of_fold_update by (auto dest: map_of_SomeD)
  then show "(u, n, v) \<in> set t" by auto
qed

lemma texts_of_table:
  assumes "list_all (\<lambda>r. sql_text (snd (snd r)) = snd (snd r)) t"
  shows "map_of (texts (table_properties u t)) = map_of (table_properties u t)"
proof
  fix n
  show "map_of (texts (table_properties u t)) n = map_of (table_properties u t) n"
    using map_of_table_properties_mem [of u t n] assms
    by (cases "map_of (table_properties u t) n") (auto simp: map_of_texts list_all_iff)
qed

lemma cache_shows_table:
  assumes "list_all (\<lambda>r. sql_text (snd (snd r)) = snd (snd r)) t"
  shows "map_option (\<lambda>p. map_of (texts p)) (map_of (read_properties t) u) = contacts t u"
  using texts_of_table [OF assms] map_of_table_properties [of u t]
  by (auto simp: map_of_read_properties contacts_def)

lemma cards_of_spec:
  assumes "steady P" "\<And>b c. P (b\<lparr>card_cache := c\<rparr>) = P b"
  shows "act_spec (\<lambda>b. P b \<and> cards_agree b) cards_of
    (\<lambda>m b. P b \<and> cards_agree b \<and> card_cache b = Some m) X"
  using assms(2) cache_shows_table
  by (auto simp: act_spec_def cards_of_def cards_agree_def Let_def split: option.splits)

lemma map_of_fold_update_pairs: "map_of (fold (\<lambda>(u, r). AList.update u r) t m) = map_of (rev t @ m)"
  by (induction t arbitrary: m) (auto simp: update_conv' fun_eq_iff map_add_def split: option.splits)

lemma map_of_rev_keys: "distinct (map fst t) \<Longrightarrow> map_of (rev t) = map_of t"
  by (intro map_of_inject_set [THEN iffD2]) (simp_all add: rev_map [symmetric])

lemma distinct_fold_update: "distinct (map fst m) \<Longrightarrow> distinct (map fst (fold (\<lambda>(u, r). AList.update u r) t m))"
  by (induction t arbitrary: m) (auto simp: distinct_update)

lemma lists_of_spec:
  assumes "steady P" "\<And>b c. P (b\<lparr>list_cache := c\<rparr>) = P b"
  shows "act_spec (\<lambda>b. P b \<and> lists_agree b) lists_of
    (\<lambda>m b. P b \<and> lists_agree b \<and> list_cache b = Some m) X"
  using assms(2)
  by (auto simp: act_spec_def lists_of_def lists_agree_def Let_def map_of_fold_update_pairs
      map_of_rev_keys distinct_fold_update split: option.splits)

lemma keeps_caches [keeps_rules]:
  "keeps book_consistent cards_of" "keeps book_consistent lists_of"
proof -
  have "steady (\<lambda>b. lists_agree b \<and> members_known b)" "steady (\<lambda>b. cards_agree b \<and> members_known b)"
    using steady_parts by (simp_all add: steady_def)
  moreover have "lists_agree (b\<lparr>card_cache := c\<rparr>) = lists_agree b" "members_known (b\<lparr>card_cache := c\<rparr>) = members_known b"
    "cards_agree (b\<lparr>list_cache := d\<rparr>) = cards_agree b" "members_known (b\<lparr>list_cache := d\<rparr>) = members_known b" for b c d
    by (simp_all add: lists_agree_def members_known_def cards_agree_def)
  ultimately show "keeps book_consistent cards_of" "keeps book_consistent lists_of"
    by (auto intro!: spec_conseq [OF cards_of_spec [where P = "\<lambda>b. lists_agree b \<and> members_known b" and X = book_consistent]]
        spec_conseq [OF lists_of_spec [where P = "\<lambda>b. cards_agree b \<and> members_known b" and X = book_consistent]]
        simp: book_consistent_def)
qed

subsection \<open>Saving\<close>

lemma saved_entries_nonempty [simp]: "saved_entries now ps \<noteq> []"
  by (simp add: saved_entries_def)

lemma card_uid_simps [simp]:
  "card_uid (c\<lparr>properties := p\<rparr>) = card_uid c" "card_uid (get_card u b) = u"
  "card_uid (set_property n v c) = card_uid c" "card_uid (set_directory_UID d c) = card_uid c"
  by (simp_all add: card_uid_def get_card_def set_property_def delete_property_def set_directory_UID_def Let_def)

lemma card_uid_copied [simp]: "card_uid (copied_card d u ps) = u"
proof -
  have "card_uid (fold (\<lambda>(n, v) c. if n \<in> set not_stored then c else set_property n v c) ps c) = card_uid c" for c
    by (induction ps arbitrary: c) (auto split: prod.splits)
  then show ?thesis by (simp add: copied_card_def card_uid_def)
qed

text \<open>Replacing the contact \<open>u\<close> in the table and in the cache.\<close>

lemma replace_contact:
  assumes "book_consistent b" and "es \<noteq> []"
  shows "book_consistent (b\<lparr>properties_table := filter (\<lambda>(k, x). k \<noteq> u) (properties_table b) @ table_rows u es,
    card_cache := map_option (AList.update u (map_of_entries es)) (card_cache b)\<rparr>)"
proof -
  let ?t = "filter (\<lambda>(k, x). k \<noteq> u) (properties_table b) @ table_rows u es"
  have "contacts ?t = (contacts (properties_table b))(u \<mapsto> map_of (rev (texts es)))"
    using contacts_replace [of u "properties_table b" es] assms(2) by simp
  moreover have "list_all (\<lambda>r. sql_text (snd (snd r)) = snd (snd r)) ?t"
    using assms(1) by (auto simp: book_consistent_def cards_agree_def list_all_iff table_rows_def)
  moreover have "fst ` set (properties_table b) \<subseteq> fst ` set ?t"
    using assms(2) by (cases es) (auto simp: table_rows_def)
  ultimately show ?thesis
    using assms(1)
    by (auto simp: book_consistent_def cards_agree_def lists_agree_def members_known_def update_conv'
        map_of_entries_texts split: option.splits)
qed

definition store_entries :: "jstr \<Rightarrow> js_value jsmap \<Rightarrow> book \<Rightarrow> book" where
  "store_entries u es b =
     b\<lparr>properties_table := filter (\<lambda>(k, x). k \<noteq> u) (properties_table b) @ table_rows u es,
       card_cache := map_option (AList.update u (map_of_entries es)) (card_cache b)\<rparr>"

lemma store_entries_consistent: "book_consistent b \<Longrightarrow> es \<noteq> [] \<Longrightarrow> book_consistent (store_entries u es b)"
  unfolding store_entries_def by (rule replace_contact)

lemma save_card_properties_eq:
  "save_card_properties now c b =
    (if \<exists>m. card_cache b = Some m \<and> map_of m (card_uid c) = None then (Inl TypeError, b)
     else (Inr (set_property last_modified (JString (nat_str now)) c),
           store_entries (card_uid c) (saved_entries now (properties c)) b))"
  by (cases b; cases "card_cache b") (auto simp: save_card_properties_def store_entries_def Let_def)

lemma keeps_save_card [keeps_rules]: "keeps book_consistent (save_card_properties now c)"
  by (simp add: act_spec_def save_card_properties_eq store_entries_consistent)

lemma act_bind_assoc: "act_bind (act_bind m f) g = act_bind m (\<lambda>x. act_bind (f x) g)"
  by (rule ext) (simp add: act_bind_def split: prod.splits sum.splits)

text \<open>An empty entry of the cache, filled by the saving.\<close>

lemma store_after_empty:
  "act_bind (cache_empty_card u) (\<lambda>_. act_bind (act_get this_uid) (\<lambda>d.
     act_bind (save_card_properties now (copied_card d u ps)) (f d))) b
   = (let c = copied_card (this_uid b) u ps
      in f (this_uid b) (set_property last_modified (JString (nat_str now)) c)
           (store_entries u (saved_entries now (properties c)) b))"
  by (cases b) (auto simp: act_bind_def cache_empty_card_def act_put_def act_get_def save_card_properties_eq
      store_entries_def Let_def update_conv' option.map_comp comp_def split: if_splits)

lemma keeps_store:
  assumes "\<And>d x. keeps book_consistent (f d x)"
  shows "keeps book_consistent (act_bind (cache_empty_card u) (\<lambda>_. act_bind (act_get this_uid) (\<lambda>d.
    act_bind (save_card_properties now (copied_card d u ps)) (f d))))"
  using assms unfolding act_spec_def store_after_empty by (simp add: Let_def store_entries_consistent)

subsection \<open>Contacts\<close>

lemma keeps_drop_card [keeps_rules]: "keeps book_consistent (drop_card E now c copy)"
  unfolding drop_card_def
  by (rule keeps_bind, rule keeps_checks, rule keeps_bind, (intro keeps_rules)[1], rule keeps_if,
      (intro keeps_rules)[1], rule keeps_bind, (intro keeps_rules)[1], rule keeps_store, intro keeps_rules)

lemma keeps_modify_card [keeps_rules]: "keeps book_consistent (modify_card E now c)"
  unfolding modify_card_def Let_def by (intro keeps_rules)

lemma keeps_reading [keeps_rules]:
  "keeps book_consistent (child_nodes E)" "keeps book_consistent book_child_cards"
  "keeps book_consistent (has_card E c)"
  unfolding child_nodes_def book_child_cards_def has_card_def by (intro keeps_rules)+

subsection \<open>Mailing lists\<close>

lemma known_simps:
  "fst ` set (filter (\<lambda>(k, x). k \<noteq> u) t) = fst ` set t - {u}"
  by (auto simp: image_iff)

lemma distinct_replace: "distinct (map fst t) \<Longrightarrow> distinct (map fst (filter (\<lambda>(k, x). k \<noteq> u) t @ [(u, r)]))"
  by (auto simp: distinct_map_filter)

lemma map_of_replace: "map_of (filter (\<lambda>(k, x). k \<noteq> u) t @ [(u, r)]) = (map_of t)(u \<mapsto> r)"
  by (induction t) (auto simp: fun_eq_iff)

lemma map_of_without: "map_of (filter (\<lambda>(k, x). k \<noteq> u) t) = (map_of t)(u := None)"
  by (induction t) (auto simp: fun_eq_iff)

lemma members_known_more_lists:
  assumes "members_known b" and "fst ` set (lists_table b) \<subseteq> fst ` set t"
  shows "\<forall>(l, u)\<in>set (list_cards_table b). l \<in> fst ` set t \<and> u \<in> fst ` set (properties_table b)"
  using assms unfolding members_known_def by blast

lemma replace_list:
  assumes "book_consistent b" and "list_cache b = Some m"
  shows "book_consistent (b\<lparr>lists_table := filter (\<lambda>(k, x). k \<noteq> u) (lists_table b) @ [(u, r)],
    list_cache := Some (AList.update u r m)\<rparr>)"
proof -
  let ?b = "b\<lparr>lists_table := filter (\<lambda>(k, x). k \<noteq> u) (lists_table b) @ [(u, r)], list_cache := Some (AList.update u r m)\<rparr>"
  have l: "lists_agree b" using assms(1) by (simp add: book_consistent_def)
  then have "distinct (map fst (lists_table ?b))"
    using distinct_replace [of "lists_table b" u r] by (simp add: lists_agree_def del: map_append)
  moreover have "distinct (map fst (AList.update u r m)) \<and> map_of (AList.update u r m) = map_of (lists_table ?b)"
    using l assms(2) by (simp add: lists_agree_def update_conv' map_of_replace distinct_update del: map_of_append)
  ultimately have "lists_agree ?b" by (simp add: lists_agree_def del: map_append map_of_append)
  moreover have "fst ` set (lists_table b) \<subseteq> fst ` set (lists_table ?b)"
    by (auto simp: known_simps image_iff)
  then have "members_known ?b"
    using assms(1) members_known_more_lists [of b "lists_table ?b"]
    by (simp add: book_consistent_def members_known_def)
  moreover have "cards_agree ?b" using assms(1) by (simp add: book_consistent_def cards_agree_def)
  ultimately show ?thesis by (simp add: book_consistent_def)
qed

lemma keeps_save_list [keeps_rules]: "keeps book_consistent (save_list l)"
proof -
  let ?P = "\<lambda>b. cards_agree b \<and> members_known b"
  have "steady ?P" using steady_parts by (simp add: steady_def)
  moreover have "?P (b\<lparr>list_cache := c\<rparr>) = ?P b" for b c by (simp add: cards_agree_def members_known_def)
  ultimately have "act_spec book_consistent lists_of
      (\<lambda>m b. book_consistent b \<and> list_cache b = Some m) book_consistent"
    by (auto intro!: spec_conseq [OF lists_of_spec [where P = ?P and X = book_consistent]] simp: book_consistent_def)
  then show ?thesis
    unfolding save_list_def Let_def
    by (rule spec_bind, intro spec_put) (blast intro: replace_list)
qed

lemma keeps_forget_list [keeps_rules]: "keeps book_consistent (forget_list u)"
  unfolding forget_list_def
  by (intro spec_put)
    (auto simp: book_consistent_def cards_agree_def lists_agree_def members_known_def Let_def
      delete_conv' map_of_without distinct_map_filter distinct_delete)

lemma keeps_add_mail_list [keeps_rules]: "keeps book_consistent (add_mail_list E is_list name nick desc)"
  unfolding add_mail_list_def by (intro keeps_rules)

lemma keeps_delete_directory [keeps_rules]: "keeps book_consistent (delete_directory u)"
proof -
  have "keeps book_consistent (case x of None \<Rightarrow> act_throw e | Some r \<Rightarrow> f r)"
    if "\<And>r. keeps book_consistent (f r)" for x e and f :: "list_row \<Rightarrow> unit act"
    using that by (cases x) (auto intro: keeps_rules)
  note rules = this keeps_rules
  show ?thesis unfolding delete_directory_def by (intro rules)
qed

lemma keeps_edit_mail_list [keeps_rules]: "keeps book_consistent (edit_mail_list_to_database l)"
  unfolding edit_mail_list_to_database_def by (intro keeps_rules)

lemma keeps_list_delete [keeps_rules]:
  "keeps book_consistent (list_directory_delete_card l c)"
  "keeps book_consistent (list_directory_delete_cards E l cs)"
proof -
  have b: "book_consistent (b\<lparr>list_cards_table := filter P (list_cards_table b)\<rparr>)" if "book_consistent b" for b P
    using that by (auto simp: book_consistent_def cards_agree_def lists_agree_def members_known_def)
  have "book_consistent (b\<lparr>sent := s\<rparr>) = book_consistent b" for b s
    using steady_parts(4) by (simp add: steady_def)
  with b show *: "keeps book_consistent (list_directory_delete_card l c)" for c
    by (simp add: act_spec_def list_directory_delete_card_def notify_card_def notify_def act_put_def
        book.update_convs(11) [symmetric])
  show "keeps book_consistent (list_directory_delete_cards E l cs)"
    unfolding list_directory_delete_cards_def by (intro keeps_rules *)
qed

subsection \<open>Members of mailing lists\<close>

definition known :: "jstr \<Rightarrow> book \<Rightarrow> bool" where
  "known u b \<longleftrightarrow> u \<in> fst ` set (properties_table b)"

definition listed :: "jstr \<Rightarrow> book \<Rightarrow> bool" where
  "listed l b \<longleftrightarrow> l \<in> fst ` set (lists_table b)"

lemma steady_known [keeps_rules]: "steady (known u)" "steady (listed l)"
  by (simp_all add: steady_def known_def listed_def)

lemma steady_logic [keeps_rules]:
  "steady P \<Longrightarrow> steady Q \<Longrightarrow> steady (\<lambda>b. P b \<and> Q b)"
  "steady P \<Longrightarrow> steady Q \<Longrightarrow> steady (\<lambda>b. P b \<or> Q b)"
  "steady P \<Longrightarrow> steady (\<lambda>b. \<not> P b)"
  "steady (\<lambda>b. p)"
  by (simp_all add: steady_def)

lemma known_simps' [simp]:
  "known u (b\<lparr>list_cache := lc\<rparr>) = known u b" "listed l (b\<lparr>list_cache := lc\<rparr>) = listed l b"
  "known u (b\<lparr>card_cache := cc\<rparr>) = known u b" "listed l (b\<lparr>card_cache := cc\<rparr>) = listed l b"
  "known u (b\<lparr>list_cards_table := t\<rparr>) = known u b" "listed l (b\<lparr>list_cards_table := t\<rparr>) = listed l b"
  by (simp_all add: known_def listed_def)

lemma known_store [simp]:
  "es \<noteq> [] \<Longrightarrow> known u (store_entries v es b) \<longleftrightarrow> u = v \<or> known u b"
  "listed l (store_entries v es b) = listed l b"
  by (cases es; auto simp: known_def listed_def store_entries_def table_rows_def image_iff)+

lemma with_uid_same: "card_uid c \<noteq> [] \<Longrightarrow> with_uid E c = act_return c"
  by (simp add: with_uid_def)

lemma with_uids_same: "\<forall>c\<in>set cs. card_uid c \<noteq> [] \<Longrightarrow> act_each (with_uid E) cs = act_return cs"
  by (induction cs) (auto simp: with_uid_same act_bind_def act_return_def fun_eq_iff)

lemma bind_return [simp]: "act_bind (act_return x) f = f x"
  by (rule ext) (simp add: act_bind_def act_return_def)

text \<open>The caches under a further condition that does not look at them.\<close>

definition no_cache :: "(book \<Rightarrow> bool) \<Rightarrow> bool" where
  "no_cache P \<longleftrightarrow> (\<forall>b c d. P (b\<lparr>card_cache := c\<rparr>) = P b \<and> P (b\<lparr>list_cache := d\<rparr>) = P b)"

lemma no_cache_intros:
  "no_cache (known u)" "no_cache (listed l)" "no_cache members_known" "no_cache (\<lambda>b. True)"
  "no_cache P \<Longrightarrow> no_cache Q \<Longrightarrow> no_cache (\<lambda>b. P b \<and> Q b)"
  "no_cache P \<Longrightarrow> no_cache Q \<Longrightarrow> no_cache (\<lambda>b. P b \<or> Q b)"
  "no_cache P \<Longrightarrow> no_cache (\<lambda>b. \<not> P b)"
  by (simp_all add: no_cache_def members_known_def)

lemma caches_spec:
  assumes "no_cache P"
  shows "act_spec (\<lambda>b. (cards_agree b \<and> lists_agree b) \<and> P b) lists_of
      (\<lambda>m b. (cards_agree b \<and> lists_agree b) \<and> P b \<and> list_cache b = Some m) X"
    and "act_spec (\<lambda>b. (cards_agree b \<and> lists_agree b) \<and> P b) cards_of
      (\<lambda>m b. (cards_agree b \<and> lists_agree b) \<and> P b \<and> card_cache b = Some m) X"
  using assms cache_shows_table
  by (auto simp: act_spec_def lists_of_def cards_of_def cards_agree_def lists_agree_def no_cache_def
      Let_def map_of_fold_update_pairs map_of_rev_keys distinct_fold_update split: option.splits)

lemma cached_listed: "lists_agree b \<Longrightarrow> list_cache b = Some m \<Longrightarrow> map_of m l \<noteq> None \<longleftrightarrow> listed l b"
  by (simp add: lists_agree_def listed_def map_of_eq_None_iff del: not_None_eq)

lemma cached_known: "cards_agree b \<Longrightarrow> card_cache b = Some m \<Longrightarrow> map_of m u \<noteq> None \<longleftrightarrow> known u b"
proof -
  assume "cards_agree b" "card_cache b = Some m"
  then have "map_option (\<lambda>p. map_of (texts p)) (map_of m u) = contacts (properties_table b) u"
    by (simp add: cards_agree_def)
  then have "map_of m u = None \<longleftrightarrow> contacts (properties_table b) u = None"
    by (metis option.map_disc_iff)
  then show ?thesis by (simp add: contacts_None known_def)
qed

lemma has_card_spec:
  assumes "card_uid c \<noteq> []" and "no_cache P"
  shows "act_spec (\<lambda>b. (cards_agree b \<and> lists_agree b) \<and> P b \<and> (\<not> listed (card_uid c) b \<or> known (card_uid c) b))
    (has_card E c) (\<lambda>h b. (cards_agree b \<and> lists_agree b) \<and> P b \<and> (h \<longrightarrow> known (card_uid c) b)) X"
proof -
  let ?u = "card_uid c"
  let ?A = "\<lambda>b. cards_agree b \<and> lists_agree b"
  have P: "no_cache (\<lambda>b. P b \<and> (\<not> listed ?u b \<or> known ?u b))"
    using assms(2) by (intro no_cache_intros)
  have cards: "act_spec (\<lambda>b. ?A b \<and> P b) (act_bind cards_of (\<lambda>m. act_return (map_of m ?u \<noteq> None)))
      (\<lambda>h b. ?A b \<and> P b \<and> (h \<longrightarrow> known ?u b)) X"
    by (rule spec_bind [OF caches_spec(2) [OF assms(2)]]) (auto intro!: spec_return dest: cached_known)
  show ?thesis
    unfolding has_card_def with_uid_same [OF assms(1)] bind_return
  proof (rule spec_bind [OF caches_spec(1) [OF P]], goal_cases)
    case (1 m)
    show ?case
    proof (cases "map_of m ?u = None")
      case True
      then have none: "\<not> map_of m ?u \<noteq> None" by simp
      show ?thesis unfolding if_not_P [OF none] by (rule spec_conseq [OF cards]) auto
    next
      case False
      then show ?thesis by (auto intro!: spec_return dest: cached_listed)
    qed
  qed
qed

lemma spec_store:
  assumes "\<And>d x es. es \<noteq> [] \<Longrightarrow> card_uid x = u \<Longrightarrow>
    act_spec (\<lambda>b. \<exists>b0. P b0 \<and> b = store_entries u es b0) (f d x) Q X"
  shows "act_spec P (act_bind (cache_empty_card u) (\<lambda>_. act_bind (act_get this_uid) (\<lambda>d.
    act_bind (save_card_properties now (copied_card d u ps)) (f d)))) Q X"
  unfolding act_spec_def store_after_empty Let_def
proof (intro allI impI)
  fix b assume "P b"
  let ?c = "copied_card (this_uid b) u ps"
  let ?es = "saved_entries now (properties ?c)"
  have "act_spec (\<lambda>b. \<exists>b0. P b0 \<and> b = store_entries u ?es b0)
      (f (this_uid b) (set_property last_modified (JString (nat_str now)) ?c)) Q X"
    by (rule assms) simp_all
  with \<open>P b\<close> show "case f (this_uid b) (set_property last_modified (JString (nat_str now)) ?c) (store_entries u ?es b) of
      (Inl e, b') \<Rightarrow> X b' | (Inr x, b') \<Rightarrow> Q x b'"
    by (auto simp: act_spec_def)
qed

lemma drop_card_spec:
  assumes "\<And>k. new_uid E k \<noteq> []"
  shows "act_spec (\<lambda>b. book_consistent b \<and> listed l b) (drop_card E now c copy)
    (\<lambda>n b. book_consistent b \<and> listed l b \<and> known (card_uid n) b \<and> card_uid n \<noteq> []) book_consistent"
proof -
  let ?P = "\<lambda>b. book_consistent b \<and> listed l b"
  have k: "keeps ?P m \<Longrightarrow> act_spec ?P m (\<lambda>_. ?P) book_consistent" for m :: "'x act"
    by (erule spec_conseq) auto
  have steady: "steady ?P" by (intro keeps_rules)
  show ?thesis
    unfolding drop_card_def
  proof (rule spec_bind [OF k [OF keeps_checks(1)]], rule spec_bind [OF k [OF keeps_with_uid [OF steady]]], goal_cases)
    case (1 x c')
    show ?case
    proof (cases "card_uid c' = []")
      case False
      let ?Q = "\<lambda>n b. ?P b \<and> known (card_uid n) b \<and> card_uid n \<noteq> []"
      have kept: "keeps (?Q n) (notify_card n ContactCreated d)" for n d by (intro keeps_rules)
      have tell: "act_spec (?Q n) (act_bind (notify_card n ContactCreated d) (\<lambda>_. act_return n))
          (\<lambda>n b. book_consistent b \<and> listed l b \<and> known (card_uid n) b \<and> card_uid n \<noteq> []) book_consistent" for n d
        by (rule spec_bind [where R = "\<lambda>_. ?Q n"], rule spec_conseq [OF kept]) (auto intro: spec_return)
      have "act_spec ?P (make_uid E) (\<lambda>u b. ?P b \<and> u \<noteq> []) book_consistent"
        using assms steady by (simp add: act_spec_def make_uid_def steady_def)
      then have new: "act_spec ?P (if copy then make_uid E else act_return (card_uid c')) (\<lambda>u b. ?P b \<and> u \<noteq> []) book_consistent"
        using False by (auto intro: spec_return)
      show ?thesis unfolding if_not_P [OF False]
        by (rule spec_bind [OF new], rule spec_store, rule spec_conseq [OF tell])
          (auto simp: store_entries_consistent)
    qed (auto intro: spec_throw)
  qed
qed

lemma add_member_consistent:
  "book_consistent b \<Longrightarrow> listed l b \<Longrightarrow> known u b \<Longrightarrow>
   book_consistent (b\<lparr>list_cards_table := filter (\<lambda>x. x \<noteq> (l, u)) (list_cards_table b) @ [(l, u)]\<rparr>)"
  by (auto simp: book_consistent_def cards_agree_def lists_agree_def members_known_def known_def listed_def)

lemma list_add_card_spec:
  assumes "card_uid c \<noteq> [] \<or> primary_email c = []" and "\<And>k. new_uid E k \<noteq> []"
  shows "act_spec (\<lambda>b. book_consistent b \<and> listed l b \<and> (\<not> listed (card_uid c) b \<or> known (card_uid c) b))
    (list_directory_add_card E now l c) (\<lambda>_. book_consistent) book_consistent"
proof (cases "primary_email c = []")
  case False
  with assms(1) have u: "card_uid c \<noteq> []" by simp
  let ?B = "\<lambda>b. book_consistent b \<and> listed l b"
  have "no_cache (\<lambda>b. members_known b \<and> listed l b)" by (intro no_cache_intros)
  from has_card_spec [OF u this]
  have has: "act_spec (\<lambda>b. book_consistent b \<and> listed l b \<and> (\<not> listed (card_uid c) b \<or> known (card_uid c) b))
      (has_card E c) (\<lambda>h b. ?B b \<and> (h \<longrightarrow> known (card_uid c) b)) book_consistent"
    by (rule spec_conseq) (auto simp: book_consistent_def)
  have add: "act_spec ?B (add_card E now c) (\<lambda>c b. ?B b \<and> known (card_uid c) b) book_consistent"
    unfolding add_card_def by (rule drop_card_spec [OF assms(2), THEN spec_conseq]) auto
  have card: "act_spec (\<lambda>b. ?B b \<and> (h \<longrightarrow> known (card_uid c) b)) (if h then act_return c else add_card E now c)
      (\<lambda>c b. ?B b \<and> known (card_uid c) b) book_consistent" for h
    using add by (cases h) (auto intro: spec_return)
  have member: "act_spec (\<lambda>b. ?B b \<and> known (card_uid c) b) (add_member l (card_uid c)) (\<lambda>_. book_consistent) book_consistent" for c
    unfolding add_member_def by (rule spec_put) (simp add: add_member_consistent)
  show ?thesis
    unfolding list_directory_add_card_def with_uid_same [OF u] bind_return if_not_P [OF False]
    by (rule spec_bind [OF has], rule spec_bind [OF card], rule spec_bind [OF member], intro keeps_rules)
qed (auto simp: list_directory_add_card_def intro: spec_return)

lemma list_drop_card_spec:
  assumes "copy \<or> card_uid c \<noteq> [] \<or> primary_email c = []" and "\<And>k. new_uid E k \<noteq> []"
  shows "act_spec (\<lambda>b. book_consistent b \<and> listed l b \<and> (copy \<or> \<not> listed (card_uid c) b \<or> known (card_uid c) b))
    (list_directory_drop_card E now l c copy) (\<lambda>_. book_consistent) book_consistent"
proof -
  let ?B = "\<lambda>b. book_consistent b \<and> listed l b"
  have tell: "keeps book_consistent (notify_card c ListMemberAdded l)" for c by (intro keeps_rules)
  have rest: "act_spec (\<lambda>b. book_consistent b \<and> listed l b \<and> (\<not> listed (card_uid c) b \<or> known (card_uid c) b))
      (act_bind (if primary_email c = [] then act_return c else with_uid E c) (\<lambda>c.
         act_bind (list_directory_add_card E now l c) (\<lambda>_. notify_card c ListMemberAdded l)))
      (\<lambda>_. book_consistent) book_consistent" if "card_uid c \<noteq> [] \<or> primary_email c = []" for c
  proof -
    have same: "(if primary_email c = [] then act_return c else with_uid E c) = act_return c"
      using that with_uid_same by auto
    show ?thesis unfolding same bind_return
      by (rule spec_bind [OF list_add_card_spec [OF that assms(2)]], rule tell)
  qed
  show ?thesis
  proof (cases copy)
    case False
    with assms(1) have c: "card_uid c \<noteq> [] \<or> primary_email c = []" by simp
    from False show ?thesis unfolding list_directory_drop_card_def
      using rest [OF c] by simp
  next
    case True
    have "act_spec ?B (act_bind (drop_card E now c True) (\<lambda>c.
        act_bind (if primary_email c = [] then act_return c else with_uid E c) (\<lambda>c.
         act_bind (list_directory_add_card E now l c) (\<lambda>_. notify_card c ListMemberAdded l))))
      (\<lambda>_. book_consistent) book_consistent"
    proof (rule spec_bind [OF drop_card_spec [OF assms(2)]], goal_cases)
      case (1 n)
      show ?case
      proof (cases "card_uid n = []")
        case False
        then show ?thesis by (intro spec_conseq [OF rest]) auto
      qed (simp add: act_spec_def)
    qed
    with True show ?thesis by (simp add: list_directory_drop_card_def)
  qed
qed

subsection \<open>Deletion\<close>

text \<open>While cards are deleted, only those of \<open>D\<close> may be members and not in the book.\<close>

definition deleting :: "jstr set \<Rightarrow> book \<Rightarrow> bool" where
  "deleting D b \<longleftrightarrow> cards_agree b \<and> lists_agree b \<and> distinct (list_cards_table b) \<and>
     (\<forall>(l, u)\<in>set (list_cards_table b). listed l b \<and> (known u b \<or> u \<in> D))"

lemma deleting_steady [keeps_rules]: "steady (deleting D)"
  using steady_parts steady_known by (simp add: steady_def deleting_def)

lemma deleting_start: "book_consistent b \<longleftrightarrow> deleting {} b"
  by (auto simp: book_consistent_def deleting_def members_known_def known_def listed_def)

lemma forget_card_spec: "act_spec (deleting D) (forget_card u) (\<lambda>_. deleting (insert u D)) X"
proof -
  have "deleting (insert u D) (b\<lparr>properties_table := filter (\<lambda>(k, x). k \<noteq> u) (properties_table b),
      card_cache := map_option (AList.delete u) (card_cache b)\<rparr>)" (is "deleting _ ?b") if b: "deleting D b" for b
  proof -
    have "cards_agree ?b"
      using b by (auto simp: deleting_def cards_agree_def list_all_iff contacts_filter delete_conv')
    moreover have "lists_agree ?b" using b by (simp add: deleting_def lists_agree_def)
    moreover have "known k ?b \<longleftrightarrow> known k b \<and> k \<noteq> u" for k by (auto simp: known_def known_simps)
    moreover have "listed l ?b = listed l b" for l by (simp add: listed_def)
    ultimately show ?thesis using b by (auto simp: deleting_def)
  qed
  then show ?thesis unfolding forget_card_def by (intro spec_put)
qed

lemma forget_cards_spec:
  "act_spec book_consistent (act_each (\<lambda>c. forget_card (card_uid c)) cs) (\<lambda>_. deleting (card_uid ` set cs)) X"
proof -
  have "act_spec (deleting {}) (act_each (\<lambda>c. forget_card (card_uid c)) cs) (\<lambda>_. deleting (card_uid ` set cs)) X"
    using spec_each [where I = "\<lambda>ps _. deleting (card_uid ` set ps)" and xs = cs and X = X
        and f = "\<lambda>c. forget_card (card_uid c)"] forget_card_spec by simp
  moreover have "book_consistent = deleting {}" by (simp add: fun_eq_iff deleting_start)
  ultimately show ?thesis by simp
qed

lemma tell_deleted_spec:
  "act_spec (deleting D) (act_each tell_deleted cs) (\<lambda>ys b. deleting D b \<and> map card_uid ys = map card_uid cs) X"
proof -
  have "act_spec (\<lambda>b. deleting D b \<and> map card_uid ys = map card_uid ps) (tell_deleted c)
      (\<lambda>y b. deleting D b \<and> map card_uid (ys @ [y]) = map card_uid (ps @ [c])) X" for ps ys c
    using deleting_steady [of D]
    by (auto simp: act_spec_def tell_deleted_def act_bind_def act_get_def notify_card_def notify_def act_put_def
        act_return_def steady_def)
  then show ?thesis
    using spec_each [where I = "\<lambda>ps ys b. deleting D b \<and> map card_uid ys = map card_uid ps" and f = tell_deleted and X = X]
    by (simp del: map_append)
qed

text \<open>The members of a list, or of all the lists of \<open>ls\<close>, are gone.\<close>

definition no_members :: "jstr set \<Rightarrow> jstr set \<Rightarrow> book \<Rightarrow> bool" where
  "no_members ls us b \<longleftrightarrow> (\<forall>(l, u)\<in>set (list_cards_table b). l \<in> ls \<longrightarrow> u \<notin> us)"

lemma list_delete_card_spec:
  "act_spec (\<lambda>b. deleting D b \<and> no_members ls D b \<and> no_members {l} us b) (list_directory_delete_card l c)
    (\<lambda>_ b. deleting D b \<and> no_members ls D b \<and> no_members {l} (insert (card_uid c) us) b) X"
  by (auto simp: act_spec_def list_directory_delete_card_def notify_card_def notify_def act_put_def
      deleting_def cards_agree_def lists_agree_def no_members_def known_def listed_def)

lemma list_delete_cards_spec:
  assumes "\<forall>c\<in>set cs. card_uid c \<noteq> []" and "card_uid ` set cs = D"
  shows "act_spec (\<lambda>b. deleting D b \<and> no_members ls D b) (list_directory_delete_cards E l cs)
    (\<lambda>_ b. deleting D b \<and> no_members (insert l ls) D b) X"
proof -
  have "act_spec (\<lambda>b. deleting D b \<and> no_members ls D b \<and> no_members {l} {} b) (act_each (list_directory_delete_card l) cs)
      (\<lambda>_ b. deleting D b \<and> no_members ls D b \<and> no_members {l} (card_uid ` set cs) b) X"
    using spec_each [where I = "\<lambda>ps _ b. deleting D b \<and> no_members ls D b \<and> no_members {l} (card_uid ` set ps) b"
        and f = "list_directory_delete_card l" and xs = cs and X = X] list_delete_card_spec
    by simp
  then have "act_spec (\<lambda>b. deleting D b \<and> no_members ls D b) (act_each (list_directory_delete_card l) cs)
      (\<lambda>_ b. deleting D b \<and> no_members (insert l ls) D b) X"
    by (rule spec_conseq) (auto simp: no_members_def assms(2))
  then show ?thesis
    unfolding list_directory_delete_cards_def with_uids_same [OF assms(1)] bind_return
    by (rule spec_bind) (auto intro: spec_return)
qed

lemma list_uid_make_list [simp]: "list_uid (make_list b x) = fst x"
  by (simp add: make_list_def)

lemma child_nodes_spec:
  "act_spec (deleting D) (child_nodes E) (\<lambda>ls b. deleting D b \<and> (\<forall>l. listed l b \<longrightarrow> l \<in> list_uid ` set ls)) X"
proof -
  let ?P = "\<lambda>b. distinct (list_cards_table b) \<and> (\<forall>(l, u)\<in>set (list_cards_table b). listed l b \<and> (known u b \<or> u \<in> D))"
  have "no_cache ?P" by (auto simp: no_cache_def)
  from caches_spec(1) [OF this]
  have "act_spec (deleting D) lists_of (\<lambda>m b. deleting D b \<and> list_cache b = Some m) X"
    by (rule spec_conseq) (auto simp: deleting_def)
  then show ?thesis
    unfolding child_nodes_def
  proof (rule spec_bind, intro spec_get, goal_cases)
    case (1 m b)
    then have "listed l b \<longleftrightarrow> l \<in> fst ` set m" for l
      using cached_listed [of b m l] by (auto simp: deleting_def map_of_eq_None_iff)
    with 1 show ?case by (auto simp: image_image)
  qed
qed

lemma with_uids_spec:
  assumes "\<And>k. new_uid E k \<noteq> []"
  shows "act_spec book_consistent (act_each (with_uid E) cs)
    (\<lambda>ys b. book_consistent b \<and> (\<forall>c\<in>set ys. card_uid c \<noteq> [])) X"
proof -
  have "act_spec (\<lambda>b. book_consistent b \<and> (\<forall>c\<in>set ys. card_uid c \<noteq> [])) (with_uid E c)
      (\<lambda>y b. book_consistent b \<and> (\<forall>c\<in>set (ys @ [y]). card_uid c \<noteq> [])) X" for ys c
    using assms steady_parts(4)
    by (auto simp: act_spec_def with_uid_def act_bind_def make_uid_def act_return_def get_UID_def card_uid_def
        steady_def split: option.splits list.splits)
  then show ?thesis
    using spec_each [where I = "\<lambda>_ ys b. book_consistent b \<and> (\<forall>c\<in>set ys. card_uid c \<noteq> [])" and f = "with_uid E" and X = X]
    by simp
qed

lemma deleting_done:
  assumes "deleting D b" and "no_members ls D b" and "\<forall>l. listed l b \<longrightarrow> l \<in> ls"
  shows "book_consistent b"
  using assms by (fastforce simp: deleting_start deleting_def no_members_def)

lemma delete_cards_spec:
  assumes "\<And>k. new_uid E k \<noteq> []"
  shows "keeps book_consistent (delete_cards E cs)"
proof -
  have lists: "act_spec (\<lambda>b. deleting D b \<and> (\<forall>l. listed l b \<longrightarrow> l \<in> list_uid ` set ls))
      (act_bind (act_each (\<lambda>l. list_directory_delete_cards E (list_uid l) cs) ls) (\<lambda>_. act_return ()))
      (\<lambda>_. book_consistent) book_consistent"
    if "\<forall>c\<in>set cs. card_uid c \<noteq> []" "card_uid ` set cs = D" for D ls cs
  proof -
    let ?L = "\<lambda>b. \<forall>l. listed l b \<longrightarrow> l \<in> list_uid ` set ls"
    have keep: "keeps ?L (list_directory_delete_cards E l cs)" for l
    proof -
      have "steady ?L" by (simp add: steady_def listed_def)
      then show ?thesis
        unfolding list_directory_delete_cards_def
        by (intro keeps_rules) (simp_all add: act_spec_def list_directory_delete_card_def notify_card_def notify_def
            act_put_def listed_def)
    qed
    have "act_spec (\<lambda>b. (deleting D b \<and> no_members (list_uid ` set ps) D b) \<and> ?L b)
        (list_directory_delete_cards E (list_uid l) cs)
        (\<lambda>_ b. (deleting D b \<and> no_members (list_uid ` set (ps @ [l])) D b) \<and> ?L b) book_consistent" for ps l
      by (rule spec_conseq [OF spec_and [OF list_delete_cards_spec [OF that, of "list_uid ` set ps" E "list_uid l" book_consistent]
              keep [of "list_uid l"]]]) auto
    from spec_each [where I = "\<lambda>ps _ b. (deleting D b \<and> no_members (list_uid ` set ps) D b) \<and> ?L b", OF this]
    have "act_spec (\<lambda>b. (deleting D b \<and> no_members {} D b) \<and> ?L b) (act_each (\<lambda>l. list_directory_delete_cards E (list_uid l) cs) ls)
        (\<lambda>_ b. (deleting D b \<and> no_members (list_uid ` set ls) D b) \<and> ?L b) book_consistent" by simp
    then have "act_spec (\<lambda>b. deleting D b \<and> ?L b) (act_each (\<lambda>l. list_directory_delete_cards E (list_uid l) cs) ls)
        (\<lambda>_. book_consistent) book_consistent"
      by (rule spec_conseq) (auto simp: no_members_def [where ls = "{}"] intro: deleting_done)
    then show ?thesis by (rule spec_bind) (intro keeps_rules)
  qed
  show ?thesis
    unfolding delete_cards_def
  proof (rule keeps_bind [OF keeps_checks(1)], rule spec_bind [OF with_uids_spec [OF assms]], goal_cases)
    case (1 x cs)
    show ?case
    proof (cases "\<forall>c\<in>set cs. card_uid c \<noteq> []")
      case True
      have told: "act_spec (\<lambda>b. deleting (card_uid ` set cs) b \<and> map card_uid ys = map card_uid cs)
          (act_bind (child_nodes E) (\<lambda>ls. act_bind (act_each (\<lambda>l. list_directory_delete_cards E (list_uid l) ys) ls)
            (\<lambda>_. act_return ()))) (\<lambda>_. book_consistent) book_consistent" for ys
      proof (cases "map card_uid ys = map card_uid cs")
        case eq: True
        then have s: "card_uid ` set ys = card_uid ` set cs" by (metis set_map)
        with True have "\<forall>c\<in>set ys. card_uid c \<noteq> []" by (metis imageE imageI)
        from spec_bind [OF child_nodes_spec lists [OF this s]] show ?thesis
          by (rule spec_conseq) auto
      qed (simp add: act_spec_def)
      have "act_spec book_consistent (act_bind (act_each (\<lambda>c. forget_card (card_uid c)) cs) (\<lambda>_.
          act_bind (act_each tell_deleted cs) (\<lambda>cs. act_bind (child_nodes E) (\<lambda>ls.
          act_bind (act_each (\<lambda>l. list_directory_delete_cards E (list_uid l) cs) ls) (\<lambda>_. act_return ())))))
          (\<lambda>_. book_consistent) book_consistent"
        by (rule spec_bind [OF forget_cards_spec], rule spec_bind [OF tell_deleted_spec], rule told)
      then show ?thesis by (rule spec_conseq) auto
    next
      case False
      then show ?thesis by (intro spec_never) auto
    qed
  qed
qed

subsection \<open>Adding many contacts\<close>

definition stored_of :: "ab_card \<Rightarrow> js_value jsmap" where
  "stored_of c = filter (\<lambda>x. fst x \<notin> set not_stored) (properties c)"

text \<open>Contacts with identifiers of their own, none of them in the book, that have something to store.\<close>

definition bulk_ok :: "ab_card list \<Rightarrow> book \<Rightarrow> bool" where
  "bulk_ok cs b \<longleftrightarrow>
     distinct (map card_uid cs) \<and>
     list_all (\<lambda>c. card_uid c \<noteq> [] \<and> \<not> known (card_uid c) b \<and> stored_of c \<noteq> []) cs"

lemma distinct_key: "distinct (map f (c # cs)) \<Longrightarrow> x \<in> set cs \<Longrightarrow> f x \<noteq> f c"
  by (metis distinct.simps(2) image_eqI list.set_map list.simps(9))

lemma bulk_cards_eq:
  assumes "distinct (map card_uid cs)" "\<forall>c\<in>set cs. card_uid c \<noteq> [] \<and> card_uid c \<notin> set used"
  shows "bulk_cards E used cs b =
    (Inr (concat (map (\<lambda>c. table_rows (card_uid c) (stored_of c)) cs)),
     b\<lparr>card_cache := map_option (fold (\<lambda>c. AList.update (card_uid c) (map_of_entries (stored_of c))) cs) (card_cache b)\<rparr>)"
  using assms
proof (induction cs arbitrary: used b)
  case Nil
  show ?case by (cases b) (simp add: act_return_def option.map_ident id_def)
next
  case (Cons c cs)
  then have c: "card_uid c \<noteq> []" "card_uid c \<notin> set used" by auto
  have "bulk_cards E (card_uid c # used) cs b' =
    (Inr (concat (map (\<lambda>c. table_rows (card_uid c) (stored_of c)) cs)),
     b'\<lparr>card_cache := map_option (fold (\<lambda>c. AList.update (card_uid c) (map_of_entries (stored_of c))) cs) (card_cache b')\<rparr>)" for b'
  proof (rule Cons.IH)
    show "\<forall>x\<in>set cs. card_uid x \<noteq> [] \<and> card_uid x \<notin> set (card_uid c # used)"
      using Cons.prems distinct_key [OF Cons.prems(1)] by auto
  qed (use Cons.prems in simp)
  with c show ?case
    by (simp add: with_uid_same act_bind_def act_return_def act_put_def stored_of_def [symmetric] option.map_comp comp_def Let_def)
qed

lemma store_entries_new:
  "\<not> known u b \<Longrightarrow> store_entries u es b =
    b\<lparr>properties_table := properties_table b @ table_rows u es,
      card_cache := map_option (AList.update u (map_of_entries es)) (card_cache b)\<rparr>"
proof -
  assume "\<not> known u b"
  then have "filter (\<lambda>(k, x). k \<noteq> u) (properties_table b) = properties_table b"
    by (force simp: filter_id_conv known_def)
  then show ?thesis by (simp add: store_entries_def)
qed

lemma bulk_store:
  assumes "bulk_ok cs b" and "book_consistent b"
  shows "book_consistent (b\<lparr>properties_table := properties_table b @ concat (map (\<lambda>c. table_rows (card_uid c) (stored_of c)) cs),
    card_cache := map_option (fold (\<lambda>c. AList.update (card_uid c) (map_of_entries (stored_of c))) cs) (card_cache b)\<rparr>)"
  using assms
proof (induction cs arbitrary: b)
  case Nil
  then show ?case by (cases b) (simp add: option.map_ident id_def)
next
  case (Cons c cs)
  let ?b = "store_entries (card_uid c) (stored_of c) b"
  have c: "\<not> known (card_uid c) b" "stored_of c \<noteq> []" using Cons.prems(1) by (auto simp: bulk_ok_def)
  have "card_uid x \<noteq> card_uid c" if "x \<in> set cs" for x
    using Cons.prems(1) that distinct_key [of card_uid c cs x] by (simp add: bulk_ok_def)
  then have "bulk_ok cs ?b" using Cons.prems(1) c by (simp add: bulk_ok_def list_all_iff)
  from Cons.IH [OF this store_entries_consistent [OF Cons.prems(2) c(2)]] c(1)
  show ?case by (simp add: store_entries_new option.map_comp comp_def)
qed

lemma bulk_add_cards_consistent:
  assumes "bulk_ok cs b" and "book_consistent b"
  shows "book_consistent (snd (bulk_add_cards E False cs b))"
proof -
  have "bulk_cards E [] cs b =
    (Inr (concat (map (\<lambda>c. table_rows (card_uid c) (stored_of c)) cs)),
     b\<lparr>card_cache := map_option (fold (\<lambda>c. AList.update (card_uid c) (map_of_entries (stored_of c))) cs) (card_cache b)\<rparr>)"
    using assms(1) by (intro bulk_cards_eq) (auto simp: bulk_ok_def list_all_iff)
  then have "snd (bulk_add_cards E False cs b) = (if cs = [] then b
    else b\<lparr>properties_table := properties_table b @ concat (map (\<lambda>c. table_rows (card_uid c) (stored_of c)) cs),
      card_cache := map_option (fold (\<lambda>c. AList.update (card_uid c) (map_of_entries (stored_of c))) cs) (card_cache b),
      sent := sent b @ [Notice (SubjectDirectory ThisBook) DirectoryInvalidated None]\<rparr>)"
    by (simp add: bulk_add_cards_def act_bind_def act_put_def act_return_def notify_def)
  moreover have "book_consistent (b'\<lparr>sent := s\<rparr>) = book_consistent b'" for b' s
    using steady_parts(4) by (simp add: steady_def)
  ultimately show ?thesis using bulk_store [OF assms] assms(2) by simp
qed

text \<open>When the database refuses the rows, a book that has not read its contacts stays as it is.\<close>

lemma bulk_cards_uncached:
  assumes "steady P" and "\<And>b. P b \<Longrightarrow> card_cache b = None"
  shows "keeps P (bulk_cards E used cs)"
proof (induction cs arbitrary: used)
  case (Cons c cs)
  have "keeps P (act_put (\<lambda>b. b\<lparr>card_cache := map_option f (card_cache b)\<rparr>))" for f
  proof (rule spec_put)
    fix b assume "P b"
    moreover from this have "b\<lparr>card_cache := map_option f (card_cache b)\<rparr> = b"
      using assms(2) by (cases b) fastforce
    ultimately show "P (b\<lparr>card_cache := map_option f (card_cache b)\<rparr>)" by simp
  qed
  with Cons.IH assms(1) show ?case
    by (auto simp: Let_def intro!: keeps_rules)
qed (simp add: keeps_rules)

lemma bulk_failed_uncached:
  assumes "card_cache b = None" and "book_consistent b"
  shows "book_consistent (snd (bulk_add_cards E True cs b))"
proof -
  let ?P = "\<lambda>b. book_consistent b \<and> card_cache b = None"
  have P: "steady ?P" using steady_parts(4) by (simp add: steady_def)
  have "keeps ?P (if True \<and> t \<noteq> [] then act_throw Failure
      else act_bind (act_put (\<lambda>b. b\<lparr>properties_table := properties_table b @ t\<rparr>)) (\<lambda>_.
        notify (Notice (SubjectDirectory ThisBook) DirectoryInvalidated None)))" for t
  proof (cases t)
    case Nil
    then show ?thesis by (simp add: keeps_bind keeps_notify(1) spec_put P)
  qed (simp add: spec_throw)
  moreover have "keeps ?P (bulk_cards E [] cs)" by (rule bulk_cards_uncached [OF P]) simp
  ultimately have "keeps ?P (bulk_add_cards E True cs)"
    by (simp add: bulk_add_cards_def keeps_simple keeps_bind)
  from keeps_after [OF this] show ?thesis using assms by blast
qed

section \<open>Running a book\<close>

datatype book_op =
    DropOp ab_card bool | ModifyOp ab_card | DeleteOp "ab_card list"
  | AddListOp bool jstr jstr jstr | DeleteListOp jstr | EditListOp mail_list
  | MemberAddOp jstr ab_card | MemberDropOp jstr ab_card bool | MemberDeleteOp jstr "ab_card list"
  | BulkOp bool "ab_card list" | ReadOp | ReadOnlyOp bool bool

definition act_skip :: "'a act \<Rightarrow> unit act" where
  "act_skip m = act_bind m (\<lambda>_. act_return ())"

fun perform :: "book_env \<Rightarrow> nat \<Rightarrow> book_op \<Rightarrow> unit act" where
  "perform E now (DropOp c copy) = act_skip (drop_card E now c copy)"
| "perform E now (ModifyOp c) = modify_card E now c"
| "perform E now (DeleteOp cs) = delete_cards E cs"
| "perform E now (AddListOp is_list n k d) = act_skip (add_mail_list E is_list n k d)"
| "perform E now (DeleteListOp u) = delete_directory u"
| "perform E now (EditListOp l) = edit_mail_list_to_database l"
| "perform E now (MemberAddOp l c) = act_skip (list_directory_add_card E now l c)"
| "perform E now (MemberDropOp l c copy) = list_directory_drop_card E now l c copy"
| "perform E now (MemberDeleteOp l cs) = list_directory_delete_cards E l cs"
| "perform E now (BulkOp fails cs) = bulk_add_cards E fails cs"
| "perform E now ReadOp = act_skip book_child_cards"
| "perform E now (ReadOnlyOp ro ov) = act_put (\<lambda>b. b\<lparr>is_read_only := ro, overrides_read_only := ov\<rparr>)"

text \<open>
  A caller goes on after an exception.  The calls on a mailing list are on one of the book, with a
  contact whose identifier is not that of a list; many contacts are added at once only when none
  of them is in the book, and the database refuses them only while the contacts are not cached.
\<close>

fun allowed :: "book_op \<Rightarrow> book \<Rightarrow> bool" where
  "allowed (MemberAddOp l c) b \<longleftrightarrow>
     listed l b \<and> (card_uid c \<noteq> [] \<or> primary_email c = []) \<and> (\<not> listed (card_uid c) b \<or> known (card_uid c) b)"
| "allowed (MemberDropOp l c copy) b \<longleftrightarrow>
     listed l b \<and> (copy \<or> card_uid c \<noteq> [] \<or> primary_email c = [])
     \<and> (copy \<or> \<not> listed (card_uid c) b \<or> known (card_uid c) b)"
| "allowed (BulkOp fails cs) b \<longleftrightarrow> (if fails then card_cache b = None else bulk_ok cs b)"
| "allowed op b \<longleftrightarrow> True"

fun run_book :: "book_env \<Rightarrow> (nat \<times> book_op) list \<Rightarrow> book \<Rightarrow> book" where
  "run_book E [] b = b"
| "run_book E ((now, op) # ops) b = run_book E ops (snd (perform E now op b))"

fun all_allowed :: "book_env \<Rightarrow> (nat \<times> book_op) list \<Rightarrow> book \<Rightarrow> bool" where
  "all_allowed E [] b = True"
| "all_allowed E ((now, op) # ops) b \<longleftrightarrow> allowed op b \<and> all_allowed E ops (snd (perform E now op b))"

lemma keeps_act_skip [keeps_rules]: "keeps P m \<Longrightarrow> keeps P (act_skip m)"
  unfolding act_skip_def by (intro keeps_rules)

lemma specD: "act_spec P m (\<lambda>_. Q) Q \<Longrightarrow> P b \<Longrightarrow> Q (snd (m b))"
  by (cases "m b"; cases "fst (m b)") (auto simp: act_spec_def)

lemma spec_skip: "act_spec P m (\<lambda>_. Q) Q \<Longrightarrow> act_spec P (act_skip m) (\<lambda>_. Q) Q"
  unfolding act_skip_def by (erule spec_bind) (intro keeps_rules)

lemma perform_consistent:
  assumes E: "\<And>k. new_uid E k \<noteq> []" and b: "book_consistent b" and a: "allowed op b"
  shows "book_consistent (snd (perform E now op b))"
proof (cases op)
  case (MemberAddOp l c)
  then show ?thesis
    using a b specD [OF spec_skip [OF list_add_card_spec [OF _ E]], of c b l now] by simp
next
  case (MemberDropOp l c copy)
  then show ?thesis
    using a b specD [OF list_drop_card_spec [OF _ E], of copy c b l now] by simp
next
  case (DeleteOp cs)
  then show ?thesis using b keeps_after [OF delete_cards_spec [OF E]] by simp
next
  case (BulkOp fails cs)
  then show ?thesis
    using a b bulk_add_cards_consistent bulk_failed_uncached by (cases fails) simp_all
next
  case (ReadOnlyOp ro ov)
  then show ?thesis
    using b by (simp add: act_put_def book_consistent_def cards_agree_def lists_agree_def members_known_def)
qed (use b in \<open>auto intro!: keeps_after [where P = book_consistent] keeps_rules\<close>)

lemma run_consistent:
  assumes "\<And>k. new_uid E k \<noteq> []"
  shows "book_consistent b \<Longrightarrow> all_allowed E ops b \<Longrightarrow> book_consistent (run_book E ops b)"
  by (induction ops arbitrary: b) (auto simp: perform_consistent [OF assms])

subsection \<open>What is shown\<close>

text \<open>A card as it is shown, with the properties as texts and without their order.\<close>

definition shown_card :: "book_card \<Rightarrow> mail_list + jstr \<times> (jstr \<Rightarrow> js_value option)" where
  "shown_card c =
     (case c of ListCard l \<Rightarrow> Inl l | Contact c \<Rightarrow> Inr (card_uid c, map_of (texts (properties c))))"

definition reopened :: "book \<Rightarrow> book" where
  "reopened b = b\<lparr>card_cache := None, list_cache := None\<rparr>"

definition book_contents :: "book \<Rightarrow> (mail_list + jstr \<times> (jstr \<Rightarrow> js_value option)) set" where
  "book_contents b =
     (\<lambda>x. Inl (make_list b x)) ` {(u, r). map_of (lists_table b) u = Some r}
     \<union> {Inr (u, p) | u p. contacts (properties_table b) u = Some p}"

lemma reopened_consistent: "book_consistent b \<Longrightarrow> book_consistent (reopened b)"
  by (auto simp: book_consistent_def reopened_def cards_agree_def lists_agree_def members_known_def)

lemma load_consistent:
  assumes "cards_agree b" "contacts (properties_table b) u = Some p"
  shows "map_of (texts (load_card_properties u b)) = p"
proof (cases "Option.bind (card_cache b) (\<lambda>m. map_of m u)")
  case None
  have k: "u \<in> fst ` set (properties_table b)" using assms(2) by (auto simp: contacts_def split: if_splits)
  have "load_card_properties u b = table_properties u (properties_table b)"
    using None by (simp add: load_card_properties_def)
  then show ?thesis
    using texts_of_table [of "properties_table b" u] map_of_table_properties [OF k] assms
    by (simp add: cards_agree_def)
next
  case (Some q)
  then obtain m where m: "card_cache b = Some m" "map_of m u = Some q" by (auto simp: bind_eq_Some_conv)
  then have "map_option (\<lambda>p. map_of (texts p)) (map_of m u) = contacts (properties_table b) u"
    using assms(1) unfolding cards_agree_def by blast
  then have "Some (map_of (texts q)) = Some p" using m(2) assms(2) by simp
  with Some show ?thesis by (simp add: load_card_properties_def)
qed

lemma set_distinct_map: "distinct (map fst m) \<Longrightarrow> set m = {(u, r). map_of m u = Some r}"
  by auto

lemma child_cards_contents:
  assumes "book_consistent b"
  shows "\<exists>cs b'. book_child_cards b = (Inr cs, b') \<and> shown_card ` set cs = book_contents b"
proof -
  have pre: "(cards_agree b \<and> lists_agree b) \<and> True" using assms by (simp add: book_consistent_def)
  obtain l b1 where l: "lists_of b = (Inr l, b1)"
    by (cases "list_cache b") (simp_all add: lists_of_def Let_def)
  obtain m b2 where m: "cards_of b1 = (Inr m, b2)"
    by (cases "card_cache b1") (simp_all add: cards_of_def Let_def)
  have b1: "cards_agree b1" "lists_agree b1" "list_cache b1 = Some l"
    using caches_spec(1) [where P = "\<lambda>_. True" and X = "\<lambda>_. True"] pre l by (auto simp: act_spec_def no_cache_def)
  have b2: "cards_agree b2" "lists_agree b2" "card_cache b2 = Some m"
    using caches_spec(2) [where P = "\<lambda>_. True" and X = "\<lambda>_. True"] b1 m by (auto simp: act_spec_def no_cache_def)
  have same: "lists_table b1 = lists_table b" "lists_table b2 = lists_table b" "list_cache b2 = list_cache b1"
      "properties_table b2 = properties_table b" "make_list b2 = make_list b" "this_uid b2 = this_uid b"
    using l m by (auto simp: lists_of_def cards_of_def make_list_def Let_def fun_eq_iff split: option.splits)
  have keys: "u \<in> fst ` set m \<longleftrightarrow> contacts (properties_table b) u \<noteq> None" for u
    using cached_known [OF b2(1,3), of u] same(4) by (auto simp: contacts_None known_def map_of_eq_None_iff)
  have view: "shown_card (Contact (get_card u b2)) = Inr (u, the (contacts (properties_table b) u))"
    if u: "u \<in> fst ` set m" for u
  proof -
    obtain p where p: "contacts (properties_table b) u = Some p" using u keys by blast
    then have "map_of (texts (load_card_properties u b2)) = p" using load_consistent [OF b2(1)] same(4) by simp
    with p show ?thesis by (simp add: shown_card_def get_card_def card_uid_def)
  qed
  have "shown_card ` set (map (\<lambda>x. Contact (get_card (fst x) b2)) m)
      = (\<lambda>u. Inr (u, the (contacts (properties_table b) u))) ` (fst ` set m)"
    unfolding set_map image_image by (intro image_cong refl view imageI)
  also have "fst ` set m = {u. contacts (properties_table b) u \<noteq> None}" using keys by blast
  also have "(\<lambda>u. Inr (u, the (contacts (properties_table b) u))) ` \<dots>
      = {Inr (u, p) | u p. contacts (properties_table b) u = Some p}" by force
  finally have contact_part: "shown_card ` set (map (\<lambda>x. Contact (get_card (fst x) b2)) m)
      = {Inr (u, p) | u p. contacts (properties_table b) u = Some p}" .
  have "set l = {(u, r). map_of (lists_table b) u = Some r}"
    using b1(2,3) set_distinct_map [of l] same(1) by (auto simp: lists_agree_def)
  then have list_part: "shown_card ` set (map (\<lambda>x. ListCard (make_list b2 x)) l)
      = (\<lambda>x. Inl (make_list b x)) ` {(u, r). map_of (lists_table b) u = Some r}"
    unfolding same(5) by (simp add: shown_card_def image_image)
  have "book_child_cards b = (Inr (map (\<lambda>x. ListCard (make_list b2 x)) l @ map (\<lambda>x. Contact (get_card (fst x) b2)) m), b2)"
    by (simp add: book_child_cards_def act_bind_def act_get_def l m)
  then show ?thesis
    using contact_part list_part by (simp add: book_contents_def image_Un)
qed

lemma restart_same:
  assumes "book_consistent b"
  shows "\<exists>cs b1 ds b2. book_child_cards b = (Inr cs, b1) \<and> book_child_cards (reopened b) = (Inr ds, b2)
    \<and> shown_card ` set cs = shown_card ` set ds"
proof -
  have "book_contents (reopened b) = book_contents b"
    by (simp add: book_contents_def reopened_def make_list_def)
  with child_cards_contents [OF assms] child_cards_contents [OF reopened_consistent [OF assms]]
  show ?thesis by (metis (no_types))
qed

section \<open>A read-only book\<close>

definition contacts_locked :: "(jstr \<times> jstr \<times> js_value) list \<Rightarrow> book \<Rightarrow> bool" where
  "contacts_locked t b \<longleftrightarrow> is_read_only b \<and> \<not> overrides_read_only b \<and> properties_table b = t"

lemma locked_steady [keeps_rules]: "steady (contacts_locked t)"
  by (simp add: steady_def contacts_locked_def)

lemma locked_throws: "act_spec (contacts_locked t) (act_bind check_read_only f) Q (contacts_locked t)"
  by (auto simp: act_spec_def act_bind_def check_read_only_def contacts_locked_def)

lemma locked_throws_list: "act_spec (contacts_locked t) (act_bind check_writable f) Q (contacts_locked t)"
  by (auto simp: act_spec_def act_bind_def check_writable_def contacts_locked_def)

lemma locked_refused [keeps_rules]:
  "keeps (contacts_locked t) (drop_card E now c copy)" "keeps (contacts_locked t) (add_card E now c)"
  "keeps (contacts_locked t) (modify_card E now c)" "keeps (contacts_locked t) (delete_cards E cs)"
  "keeps (contacts_locked t) (add_mail_list E is_list n k d)" "keeps (contacts_locked t) (delete_directory u)"
  by (simp_all only: drop_card_def add_card_def modify_card_def delete_cards_def add_mail_list_def
      delete_directory_def locked_throws locked_throws_list)

lemma locked_caches [keeps_rules]: "keeps (contacts_locked t) lists_of" "keeps (contacts_locked t) cards_of"
  by (auto simp: act_spec_def lists_of_def cards_of_def contacts_locked_def Let_def split: option.splits)

lemma locked_put: "(\<And>b. contacts_locked t (f b) = contacts_locked t b) \<Longrightarrow> keeps (contacts_locked t) (act_put f)"
  by (intro spec_put) simp

lemma locked_lists [keeps_rules]:
  "keeps (contacts_locked t) (save_list l)" "keeps (contacts_locked t) (add_member x u)"
proof -
  show "keeps (contacts_locked t) (save_list l)"
    unfolding save_list_def Let_def by (intro keeps_rules locked_put) (simp add: contacts_locked_def)
  show "keeps (contacts_locked t) (add_member x u)"
    unfolding add_member_def by (intro locked_put) (simp add: contacts_locked_def)
qed

lemma locked_delete_member [keeps_rules]: "keeps (contacts_locked t) (list_directory_delete_card x c)"
  by (simp add: act_spec_def list_directory_delete_card_def notify_card_def notify_def act_put_def contacts_locked_def)

lemma locked_perform:
  assumes "\<forall>fails cs. op \<noteq> BulkOp fails cs" "\<forall>ro ov. op \<noteq> ReadOnlyOp ro ov"
  shows "keeps (contacts_locked t) (perform E now op)"
  using assms
  by (cases op) (auto simp: book_child_cards_def edit_mail_list_to_database_def list_directory_add_card_def
      list_directory_drop_card_def list_directory_delete_cards_def has_card_def intro!: keeps_rules)

lemma locked_run:
  assumes "list_all (\<lambda>(now, op). (\<forall>fails cs. op \<noteq> BulkOp fails cs) \<and> (\<forall>ro ov. op \<noteq> ReadOnlyOp ro ov)) ops"
  shows "contacts_locked t b \<Longrightarrow> contacts_locked t (run_book E ops b)"
  using assms
proof (induction ops arbitrary: b)
  case (Cons x ops)
  obtain now op where x: "x = (now, op)" by fastforce
  have "contacts_locked t (snd (perform E now op b))"
    using Cons.prems x by (intro keeps_after [OF locked_perform]) auto
  with Cons x show ?case by simp
qed simp

section \<open>The notification of a change\<close>

definition storable :: "js_value \<Rightarrow> bool" where
  "storable v \<longleftrightarrow> (case v of JString s \<Rightarrow> s \<noteq> [] | JNumber n \<Rightarrow> True | _ \<Rightarrow> False)"

text \<open>A string that is compared with a number and equal to it is the number written plainly.\<close>

definition numbers_plain :: "book_env \<Rightarrow> js_value jsmap \<Rightarrow> js_value jsmap \<Rightarrow> bool" where
  "numbers_plain E old ps \<longleftrightarrow>
     (\<forall>n m s. (map_of old n = Some (JNumber m) \<and> map_of ps n = Some (JString s)
             \<or> map_of old n = Some (JString s) \<and> map_of ps n = Some (JNumber m)) \<longrightarrow>
        (number_of E s = Some m \<longleftrightarrow> s = nat_str m))"

lemma nat_str_inj [simp]: "nat_str m = nat_str n \<longleftrightarrow> m = n"
  by (metis digits_val_nat_str)

lemma loosely_equal_texts:
  assumes "numbers_plain E old ps" "map_of old n = Some w" "map_of ps n = Some v" "storable w" "storable v"
  shows "loosely_equal E w v \<longleftrightarrow> sql_text w = sql_text v"
  using assms by (cases w; cases v) (auto simp: numbers_plain_def storable_def)

lemma changed_step_mem:
  "k \<in> set (changed_step E old (n, v) ch) \<longleftrightarrow>
    (if k \<noteq> n then k \<in> set ch
     else if map_of old n = None \<and> v \<notin> {JNull, JUndefined, JString []} then True
     else if loosely_equal E (case map_of old n of Some w \<Rightarrow> w | None \<Rightarrow> JUndefined) v then False
     else n \<in> set ch)"
  by (auto simp: changed_step_def Let_def)

lemma changed_fold_mem:
  assumes "distinct (map fst ps)"
  shows "k \<in> set (fold (changed_step E old) ps ch) \<longleftrightarrow>
    (case map_of ps k of
       None \<Rightarrow> k \<in> set ch
     | Some v \<Rightarrow>
         if map_of old k = None \<and> v \<notin> {JNull, JUndefined, JString []} then True
         else if loosely_equal E (case map_of old k of Some w \<Rightarrow> w | None \<Rightarrow> JUndefined) v then False
         else k \<in> set ch)"
  using assms
proof (induction ps arbitrary: ch)
  case (Cons x ps)
  obtain n v where x: "x = (n, v)" by fastforce
  show ?case
  proof (cases "k = n")
    case True
    then have "map_of ps k = None" using Cons.prems x by (simp add: map_of_eq_None_iff)
    with Cons True x show ?thesis by (simp add: changed_step_mem)
  next
    case False
    with Cons x show ?thesis by (simp add: changed_step_mem cong: option.case_cong)
  qed
qed simp

lemma changed_distinct: "distinct ch \<Longrightarrow> distinct (fold (changed_step E old) ps ch)"
  by (induction ps arbitrary: ch) (auto simp: changed_step_def Let_def split: prod.splits)

lemma changed_properties_set:
  assumes "distinct (map fst ps)" "\<forall>v\<in>snd ` set ps. storable v" "\<forall>w\<in>snd ` set old. storable w" "numbers_plain E old ps"
  shows "set (changed_properties E old ps) =
    {n. n \<noteq> last_modified \<and> map_of (texts old) n \<noteq> map_of (texts ps) n}"
    and "distinct (changed_properties E old ps)"
proof -
  have "n \<in> set (fold (changed_step E old) ps (remdups (map fst old))) \<longleftrightarrow>
      map_of (texts old) n \<noteq> map_of (texts ps) n" for n
  proof -
    have d: "n \<in> set (remdups (map fst old)) \<longleftrightarrow> map_of old n \<noteq> None"
      by (simp add: map_of_eq_None_iff del: not_None_eq)
    note mem = changed_fold_mem [OF assms(1), of n E old "remdups (map fst old)", unfolded d]
    show ?thesis
    proof (cases "map_of ps n")
      case None
      then show ?thesis by (simp add: mem map_of_texts)
    next
      case (Some v)
      then have v: "storable v" using assms(2) by (force dest: map_of_SomeD)
      show ?thesis
      proof (cases "map_of old n")
        case None
        with Some v show ?thesis by (auto simp: mem map_of_texts storable_def)
      next
        case old: (Some w)
        then have "storable w" using assms(3) by (force dest: map_of_SomeD)
        from loosely_equal_texts [OF assms(4) old Some this v] old Some
        show ?thesis by (simp add: mem map_of_texts)
      qed
    qed
  qed
  then show "set (changed_properties E old ps) = {n. n \<noteq> last_modified \<and> map_of (texts old) n \<noteq> map_of (texts ps) n}"
    by (auto simp: changed_properties_def)
  show "distinct (changed_properties E old ps)"
    by (simp add: changed_properties_def changed_distinct)
qed

text \<open>What is stored of a card, and what the notification says of it.\<close>

lemma saved_texts:
  assumes "distinct (map fst ps)" "\<forall>v\<in>snd ` set ps. storable v"
  shows "map_of (rev (texts (saved_entries now ps))) =
    (\<lambda>n. if n = last_modified then Some (JString (nat_str now)) else map_of (texts ps) n)"
proof -
  have f: "filter worth_saving ps = filter (\<lambda>x. fst x \<noteq> last_modified) ps"
    using assms(2) by (intro filter_cong) (auto simp: worth_saving_def storable_def)
  have d: "distinct (map fst (saved_entries now ps))"
    using assms(1) by (auto simp: saved_entries_def f distinct_map_filter)
  have "distinct (map fst (texts (saved_entries now ps)))"
    using d by (simp add: texts_def comp_def split_def)
  then have "map_of (rev (texts (saved_entries now ps))) = map_of (texts (saved_entries now ps))"
    by (rule map_of_rev_keys)
  also have "\<dots> = (\<lambda>n. if n = last_modified then Some (JString (nat_str now)) else map_of (texts ps) n)"
  proof
    fix n
    have "map_of (filter (\<lambda>x. fst x \<noteq> last_modified) ps) n = (if n = last_modified then None else map_of ps n)"
      by (induction ps) auto
    then show "map_of (texts (saved_entries now ps)) n = (if n = last_modified then Some (JString (nat_str now)) else map_of (texts ps) n)"
      by (auto simp: map_of_texts saved_entries_def f map_add_def split: option.splits)
  qed
  finally show ?thesis .
qed

definition text_or_null :: "js_value option \<Rightarrow> js_value" where
  "text_or_null x = (case x of Some t \<Rightarrow> t | None \<Rightarrow> JNull)"

text \<open>
  The entry of a name: the old text, or nothing for a number zero, and the new text, each nothing
  when there is none.
\<close>

definition tells :: "(jstr \<Rightarrow> js_value option) \<Rightarrow> (jstr \<Rightarrow> js_value option) \<Rightarrow> jstr \<times> js_value \<times> js_value \<Rightarrow> bool" where
  "tells before after x \<longleftrightarrow>
     (sql_text (fst (snd x)) = text_or_null (before (fst x))
      \<or> fst (snd x) = JNull \<and> before (fst x) = Some (JString (js ''0'')))
     \<and> sql_text (snd (snd x)) = text_or_null (after (fst x))"

lemma change_data_tells:
  assumes "x \<in> set (change_data old c ch)" "\<forall>w\<in>snd ` set old. storable w"
    and "map_of (texts (properties c)) = after"
  shows "tells (map_of (texts old)) after x"
proof -
  obtain n where x: "x = (n, or_null (case map_of old n of Some v \<Rightarrow> v | None \<Rightarrow> JUndefined), get_property c n JNull)"
    using assms(1) by (auto simp: change_data_def)
  have zero: "nat_str 0 = [48]" by (simp add: nat_str.simps)
  have "map_of old n = Some w \<Longrightarrow> storable w" for w using assms(2) by (force dest: map_of_SomeD)
  then show ?thesis
    using assms(3) [symmetric] zero
    by (auto simp: x tells_def text_or_null_def map_of_texts get_property_def or_null_def storable_def
        split: option.splits js_value.splits)
qed

lemma modify_card_effect:
  fixes b :: book and c :: ab_card and E :: book_env and now :: nat
  assumes "book_consistent b" and "known (card_uid c) b" and "\<not> (is_read_only b \<and> \<not> overrides_read_only b)"
    and "card_uid c \<noteq> []"
  defines "old \<equiv> load_card_properties (card_uid c) b"
    and "b1 \<equiv> store_entries (card_uid c) (saved_entries now (properties c)) b"
  defines "ch \<equiv> changed_properties E old (properties c)"
  shows "modify_card E now c b =
    (Inr (), if ch = [] then b1
             else b1\<lparr>sent := sent b @ [Notice (SubjectCard (Contact (get_card (card_uid c) b1))) ContactUpdated (Some (this_uid b)),
               PropertiesUpdated (get_card (card_uid c) b1) (change_data old (get_card (card_uid c) b1) ch)]\<rparr>)"
proof -
  have "map_of m (card_uid c) \<noteq> None" if "card_cache b = Some m" for m
    using cached_known [of b m "card_uid c"] that assms(1,2) by (simp add: book_consistent_def)
  then have save: "save_card_properties now c b =
      (Inr (set_property last_modified (JString (nat_str now)) c), b1)"
    by (auto simp: save_card_properties_eq b1_def)
  have "sent b1 = sent b" "this_uid b1 = this_uid b" by (simp_all add: b1_def store_entries_def)
  then show ?thesis
    using assms(3) save
    by (simp add: modify_card_def with_uid_same [OF assms(4)] act_bind_def check_read_only_def act_get_def Let_def
        old_def [symmetric] ch_def [symmetric] act_return_def notify_card_def notify_def act_put_def)
qed

section \<open>Properties\<close>

text \<open>C4: an address book stays consistent under its methods: after any sequence of the calls below,
  whether a call ends or throws, the cache of the contacts holds what is in the table, the cache of
  the lists is the table of the lists, and every member of a mailing list is a contact of the book
  and the list is there.  New identifiers are not empty.  Of the calls it is asked that
  a method of a mailing list is called on a list of the book, with a contact that has an identifier
  or no address and whose identifier is not that of a list unless a contact of the book has it
  (no such condition on a contact that is dropped as a copy); that _bulkAddCards is given contacts with something to store and with
  identifiers that are not empty, different, and not in the book; and that when the database
  refuses the rows of a _bulkAddCards the contacts have not been cached (else the refused contacts
  stay in the cache: failed_bulk_stays_cached).  No other statement of the database fails.\<close>

theorem book_stays_consistent:
  assumes "\<And>k. new_uid E k \<noteq> []" and "book_consistent b" and "all_allowed E ops b"
  shows "book_consistent (run_book E ops b)"
  using assms by (rule run_consistent)

text \<open>C5: closing the program and starting it again changes nothing that is shown, as long as the
  calls meet the conditions of the preceding property: after any such calls
  the cards that the book lists, out of its caches, are the mailing lists and the contacts,
  with the same texts in their properties, that it lists when it is opened again and reads the
  tables.  Those conditions are that the methods of a mailing list are called on a list of the book,
  with a contact that has an identifier (or no address) that is not the one of a list unless it is
  in the book; that _bulkAddCards gets contacts that are not in the book, with different identifiers
  and something to store; and that the database refuses a _bulkAddCards only while the contacts
  are not cached.  Without them it does not hold: see bulk_mixes_contacts and
  failed_bulk_stays_cached.\<close>

theorem restart_shows_same:
  assumes "\<And>k. new_uid E k \<noteq> []" and "book_consistent b" and "all_allowed E ops b"
  shows "\<exists>cs b1 ds b2. book_child_cards (run_book E ops b) = (Inr cs, b1)
    \<and> book_child_cards (reopened (run_book E ops b)) = (Inr ds, b2)
    \<and> shown_card ` set cs = shown_card ` set ds"
  using assms by (intro restart_same run_consistent)

text \<open>C7: the contacts of a read-only book do not change: whatever methods are called on it and on
  its mailing lists, except for the import of many contacts, the table of the properties stays as
  it is.\<close>

theorem read_only_keeps_contacts:
  assumes "is_read_only b" and "\<not> overrides_read_only b"
    and "list_all (\<lambda>(now, op). (\<forall>fails cs. op \<noteq> BulkOp fails cs) \<and> (\<forall>ro ov. op \<noteq> ReadOnlyOp ro ov)) ops"
  shows "properties_table (run_book E ops b) = properties_table b"
proof -
  have "contacts_locked (properties_table b) b" using assms(1,2) by (simp add: contacts_locked_def)
  from locked_run [OF assms(3) this] show ?thesis by (simp add: contacts_locked_def)
qed

text \<open>C6: changing a contact stores the contact and tells what has changed: the properties of the
  contact are those of the card that is given, with the time of the change, no other contact
  changes, and when a text other than that time has changed, the book sends that the contact is
  updated and the names of exactly the properties whose texts are different, each once, with the
  old and the new text; nothing is sent when none has.\<close>

theorem modify_tells_changes:
  assumes "book_consistent b" and "contacts (properties_table b) (card_uid c) = Some before"
    and "\<not> (is_read_only b \<and> \<not> overrides_read_only b)" and "card_uid c \<noteq> []"
    and "distinct (map fst (properties c))" and "\<forall>v\<in>snd ` set (properties c). storable v"
    and "\<forall>w\<in>snd ` set (load_card_properties (card_uid c) b). storable w"
    and "numbers_plain E (load_card_properties (card_uid c) b) (properties c)"
    and "after = (\<lambda>n. if n = last_modified then Some (JString (nat_str now)) else map_of (texts (properties c)) n)"
  shows "\<exists>b' ns. modify_card E now c b = (Inr (), b')
    \<and> contacts (properties_table b') = (contacts (properties_table b))(card_uid c \<mapsto> after)
    \<and> sent b' = sent b @ ns
    \<and> (if \<forall>n. n \<noteq> last_modified \<longrightarrow> before n = after n then ns = []
       else \<exists>d. ns = [Notice (SubjectCard (Contact (get_card (card_uid c) b'))) ContactUpdated (Some (this_uid b)),
                     PropertiesUpdated (get_card (card_uid c) b') d]
              \<and> distinct (map fst d) \<and> set (map fst d) = {n. n \<noteq> last_modified \<and> before n \<noteq> after n}
              \<and> list_all (tells before after) d)"
proof -
  let ?u = "card_uid c" and ?old = "load_card_properties (card_uid c) b"
  let ?b1 = "store_entries (card_uid c) (saved_entries now (properties c)) b"
  let ?ch = "changed_properties E ?old (properties c)"
  let ?g = "get_card ?u ?b1"
  have k: "known ?u b" using assms(2) by (metis contacts_None known_def option.discI)
  have before: "map_of (texts ?old) = before"
    using load_consistent assms(1,2) by (simp add: book_consistent_def)
  have stored: "contacts (properties_table ?b1) = (contacts (properties_table b))(?u \<mapsto> after)"
    using saved_texts [OF assms(5,6), of now]
    by (simp add: store_entries_def contacts_replace assms(9))
  have "cards_agree ?b1" using store_entries_consistent [OF assms(1)] by (simp add: book_consistent_def)
  then have after: "map_of (texts (properties ?g)) = after"
    using load_consistent [of ?b1 ?u after] stored by (simp add: get_card_def)
  have ch: "set ?ch = {n. n \<noteq> last_modified \<and> before n \<noteq> after n}" "distinct ?ch"
    using changed_properties_set [OF assms(5-8)] before by (auto simp: assms(9))
  have d: "map fst (change_data ?old ?g ?ch) = ?ch" by (simp add: change_data_def comp_def)
  have tell: "list_all (tells before after) (change_data ?old ?g ?ch)"
    using change_data_tells [OF _ assms(7) after] before by (auto simp: list_all_iff)
  have sent: "sent ?b1 = sent b" by (simp add: store_entries_def)
  have quiet: "(\<forall>n. n \<noteq> last_modified \<longrightarrow> before n = after n) \<longleftrightarrow> ?ch = []"
    using ch(1) by (metis (mono_tags, lifting) empty_Collect_eq set_empty)
  show ?thesis
  proof (cases "?ch = []")
    case True
    with modify_card_effect [OF assms(1) k assms(3,4), of E now] stored sent quiet show ?thesis by auto
  next
    case False
    let ?ns = "[Notice (SubjectCard (Contact ?g)) ContactUpdated (Some (this_uid b)), PropertiesUpdated ?g (change_data ?old ?g ?ch)]"
    let ?b' = "?b1\<lparr>sent := sent b @ ?ns\<rparr>" and ?d = "change_data ?old ?g ?ch"
    have run: "modify_card E now c b = (Inr (), ?b')"
      using modify_card_effect [OF assms(1) k assms(3,4), of E now] False by simp
    have g: "get_card ?u ?b' = ?g"
      by (simp add: get_card_def load_card_properties_def cong: option.case_cong)
    have told: "\<not> (\<forall>n. n \<noteq> last_modified \<longrightarrow> before n = after n)" using quiet False by blast
    have names: "distinct (map fst ?d)" "set (map fst ?d) = {n. n \<noteq> last_modified \<and> before n \<noteq> after n}"
      unfolding d using ch by blast+
    have c: "contacts (properties_table ?b') = (contacts (properties_table b))(?u \<mapsto> after)" using stored by simp
    have s: "sent ?b' = sent b @ ?ns" by simp
    have n: "?ns = [Notice (SubjectCard (Contact (get_card ?u ?b'))) ContactUpdated (Some (this_uid b)),
        PropertiesUpdated (get_card ?u ?b') ?d]"
      unfolding g by (rule refl)
    show ?thesis
      apply (rule exI [of _ ?b'], rule exI [of _ ?ns])
      unfolding if_not_P [OF told]
      apply (intro conjI exI [of _ ?d])
      by (rule run c s n names tell)+
  qed
qed

section \<open>Witnesses\<close>

definition sample_book_env :: book_env where
  "sample_book_env = \<lparr>new_uid = (\<lambda>k. js ''new'' @ nat_str k), number_of = (\<lambda>s. None), compare_names = compare_units\<rparr>"

definition empty_book :: book where
  "empty_book =
     \<lparr>this_uid = js ''book'', this_uri = js ''jsaddrbook://abook.sqlite'', is_read_only = False,
      overrides_read_only = False, properties_table = [], lists_table = [], list_cards_table = [],
      card_cache = None, list_cache = None, uids_made = 0, sent = []\<rparr>"

definition plain_card :: "string \<Rightarrow> (string \<times> string) list \<Rightarrow> ab_card" where
  "plain_card u ps =
     \<lparr>uid = Some (js u), directory_uid = [], properties = map (\<lambda>(n, v). (js n, JString (js v))) ps\<rparr>"

lemma sample_uids: "new_uid sample_book_env k \<noteq> []"
  by (simp add: sample_book_env_def)

lemma empty_book_consistent: "book_consistent empty_book"
  by (simp add: book_consistent_def cards_agree_def lists_agree_def members_known_def empty_book_def)

definition sample_ops :: "(nat \<times> book_op) list" where
  "sample_ops =
     [(1, ReadOp), (2, AddListOp True (js ''Friends'') [] []),
      (3, DropOp (plain_card ''a'' [(''PrimaryEmail'', ''a@x'')]) False),
      (4, MemberAddOp (js ''new0'') (plain_card ''a'' [(''PrimaryEmail'', ''a@x'')])),
      (5, BulkOp False [plain_card ''b'' [(''DisplayName'', ''B'')]]),
      (6, DeleteOp [plain_card ''a'' []])]"

lemma sample_ops_allowed: "all_allowed sample_book_env sample_ops empty_book"
  by code_simp

lemma book_stays_consistent_witness: "book_consistent (run_book sample_book_env sample_ops empty_book)"
  by (rule book_stays_consistent [OF sample_uids empty_book_consistent sample_ops_allowed])

lemma restart_shows_same_witness:
  "\<exists>cs b1 ds b2. book_child_cards (run_book sample_book_env sample_ops empty_book) = (Inr cs, b1)
    \<and> book_child_cards (reopened (run_book sample_book_env sample_ops empty_book)) = (Inr ds, b2)
    \<and> shown_card ` set cs = shown_card ` set ds"
  by (rule restart_shows_same [OF sample_uids empty_book_consistent sample_ops_allowed])

definition one_contact :: book where
  "one_contact = empty_book\<lparr>properties_table :=
     [(js ''u'', js ''DisplayName'', JString (js ''A'')), (js ''u'', js ''Notes'', JString (js ''n''))]\<rparr>"

lemma read_only_keeps_contacts_witness:
  "properties_table (run_book sample_book_env
     [(1, ModifyOp (plain_card ''u'' [(''DisplayName'', ''B'')])), (2, DeleteOp [plain_card ''u'' []])]
     (one_contact\<lparr>is_read_only := True\<rparr>)) = properties_table one_contact"
  using read_only_keeps_contacts [of "one_contact\<lparr>is_read_only := True\<rparr>"
      "[(1, ModifyOp (plain_card ''u'' [(''DisplayName'', ''B'')])), (2, DeleteOp [plain_card ''u'' []])]" sample_book_env]
  by (simp add: one_contact_def empty_book_def)

lemma one_contact_consistent: "book_consistent one_contact"
  by (simp add: book_consistent_def cards_agree_def lists_agree_def members_known_def one_contact_def empty_book_def)

lemma modify_tells_changes_witness:
  "\<exists>b' x y. modify_card sample_book_env 5 (plain_card ''u'' [(''DisplayName'', ''B''), (''Notes'', ''n'')]) one_contact = (Inr (), b')
    \<and> sent b' = [x, y]"
proof -
  let ?c = "plain_card ''u'' [(''DisplayName'', ''B''), (''Notes'', ''n'')]"
  let ?after = "\<lambda>n. if n = last_modified then Some (JString (nat_str 5)) else map_of (texts (properties ?c)) n"
  let ?before = "map_of [(js ''Notes'', JString (js ''n'')), (js ''DisplayName'', JString (js ''A''))]"
  have "load_card_properties (card_uid ?c) one_contact
      = [(js ''DisplayName'', JString (js ''A'')), (js ''Notes'', JString (js ''n''))]" by code_simp
  moreover have "contacts (properties_table one_contact) (card_uid ?c) = Some ?before"
    by (simp add: contacts_def one_contact_def plain_card_def card_uid_def)
  ultimately obtain b' ns where r: "modify_card sample_book_env 5 ?c one_contact = (Inr (), b')"
    "sent b' = sent one_contact @ ns"
    "if \<forall>n. n \<noteq> last_modified \<longrightarrow> ?before n = ?after n then ns = [] else \<exists>x y. ns = [x, y]"
    using modify_tells_changes [OF one_contact_consistent _ _ _ _ _ _ _ refl, of ?c ?before sample_book_env 5]
    by (fastforce simp: one_contact_def empty_book_def plain_card_def card_uid_def storable_def numbers_plain_def
        split: if_splits)
  have "?before (js ''DisplayName'') \<noteq> ?after (js ''DisplayName'')" "js ''DisplayName'' \<noteq> last_modified"
    by code_simp+
  then have "\<not> (\<forall>n. n \<noteq> last_modified \<longrightarrow> ?before n = ?after n)" by blast
  with r show ?thesis by (auto simp: one_contact_def empty_book_def)
qed

text \<open>
  Contacts that are added at once are only compared with each other: one with the identifier of a
  contact of the book is shown in its place, and when the book is opened again the properties of
  the two are mixed.
\<close>

lemma bulk_mixes_contacts:
  "let b = run_book sample_book_env [(1, ReadOp), (2, BulkOp False [plain_card ''u'' [(''DisplayName'', ''B'')]])] one_contact
   in properties (get_card (js ''u'') b) = [(js ''DisplayName'', JString (js ''B''))]
    \<and> properties (get_card (js ''u'') (reopened b))
      = [(js ''DisplayName'', JString (js ''B'')), (js ''Notes'', JString (js ''n''))]"
  by code_simp

text \<open>A mailing list that is added, as when it is moved from another book, has no members.\<close>

lemma added_list_is_empty:
  "list_cards_table (snd (add_mail_list E is_list name nick desc b)) = list_cards_table b"
proof -
  let ?P = "\<lambda>x. list_cards_table x = list_cards_table b"
  have P: "steady ?P" by (simp add: steady_def)
  have lists: "keeps ?P lists_of" by (simp add: act_spec_def lists_of_def Let_def split: option.split)
  have "keeps ?P (save_list l)" for l
    unfolding save_list_def Let_def by (intro keeps_bind lists spec_put) simp
  then have "keeps ?P (add_mail_list E is_list name nick desc)"
    unfolding add_mail_list_def by (auto intro!: keeps_rules P)
  from keeps_after [OF this] show ?thesis by blast
qed

text \<open>Contacts that the database refuses are shown until the book is opened again.\<close>

lemma failed_bulk_stays_cached:
  "let b = run_book sample_book_env [(1, ReadOp), (2, BulkOp True [plain_card ''v'' [(''DisplayName'', ''B'')]])] one_contact
   in fst (has_card sample_book_env (plain_card ''v'' []) b) = Inr True
    \<and> fst (has_card sample_book_env (plain_card ''v'' []) (reopened b)) = Inr False"
  by code_simp

end
