(* ===== verification/MboxSplit.thy ===== *)
theory MboxSplit
  imports MboxConverter
begin

text \<open>
  What the conversion of a mail store does to the messages.  A file is a sequence of bytes and
  separator lines (\<open>pieces\<close>), which gives its messages (\<open>messages_of\<close>); the lemmas relate the
  loop over the chunks of the file (\<open>mbox_loop\<close>) to it.  Whatever the chunks, all bytes are
  kept but those of separators, and \<open>piece_at\<close> says what is taken for one
  (\<open>conversion_keeps_bytes\<close>).  When the separators are within the margin, the result is
  that of the whole file (\<open>chunks_do_not_matter\<close>), so that a maildir whose messages can be told
  apart, when it is merged and split again, has the same messages (\<open>maildir_roundtrip\<close>).  The
  worker reports its progress within bounds and ends with success (\<open>worker_succeeds\<close>).
\<close>

section \<open>Pieces and messages\<close>

datatype piece = Byte jchar | Separator jstr

fun piece_bytes :: "piece \<Rightarrow> jstr" where
  "piece_bytes (Byte b) = [b]"
| "piece_bytes (Separator l) = l"

definition flat :: "piece list \<Rightarrow> jstr" where
  "flat ps = concat (map piece_bytes ps)"

lemma flat_simps [simp]:
  "flat [] = []" "flat (p # ps) = piece_bytes p @ flat ps" "flat (ps @ qs) = flat ps @ flat qs"
  "flat (map Byte s) = s"
  by (auto simp: flat_def o_def)

fun separators :: "piece list \<Rightarrow> jstr list" where
  "separators [] = []"
| "separators (Byte b # ps) = separators ps"
| "separators (Separator l # ps) = l # separators ps"

lemma separators_append [simp]: "separators (ps @ qs) = separators ps @ separators qs"
  by (induction ps rule: separators.induct) auto

lemma separators_bytes [simp]: "separators (map Byte s) = []"
  by (induction s) auto

text \<open>The messages: what is between separators, when it is not empty.\<close>

fun groups :: "piece list \<Rightarrow> jstr list" where
  "groups [] = [[]]"
| "groups (Byte b # ps) = (case groups ps of [] \<Rightarrow> [[b]] | g # gs \<Rightarrow> (b # g) # gs)"
| "groups (Separator l # ps) = [] # groups ps"

definition messages_of :: "piece list \<Rightarrow> jstr list" where
  "messages_of ps = filter (\<lambda>m. m \<noteq> []) (groups ps)"

lemma groups_ne [simp]: "groups ps \<noteq> []"
  by (induction ps rule: groups.induct) (auto split: list.split)

lemma groups_bytes: "groups (map Byte s @ ps) = (s @ hd (groups ps)) # tl (groups ps)"
  by (induction s) (auto split: list.split)

section \<open>The writer\<close>

text \<open>A writer as the bytes of its files and whether the last one is open.\<close>

definition view :: "msg_writer \<Rightarrow> jstr list \<times> bool" where
  "view w = (map snd (files w), is_open w)"

definition writer_ok :: "msg_writer \<Rightarrow> bool" where
  "writer_ok w \<longleftrightarrow> (is_open w \<longrightarrow> files w \<noteq> [])"

fun put_piece :: "piece \<Rightarrow> jstr list \<times> bool \<Rightarrow> jstr list \<times> bool" where
  "put_piece (Byte b) (ms, True) = (butlast ms @ [last ms @ [b]], True)"
| "put_piece (Byte b) (ms, False) = (ms @ [[b]], True)"
| "put_piece (Separator l) (ms, op) = (ms, False)"

definition put :: "piece list \<Rightarrow> jstr list \<times> bool \<Rightarrow> jstr list \<times> bool" where
  "put ps a = fold put_piece ps a"

lemma put_simps [simp]:
  "put [] a = a" "put (p # ps) a = put ps (put_piece p a)" "put (ps @ qs) a = put qs (put ps a)"
  by (simp_all add: put_def)

lemma put_bytes_open: "ms \<noteq> [] \<Longrightarrow> put (map Byte s) (ms, True) = (butlast ms @ [last ms @ s], True)"
  by (induction s arbitrary: ms) auto

lemma put_bytes_closed: "s \<noteq> [] \<Longrightarrow> put (map Byte s) (ms, False) = (ms @ [s], True)"
  by (cases s) (auto simp: put_bytes_open)

lemma put_groups:
  "put ps (ms, False) = (ms @ filter (\<lambda>m. m \<noteq> []) (groups ps), snd (put ps (ms, False)))"
  "ms \<noteq> [] \<Longrightarrow> put ps (ms, True) =
     (butlast ms @ (last ms @ hd (groups ps)) # filter (\<lambda>m. m \<noteq> []) (tl (groups ps)), snd (put ps (ms, True)))"
proof (induction ps arbitrary: ms)
  case (Cons p ps)
  {
    case 1
    show ?case
    proof (cases p)
      case (Byte b)
      with Cons.IH(2) [of "ms @ [[b]]"] show ?thesis by (cases "groups ps") (auto simp: prod_eq_iff)
    next
      case (Separator l)
      with Cons.IH(1) [of ms] show ?thesis by (auto simp: prod_eq_iff)
    qed
  next
    case 2
    show ?case
    proof (cases p)
      case (Byte b)
      with Cons.IH(2) [of "butlast ms @ [last ms @ [b]]"] show ?thesis
        by (cases "groups ps") (auto simp: prod_eq_iff)
    next
      case (Separator l)
      with Cons.IH(1) [of ms] 2 show ?thesis by (auto simp: prod_eq_iff)
    qed
  }
qed auto

lemma put_messages: "fst (put ps ([], False)) = messages_of ps"
  using put_groups(1) [of ps "[]"] by (simp add: messages_of_def prod_eq_iff)

lemma string_to_bytes_binary [simp]: "binary s \<Longrightarrow> string_to_bytes s = s"
  by (induction s) (auto simp: string_to_bytes_def)

lemma view_write:
  assumes "binary s" "s \<noteq> []" "writer_ok w"
  shows "view (write_to_msg s w) = put (map Byte s) (view w) \<and> writer_ok (write_to_msg s w)
    \<and> progress (write_to_msg s w) = progress w @ [length s]"
proof (cases "is_open w")
  case True
  with assms(3) have ne: "files w \<noteq> []" by (simp add: writer_ok_def)
  with True have "put (map Byte s) (view w)
      = (butlast (map snd (files w)) @ [last (map snd (files w)) @ s], True)"
    by (simp add: view_def put_bytes_open)
  with True ne assms(1) show ?thesis
    by (simp add: write_to_msg_def view_def writer_ok_def Let_def map_butlast last_map)
next
  case False
  with assms have "put (map Byte s) (view w) = (map snd (files w) @ [s], True)"
    by (simp add: view_def put_bytes_closed)
  with False assms(1) show ?thesis
    by (simp add: write_to_msg_def view_def writer_ok_def Let_def)
qed

text \<open>Both write calls of the loop: the bytes from \<open>i\<close> to \<open>j\<close>, when there are any.\<close>

lemma view_write_slice:
  assumes "binary s" "writer_ok w" "j \<le> length s" "i \<le> j"
  defines "w' \<equiv> (if j > i then write_to_msg (slice i j s) w else w)"
  shows "view w' = put (map Byte (slice i j s)) (view w)" and "writer_ok w'"
    and "sum_list (progress w') = sum_list (progress w) + (j - i)"
proof -
  have "binary (slice i j s)" using assms(1)
    by (auto simp: binary_def slice_def list_all_iff dest!: in_set_takeD in_set_dropD)
  moreover have "length (slice i j s) = j - i" using assms(3) by (simp add: slice_def)
  moreover have "slice i j s = []" if "\<not> j > i" using that by (simp add: slice_def)
  ultimately have "view w' = put (map Byte (slice i j s)) (view w) \<and> writer_ok w'
      \<and> sum_list (progress w') = sum_list (progress w) + (j - i)"
    using view_write [of "slice i j s" w] assms(2,4)
    by (cases "j > i"; cases "slice i j s = []") (auto simp: w'_def)
  then show "view w' = put (map Byte (slice i j s)) (view w)" and "writer_ok w'"
    and "sum_list (progress w') = sum_list (progress w) + (j - i)" by auto
qed

lemma close_simps [simp]:
  "view (close_existing_msg w) = (fst (view w), False)" "writer_ok (close_existing_msg w)"
  "progress (close_existing_msg w) = progress w" "files (close_existing_msg w) = files w"
  by (simp_all add: view_def close_existing_msg_def writer_ok_def)

lemma put_Separator [simp]: "put_piece (Separator l) a = (fst a, False)"
  by (cases a) simp

lemma slice_join: "i \<le> j \<Longrightarrow> j \<le> k \<Longrightarrow> slice i j s @ slice j k s = slice i k s"
proof -
  assume "i \<le> j" "j \<le> k"
  then have "take (k - i) (drop i s) = take ((j - i) + (k - j)) (drop i s)" by simp
  also have "\<dots> = take (j - i) (drop i s) @ take (k - j) (drop (j - i) (drop i s))"
    by (rule take_add)
  finally show ?thesis using \<open>i \<le> j\<close> by (simp add: slice_def)
qed

section \<open>Matches\<close>

lemma sep_match_line: "sep_match s = Some (n, m) \<Longrightarrow> sep_line s = Some n"
  by (auto simp: sep_match_def split: option.splits)

lemma sep_find_match:
  "sep_find ls s = Some (i, n, m) \<Longrightarrow> sep_match (drop i s) = Some (n, m)"
proof (induction ls s arbitrary: i rule: sep_find.induct)
  case (2 ls c cs)
  show ?case
  proof (cases "if ls then sep_match (c # cs) else None")
    case None
    with 2 show ?thesis by auto
  next
    case (Some x)
    then have "sep_match (c # cs) = Some x" by (simp split: if_splits)
    with Some 2 show ?thesis by auto
  qed
qed simp

lemma sep_exec_match: "sep_exec buf j = Some (i, n, m) \<Longrightarrow> sep_match (drop i buf) = Some (n, m)"
  by (auto simp: sep_exec_def add.commute dest!: sep_find_match)

section \<open>The names of the files\<close>

lemma split_buffer_inv:
  assumes "\<And>s w. P w \<Longrightarrow> P (write_to_msg s w)" "\<And>w. P w \<Longrightarrow> P (close_existing_msg w)"
  shows "P w \<Longrightarrow> P (snd (split_buffer buf j pos w))"
proof (induction buf j pos w rule: split_buffer.induct)
  case (1 buf j pos w)
  show ?case
  proof (cases "sep_exec buf j")
    case None
    with 1 show ?thesis by (simp add: split_buffer.simps [of buf j])
  next
    case (Some x)
    then obtain i n m where x: "sep_exec buf j = Some (i, n, m)" by (cases x) auto
    have "P (close_existing_msg (if i > pos then write_to_msg (slice pos i buf) w else w))"
      using assms 1(2) by simp
    from "1.IH" [OF x refl refl this] x show ?thesis by (simp add: split_buffer.simps [of buf j])
  qed
qed

lemma mbox_loop_inv:
  assumes "\<And>s w. P w \<Longrightarrow> P (write_to_msg s w)" "\<And>w. P w \<Longrightarrow> P (close_existing_msg w)"
  shows "P w \<Longrightarrow> P (mbox_loop chunk margin rest buf w)"
proof (induction chunk margin rest buf w rule: mbox_loop.induct)
  case (1 chunk margin rest buf w)
  let ?buf = "buf @ take chunk rest"
  obtain pos w1 where s: "split_buffer ?buf 0 0 w = (pos, w1)" by fastforce
  define e where "e = (if length (take chunk rest) < chunk then length ?buf
    else if length ?buf - margin < pos then pos else length ?buf - margin)"
  define w2 where "w2 = (if e > pos then write_to_msg (slice pos e ?buf) w1 else w1)"
  have "P w1" using split_buffer_inv [of P, OF assms 1(2), of ?buf 0 0] s by simp
  then have w2: "P w2" using assms(1) by (simp add: w2_def)
  show ?case
  proof (cases "length (take chunk rest) < chunk \<or> chunk = 0")
    case True
    then have "mbox_loop chunk margin rest buf w = w2"
      using s by (subst mbox_loop.simps) (simp add: Let_def w2_def e_def)
    with w2 show ?thesis by simp
  next
    case False
    then have "mbox_loop chunk margin rest buf w = mbox_loop chunk margin (drop chunk rest) (drop e ?buf) w2"
      using s by (subst mbox_loop.simps) (simp add: Let_def w2_def e_def)
    with "1.IH" [OF refl refl refl s [symmetric] refl e_def w2_def False w2] show ?thesis by simp
  qed
qed

definition names_from :: "nat \<Rightarrow> msg_writer \<Rightarrow> bool" where
  "names_from now w \<longleftrightarrow> now \<le> ident w \<and> writer_ok w
     \<and> map fst (files w) = map (\<lambda>i. nat_str i @ js ''.eml'') [now ..< ident w]"

lemma names_from_write: "names_from now w \<Longrightarrow> names_from now (write_to_msg s w)"
proof (cases "is_open w")
  case True
  assume a: "names_from now w"
  with True have "files w \<noteq> []" by (simp add: names_from_def writer_ok_def)
  then have "map fst (butlast (files w)) @ [fst (last (files w))] = map fst (files w)"
    by (metis append_butlast_last_id list.simps(8,9) map_append)
  with a True show ?thesis by (simp add: names_from_def writer_ok_def write_to_msg_def Let_def)
qed (simp add: names_from_def writer_ok_def write_to_msg_def Let_def)

lemma split_mbox_names:
  "map fst (files (split_mbox now s)) = map (\<lambda>i. nat_str i @ js ''.eml'') [now ..< ident (split_mbox now s)]"
proof -
  have "names_from now (mbox_loop CHUNK_SIZE SAFE_MARGIN s [] (new_writer now))"
  proof (rule mbox_loop_inv)
    show "names_from now (write_to_msg s w)" if "names_from now w" for s w
      using that by (rule names_from_write)
  qed (simp_all add: names_from_def close_existing_msg_def writer_ok_def new_writer_def)
  then show ?thesis by (simp add: split_mbox_def names_from_def close_existing_msg_def)
qed

lemma split_mbox_distinct: "distinct (map fst (files (split_mbox now s)))"
  unfolding split_mbox_names
  by (auto simp: distinct_map inj_on_def intro!: inj_onI dest!: arg_cong [where f = "digits_val 0"]
      simp: digits_val_nat_str)

section \<open>Where the separators are\<close>

text \<open>
  The separators of a file as a whole.  What \<open>sepRE\<close> has to see of a separator is the line and the
  name of the header after it, with its first colon.
\<close>

function pieces :: "bool \<Rightarrow> jstr \<Rightarrow> piece list" where
  "pieces ls [] = []"
| "pieces ls (c # cs) =
     (case (if ls then sep_match (c # cs) else None) of
        Some (n, m) \<Rightarrow> Separator (take n (c # cs)) # pieces True (drop n (c # cs))
      | None \<Rightarrow> Byte c # pieces (newline c) cs)"
  by pat_completeness auto

termination
  by (relation "measure (\<lambda>(ls, s). length s)") (auto split: if_splits dest!: sep_match_bounds)

definition mbox_messages :: "jstr \<Rightarrow> jstr list" where
  "mbox_messages s = messages_of (pieces True s)"

definition header_name_len :: "jstr \<Rightarrow> nat" where
  "header_name_len s = length (takeWhile (\<lambda>c. c \<noteq> 58) (drop 1 s)) + 2"

text \<open>All that looks like a separator is at the start of a line and ends within the margin.\<close>

definition separators_within :: "nat \<Rightarrow> jstr \<Rightarrow> bool" where
  "separators_within margin s \<longleftrightarrow>
     list_all (\<lambda>i. case sep_match (drop i s) of
        None \<Rightarrow> True
      | Some (n, m) \<Rightarrow> (i = 0 \<or> newline (s ! (i - 1))) \<and> n + header_name_len (drop (i + n) s) \<le> margin)
       [0..<length s]"

lemma separators_withinI:
  assumes "\<And>i n m. sep_match (drop i s) = Some (n, m)
    \<Longrightarrow> (i = 0 \<or> newline (s ! (i - 1))) \<and> n + header_name_len (drop (i + n) s) \<le> margin"
  shows "separators_within margin s"
  unfolding separators_within_def list_all_iff by (auto split: option.split dest!: assms)

text \<open>A separator is a line, an end of line and a header.\<close>

definition sep_at :: "nat \<Rightarrow> nat \<Rightarrow> jstr \<Rightarrow> bool" where
  "sep_at n k s \<longleftrightarrow>
     (\<exists>l e c h t. s = js ''From '' @ l @ e @ c # h @ 58 # t
        \<and> (\<forall>c\<in>set l. \<not> newline c) \<and> (e = [10] \<or> e = [13, 10])
        \<and> header_char c \<and> (\<forall>c\<in>set h. header_char c \<and> c \<noteq> 58)
        \<and> n = 5 + length l + length e \<and> k = n + length h + 2)"

lemma header_match_iff:
  "(\<exists>m. header_match s = Some m) \<longleftrightarrow>
     (\<exists>c h t. s = c # h @ 58 # t \<and> header_char c \<and> (\<forall>c\<in>set h. header_char c \<and> c \<noteq> 58))"
proof
  assume "\<exists>m. header_match s = Some m"
  then have "last_index_of 58 (drop 1 (takeWhile header_char s)) \<noteq> None"
    by (auto simp: header_match_def split: option.splits)
  then have in_run: "58 \<in> set (drop 1 (takeWhile header_char s))"
    unfolding last_index_of_None_iff by simp
  then obtain c r where s: "s = c # r" "header_char c" "58 \<in> set (takeWhile header_char r)"
    by (cases s) (auto split: if_splits)
  from split_list_first [OF s(3)] obtain h t where t: "takeWhile header_char r = h @ 58 # t" "58 \<notin> set h"
    by blast
  then have "r = h @ 58 # t @ dropWhile header_char r"
    by (metis append.assoc append_Cons takeWhile_dropWhile_id)
  moreover have "\<forall>c\<in>set h. header_char c \<and> c \<noteq> 58"
  proof
    fix c assume "c \<in> set h"
    then have "c \<in> set (takeWhile header_char r)" using t(1) by simp
    with t(2) \<open>c \<in> set h\<close> show "header_char c \<and> c \<noteq> 58" by (auto dest: set_takeWhileD)
  qed
  ultimately show "\<exists>c h t. s = c # h @ 58 # t \<and> header_char c \<and> (\<forall>c\<in>set h. header_char c \<and> c \<noteq> 58)"
    using s by blast
next
  assume "\<exists>c h t. s = c # h @ 58 # t \<and> header_char c \<and> (\<forall>c\<in>set h. header_char c \<and> c \<noteq> 58)"
  then obtain c h t where s: "s = c # h @ 58 # t" "header_char c" "\<forall>c\<in>set h. header_char c \<and> c \<noteq> 58"
    by blast
  then have "58 \<in> set (drop 1 (takeWhile header_char s))"
    by (simp add: takeWhile_append2 header_char_def)
  then have "last_index_of 58 (drop 1 (takeWhile header_char s)) \<noteq> None"
    by (metis last_index_of_None_iff)
  then show "\<exists>m. header_match s = Some m" by (auto simp: header_match_def)
qed

lemma before_newline_append:
  "\<forall>c\<in>set l. \<not> newline c \<Longrightarrow> newline e \<Longrightarrow> before_newline (l @ e # t) = l"
  by (simp add: before_newline_def takeWhile_append2)

lemma sep_atD:
  assumes "sep_at n k s"
  shows "\<exists>m. sep_match s = Some (n, m)"
    and "header_name_len (drop n s) = k - n" and "n + 2 \<le> k" and "k \<le> length s"
proof -
  from assms obtain l e c h t where
    s: "s = js ''From '' @ l @ e @ c # h @ 58 # t" "\<forall>c\<in>set l. \<not> newline c" "e = [10] \<or> e = [13, 10]"
      "header_char c" "\<forall>c\<in>set h. header_char c \<and> c \<noteq> 58"
      and n: "n = 5 + length l + length e" "k = n + length h + 2"
    unfolding sep_at_def by blast
  let ?f = "js ''From '' @ l"
  have nl: "\<forall>c\<in>set ?f. \<not> newline c" using s(2) by (auto simp: newline_def)
  have "s = (?f @ e) @ c # h @ 58 # t" "length (?f @ e) = n" using s(1) n(1) by simp_all
  then have dn: "drop n s = c # h @ 58 # t" by (metis append_eq_conv_conj)
  have "\<exists>e0 es. e = e0 # es \<and> newline e0" using s(3) by (auto simp: newline_def)
  then obtain e0 es where e0: "e = e0 # es" "newline e0" by blast
  have bn: "before_newline s = ?f"
    using before_newline_append [OF nl e0(2), of "es @ c # h @ 58 # t"] s(1) e0(1) by simp
  have "s = ?f @ e @ c # h @ 58 # t" using s(1) by simp
  then have "drop (length ?f) s = e @ c # h @ 58 # t" by (metis append_eq_conv_conj)
  then have "line_end (drop (length ?f) s) = length e"
    using s(3) by (auto simp: line_end_def)
  then have "sep_line s = Some n"
    unfolding sep_line_def bn Let_def using s(1) n(1) e0(1) by simp
  moreover obtain m where "header_match (drop n s) = Some m"
    using dn s(4,5) header_match_iff [of "drop n s"] by blast
  ultimately show "\<exists>m. sep_match s = Some (n, m)" by (simp add: sep_match_def)
  show "header_name_len (drop n s) = k - n"
    using s(5) n(2) by (simp add: dn header_name_len_def takeWhile_append2)
  show "n + 2 \<le> k" "k \<le> length s" using n s(1) by auto
qed

lemma sep_match_header: "sep_match s = Some (n, m) \<Longrightarrow> \<exists>h. header_match (drop n s) = Some h"
  by (auto simp: sep_match_def split: option.splits)

lemma sep_matchD:
  assumes "sep_match s = Some (n, m)"
  shows "sep_at n (n + header_name_len (drop n s)) s"
proof -
  let ?k = "length (before_newline s)"
  let ?e = "line_end (drop ?k s)"
  have n: "n = ?k + ?e" "?e \<noteq> 0" and "starts_with (js ''From '') s"
    using sep_match_line [OF assms] by (auto simp: sep_line_def Let_def simp del: js_Cons split: if_splits)
  then obtain u where u: "s = js ''From '' @ u" by (auto simp: starts_with_iff simp del: js_Cons)
  define l where "l = before_newline u"
  have l: "before_newline s = js ''From '' @ l"
    by (simp add: u l_def before_newline_def newline_def)
  obtain c h t where h: "drop n s = c # h @ 58 # t" "header_char c" "\<forall>c\<in>set h. header_char c \<and> c \<noteq> 58"
    using sep_match_header [OF assms] unfolding header_match_iff by blast
  define e where "e = take ?e (drop ?k s)"
  have e: "e = [10] \<or> e = [13, 10]"
    using n(2) by (auto simp: e_def line_end_def starts_with_iff split: if_splits)
  have "length e = ?e" using line_end_le [of "drop ?k s"] by (simp add: e_def)
  have "s = before_newline s @ e @ drop n s"
  proof -
    have "s = take n s @ drop n s" by simp
    also have "take n s = take ?k s @ e" unfolding n(1) take_add e_def by (rule refl)
    also have "take ?k s = before_newline s" by (simp add: before_newline_def takeWhile_eq_take [symmetric])
    finally show ?thesis by simp
  qed
  then have "s = js ''From '' @ l @ e @ c # h @ 58 # t" by (simp only: l h(1) append_assoc)
  moreover have "\<forall>c\<in>set l. \<not> newline c" by (auto simp: l_def before_newline_def dest: set_takeWhileD)
  moreover have "n = 5 + length l + length e" using n(1) l \<open>length e = ?e\<close> by simp
  moreover have "n + header_name_len (drop n s) = n + length h + 2"
    using h(3) by (simp add: h(1) header_name_len_def takeWhile_append2)
  ultimately show ?thesis unfolding sep_at_def using e h(2,3) by blast
qed

lemma sep_at_append: "sep_at n k s \<Longrightarrow> sep_at n k (s @ t)"
proof -
  assume "sep_at n k s"
  then obtain l e c h u where "s = js ''From '' @ l @ e @ c # h @ 58 # u"
    "\<forall>c\<in>set l. \<not> newline c" "e = [10] \<or> e = [13, 10]"
      "header_char c" "\<forall>c\<in>set h. header_char c \<and> c \<noteq> 58"
      "n = 5 + length l + length e" "k = n + length h + 2"
    unfolding sep_at_def by blast
  moreover from this(1) have "s @ t = js ''From '' @ l @ e @ c # h @ 58 # (u @ t)" by simp
  ultimately show ?thesis unfolding sep_at_def by blast
qed

lemma sep_at_take: "sep_at n k s \<Longrightarrow> k \<le> j \<Longrightarrow> sep_at n k (take j s)"
proof -
  assume "sep_at n k s" and j: "k \<le> j"
  then obtain l e c h u where s: "s = js ''From '' @ l @ e @ c # h @ 58 # u"
    "\<forall>c\<in>set l. \<not> newline c" "e = [10] \<or> e = [13, 10]"
      "header_char c" "\<forall>c\<in>set h. header_char c \<and> c \<noteq> 58"
      "n = 5 + length l + length e" "k = n + length h + 2"
    unfolding sep_at_def by blast
  let ?a = "js ''From '' @ l @ e @ c # h @ [58]"
  have a: "s = ?a @ u" "length ?a = k" using s(1,6,7) by simp_all
  with j have "take j s = ?a @ take (j - k) u" by (metis take_all take_append)
  then have "take j s = js ''From '' @ l @ e @ c # h @ 58 # take (j - k) u"
    by (simp only: append_assoc append_Cons append_Nil)
  with s show ?thesis unfolding sep_at_def by blast
qed


lemma sep_match_append: "sep_match s = Some (n, m) \<Longrightarrow> \<exists>m'. sep_match (s @ t) = Some (n, m')"
  using sep_atD(1) [OF sep_at_append [OF sep_matchD]] by blast

lemma sep_match_take:
  "sep_match s = Some (n, m) \<Longrightarrow> n + header_name_len (drop n s) \<le> j
    \<Longrightarrow> \<exists>m'. sep_match (take j s) = Some (n, m')"
  using sep_atD(1) [OF sep_at_take [OF sep_matchD]] by blast

text \<open>No separator starts within a separator and the header name after it.\<close>

lemma sep_at_newlines:
  assumes "sep_at n k s" "p < k" "newline (s ! p)"
  shows "p + 1 = n \<or> p + 2 = n \<and> s ! p = 13 \<and> s ! (p + 1) = 10"
proof -
  from assms(1) obtain l e c h t where
    s: "s = js ''From '' @ l @ e @ c # h @ 58 # t" "\<forall>c\<in>set l. \<not> newline c" "e = [10] \<or> e = [13, 10]"
      "header_char c" "\<forall>c\<in>set h. header_char c \<and> c \<noteq> 58"
      and n: "n = 5 + length l + length e" "k = n + length h + 2"
    unfolding sep_at_def by blast
  let ?f = "js ''From '' @ l" and ?h = "c # h @ [58]"
  have sp: "s = ?f @ e @ ?h @ t" "length ?f + length e = n" "n + length ?h = k" using s(1) n by simp_all
  have no_f: "\<forall>x\<in>set ?f. \<not> newline x" using s(2) by (auto simp: newline_def)
  have no_h: "\<forall>x\<in>set ?h. \<not> newline x" using s(4,5) by (auto simp: newline_def header_char_def)
  consider "p < length ?f" | "length ?f \<le> p" "p < n" | "n \<le> p" by linarith
  then show ?thesis
  proof cases
    case 1
    then have "s ! p = ?f ! p" unfolding sp(1) by (metis nth_append)
    with 1 have "s ! p \<in> set ?f" by (metis nth_mem)
    with no_f assms(3) show ?thesis by blast
  next
    case 2
    then have p: "p - length ?f < length e" using sp(2) by linarith
    from s(3) show ?thesis
    proof
      assume "e = [10]"
      with 2 sp(2) show ?thesis by simp
    next
      assume e: "e = [13, 10]"
      then have "p = length ?f \<or> p = length ?f + 1" using 2 sp(2) by auto
      moreover have "s ! (length ?f + 1) = 10" "s ! (length ?f + 0) = 13"
        unfolding sp(1) e nth_append_length_plus by simp_all
      ultimately show ?thesis using sp(2) e by auto
    qed
  next
    case 3
    have a: "s = (?f @ e) @ ?h @ t" "length (?f @ e) = n" using sp(1,2) by (simp_all only: append_assoc length_append)
    have p: "p - n < length ?h" using 3 assms(2) sp(3) by linarith
    from a 3 have "s ! p = (?h @ t) ! (p - n)" by (metis leD nth_append)
    with p have "s ! p = ?h ! (p - n)" by (metis nth_append)
    with p have "s ! p \<in> set ?h" by (metis nth_mem)
    with no_h assms(3) show ?thesis by blast
  qed
qed

lemma header_not_From:
  assumes "header_match s = Some m" shows "\<not> starts_with (js ''From '') s"
proof
  assume f: "starts_with (js ''From '') s"
  obtain c h t where h: "s = c # h @ 58 # t" "\<forall>c\<in>set h. header_char c \<and> c \<noteq> 58"
    using assms header_match_iff [of s] by blast
  from f h(1) obtain u where u: "h @ 58 # t = 114 # 111 # 109 # 32 # u"
    by (auto simp: starts_with_iff)
  show False
  proof (cases "length h < 4")
    case True
    have "(h @ 58 # t) ! length h = 58" by simp
    moreover have "length h = 0 \<or> length h = 1 \<or> length h = 2 \<or> length h = 3" using True by linarith
    ultimately show False unfolding u by (auto simp: numeral_2_eq_2 numeral_3_eq_3)
  next
    case False
    then have "h ! 3 = (h @ 58 # t) ! 3" "h ! 3 \<in> set h" by (simp_all add: nth_append)
    then have "32 \<in> set h" unfolding u by (simp add: numeral_3_eq_3)
    with h(2) show False by (auto simp: header_char_def)
  qed
qed

lemma sep_at_next: "sep_at n k s \<Longrightarrow> \<not> starts_with (js ''From '') (drop n s)"
  using sep_atD(1) sep_match_header header_not_From by blast

lemma sep_match_starts: "sep_match s = Some (n, m) \<Longrightarrow> starts_with (js ''From '') s"
  by (auto simp: sep_match_def sep_line_def Let_def simp del: js_Cons split: option.splits if_splits)

lemma sep_match_inside: "sep_match (drop i s) = Some (n, m) \<Longrightarrow> i + m \<le> length s \<and> i < length s"
  by (drule sep_match_bounds) (simp, arith)

lemma within_at:
  assumes "separators_within margin s" "sep_match (drop i s) = Some (n, m)"
  shows within_newline: "i = 0 \<or> newline (s ! (i - 1))"
    and within_margin: "n + header_name_len (drop (i + n) s) \<le> margin"
proof -
  have "i \<in> {0..<length s}" using sep_match_inside [OF assms(2)] by simp
  then have "i \<in> set [0..<length s]" by simp
  from bspec [OF assms(1) [unfolded separators_within_def list_all_iff] this] assms(2)
  have "(i = 0 \<or> newline (s ! (i - 1))) \<and> n + header_name_len (drop (i + n) s) \<le> margin"
    by simp
  then show "i = 0 \<or> newline (s ! (i - 1))" "n + header_name_len (drop (i + n) s) \<le> margin" by blast+
qed

lemma within_drop:
  assumes "separators_within margin s" shows "separators_within margin (drop j s)"
proof (rule separators_withinI)
  fix i n m assume "sep_match (drop i (drop j s)) = Some (n, m)"
  then have x: "sep_match (drop (i + j) s) = Some (n, m)" by simp
  have "i = 0 \<or> newline (drop j s ! (i - 1))"
  proof (cases i)
    case (Suc i')
    with within_newline [OF assms x] sep_match_inside [OF x] show ?thesis by (simp add: add.commute)
  qed simp
  moreover have "n + header_name_len (drop (i + n) (drop j s)) \<le> margin"
    using within_margin [OF assms x] by (simp add: ac_simps)
  ultimately show "(i = 0 \<or> newline (drop j s ! (i - 1))) \<and> n + header_name_len (drop (i + n) (drop j s)) \<le> margin"
    by blast
qed

lemma sep_inside_line:
  assumes "sep_at n k s" "0 < i" "i < k" "newline (s ! (i - 1))"
  shows "sep_match (drop i s) = None"
proof (rule ccontr)
  assume "sep_match (drop i s) \<noteq> None"
  then obtain n' m' where x: "sep_match (drop i s) = Some (n', m')" by auto
  have "i - 1 < k" using assms(3) by simp
  then have "i - 1 + 1 = n \<or> s ! (i - 1 + 1) = 10"
    using sep_at_newlines [OF assms(1)] assms(4) by blast
  with assms(2) consider "i = n" | "s ! i = 10" by fastforce
  then show False
  proof cases
    case 1
    with sep_at_next [OF assms(1)] sep_match_starts [OF x] show False by simp
  next
    case 2
    from sep_match_starts [OF x] obtain u where "drop i s = 70 # u" by (auto simp: starts_with_iff)
    then have "s ! i = 70" by (rule nth_via_drop)
    with 2 show False by simp
  qed
qed

lemma sep_inside:
  assumes "separators_within margin s" "sep_at n k s" "0 < i" "i < k"
  shows "sep_match (drop i s) = None"
proof (cases "sep_match (drop i s)")
  case (Some x)
  then have "newline (s ! (i - 1))"
    using within_newline [OF assms(1), of i "fst x" "snd x"] assms(3) by simp
  with sep_inside_line [OF assms(2-4)] show ?thesis by blast
qed

lemma header_run:
  assumes "sep_match s = Some (n, m)" "n \<le> p" "p < m"
  shows "header_char (s ! p)"
proof -
  from assms(1) obtain h where h: "header_match (drop n s) = Some h" "m = n + h"
    by (auto simp: sep_match_def split: option.splits)
  let ?r = "takeWhile header_char (drop n s)"
  from h(1) obtain i where "last_index_of 58 (drop 1 ?r) = Some i" "h = i + 2"
    by (auto simp: header_match_def split: option.splits)
  with last_index_of_less have "h \<le> length ?r" by fastforce
  with assms(2,3) h(2) have p: "p - n < length ?r" by simp
  have "drop n s ! (p - n) = s ! p" using assms(2) sep_match_bounds [OF assms(1)] by simp
  then have "?r ! (p - n) = s ! p" using takeWhile_nth [OF p] by simp
  with p show ?thesis by (metis nth_mem set_takeWhileD)
qed

lemma sep_find_first:
  "p < (case sep_find ls s of None \<Rightarrow> length s | Some (i, n, m) \<Rightarrow> i)
    \<Longrightarrow> (if p = 0 then ls else newline (s ! (p - 1))) \<Longrightarrow> sep_match (drop p s) = None"
proof (induction ls s arbitrary: p rule: sep_find.induct)
  case (2 ls c cs)
  show ?case
  proof (cases "if ls then sep_match (c # cs) else None")
    case None
    show ?thesis
    proof (cases p)
      case 0
      with None 2 show ?thesis by simp
    next
      case (Suc q)
      have "q < (case sep_find (newline c) cs of None \<Rightarrow> length cs | Some (i, n, m) \<Rightarrow> i)"
        using 2(2) None Suc by (cases "sep_find (newline c) cs") auto
      moreover have "if q = 0 then newline c else newline (cs ! (q - 1))"
        using 2(3) Suc by (cases q) auto
      ultimately show ?thesis using 2(1) [OF None] Suc by simp
    qed
  next
    case (Some x)
    with 2 show ?thesis by (cases x) auto
  qed
qed simp

lemma sep_exec_first:
  assumes "j \<le> p" "p < (case sep_exec buf j of None \<Rightarrow> length buf | Some (i, n, m) \<Rightarrow> i)"
    and "p = 0 \<or> newline (buf ! (p - 1))" "j \<le> length buf"
  shows "sep_match (drop p buf) = None"
proof -
  let ?f = "sep_find (j = 0 \<or> newline (buf ! (j - 1))) (drop j buf)"
  have "p - j < (case ?f of None \<Rightarrow> length (drop j buf) | Some (i, n, m) \<Rightarrow> i)"
    using assms(1,2,4) by (cases ?f) (auto simp: sep_exec_def)
  moreover have "if p - j = 0 then j = 0 \<or> newline (buf ! (j - 1)) else newline (drop j buf ! (p - j - 1))"
    using assms(1,3,4) by (cases "p = j") auto
  ultimately have "sep_match (drop (p - j) (drop j buf)) = None"
    by (rule sep_find_first)
  with assms(1) show ?thesis by simp
qed


text \<open>The separators of the buffer are separators of the file.\<close>

lemma sep_match_file:
  "sep_match (drop p buf) = Some (n, m) \<Longrightarrow> \<exists>m'. sep_match (drop p (buf @ rest)) = Some (n, m')"
  using sep_match_append [of "drop p buf" n m rest] sep_match_inside [of p buf n m] by auto

section \<open>What is taken for a separator\<close>

definition line_start :: "jstr \<Rightarrow> nat \<Rightarrow> bool" where
  "line_start s p \<longleftrightarrow> p = 0 \<or> newline (s ! (p - 1))"

text \<open>
  What a piece at a position of the file can be.  A separator is a line from \<open>From \<close> to its end
  that a header follows; it starts a line, or where the buffer starts that is kept between two
  chunks.  A byte that is not in a separator does not start one that is within the margin.
\<close>

fun piece_at :: "nat \<Rightarrow> nat \<Rightarrow> jstr \<Rightarrow> nat \<Rightarrow> piece \<Rightarrow> bool" where
  "piece_at chunk margin s p (Separator l) \<longleftrightarrow>
     (\<exists>n k. sep_at n k (drop p s) \<and> l = take n (drop p s))
     \<and> (line_start s p \<or> (\<exists>c>0. p + margin = c * chunk))"
| "piece_at chunk margin s p (Byte b) \<longleftrightarrow>
     \<not> (line_start s p \<and> (\<exists>n k. sep_at n k (drop p s) \<and> k \<le> margin))"

fun placed :: "(nat \<Rightarrow> piece \<Rightarrow> bool) \<Rightarrow> nat \<Rightarrow> piece list \<Rightarrow> bool" where
  "placed Q p [] = True"
| "placed Q p (x # ps) \<longleftrightarrow> Q p x \<and> placed Q (p + length (piece_bytes x)) ps"

lemma placed_append [simp]:
  "placed Q p (ps @ qs) \<longleftrightarrow> placed Q p ps \<and> placed Q (p + length (flat ps)) qs"
  by (induction Q p ps rule: placed.induct) (auto simp: add.assoc)

lemma placed_bytes:
  "placed Q p (map Byte s) \<longleftrightarrow> (\<forall>i<length s. Q (p + i) (Byte (s ! i)))"
  by (induction s arbitrary: p) (auto simp: less_Suc_eq_0_disj)

lemma placed_slice:
  assumes "i \<le> j" "j \<le> length buf" "\<And>p. i \<le> p \<Longrightarrow> p < j \<Longrightarrow> Q p (Byte (buf ! p))"
  shows "placed Q i (map Byte (slice i j buf))"
  unfolding placed_bytes using assms by (auto simp: slice_def)

lemma placed_shift: "placed (\<lambda>i. Q (d + i)) p ps = placed Q (d + p) ps"
  by (induction ps arbitrary: p) (simp_all add: add.assoc)

text \<open>The inner loop: what is still in the buffer has no separator that starts a line.\<close>

abbreviation no_line_sep :: "jstr \<Rightarrow> nat \<Rightarrow> bool" where
  "no_line_sep buf p \<equiv> line_start buf p \<longrightarrow> sep_match (drop p buf) = None"

lemma header_no_line:
  assumes "sep_match (drop i buf) = Some (n, m)" "i + n \<le> p" "p < i + m"
  shows "no_line_sep buf p"
proof
  assume "line_start buf p"
  moreover have p: "i + (p - i) = p" "0 < p - i" "p - i - 1 = p - 1 - i" "i + (p - 1 - i) = p - 1"
    using assms(2) sep_match_bounds [OF assms(1)] by auto
  ultimately have nl: "newline (drop i buf ! (p - i - 1))"
    using sep_match_inside [OF assms(1)] by (auto simp: line_start_def)
  show "sep_match (drop p buf) = None"
  proof (cases "p - i = n")
    case True
    with sep_at_next [OF sep_matchD [OF assms(1)]] sep_match_starts [of "drop n (drop i buf)"]
    have "sep_match (drop n (drop i buf)) = None" by (cases "sep_match (drop n (drop i buf))") auto
    moreover have "drop n (drop i buf) = drop p buf" using True p(1) by (simp add: add.commute)
    ultimately show ?thesis by simp
  next
    case False
    then have "header_char (drop i buf ! (p - i - 1))"
      using assms(2,3) by (intro header_run [OF assms(1)]) auto
    with nl show ?thesis by (auto simp: header_char_def newline_def)
  qed
qed

lemma sep_find_line: "sep_find ls s = Some (i, n, m) \<Longrightarrow> if i = 0 then ls else newline (s ! (i - 1))"
proof (induction ls s arbitrary: i rule: sep_find.induct)
  case (2 ls c cs)
  show ?case
  proof (cases "if ls then sep_match (c # cs) else None")
    case None
    with 2(2) obtain i' where i: "i = i' + 1" "sep_find (newline c) cs = Some (i', n, m)" by auto
    from 2(1) [OF None i(2)] i(1) show ?thesis by (cases i') auto
  qed (use 2(2) in \<open>auto split: if_splits\<close>)
qed simp

lemma sep_exec_line: "sep_exec buf j = Some (i, n, m) \<Longrightarrow> line_start buf i"
proof -
  assume x: "sep_exec buf j = Some (i, n, m)"
  then have j: "j \<le> length buf" using sep_exec_bounds [OF x] by linarith
  from x obtain i' where i: "i = j + i'"
    "sep_find (j = 0 \<or> newline (buf ! (j - 1))) (drop j buf) = Some (i', n, m)"
    by (auto simp: sep_exec_def)
  from sep_find_line [OF i(2)] show "line_start buf i"
    using j by (cases i') (auto simp: i(1) line_start_def)
qed

lemma sep_at_end:
  assumes "sep_at n k s" shows "0 < n \<and> n \<le> length s \<and> s ! (n - 1) = 10"
proof -
  from assms obtain l e t where s: "s = js ''From '' @ l @ e @ t" "e = [10] \<or> e = [13, 10]"
    "n = 5 + length l + length e" unfolding sep_at_def by blast
  define f where "f = js ''From '' @ l @ butlast e"
  have "s = f @ 10 # t" "n - 1 = length f" using s by (auto simp: f_def)
  moreover have "0 < n" "n \<le> length s" using s by auto
  ultimately show ?thesis by simp
qed

lemma sep_ends_line: "sep_match (drop i buf) = Some (n, m) \<Longrightarrow> newline (buf ! (i + n - 1))"
proof -
  assume x: "sep_match (drop i buf) = Some (n, m)"
  from sep_at_end [OF sep_matchD [OF x]] have "0 < n" "drop i buf ! (n - 1) = 10" by auto
  with sep_match_inside [OF x] show ?thesis by (simp add: newline_def)
qed

lemma split_buffer_keeps:
  assumes "binary buf" "writer_ok w" "pos \<le> j" "j \<le> length buf"
    and "\<And>i n m. sep_match (drop i buf) = Some (n, m) \<Longrightarrow> line_start buf i
      \<Longrightarrow> Q i (Separator (slice i (i + n) buf))"
    and "\<And>p i. p < i \<Longrightarrow> line_start buf i \<Longrightarrow> sep_match (drop i buf) \<noteq> None \<Longrightarrow> no_line_sep buf p
      \<Longrightarrow> Q p (Byte (buf ! p))"
    and "\<And>p. pos \<le> p \<Longrightarrow> p < j \<Longrightarrow> no_line_sep buf p" and "line_start buf pos"
    and "split_buffer buf j pos w = (pos', w')"
  shows "\<exists>ps. flat ps = slice pos pos' buf \<and> placed Q pos ps
    \<and> view w' = put ps (view w) \<and> writer_ok w' \<and> pos \<le> pos' \<and> pos' \<le> length buf
    \<and> sum_list (progress w') + length (concat (separators ps)) = sum_list (progress w) + (pos' - pos)
    \<and> line_start buf pos' \<and> (\<forall>p. pos' \<le> p \<longrightarrow> p < length buf \<longrightarrow> no_line_sep buf p)"
  using assms
proof (induction buf j pos w rule: split_buffer.induct)
  case (1 buf j pos w)
  have none: "no_line_sep buf p"
    if "pos \<le> p" "p < (case sep_exec buf j of None \<Rightarrow> length buf | Some (i, n, m) \<Rightarrow> i)" for p
    using that "1.prems"(7) [OF that(1)] sep_exec_first [OF _ that(2) _ "1.prems"(4)]
    by (cases "p < j") (auto simp: line_start_def)
  show ?case
  proof (cases "sep_exec buf j")
    case None
    with "1.prems" none show ?thesis
      by (intro exI [of _ "[]"]) (auto simp: split_buffer.simps [of buf j] slice_def)
  next
    case (Some x)
    then obtain i n m where x: "sep_exec buf j = Some (i, n, m)" by (cases x) auto
    note b = sep_exec_bounds [OF x] and xm = sep_exec_match [OF x]
    define w1 where "w1 = (if i > pos then write_to_msg (slice pos i buf) w else w)"
    have i: "pos \<le> i" "i \<le> length buf" using b "1.prems"(3) by auto
    note w1 = view_write_slice [OF "1.prems"(1,2) i(2,1), folded w1_def]
    have eq: "split_buffer buf (i + m) (i + n) (close_existing_msg w1) = (pos', w')"
      using "1.prems"(9) x by (simp add: split_buffer.simps [of buf j] w1_def)
    have "newline (buf ! (i + n - 1))"
      by (rule sep_ends_line [OF xm])
    then have ls: "line_start buf (i + n)" by (simp add: line_start_def)
    have "\<exists>ps. flat ps = slice (i + n) pos' buf \<and> placed Q (i + n) ps
      \<and> view w' = put ps (view (close_existing_msg w1)) \<and> writer_ok w' \<and> i + n \<le> pos' \<and> pos' \<le> length buf
      \<and> sum_list (progress w') + length (concat (separators ps))
        = sum_list (progress (close_existing_msg w1)) + (pos' - (i + n))
      \<and> line_start buf pos' \<and> (\<forall>p. pos' \<le> p \<longrightarrow> p < length buf \<longrightarrow> no_line_sep buf p)"
      using b w1(2) "1.prems"(5,6)
      by (intro "1.IH" [OF x refl refl, folded w1_def, OF "1.prems"(1) _ _ _ _ _ header_no_line [OF xm] ls eq])
        auto
    then obtain ps where ps: "flat ps = slice (i + n) pos' buf" "placed Q (i + n) ps"
      "view w' = put ps (view (close_existing_msg w1))" "writer_ok w'" "i + n \<le> pos'" "pos' \<le> length buf"
      "sum_list (progress w') + length (concat (separators ps)) = sum_list (progress w1) + (pos' - (i + n))"
      and rest: "line_start buf pos'" "\<forall>p. pos' \<le> p \<longrightarrow> p < length buf \<longrightarrow> no_line_sep buf p"
      by auto
    let ?l = "slice i (i + n) buf"
    let ?ps = "map Byte (slice pos i buf) @ Separator ?l # ps"
    have l: "length ?l = n" using b by (auto simp: slice_def)
    have bytes: "length (slice pos i buf) = i - pos" using i by (simp add: slice_def)
    have "flat ?ps = slice pos pos' buf"
      using ps(1,5) i by (simp add: slice_join)
    moreover have "sum_list (progress w') + length (concat (separators ?ps)) = sum_list (progress w) + (pos' - pos)"
      using ps(5,7) w1(3) i l b by simp
    moreover have "placed Q pos ?ps"
    proof -
      have "placed Q pos (map Byte (slice pos i buf))"
        using none x "1.prems"(6) [OF _ sep_exec_line [OF x]] xm i by (intro placed_slice) auto
      moreover have "Q i (Separator ?l)" using "1.prems"(5) [OF xm sep_exec_line [OF x]] .
      ultimately show ?thesis using ps(2) l bytes i by simp
    qed
    ultimately show ?thesis using ps w1 i b rest
      by (intro exI [of _ ?ps]) auto
  qed
qed

text \<open>From the positions of the buffer to those of the file.\<close>

definition buffer_start :: "nat \<Rightarrow> nat \<Rightarrow> jstr \<Rightarrow> nat \<Rightarrow> bool" where
  "buffer_start chunk margin s p \<longleftrightarrow> line_start s p \<or> (\<exists>c>0. p + margin = c * chunk)"

lemma line_start_in_file:
  "i < length buf \<Longrightarrow> 0 < i \<Longrightarrow> line_start (pre @ buf @ rest) (length pre + i) = line_start buf i"
  by (cases i) (auto simp: line_start_def nth_append)

lemma separator_in_file:
  assumes "sep_match (drop i buf) = Some (n, m)" "line_start buf i"
    and "buffer_start chunk margin (pre @ buf @ rest) (length pre)"
  shows "piece_at chunk margin (pre @ buf @ rest) (length pre + i) (Separator (slice i (i + n) buf))"
proof -
  let ?s = "pre @ buf @ rest"
  note at = sep_matchD [OF assms(1)] and i = sep_match_inside [OF assms(1)]
  have d: "drop (length pre + i) ?s = drop i buf @ rest" using i by simp
  have "slice i (i + n) buf = take n (drop (length pre + i) ?s)"
    using sep_at_end [OF at] by (simp add: d slice_def)
  moreover have "\<exists>k. sep_at n k (drop (length pre + i) ?s)" unfolding d using sep_at_append [OF at] by blast
  moreover have "line_start ?s (length pre + i) \<or> (\<exists>c>0. length pre + i + margin = c * chunk)"
    using assms(2,3) i line_start_in_file [of i buf pre rest]
    by (cases "i = 0") (auto simp: buffer_start_def)
  ultimately show ?thesis by auto
qed

lemma byte_in_file:
  assumes "no_line_sep buf p" "p < length buf"
    and "margin \<le> length buf - p \<or> rest = []
      \<or> (\<exists>i>p. line_start buf i \<and> sep_match (drop i buf) \<noteq> None)"
  shows "piece_at chunk margin (pre @ buf @ rest) (length pre + p) (Byte b)"
proof -
  let ?s = "pre @ buf @ rest"
  have d: "drop (length pre + p) ?s = drop p buf @ rest" using assms(2) by simp
  have "\<not> (sep_at n k (drop p buf @ rest) \<and> k \<le> margin)" if "line_start ?s (length pre + p)" for n k
  proof
    assume a: "sep_at n k (drop p buf @ rest) \<and> k \<le> margin"
    have "line_start buf p"
      using that line_start_in_file [OF assms(2), of pre rest] by (cases p) (auto simp: line_start_def)
    with assms(1) have none: "sep_match (drop p buf) = None" by simp
    have "sep_match (drop p buf) \<noteq> None" if "k \<le> length buf - p"
      using sep_at_take [OF conjunct1 [OF a] that] sep_atD(1) by fastforce
    with none have k: "length buf - p < k" by linarith
    with a none sep_atD(1,4) [of n k "drop p buf"] have "\<not> (margin \<le> length buf - p \<or> rest = [])" by auto
    with assms(3) obtain i where i: "p < i" "line_start buf i" "sep_match (drop i buf) \<noteq> None" by blast
    then have il: "i < length buf" using sep_match_inside [of i buf] by auto
    have "newline ((drop p buf @ rest) ! (i - p - 1))"
      using i(1,2) il by (auto simp: line_start_def nth_append)
    from sep_inside_line [OF conjunct1 [OF a] _ _ this] i(1) k il
    have "sep_match (drop (i - p) (drop p buf @ rest)) = None" by linarith
    moreover have "drop (i - p) (drop p buf @ rest) = drop i buf @ rest" using i(1) il by simp
    moreover obtain n' m' where "sep_match (drop i buf) = Some (n', m')" using i(3) by auto
    ultimately show False using sep_match_append [of "drop i buf" n' m' rest] by auto
  qed
  then show ?thesis unfolding piece_at.simps d by blast
qed

text \<open>One round of the outer loop.\<close>

lemma mbox_step_keeps:
  assumes "binary buf" "writer_ok w" "buffer_start chunk margin (pre @ buf @ rest) (length pre)"
    and "split_buffer buf 0 0 w = (pos, w1)"
    and "e = (if eof then length buf else if length buf - margin < pos then pos else length buf - margin)"
    and "w2 = (if e > pos then write_to_msg (slice pos e buf) w1 else w1)" and "eof \<longrightarrow> rest = []"
    and "\<not> eof \<longrightarrow> margin \<le> length buf \<and> (\<exists>c>0. length pre + length buf = c * chunk)"
  shows "\<exists>ps. flat ps = take e buf \<and> placed (piece_at chunk margin (pre @ buf @ rest)) (length pre) ps
    \<and> view w2 = put ps (view w) \<and> writer_ok w2 \<and> e \<le> length buf
    \<and> sum_list (progress w2) + length (concat (separators ps)) = sum_list (progress w) + e
    \<and> (\<not> eof \<longrightarrow> buffer_start chunk margin (pre @ buf @ rest) (length pre + e))"
proof -
  let ?s = "pre @ buf @ rest"
  let ?Q = "\<lambda>i. piece_at chunk margin ?s (length pre + i)"
  have "\<exists>ps. flat ps = slice 0 pos buf \<and> placed ?Q 0 ps
    \<and> view w1 = put ps (view w) \<and> writer_ok w1 \<and> 0 \<le> pos \<and> pos \<le> length buf
    \<and> sum_list (progress w1) + length (concat (separators ps)) = sum_list (progress w) + (pos - 0)
    \<and> line_start buf pos \<and> (\<forall>p. pos \<le> p \<longrightarrow> p < length buf \<longrightarrow> no_line_sep buf p)"
  proof (rule split_buffer_keeps [OF assms(1,2) _ _ _ _ _ _ assms(4)])
    show "?Q i (Separator (slice i (i + n) buf))" if "sep_match (drop i buf) = Some (n, m)" "line_start buf i" for i n m
      by (rule separator_in_file [OF that assms(3)])
    show "?Q p (Byte (buf ! p))"
      if "p < i" "line_start buf i" "sep_match (drop i buf) \<noteq> None" "no_line_sep buf p" for p i
    proof (rule byte_in_file [OF that(4)])
      show "p < length buf" using that(1,3) sep_match_inside [of i buf] by fastforce
    qed (use that in blast)
  qed (simp_all add: line_start_def)
  then obtain ps where ps: "flat ps = slice 0 pos buf" "placed ?Q 0 ps" "view w1 = put ps (view w)"
      "writer_ok w1" "pos \<le> length buf"
      "sum_list (progress w1) + length (concat (separators ps)) = sum_list (progress w) + pos"
    and pos: "line_start buf pos" "\<And>p. pos \<le> p \<Longrightarrow> p < length buf \<Longrightarrow> no_line_sep buf p"
    by auto
  have e: "pos \<le> e" "e \<le> length buf" using ps(5) by (auto simp: assms(5))
  note w2 = view_write_slice [OF assms(1) ps(4) e(2,1), folded assms(6)]
  let ?ps = "ps @ map Byte (slice pos e buf)"
  have flat: "flat ?ps = take e buf"
    using ps(1) e slice_join [of 0 pos e buf] by simp
  have "length (flat ps) = pos" using ps(1,5) by (simp add: slice_def)
  moreover have "?Q p (Byte (buf ! p))" if "pos \<le> p" "p < e" for p
  proof (rule byte_in_file [OF pos(2) [OF that(1)]])
    show "margin \<le> length buf - p \<or> rest = [] \<or> (\<exists>i>p. line_start buf i \<and> sep_match (drop i buf) \<noteq> None)"
      using that assms(5,7,8) by (auto split: if_splits)
  qed (use that e in simp_all)
  ultimately have "placed ?Q 0 ?ps"
    using ps(2) placed_slice [OF e, of ?Q] by simp
  then have placed: "placed (piece_at chunk margin ?s) (length pre) ?ps"
    unfolding placed_shift by simp
  have "buffer_start chunk margin ?s (length pre + e)" if "\<not> eof"
  proof (cases "e = pos")
    case True
    show ?thesis
    proof (cases "e = 0")
      case False
      with True pos(1) ps(5) have "line_start ?s (length pre + e)"
        by (auto simp: line_start_def nth_append)
      then show ?thesis by (simp add: buffer_start_def)
    qed (use assms(3) in simp)
  next
    case False
    then have "length pre + e + margin = length pre + length buf"
      using that assms(5,8) by (simp split: if_splits)
    with assms(8) that show ?thesis by (auto simp: buffer_start_def)
  qed
  with flat placed w2 ps e show ?thesis by (intro exI [of _ ?ps]) simp
qed

lemma mbox_loop_keeps:
  assumes "binary buf" "binary file" "writer_ok w" "0 < chunk" "margin \<le> chunk"
    and "buffer_start chunk margin (pre @ buf @ file) (length pre)" "length pre + length buf = c * chunk"
  shows "\<exists>ps. flat ps = buf @ file \<and> placed (piece_at chunk margin (pre @ buf @ file)) (length pre) ps
    \<and> view (mbox_loop chunk margin file buf w) = put ps (view w)
    \<and> sum_list (progress (mbox_loop chunk margin file buf w)) + length (concat (separators ps))
      = sum_list (progress w) + length (buf @ file)"
  using assms
proof (induction chunk margin "file" buf w arbitrary: pre c rule: mbox_loop.induct)
  case (1 chunk margin rest buf w)
  let ?buf = "buf @ take chunk rest" and ?s = "pre @ buf @ rest"
  let ?eof = "length (take chunk rest) < chunk"
  let ?run = "mbox_loop chunk margin"
  obtain pos w1 where s: "split_buffer ?buf 0 0 w = (pos, w1)" by fastforce
  define e where "e = (if ?eof then length ?buf else if length ?buf - margin < pos then pos else length ?buf - margin)"
  define w2 where "w2 = (if e > pos then write_to_msg (slice pos e ?buf) w1 else w1)"
  have whole: "?s = pre @ ?buf @ drop chunk rest" by simp
  have bin: "binary ?buf" "binary (drop chunk rest)" "binary (drop e ?buf)"
    using "1.prems"(1,2) by (auto simp: binary_def list_all_iff dest: in_set_takeD in_set_dropD)
  have start: "buffer_start chunk margin (pre @ ?buf @ drop chunk rest) (length pre)"
    using "1.prems"(6) unfolding whole .
  have last: "?eof \<longrightarrow> drop chunk rest = []" by simp
  have full: "\<not> ?eof \<longrightarrow> margin \<le> length ?buf \<and> (\<exists>c>0. length pre + length ?buf = c * chunk)"
  proof
    assume "\<not> ?eof"
    then have l: "length (take chunk rest) = chunk" by simp
    moreover have "length pre + length ?buf = Suc c * chunk" using l "1.prems"(7) by simp
    ultimately show "margin \<le> length ?buf \<and> (\<exists>c>0. length pre + length ?buf = c * chunk)"
      using "1.prems"(5) by (metis length_append trans_le_add2 zero_less_Suc)
  qed
  obtain ps where ps: "flat ps = take e ?buf" "placed (piece_at chunk margin ?s) (length pre) ps"
    "view w2 = put ps (view w)" "writer_ok w2" "e \<le> length ?buf"
    "sum_list (progress w2) + length (concat (separators ps)) = sum_list (progress w) + e"
    "\<not> ?eof \<longrightarrow> buffer_start chunk margin ?s (length pre + e)"
    using mbox_step_keeps [OF bin(1) "1.prems"(3) start s e_def w2_def last full] unfolding whole [symmetric]
    by blast
  show ?case
  proof (cases ?eof)
    case True
    then have f: "take chunk rest = rest" by simp
    have "?run rest buf w = w2"
      using True s by (simp add: mbox_loop.simps [of chunk] Let_def w2_def e_def)
    moreover have "take e ?buf = buf @ rest" "e = length (buf @ rest)" using True f by (simp_all add: e_def)
    ultimately show ?thesis using ps by (intro exI [of _ ps]) simp
  next
    case False
    have eq: "?run rest buf w = ?run (drop chunk rest) (drop e ?buf) w2"
      using False s "1.prems"(4) by (subst mbox_loop.simps) (simp add: Let_def w2_def e_def)
    let ?pre = "pre @ take e ?buf"
    have whole': "?pre @ drop e ?buf @ drop chunk rest = ?s"
      by (simp only: append_assoc append_take_drop_id) (simp only: append_assoc [symmetric] append_take_drop_id, simp)
    have lp: "length ?pre = length pre + e" using ps(5) by simp
    have more: "\<not> (?eof \<or> chunk = 0)" using False "1.prems"(4) by simp
    obtain c' where c': "length pre + length ?buf = c' * chunk" using full False by blast
    have "\<exists>qs. flat qs = drop e ?buf @ drop chunk rest
      \<and> placed (piece_at chunk margin (?pre @ drop e ?buf @ drop chunk rest)) (length ?pre) qs
      \<and> view (?run (drop chunk rest) (drop e ?buf) w2) = put qs (view w2)
      \<and> sum_list (progress (?run (drop chunk rest) (drop e ?buf) w2)) + length (concat (separators qs))
        = sum_list (progress w2) + length (drop e ?buf @ drop chunk rest)"
    proof (rule "1.IH" [OF refl refl refl s [symmetric] refl e_def w2_def more bin(3,2) ps(4) "1.prems"(4,5)])
      show "buffer_start chunk margin (?pre @ drop e ?buf @ drop chunk rest) (length ?pre)"
        unfolding whole' lp using ps(7) False by blast
      show "length ?pre + length (drop e ?buf) = c' * chunk"
        unfolding lp using c' ps(5) by simp
    qed
    then obtain qs where qs: "flat qs = drop e ?buf @ drop chunk rest"
      "placed (piece_at chunk margin ?s) (length pre + e) qs"
      "view (?run (drop chunk rest) (drop e ?buf) w2) = put qs (view w2)"
      "sum_list (progress (?run (drop chunk rest) (drop e ?buf) w2)) + length (concat (separators qs))
        = sum_list (progress w2) + length (drop e ?buf @ drop chunk rest)"
      unfolding whole' lp by blast
    have "flat (ps @ qs) = buf @ rest"
    proof -
      have "flat (ps @ qs) = (take e ?buf @ drop e ?buf) @ drop chunk rest"
        unfolding flat_simps(3) ps(1) qs(1) by simp
      also have "\<dots> = buf @ rest" unfolding append_take_drop_id by simp
      finally show ?thesis .
    qed
    moreover have "length (flat ps) = e" unfolding ps(1) using ps(5) by simp
    then have "placed (piece_at chunk margin ?s) (length pre) (ps @ qs)" using ps(2) qs(2) by simp
    moreover have "view (?run rest buf w) = put (ps @ qs) (view w)"
      unfolding eq qs(3) ps(3) put_simps(3) by (rule refl)
    moreover have "length (drop e ?buf @ drop chunk rest) + e = length (buf @ rest)"
      using ps(5) False by simp
    then have "sum_list (progress (?run rest buf w)) + length (concat (separators (ps @ qs)))
        = sum_list (progress w) + length (buf @ rest)"
      unfolding eq using qs(4) ps(6) by (simp only: separators_append concat_append length_append)
    ultimately show ?thesis by blast
  qed
qed

lemma split_mbox_keeps:
  assumes "binary s"
  shows "distinct (map fst (files (split_mbox now s)))
    \<and> (\<exists>ps. flat ps = s \<and> placed (piece_at CHUNK_SIZE SAFE_MARGIN s) 0 ps
        \<and> map snd (files (split_mbox now s)) = messages_of ps
        \<and> sum_list (progress (split_mbox now s)) + length (concat (separators ps)) = length s)"
proof -
  have w: "writer_ok (new_writer now)" "view (new_writer now) = ([], False)" "progress (new_writer now) = []"
    by (simp_all add: new_writer_def writer_ok_def view_def)
  have c: "0 < CHUNK_SIZE" "SAFE_MARGIN \<le> CHUNK_SIZE" by (simp_all add: CHUNK_SIZE_def SAFE_MARGIN_def)
  have "buffer_start CHUNK_SIZE SAFE_MARGIN s 0" by (simp add: buffer_start_def line_start_def)
  then obtain ps where "flat ps = s" "placed (piece_at CHUNK_SIZE SAFE_MARGIN s) 0 ps"
    "view (mbox_loop CHUNK_SIZE SAFE_MARGIN s [] (new_writer now)) = put ps ([], False)"
    "sum_list (progress (mbox_loop CHUNK_SIZE SAFE_MARGIN s [] (new_writer now)))
       + length (concat (separators ps)) = length s"
    using mbox_loop_keeps [of "[]" s "new_writer now" CHUNK_SIZE SAFE_MARGIN "[]" 0] assms w c
    by (auto simp: binary_def)
  moreover from this(3) have "map snd (files (split_mbox now s)) = messages_of ps"
    by (simp add: split_mbox_def view_def prod_eq_iff flip: put_messages)
  ultimately show ?thesis using split_mbox_distinct by (auto simp: split_mbox_def)
qed

text \<open>C9: what becomes of the bytes of an mbox file that is split, whatever they are: the file is a
  sequence of bytes and separators, and the files that are written, each under a name of its own,
  hold in order the messages between the separators, byte for byte; the progress that is reported
  is the number of the bytes written.  A separator is a line from its \<open>From \<close> to its end, and a header
  follows it; it starts a line of the file, or it stands SAFE_MARGIN bytes in front of the end
  of a chunk, where the buffer that is kept starts (so text in the middle of a
  line is lost there when it looks like a separator: chunk_boundary_cuts_message).  And no
  separator at the start of a line is missed, as long as the line and the name of the
  header after it, with its colon, are not longer than SAFE_MARGIN.
\<close>

theorem conversion_keeps_bytes:
  assumes "binary s"
  shows "distinct (map fst (files (split_mbox now s)))
    \<and> (\<exists>ps. flat ps = s \<and> placed (piece_at CHUNK_SIZE SAFE_MARGIN s) 0 ps
        \<and> map snd (files (split_mbox now s)) = messages_of ps
        \<and> sum_list (progress (split_mbox now s)) + length (concat (separators ps)) = length s)"
  using assms by (rule split_mbox_keeps)

section \<open>The chunks do not matter\<close>

lemma pieces_skip:
  "separators_within margin s \<Longrightarrow> k \<le> length s \<Longrightarrow> (\<And>p. p < k \<Longrightarrow> sep_match (drop p s) = None)
    \<Longrightarrow> pieces True s = map Byte (take k s) @ pieces True (drop k s)"
proof (induction k arbitrary: s)
  case (Suc k)
  from Suc.prems(2) obtain c cs where s: "s = c # cs" by (cases s) auto
  have none: "sep_match (c # cs) = None" using Suc.prems(3) [of 0] s by simp
  have within: "separators_within margin cs" using within_drop [OF Suc.prems(1), of 1] s by simp
  have "pieces (newline c) cs = pieces True cs"
  proof (cases "newline c \<or> cs = []")
    case False
    then obtain d ds where "cs = d # ds" by (cases cs) auto
    moreover have "sep_match cs = None"
      using within_newline [OF Suc.prems(1), of 1] False s by (cases "sep_match cs") auto
    ultimately show ?thesis by simp
  qed auto
  moreover have "sep_match (drop p cs) = None" if "p < k" for p
    using Suc.prems(3) [of "Suc p"] that s by simp
  ultimately show ?case using Suc.IH [OF within] Suc.prems(2) none s by simp
qed simp

lemma pieces_sep:
  assumes "separators_within margin s" "pos \<le> i" "\<And>p. pos \<le> p \<Longrightarrow> p < i \<Longrightarrow> sep_match (drop p s) = None"
    and "sep_match (drop i s) = Some (n, m)"
  shows "pieces True (drop pos s)
    = map Byte (slice pos i s) @ Separator (slice i (i + n) s) # pieces True (drop (i + n) s)"
proof -
  have b: "i < length s" using sep_match_inside [OF assms(4)] by simp
  have "pieces True (drop pos s) = map Byte (take (i - pos) (drop pos s)) @ pieces True (drop (i - pos) (drop pos s))"
    using assms(2,3) b by (intro pieces_skip [OF within_drop [OF assms(1)]]) auto
  moreover have "pieces True (drop i s) = Separator (take n (drop i s)) # pieces True (drop n (drop i s))"
  proof -
    from b obtain c cs where "drop i s = c # cs" by (metis Cons_nth_drop_Suc)
    with assms(4) show ?thesis by simp
  qed
  ultimately show ?thesis using assms(2) by (simp add: slice_def add.commute)
qed

lemma no_sep_in_buffer:
  assumes "separators_within margin (buf @ rest)" "j \<le> p" "j \<le> length buf"
    and "p < (case sep_exec buf j of None \<Rightarrow> length buf | Some (i, n, m) \<Rightarrow> i)"
  shows "sep_match (drop p buf) = None"
proof (rule ccontr)
  assume "sep_match (drop p buf) \<noteq> None"
  then obtain n m where x: "sep_match (drop p buf) = Some (n, m)" by auto
  obtain m' where m': "sep_match (drop p (buf @ rest)) = Some (n, m')" using sep_match_file [OF x] by blast
  have "p = 0 \<or> newline (buf ! (p - 1))"
    using within_newline [OF assms(1) m'] sep_match_inside [OF x] by (cases p) (auto simp: nth_append)
  with sep_exec_first [OF assms(2,4) _ assms(3)] x show False by simp
qed

lemma no_sep_before:
  assumes "separators_within margin (buf @ rest)" "sep_exec buf j = Some (i, n, m)" "j \<le> p" "p < i"
  shows "sep_match (drop p (buf @ rest)) = None"
proof (rule ccontr)
  assume "sep_match (drop p (buf @ rest)) \<noteq> None"
  then obtain n1 m1 where y: "sep_match (drop p (buf @ rest)) = Some (n1, m1)" by auto
  let ?k = "n1 + header_name_len (drop n1 (drop p (buf @ rest)))"
  note b = sep_exec_bounds [OF assms(2)]
  obtain m' where m': "sep_match (drop i (buf @ rest)) = Some (n, m')"
    using sep_match_file [OF sep_exec_match [OF assms(2)]] by blast
  show False
  proof (cases "?k \<le> length buf - p")
    case True
    from sep_match_take [OF y True] obtain m2 where "sep_match (drop p buf) = Some (n1, m2)"
      using assms(4) b by auto
    with no_sep_in_buffer [OF assms(1,3)] b assms(2,4) show False by simp
  next
    case False
    have "sep_match (drop (i - p) (drop p (buf @ rest))) = None"
      using assms(4) False b by (intro sep_inside [OF within_drop [OF assms(1)] sep_matchD [OF y]]) auto
    moreover have "drop (i - p) (drop p (buf @ rest)) = drop i (buf @ rest)"
      using assms(4) by (simp only: drop_drop le_add_diff_inverse2 order_less_imp_le)
    ultimately show False using m' by simp
  qed
qed

lemma no_sep_in_header:
  assumes "separators_within margin (buf @ rest)" "sep_match (drop i buf) = Some (n, m)"
    and "i + n \<le> p" "p < i + m"
  shows "sep_match (drop p (buf @ rest)) = None"
proof (cases "p = i + n")
  case True
  obtain m' where m': "sep_match (drop i (buf @ rest)) = Some (n, m')"
    using sep_match_file [OF assms(2)] by blast
  have "drop n (drop i (buf @ rest)) = drop p (buf @ rest)"
    unfolding True by (simp only: drop_drop add.commute)
  with sep_at_next [OF sep_matchD [OF m']]
  have "\<not> starts_with (js ''From '') (drop p (buf @ rest))" by metis
  with sep_match_starts [of "drop p (buf @ rest)"] show ?thesis
    by (cases "sep_match (drop p (buf @ rest))") auto
next
  case False
  have "header_char (drop i buf ! (p - 1 - i))"
    using assms(3,4) False by (intro header_run [OF assms(2)]) auto
  moreover have "drop i buf ! (p - 1 - i) = (buf @ rest) ! (p - 1)"
  proof -
    have "p - 1 < length buf" "i + (p - 1 - i) = p - 1"
      using assms(3,4) False sep_match_inside [OF assms(2)] by linarith+
    then show ?thesis using sep_match_inside [OF assms(2)] by (simp only: nth_append nth_drop if_True)
  qed
  ultimately have "\<not> newline ((buf @ rest) ! (p - 1))" by (auto simp: header_char_def newline_def)
  then show ?thesis using within_newline [OF assms(1), of p] assms(3) sep_match_bounds [OF assms(2)]
    by (cases "sep_match (drop p (buf @ rest))") auto
qed

text \<open>What the inner loop leaves of the buffer has no separator that can be seen in it.\<close>

lemma split_buffer_exact:
  assumes "separators_within margin (buf @ rest)" "binary buf" "writer_ok w" "pos \<le> j" "j \<le> length buf"
    and "\<And>p. pos \<le> p \<Longrightarrow> p < j \<Longrightarrow> sep_match (drop p (buf @ rest)) = None"
    and "split_buffer buf j pos w = (pos', w')"
  shows "put (pieces True (drop pos (buf @ rest))) (view w) = put (pieces True (drop pos' (buf @ rest))) (view w')
    \<and> writer_ok w' \<and> pos' \<le> length buf
    \<and> (\<forall>p. pos' \<le> p \<longrightarrow> p < length buf \<longrightarrow> sep_match (drop p buf) = None)"
  using assms
proof (induction buf j pos w rule: split_buffer.induct)
  case (1 buf j pos w)
  note within = "1.prems"(1)
  let ?s = "buf @ rest"
  show ?case
  proof (cases "sep_exec buf j")
    case None
    then have eq: "pos' = pos" "w' = w" using "1.prems"(7) by (simp_all add: split_buffer.simps [of buf j])
    have "sep_match (drop p buf) = None" if "pos \<le> p" "p < length buf" for p
    proof (cases "p < j")
      case True
      with "1.prems"(6) [OF that(1)] sep_match_file [of p buf _ _ rest] show ?thesis
        by (cases "sep_match (drop p buf)") auto
    next
      case False
      with no_sep_in_buffer [OF within _ "1.prems"(5), of p] that(2) None show ?thesis by simp
    qed
    with eq "1.prems"(3,4,5) show ?thesis by simp
  next
    case (Some x)
    then obtain i n m where x: "sep_exec buf j = Some (i, n, m)" by (cases x) auto
    note b = sep_exec_bounds [OF x] and xm = sep_exec_match [OF x]
    obtain m' where m': "sep_match (drop i ?s) = Some (n, m')" using sep_match_file [OF xm] by blast
    have i: "pos \<le> i" "i \<le> length buf" using b "1.prems"(4) by auto
    have none: "sep_match (drop p ?s) = None" if "pos \<le> p" "p < i" for p
      using "1.prems"(6) [OF that(1)] no_sep_before [OF within x _ that(2)] by (cases "p < j") auto
    define w1 where "w1 = (if i > pos then write_to_msg (slice pos i buf) w else w)"
    note w1 = view_write_slice [OF "1.prems"(2,3) i(2,1), folded w1_def]
    have eq: "split_buffer buf (i + m) (i + n) (close_existing_msg w1) = (pos', w')"
      using "1.prems"(7) x by (simp add: split_buffer.simps [of buf j] w1_def)
    have "put (pieces True (drop pos ?s)) (view w)
        = put (pieces True (drop (i + n) ?s)) (view (close_existing_msg w1))"
      using pieces_sep [OF within i(1) none m'] i(2) w1(1) by (simp add: slice_def)
    with "1.IH" [OF x refl refl, folded w1_def, OF within "1.prems"(2) _ _ _ no_sep_in_header [OF within xm] eq] b
    show ?thesis by simp
  qed
qed

text \<open>A separator that is not in the buffer as a whole starts in the margin.\<close>

lemma no_sep_before_margin:
  assumes "separators_within margin (buf @ rest)" "sep_match (drop p buf) = None"
    and "p < length buf" "rest = [] \<or> p < length buf - margin"
  shows "sep_match (drop p (buf @ rest)) = None"
proof (rule ccontr)
  assume "sep_match (drop p (buf @ rest)) \<noteq> None"
  then obtain n m where y: "sep_match (drop p (buf @ rest)) = Some (n, m)" by auto
  with assms(2) have "p < length buf - margin" using assms(4) by auto
  moreover have "n + header_name_len (drop n (drop p (buf @ rest))) \<le> margin"
    using within_margin [OF assms(1) y] by (simp only: drop_drop add.commute)
  ultimately have "n + header_name_len (drop n (drop p (buf @ rest))) \<le> length buf - p"
    by linarith
  from sep_match_take [OF y this] assms(2,3) show False by simp
qed

lemma mbox_step_exact:
  assumes "separators_within margin (buf @ rest)" "binary buf" "writer_ok w"
    and "split_buffer buf 0 0 w = (pos, w1)"
    and "e = (if eof then length buf else if length buf - margin < pos then pos else length buf - margin)"
    and "w2 = (if e > pos then write_to_msg (slice pos e buf) w1 else w1)" and "eof \<longrightarrow> rest = []"
  shows "put (pieces True (buf @ rest)) (view w) = put (pieces True (drop e (buf @ rest))) (view w2)"
    and "writer_ok w2" and "e \<le> length buf"
proof -
  have "put (pieces True (buf @ rest)) (view w) = put (pieces True (drop pos (buf @ rest))) (view w1)
      \<and> writer_ok w1 \<and> pos \<le> length buf
      \<and> (\<forall>p. pos \<le> p \<longrightarrow> p < length buf \<longrightarrow> sep_match (drop p buf) = None)"
    using split_buffer_exact [OF assms(1-3) _ _ _ assms(4)] by simp
  then have exact: "put (pieces True (buf @ rest)) (view w) = put (pieces True (drop pos (buf @ rest))) (view w1)"
    and ok: "writer_ok w1" "pos \<le> length buf"
    and none: "\<And>p. pos \<le> p \<Longrightarrow> p < length buf \<Longrightarrow> sep_match (drop p buf) = None" by blast+
  show e: "e \<le> length buf" using ok(2) by (auto simp: assms(5))
  have pos: "pos \<le> e" using ok(2) by (auto simp: assms(5))
  note w2 = view_write_slice [OF assms(2) ok(1) e pos, folded assms(6)]
  show "writer_ok w2" by (rule w2(2))
  have "sep_match (drop p (buf @ rest)) = None" if "pos \<le> p" "p < e" for p
    using that e assms(5,7) by (intro no_sep_before_margin [OF assms(1) none]) (auto split: if_splits)
  then have "pieces True (drop pos (buf @ rest))
      = map Byte (take (e - pos) (drop pos (buf @ rest))) @ pieces True (drop (e - pos) (drop pos (buf @ rest)))"
    using e pos by (intro pieces_skip [OF within_drop [OF assms(1)]]) auto
  then have "pieces True (drop pos (buf @ rest)) = map Byte (slice pos e buf) @ pieces True (drop e (buf @ rest))"
    using e pos by (simp add: slice_def)
  then show "put (pieces True (buf @ rest)) (view w) = put (pieces True (drop e (buf @ rest))) (view w2)"
    unfolding exact w2(1) by simp
qed

lemma mbox_loop_exact:
  assumes "separators_within margin (buf @ rest)" "binary buf" "binary rest" "writer_ok w" "0 < chunk"
  shows "view (mbox_loop chunk margin rest buf w) = put (pieces True (buf @ rest)) (view w)"
  using assms
proof (induction chunk margin rest buf w rule: mbox_loop.induct)
  case (1 chunk margin rest buf w)
  let ?buf = "buf @ take chunk rest"
  let ?eof = "length (take chunk rest) < chunk"
  obtain pos w1 where s: "split_buffer ?buf 0 0 w = (pos, w1)" by fastforce
  define e where "e = (if ?eof then length ?buf else if length ?buf - margin < pos then pos else length ?buf - margin)"
  define w2 where "w2 = (if e > pos then write_to_msg (slice pos e ?buf) w1 else w1)"
  have sp: "buf @ rest = ?buf @ drop chunk rest" by simp
  have bin: "binary ?buf" "binary (drop chunk rest)" "binary (drop e ?buf)"
    using "1.prems"(2,3) by (auto simp: binary_def list_all_iff dest: in_set_takeD in_set_dropD)
  note within = "1.prems"(1) [unfolded sp]
  have eof: "?eof \<longrightarrow> drop chunk rest = []" by simp
  note step = mbox_step_exact [OF within bin(1) "1.prems"(4) s e_def w2_def eof]
  show ?case
  proof (cases ?eof)
    case True
    then have eq: "mbox_loop chunk margin rest buf w = w2"
      using s by (subst mbox_loop.simps) (simp add: Let_def w2_def e_def)
    have "drop e (?buf @ drop chunk rest) = []"
      using True by (simp only: mp [OF eof True] e_def if_True append_Nil2 drop_all)
    with step(1) show ?thesis unfolding eq sp by (simp only: pieces.simps put_simps)
  next
    case False
    then have eq: "mbox_loop chunk margin rest buf w = mbox_loop chunk margin (drop chunk rest) (drop e ?buf) w2"
      using s "1.prems"(5) by (subst mbox_loop.simps) (simp add: Let_def w2_def e_def)
    have split: "drop e (?buf @ drop chunk rest) = drop e ?buf @ drop chunk rest"
      using drop_append [of e ?buf "drop chunk rest"] step(3) by (simp only: diff_is_0_eq' drop_0)
    have no_stop: "\<not> (?eof \<or> chunk = 0)" using False "1.prems"(5) by simp
    have "view (mbox_loop chunk margin (drop chunk rest) (drop e ?buf) w2)
        = put (pieces True (drop e ?buf @ drop chunk rest)) (view w2)"
      using within_drop [OF within, of e] unfolding split
      by (rule "1.IH" [OF refl refl refl s [symmetric] refl e_def w2_def no_stop _ bin(3,2) step(2) "1.prems"(5)])
    also have "\<dots> = put (pieces True (?buf @ drop chunk rest)) (view w)"
      unfolding step(1) split by (rule refl)
    finally show ?thesis unfolding eq sp .
  qed
qed

lemma mbox_loop_messages:
  assumes "binary s" and "separators_within margin s" and "0 < chunk"
  shows "map snd (files (mbox_loop chunk margin s [] (new_writer now))) = mbox_messages s"
proof -
  have "view (mbox_loop chunk margin s [] (new_writer now)) = put (pieces True s) ([], False)"
    using mbox_loop_exact [of margin "[]" s "new_writer now" chunk] assms
    by (simp add: new_writer_def writer_ok_def view_def)
  then show ?thesis by (simp add: mbox_messages_def view_def prod_eq_iff flip: put_messages)
qed

text \<open>C10: the chunks in which an mbox file is read do not matter, however large or small they are, as
  long as the margin that is kept back covers each separator line and the name of the header after
  it, and no text in the middle of a line looks like a separator: the messages are those of the file
  as a whole, split at its separators.
\<close>

theorem chunks_do_not_matter:
  assumes "binary s" and "separators_within margin s" and "0 < chunk"
  shows "map snd (files (mbox_loop chunk margin s [] (new_writer now))) = mbox_messages s"
  using assms by (rule mbox_loop_messages)

section \<open>Maildirs that are merged and split again\<close>

lemma no_sep_across:
  assumes "u \<noteq> []" "last u = 10" "sep_match u = None" "header_match r = None"
  shows "sep_match (u @ r) = None"
proof (rule ccontr)
  assume "sep_match (u @ r) \<noteq> None"
  then obtain n m where y: "sep_match (u @ r) = Some (n, m)" by auto
  let ?k = "n + header_name_len (drop n (u @ r))"
  have "\<not> ?k \<le> length u" using sep_match_take [OF y, of "length u"] assms(3) by auto
  moreover have last: "(u @ r) ! (length u - 1) = 10" using assms(1,2) by (simp add: nth_append last_conv_nth)
  ultimately have "length u = n"
    using sep_at_newlines [OF sep_matchD [OF y], of "length u - 1"] assms(1) by (auto simp: newline_def)
  then have "drop n (u @ r) = r" by simp
  with sep_match_header [OF y] assms(4) show False by simp
qed

lemma starts_with_not_m:
  assumes "v \<noteq> []" "last v = 10" "109 \<notin> set v" shows "\<not> starts_with (js ''From '') (v @ x)"
proof
  assume "starts_with (js ''From '') (v @ x)"
  then obtain t where t: "v @ x = [70, 114, 111] @ 109 # 32 # t" by (auto simp: starts_with_iff)
  then obtain us where "v = [70, 114, 111] @ us \<and> us @ x = 109 # 32 # t \<or> v @ us = [70, 114, 111]"
    unfolding append_eq_append_conv2 by metis
  then show False
  proof
    assume us: "v = [70, 114, 111] @ us \<and> us @ x = 109 # 32 # t"
    with assms(2) have "us \<noteq> []" by auto
    with us assms(3) show False by (cases us) auto
  next
    assume "v @ us = [70, 114, 111]"
    then have "set v \<subseteq> {70, 114, 111}" by (metis Un_upper1 empty_set list.simps(15) set_append)
    moreover have "last v \<in> set v" using assms(1) by simp
    ultimately show False using assms(2) by auto
  qed
qed

lemma no_sep_in_line:
  assumes "109 \<notin> set l" "0 < i" "i < length l + 6"
  shows "sep_match (drop i (js ''From '' @ l @ [10]) @ r) = None"
proof -
  have "\<not> starts_with (js ''From '') (drop i (js ''From '' @ l @ [10]) @ r)"
  proof (cases "i < 5")
    case True
    with assms(2) have "i = 1 \<or> i = 2 \<or> i = 3 \<or> i = 4" by linarith
    then show ?thesis by (auto simp: numeral_eq_Suc)
  next
    case False
    let ?v = "drop (i - 5) (l @ [10])"
    have "length (js ''From '') = 5" by simp
    with False have "drop i (js ''From '' @ l @ [10]) = ?v"
      by (simp only: drop_append drop_all linorder_not_less append_Nil)
    moreover have "?v \<noteq> []" "last ?v = 10" "109 \<notin> set ?v"
      using assms(1,3) False by (auto simp: last_drop dest: in_set_dropD)
    ultimately show ?thesis using starts_with_not_m by metis
  qed
  with sep_match_starts show ?thesis by (metis not_Some_eq surj_pair)
qed

lemma within_append:
  assumes "separators_within margin r" "a \<noteq> []" "newline (last a)"
    and "\<And>i n m. i < length a \<Longrightarrow> sep_match (drop i a @ r) = Some (n, m)
      \<Longrightarrow> i = 0 \<and> n + header_name_len (drop n (a @ r)) \<le> margin"
  shows "separators_within margin (a @ r)"
proof (rule separators_withinI)
  fix i n m assume x: "sep_match (drop i (a @ r)) = Some (n, m)"
  show "(i = 0 \<or> newline ((a @ r) ! (i - 1))) \<and> n + header_name_len (drop (i + n) (a @ r)) \<le> margin"
  proof (cases "i < length a")
    case True
    with assms(4) [of i n m] x show ?thesis by simp
  next
    case False
    define j where "j = i - length a"
    have j: "sep_match (drop j r) = Some (n, m)" "i = length a + j" using False x by (simp_all add: j_def)
    have "newline ((a @ r) ! (i - 1))"
    proof (cases j)
      case 0
      with assms(2,3) j(2) show ?thesis by (simp add: nth_append last_conv_nth)
    next
      case (Suc j')
      with within_newline [OF assms(1) j(1)] j(2) show ?thesis by (simp add: nth_append)
    qed
    moreover have "n + header_name_len (drop (i + n) (a @ r)) \<le> margin"
      using within_margin [OF assms(1) j(1)] j(2) by simp
    ultimately show ?thesis by blast
  qed
qed

text \<open>
  The messages of a maildir that can be told apart in an mbox file: they start with a header, end
  with a line end and have no text that looks like a separator; the name of the first header is
  not overlong.
\<close>

definition message_ok :: "jstr \<Rightarrow> bool" where
  "message_ok m \<longleftrightarrow>
     m \<noteq> [] \<and> last m = 10 \<and> binary m \<and> header_match m \<noteq> None \<and> header_name_len m \<le> 60
     \<and> list_all (\<lambda>i. sep_match (drop i m) = None) [0..<length m]"

definition valid_date :: "utc_date \<Rightarrow> bool" where
  "valid_date d \<longleftrightarrow>
     utc_day d < 7 \<and> utc_month d < 12 \<and> utc_date d < 100 \<and> utc_hours d < 100 \<and> utc_minutes d < 100
     \<and> utc_seconds d < 100 \<and> utc_full_year d < 10000"

lemma length_nat_str:
  "n < 100 \<Longrightarrow> length (nat_str n) \<le> 2" "n < 10000 \<Longrightarrow> length (nat_str n) \<le> 4"
proof -
  have 1: "length (nat_str n) \<le> 1" if "n < 10" for n using that by (subst nat_str.simps) simp
  have 2: "length (nat_str n) \<le> 2" if "n < 100" for n
    using 1 [of "n div 10"] that by (subst nat_str.simps) (simp add: div_less_iff_less_mult)
  have 3: "length (nat_str n) \<le> 3" if "n < 1000" for n
    using 2 [of "n div 10"] that by (subst nat_str.simps) (simp add: div_less_iff_less_mult)
  have 4: "length (nat_str n) \<le> 4" if "n < 10000" for n
    using 3 [of "n div 10"] that by (subst nat_str.simps) (simp add: div_less_iff_less_mult)
  show "n < 100 \<Longrightarrow> length (nat_str n) \<le> 2" "n < 10000 \<Longrightarrow> length (nat_str n) \<le> 4"
    using 2 4 by blast+
qed

lemma pad_start_chars: "set (pad_start n c s) \<subseteq> insert c (set s)"
  by (auto simp: pad_start_def)

lemma length_pad_start: "length s \<le> n \<Longrightarrow> length (pad_start n c s) = n"
  by (simp add: pad_start_def)

lemma name_in_set: "i < length names \<Longrightarrow> name_in names i \<in> set names"
  by (simp add: name_in_def)

lemma list_set_cases: "x \<in> set (y # ys) \<Longrightarrow> (x = y \<Longrightarrow> P) \<Longrightarrow> (x \<in> set ys \<Longrightarrow> P) \<Longrightarrow> P"
  by auto

text \<open>What the proofs use of a date: it is short and has no line end and no \<open>m\<close>.\<close>

definition date_char :: "jchar \<Rightarrow> bool" where
  "date_char c \<longleftrightarrow> c \<noteq> 10 \<and> c \<noteq> 13 \<and> c \<noteq> 109 \<and> c < 256"

lemma date_char_digit: "is_digit c \<Longrightarrow> date_char c"
  by (auto simp: is_digit_def date_char_def)

lemma fmt_utc_chars:
  assumes "valid_date d" shows "list_all date_char (fmt_utc d)" and "length (fmt_utc d) \<le> 24"
proof -
  let ?day = "name_in [js ''Sun'', js ''Mon'', js ''Tue'', js ''Wed'', js ''Thu'', js ''Fri'', js ''Sat''] (utc_day d)"
  let ?month = "name_in [js ''Jan'', js ''Feb'', js ''Mar'', js ''Apr'', js ''May'', js ''Jun'', js ''Jul'',
    js ''Aug'', js ''Sep'', js ''Oct'', js ''Nov'', js ''Dec''] (utc_month d)"
  have "?day \<in> set [js ''Sun'', js ''Mon'', js ''Tue'', js ''Wed'', js ''Thu'', js ''Fri'', js ''Sat'']"
    using assms by (intro name_in_set) (simp add: valid_date_def)
  then have day: "list_all date_char ?day \<and> length ?day = 3"
    by (elim list_set_cases) (simp_all add: date_char_def)
  have "?month \<in> set [js ''Jan'', js ''Feb'', js ''Mar'', js ''Apr'', js ''May'', js ''Jun'', js ''Jul'',
    js ''Aug'', js ''Sep'', js ''Oct'', js ''Nov'', js ''Dec'']"
    using assms by (intro name_in_set) (simp add: valid_date_def)
  then have month: "list_all date_char ?month \<and> length ?month = 3"
    by (elim list_set_cases) (simp_all add: date_char_def)
  have pad: "list_all date_char (pad_start 2 c (nat_str n)) \<and> length (pad_start 2 c (nat_str n)) = 2"
    if "date_char c" "n < 100" for c n
    using pad_start_chars [of 2 c "nat_str n"] nat_str_digits [of n] date_char_digit that(1)
      length_pad_start [OF length_nat_str(1) [OF that(2)]]
    by (auto simp: list_all_iff)
  have year: "list_all date_char (nat_str (utc_full_year d)) \<and> length (nat_str (utc_full_year d)) \<le> 4"
    using nat_str_digits [of "utc_full_year d"] date_char_digit length_nat_str(2) assms
    by (auto simp: list_all_iff valid_date_def)
  have sep: "date_char 32" "date_char 48" "date_char 58" by (simp_all add: date_char_def)
  note parts = day month year pad [OF sep(1)] pad [OF sep(2)]
  show "list_all date_char (fmt_utc d)"
    using assms parts sep by (simp add: fmt_utc_def valid_date_def)
  show "length (fmt_utc d) \<le> 24"
    using assms parts by (simp add: fmt_utc_def valid_date_def)
qed

lemma separator_for_ok:
  assumes "message_ok (mail_bytes f)"
  shows "separator_for clock f = js ''From '' @ (js ''- '' @ fmt_utc (clock f)) @ [10]"
proof -
  obtain h where "header_match (mail_bytes f) = Some h" using assms by (auto simp: message_ok_def)
  then have "\<not> starts_with (js ''From '') (mail_bytes f)" by (rule header_not_From)
  then have "take 5 (mail_bytes f) \<noteq> js ''From ''"
    by (metis append_take_drop_id starts_with_append)
  then show ?thesis by (simp add: separator_for_def)
qed

text \<open>A message after its separator line, with what follows it: nothing, or another separator.\<close>

lemma message_in_mbox:
  assumes m: "message_ok m" and l: "list_all date_char l" "length l \<le> 26"
    and r: "header_match r = None" "separators_within 100 r"
  defines "s \<equiv> js ''From '' @ l @ [10]"
  shows "pieces True (s @ m @ r) = Separator s # map Byte m @ pieces True r"
    and "separators_within 100 (s @ m @ r)" and "header_match (s @ m @ r) = None"
proof -
  have nl: "\<forall>c\<in>set l. \<not> newline c" "109 \<notin> set l"
    using l(1) by (auto simp: list_all_iff date_char_def newline_def)
  obtain h0 where "header_match m = Some h0" using m by (auto simp: message_ok_def)
  then obtain c h t where h: "m = c # h @ 58 # t" "header_char c" "\<forall>c\<in>set h. header_char c \<and> c \<noteq> 58"
    using header_match_iff by blast
  have hn: "header_name_len m = length h + 2"
    using h(3) by (simp add: h(1) header_name_len_def takeWhile_append2)
  let ?n = "length s" and ?k = "length s + header_name_len m"
  have n: "?n = 6 + length l" by (simp add: s_def)
  have at: "sep_at ?n ?k (s @ m @ r)"
  proof -
    have "s @ m @ r = js ''From '' @ l @ [10] @ c # h @ 58 # (t @ r)"
      by (simp only: s_def h(1) append_assoc append_Cons append_Nil)
    moreover have "?n = 5 + length l + length [10::nat]" "?k = ?n + length h + 2" using n hn by simp_all
    ultimately show ?thesis unfolding sep_at_def using nl(1) h(2,3) by blast
  qed
  then obtain m' where m': "sep_match (s @ m @ r) = Some (?n, m')" using sep_atD(1) by blast
  have none_m: "sep_match (drop i m @ r) = None" if "i < length m" for i
    using that m by (intro no_sep_across r(1)) (auto simp: message_ok_def last_drop list_all_iff)
  have within_m: "separators_within 100 (m @ r)"
    using m none_m by (intro within_append r(2)) (auto simp: message_ok_def newline_def)
  have none_s: "sep_match (drop i s @ m @ r) = None" if "0 < i" "i < length s" for i
    using no_sep_in_line [OF nl(2) that(1)] that(2) n by (simp add: s_def)
  show within: "separators_within 100 (s @ m @ r)"
  proof (rule within_append [OF within_m])
    fix i n m1 assume i: "i < length s" and x: "sep_match (drop i s @ m @ r) = Some (n, m1)"
    have "i = 0" using none_s [OF _ i] x by (cases i) auto
    moreover have "n = ?n" using x m' \<open>i = 0\<close> by simp
    moreover have "header_name_len (drop ?n (s @ m @ r)) = header_name_len m"
      using sep_atD(2) [OF at] by simp
    ultimately show "i = 0 \<and> n + header_name_len (drop n (s @ m @ r)) \<le> 100"
      using m l(2) n by (simp add: message_ok_def)
  qed (simp_all add: s_def newline_def)
  have "pieces True (s @ m @ r) = Separator s # pieces True (m @ r)"
    using m' by (cases "s @ m @ r") (simp_all add: s_def)
  moreover have "pieces True (m @ r) = map Byte m @ pieces True r"
    using pieces_skip [OF within_m, of "length m"] none_m by simp
  ultimately show "pieces True (s @ m @ r) = Separator s # map Byte m @ pieces True r" by simp
  have "starts_with (js ''From '') (s @ m @ r)" by (simp only: s_def append_assoc starts_with_append)
  with header_not_From show "header_match (s @ m @ r) = None"
    by (cases "header_match (s @ m @ r)") blast+
qed

lemma merged_pieces:
  assumes "\<And>f. f \<in> set fs \<Longrightarrow> message_ok (mail_bytes f) \<and> valid_date (clock f)"
  defines "s \<equiv> concat (map (\<lambda>f. separator_for clock f @ mail_bytes f) fs)"
  shows "pieces True s = concat (map (\<lambda>f. Separator (separator_for clock f) # map Byte (mail_bytes f)) fs)
    \<and> separators_within 100 s \<and> header_match s = None \<and> binary s"
  unfolding s_def using assms(1)
proof (induction fs)
  case (Cons f fs)
  let ?l = "js ''- '' @ fmt_utc (clock f)"
  have f: "message_ok (mail_bytes f)" "valid_date (clock f)" using Cons.prems by auto
  have l: "list_all date_char ?l" "length ?l \<le> 26"
    using fmt_utc_chars [OF f(2)] by (simp_all add: date_char_def)
  have "binary (fmt_utc (clock f))"
    using fmt_utc_chars(1) [OF f(2)] by (auto simp: binary_def list_all_iff date_char_def)
  moreover have "binary (mail_bytes f)" using f(1) by (simp add: message_ok_def)
  moreover note Cons.IH Cons.prems message_in_mbox [OF f(1) l]
  ultimately show ?case by (simp add: separator_for_ok [OF f(1)] del: js_Cons) (simp add: binary_def)
qed (simp add: separators_within_def header_match_def)

lemma groups_messages:
  "groups (concat (map (\<lambda>f. Separator (g f) # map Byte (h f)) fs)) = [] # map h fs"
  by (induction fs) (simp_all add: groups_bytes)

text \<open>C8: merging a maildir into an mbox file and splitting the file again gives the same messages, in
  the order of their creation, for any number of messages, so that the file is read in many
  chunks: no message is lost, cut or joined to another, provided that each message (message_ok)
  is made of bytes, ends with a line feed, starts with a header whose name with its colon has at most
  60 characters, and holds no text that looks like a separator with a header after it, not
  even within a line, and that the parts of the clock are those of a date (valid_date).  A message
  that does not end with a line feed is joined to the next one: unterminated_message_joined.
\<close>

theorem maildir_roundtrip:
  assumes "\<And>f. f \<in> set fs \<Longrightarrow> message_ok (mail_bytes f) \<and> valid_date (clock f)"
  shows "map snd (files (split_mbox now (merge_maildir clock fs)))
    = map mail_bytes (array_sort (\<lambda>a b. creation_date a - creation_date b) fs)"
proof -
  let ?fs = "array_sort (\<lambda>a b. creation_date a - creation_date b) fs"
  have m: "message_ok (mail_bytes f) \<and> valid_date (clock f)" if "f \<in> set ?fs" for f
    using assms that by simp
  have p: "pieces True (merge_maildir clock fs)
        = concat (map (\<lambda>f. Separator (separator_for clock f) # map Byte (mail_bytes f)) ?fs)
      \<and> separators_within 100 (merge_maildir clock fs) \<and> header_match (merge_maildir clock fs) = None
      \<and> binary (merge_maildir clock fs)"
    unfolding merge_maildir_def by (rule merged_pieces [OF m])
  have "map snd (files (split_mbox now (merge_maildir clock fs))) = mbox_messages (merge_maildir clock fs)"
    using p mbox_loop_messages [of _ SAFE_MARGIN CHUNK_SIZE now]
    by (simp add: split_mbox_def SAFE_MARGIN_def CHUNK_SIZE_def)
  also have "\<dots> = filter (\<lambda>m. m \<noteq> []) (map mail_bytes ?fs)"
    using p by (simp add: mbox_messages_def messages_of_def groups_messages)
  also have "\<dots> = map mail_bytes ?fs"
    using m by (intro filter_True) (auto simp: message_ok_def)
  finally show ?thesis .
qed


section \<open>The worker\<close>

fun binary_tree :: "entry list \<Rightarrow> bool" where
  "binary_tree [] = True"
| "binary_tree (File n d b # es) \<longleftrightarrow> binary b \<and> binary_tree es"
| "binary_tree (Dir n xs # es) \<longleftrightarrow> binary_tree xs \<and> binary_tree es"

fun is_file :: "entry \<Rightarrow> bool" where
  "is_file (File n d b) = True"
| "is_file (Dir n es) = False"

text \<open>The directories \<open>cur\<close> of the maildirs hold files only.\<close>

fun readable_maildirs :: "entry list \<Rightarrow> bool" where
  "readable_maildirs [] = True"
| "readable_maildirs (File n d b # es) = readable_maildirs es"
| "readable_maildirs (Dir n xs # es) \<longleftrightarrow>
     (if is_sbd n then readable_maildirs xs
      else is_maildir xs \<longrightarrow> list_all is_file (the (cur_of xs))) \<and> readable_maildirs es"

lemma mail_files_ok: "list_all is_file es \<Longrightarrow> \<exists>fs. mail_files es = Inr fs \<and> length fs = length es"
  by (induction es rule: mail_files.induct) auto

lemma maildir_progress:
  "readable_maildirs es \<Longrightarrow>
     \<exists>dest ps. convert_tree_maildir_to_mbox clock born es = Inr (dest, ps) \<and> sum_list ps = calc_maildir_cost es"
proof (induction es rule: readable_maildirs.induct)
  case (3 n xs es)
  show ?case
  proof (cases "is_sbd n")
    case True
    with 3 show ?thesis by fastforce
  next
    case False
    show ?thesis
    proof (cases "is_maildir xs")
      case True
      with False 3(3) obtain fs where "mail_files (the (cur_of xs)) = Inr fs" "length fs = length (the (cur_of xs))"
        using mail_files_ok by auto
      with True False 3 show ?thesis
        by (auto simp: maildir_to_mbox_def count_maildir_msgs_def sum_list_replicate)
    qed (use False 3 in auto)
  qed
qed auto

lemma mbox_progress:
  "binary_tree es \<Longrightarrow> sum_list (snd (convert_tree_mbox_to_maildir now born es)) \<le> calc_mbox_cost es"
proof (induction es rule: binary_tree.induct)
  case (2 n d b es)
  have "sum_list (progress (split_mbox (now n) b)) \<le> length b"
    using split_mbox_keeps [of b "now n"] 2 by auto
  with 2 show ?case
    by (auto simp: is_mbox_name_def mbox_to_maildir_def Let_def split: prod.splits)
next
  case (3 n xs es)
  then show ?case by (auto split: prod.splits)
qed simp

lemma post_progress_bounds:
  "\<exists>vs. post_progress v cost ps = map (\<lambda>v. Progress v cost) vs \<and> sorted vs
    \<and> (\<forall>x\<in>set vs. v \<le> x \<and> x \<le> v + sum_list ps)"
proof (induction ps arbitrary: v)
  case (Cons n ps)
  from Cons.IH [of "v + n"] obtain vs where "post_progress (v + n) cost ps = map (\<lambda>v. Progress v cost) vs"
    "sorted vs" "\<forall>x\<in>set vs. v + n \<le> x \<and> x \<le> v + n + sum_list ps" by blast
  then show ?case by (intro exI [of _ "(v + n) # vs"]) fastforce
qed simp

lemma run_conversion_ok:
  assumes "sum_list ps \<le> cost"
  shows "\<exists>vs. run_conversion cost (Inr (dest, ps))
      = Inr (dest, map (\<lambda>v. Progress v cost) vs @ [Progress cost cost, Success])
    \<and> sorted vs \<and> (\<forall>v\<in>set vs. v \<le> cost)"
  using post_progress_bounds [of 0 cost ps] assms by (force simp: run_conversion_def)

text \<open>C11: a conversion comes to an end and says so: for the two kinds of conversion there are, and any
  tree of folders whose maildirs can be read, the worker posts progress that never goes back and
  never passes the total, then the full total, and at last its success.
\<close>

theorem worker_succeeds:
  assumes "src_type = js ''maildir'' \<and> dest_type = js ''mbox'' \<and> readable_maildirs root
    \<or> src_type = js ''mbox'' \<and> dest_type = js ''maildir'' \<and> binary_tree root"
  shows "\<exists>dest vs cost. worker clock now born src_type dest_type root
      = Inr (dest, map (\<lambda>v. Progress v cost) vs @ [Progress cost cost, Success])
    \<and> sorted vs \<and> (\<forall>v\<in>set vs. v \<le> cost)"
  using assms
proof
  assume a: "src_type = js ''maildir'' \<and> dest_type = js ''mbox'' \<and> readable_maildirs root"
  then obtain dest ps where "convert_tree_maildir_to_mbox clock born root = Inr (dest, ps)"
    "sum_list ps = calc_maildir_cost root"
    using maildir_progress by blast
  with a run_conversion_ok [of ps "calc_maildir_cost root" dest] show ?thesis
    by (auto simp: worker_def)
next
  assume a: "src_type = js ''mbox'' \<and> dest_type = js ''maildir'' \<and> binary_tree root"
  obtain dest ps where c: "convert_tree_mbox_to_maildir now born root = (dest, ps)" by fastforce
  with a mbox_progress [of root now born] have "sum_list ps \<le> calc_mbox_cost root" by simp
  from run_conversion_ok [OF this, of dest] a c show ?thesis
    by (auto simp: worker_def)
qed


section \<open>Examples\<close>

definition sample_mbox :: jstr where
  "sample_mbox = js ''From me'' @ [10] @ js ''To: you'' @ [10, 10] @ js ''Hi'' @ [10]
     @ js ''From - x'' @ [13, 10] @ js ''A:'' @ [10, 10] @ js ''From there'' @ [10, 10]"

lemma conversion_keeps_bytes_witness:
  "binary sample_mbox \<and> (\<exists>ps. flat ps = sample_mbox
        \<and> placed (piece_at CHUNK_SIZE SAFE_MARGIN sample_mbox) 0 ps
        \<and> map snd (files (split_mbox 1594 sample_mbox)) = messages_of ps)"
proof -
  have b: "binary sample_mbox" by code_simp
  from conversion_keeps_bytes [OF b, of 1594] b show ?thesis by blast
qed

lemma chunks_do_not_matter_witness:
  "separators_within 16 sample_mbox
    \<and> map snd (files (mbox_loop 3 16 sample_mbox [] (new_writer 1594))) = mbox_messages sample_mbox
    \<and> length (mbox_messages sample_mbox) = 2"
proof -
  have b: "binary sample_mbox" and w: "separators_within 16 sample_mbox" by code_simp+
  have "length (mbox_messages sample_mbox) = 2" by code_simp
  with chunks_do_not_matter [OF b w, of 3 1594] w show ?thesis by simp
qed

definition sample_maildir :: "mail_file list" where
  "sample_maildir =
     [\<lparr>mail_name = js ''b'', creation_date = 7, mail_bytes = js ''To: you'' @ [10, 10] @ js ''Hi'' @ [10]\<rparr>,
      \<lparr>mail_name = js ''a'', creation_date = 5, mail_bytes = js ''A:'' @ [10, 10] @ js ''From me'' @ [10, 10]\<rparr>]"

definition sample_clock :: "mail_file \<Rightarrow> utc_date" where
  "sample_clock f = \<lparr>utc_day = 3, utc_month = 6, utc_date = 1, utc_hours = 9, utc_minutes = 30,
     utc_seconds = 0, utc_full_year = 2020\<rparr>"

lemma maildir_roundtrip_witness:
  "list_all (\<lambda>f. message_ok (mail_bytes f) \<and> valid_date (sample_clock f)) sample_maildir
    \<and> map snd (files (split_mbox 1594 (merge_maildir sample_clock sample_maildir)))
      = [js ''A:'' @ [10, 10] @ js ''From me'' @ [10, 10], js ''To: you'' @ [10, 10] @ js ''Hi'' @ [10]]"
proof -
  have ok: "list_all (\<lambda>f. message_ok (mail_bytes f) \<and> valid_date (sample_clock f)) sample_maildir"
    by code_simp
  have "map snd (files (split_mbox 1594 (merge_maildir sample_clock sample_maildir)))
    = map mail_bytes (array_sort (\<lambda>a b. creation_date a - creation_date b) sample_maildir)"
    by (rule maildir_roundtrip) (use ok in \<open>auto simp: list_all_iff\<close>)
  with ok show ?thesis by (simp add: sample_maildir_def array_sort_def)
qed

definition sample_tree :: "entry list" where
  "sample_tree =
     [File (js ''Inbox'') 1 sample_mbox, File (js ''Inbox.msf'') 2 [200],
      Dir (js ''Inbox.sbd'') [File (js ''Old'') 3 sample_mbox]]"

lemma worker_succeeds_witness:
  "binary_tree sample_tree \<and> (\<exists>dest vs cost.
     worker sample_clock (\<lambda>n. 1594) (\<lambda>n. 9) (js ''mbox'') (js ''maildir'') sample_tree
      = Inr (dest, map (\<lambda>v. Progress v cost) vs @ [Progress cost cost, Success])
    \<and> sorted vs \<and> (\<forall>v\<in>set vs. v \<le> cost))"
proof -
  have b: "binary_tree sample_tree" by code_simp
  from worker_succeeds [of "js ''mbox''" "js ''maildir''" sample_tree] b show ?thesis by blast
qed

section \<open>Two ways in which messages are cut or joined\<close>

text \<open>
  When a chunk ends in front of text in the middle of a line that looks like a separator, the text
  is taken for one, because the buffer that is kept starts with it: one message becomes two, and
  the text is lost.
\<close>

definition boundary_mbox :: jstr where
  "boundary_mbox = js ''From x'' @ [10] @ js ''To: you'' @ [10, 10] @ js ''Mail From me'' @ [10] @ js ''Re: it'' @ [10]"

lemma chunk_boundary_cuts_message:
  "mbox_messages boundary_mbox = [js ''To: you'' @ [10, 10] @ js ''Mail From me'' @ [10] @ js ''Re: it'' @ [10]]"
  "map snd (files (mbox_loop 29 8 boundary_mbox [] (new_writer 1594)))
     = [js ''To: you'' @ [10, 10] @ js ''Mail '', js ''Re: it'' @ [10]]"
  by code_simp+

text \<open>
  A message that does not end with a line end is joined to the one after it, whose separator is
  then in the middle of a line.
\<close>

definition unterminated_maildir :: "mail_file list" where
  "unterminated_maildir =
     [\<lparr>mail_name = js ''a'', creation_date = 5, mail_bytes = js ''A:'' @ [10, 10] @ js ''Hi''\<rparr>,
      \<lparr>mail_name = js ''b'', creation_date = 7, mail_bytes = js ''B:'' @ [10, 10]\<rparr>]"

lemma unterminated_message_joined:
  "map snd (files (split_mbox 1594 (merge_maildir sample_clock unterminated_maildir)))
     = [js ''A:'' @ [10, 10] @ js ''HiFrom - Wed Jul  1 09:30:00 2020'' @ [10] @ js ''B:'' @ [10, 10]]"
  by code_simp

end
